(* ===== verification/TC_Prelude.thy ===== *)
theory TC_Prelude
  imports Main "HOL-Library.Sublist" "HOL-Library.AList"
begin

text \<open>
  Shared vocabulary of the Terminal Commander development.

  \<^item> Integers. \<open>u32\<close>, \<open>u64\<close> and \<open>usize\<close> values are natural numbers; each operation
    of the source whose result depends on the width is written out here
    (\<open>saturating_add\<close>, \<open>checked_add\<close>) with the bound of its type. Where the source
    packs bytes into integers the components use words instead.
  \<^item> Results. \<open>outcome\<close> is a call that returns a value, returns a typed error, or panics.
  \<^item> Strings. A Rust string is the list of its UTF-8 bytes, so \<open>length\<close> is Rust's
    \<open>len()\<close>; \<open>utf8_ok\<close> says which byte lists are strings and \<open>is_char_boundary\<close> is the
    standard library's test of the same name.
  \<^item> Time. A point in time is an integer number of nanoseconds; the clock is always an
    argument of the operation that reads it, and the arithmetic of the external
    \<open>time\<close> crate is a parameter.
\<close>

named_theorems tc_defs \<open>definitions that a component's proofs unfold\<close>
named_theorems tc_inv \<open>preservation of the component invariants\<close>

section \<open>Fixed-width arithmetic\<close>

definition u32_max :: nat where
  "u32_max = 4294967295"

definition u64_max :: nat where
  "u64_max = 18446744073709551615"

definition i64_max :: nat where
  "i64_max = 9223372036854775807"

abbreviation usize_max :: nat where
  "usize_max \<equiv> u64_max"

definition sat_add :: "nat \<Rightarrow> nat \<Rightarrow> nat \<Rightarrow> nat" where
  "sat_add bound a b = min (a + b) bound"

definition checked_add :: "nat \<Rightarrow> nat \<Rightarrow> nat \<Rightarrow> nat option" where
  "checked_add bound a b = (if a + b \<le> bound then Some (a + b) else None)"

abbreviation sat_add_u32 :: "nat \<Rightarrow> nat \<Rightarrow> nat" where
  "sat_add_u32 \<equiv> sat_add u32_max"

abbreviation sat_add_u64 :: "nat \<Rightarrow> nat \<Rightarrow> nat" where
  "sat_add_u64 \<equiv> sat_add u64_max"

text \<open>\<open>u32::try_from(n).unwrap_or(u32::MAX)\<close> and its kin.\<close>

definition try_from_or_max :: "nat \<Rightarrow> nat \<Rightarrow> nat" where
  "try_from_or_max bound n = (if n \<le> bound then n else bound)"

text \<open>\<open>Ord::clamp\<close> (the source calls it with \<open>lo \<le> hi\<close> only).\<close>

definition clamp :: "nat \<Rightarrow> nat \<Rightarrow> nat \<Rightarrow> nat" where
  "clamp lo hi x = (if x < lo then lo else if hi < x then hi else x)"

lemma sat_add_le [simp]: "sat_add b x y \<le> b"
  by (simp add: sat_add_def)

lemma sat_add_mono: "x \<le> b \<Longrightarrow> x \<le> sat_add b x y"
  by (simp add: sat_add_def)

lemma sat_add_assoc: "sat_add b (sat_add b x y) z = sat_add b x (y + z)"
  by (simp add: sat_add_def min_def)

lemma sat_add_0 [simp]: "x \<le> b \<Longrightarrow> sat_add b x 0 = x"
  by (simp add: sat_add_def)

lemma checked_add_Some:
  "checked_add b x y = Some z \<longleftrightarrow> z = x + y \<and> z \<le> b"
  by (auto simp: checked_add_def)

lemma checked_add_None: "checked_add b x y = None \<longleftrightarrow> b < x + y"
  by (auto simp: checked_add_def)

lemma try_from_or_max_le [simp]: "try_from_or_max b n \<le> b" "try_from_or_max b n \<le> n"
  by (auto simp: try_from_or_max_def)

lemma clamp_bounds: "lo \<le> hi \<Longrightarrow> lo \<le> clamp lo hi x \<and> clamp lo hi x \<le> hi"
  by (auto simp: clamp_def)

lemma clamp_id [simp]: "lo \<le> x \<Longrightarrow> x \<le> hi \<Longrightarrow> clamp lo hi x = x"
  by (simp add: clamp_def)

section \<open>Call outcomes\<close>

datatype ('e, 'a) outcome = Ok 'a | Err 'e | Panic

text \<open>The question-mark operator: an error (or a panic) ends the caller as well.\<close>

fun and_then :: "('e, 'a) outcome \<Rightarrow> ('a \<Rightarrow> ('e, 'b) outcome) \<Rightarrow> ('e, 'b) outcome" where
  "and_then (Ok a) f = f a"
| "and_then (Err e) f = Err e"
| "and_then Panic f = Panic"

lemma and_then_Ok_iff:
  "and_then r f = Ok b \<longleftrightarrow> (\<exists>a. r = Ok a \<and> f a = Ok b)"
  by (cases r) auto

section \<open>Time\<close>

type_synonym timestamp = int

text \<open>A \<open>Duration\<close> is a count of nanoseconds; \<open>as_secs\<close> drops the fraction.\<close>

type_synonym duration = nat

definition as_secs :: "duration \<Rightarrow> nat" where
  "as_secs d = d div 1000000000"

text \<open>
  \<open>OffsetDateTime - Duration::seconds(n)\<close> of the external \<open>time\<close> crate: \<open>None\<close> is the
  panic of an unrepresentable result.
\<close>

type_synonym dt_sub = "timestamp \<Rightarrow> nat \<Rightarrow> timestamp option"

section \<open>Strings as UTF-8 bytes\<close>

definition byte :: "char \<Rightarrow> nat" where
  "byte c = of_char c"

definition is_cont :: "char \<Rightarrow> bool" where
  "is_cont c \<longleftrightarrow> 128 \<le> byte c \<and> byte c < 192"

definition is_char_boundary :: "string \<Rightarrow> nat \<Rightarrow> bool" where
  "is_char_boundary s i \<longleftrightarrow>
     i = 0 \<or> (if i < length s then \<not> is_cont (s ! i) else i = length s)"

text \<open>Length in bytes of the sequence a lead byte starts; \<open>0\<close> for a byte that starts none.\<close>

definition utf8_len :: "char \<Rightarrow> nat" where
  "utf8_len c =
     (if byte c < 128 then 1
      else if byte c < 194 then 0
      else if byte c < 224 then 2
      else if byte c < 240 then 3
      else if byte c < 245 then 4
      else 0)"

text \<open>The second byte is narrower after \<open>E0\<close>, \<open>ED\<close>, \<open>F0\<close> and \<open>F4\<close>.\<close>

definition second_ok :: "char \<Rightarrow> char \<Rightarrow> bool" where
  "second_ok c d \<longleftrightarrow>
     (byte c = 224 \<longrightarrow> 160 \<le> byte d) \<and> (byte c = 237 \<longrightarrow> byte d < 160) \<and>
     (byte c = 240 \<longrightarrow> 144 \<le> byte d) \<and> (byte c = 244 \<longrightarrow> byte d < 144)"

function utf8_ok :: "string \<Rightarrow> bool" where
  "utf8_ok [] = True"
| "utf8_ok (c # s) =
     (let n = utf8_len c in
      n \<noteq> 0 \<and> n \<le> Suc (length s) \<and> list_all is_cont (take (n - 1) s) \<and>
      (1 < n \<longrightarrow> second_ok c (s ! 0)) \<and> utf8_ok (drop (n - 1) s))"
  by pat_completeness auto
termination
  by (relation "measure length") auto


declare utf8_ok.simps(2) [simp del]

text \<open>\<open>while !s.is_char_boundary(end) { end -= 1 }\<close>\<close>

primrec floor_boundary :: "string \<Rightarrow> nat \<Rightarrow> nat" where
  "floor_boundary s 0 = 0"
| "floor_boundary s (Suc e) =
     (if is_char_boundary s (Suc e) then Suc e else floor_boundary s e)"

text \<open>\<open>while !s.is_char_boundary(start) { start += 1 }\<close>, for a start inside the string.\<close>

function ceil_boundary :: "string \<Rightarrow> nat \<Rightarrow> nat" where
  "ceil_boundary s i =
     (if is_char_boundary s i \<or> length s \<le> i then i else ceil_boundary s (Suc i))"
  by pat_completeness auto
termination
  by (relation "measure (\<lambda>(s, i). length s - i)") auto

declare ceil_boundary.simps [simp del]

subsection \<open>Boundaries cut a string into strings\<close>

lemma is_char_boundary_0 [simp]: "is_char_boundary s 0"
  by (simp add: is_char_boundary_def)

lemma is_char_boundary_length [simp]: "is_char_boundary s (length s)"
  by (simp add: is_char_boundary_def)

lemma utf8_len_le_4: "utf8_len c \<le> 4"
  by (simp add: utf8_len_def)

lemma utf8_lead_not_cont: "utf8_len c \<noteq> 0 \<Longrightarrow> \<not> is_cont c"
  by (auto simp: utf8_len_def is_cont_def split: if_splits)

lemma utf8_ok_Cons_iff:
  "utf8_ok (c # s) \<longleftrightarrow>
     utf8_len c \<noteq> 0 \<and> utf8_len c \<le> Suc (length s) \<and>
     list_all is_cont (take (utf8_len c - 1) s) \<and>
     (1 < utf8_len c \<longrightarrow> second_ok c (s ! 0)) \<and> utf8_ok (drop (utf8_len c - 1) s)"
  by (simp add: utf8_ok.simps(2) Let_def)

lemma utf8_ok_hd_not_cont: "utf8_ok s \<Longrightarrow> s \<noteq> [] \<Longrightarrow> \<not> is_cont (s ! 0)"
  by (cases s) (use utf8_lead_not_cont in \<open>auto simp: utf8_ok_Cons_iff\<close>)

lemma boundary_past_lead:
  assumes ok: "utf8_ok (c # s)" and b: "is_char_boundary (c # s) i" and pos: "0 < i"
  shows "utf8_len c \<le> i" "is_char_boundary (drop (utf8_len c - 1) s) (i - utf8_len c)"
proof -
  let ?n = "utf8_len c"
  from ok have n: "?n \<noteq> 0" "?n \<le> Suc (length s)" "list_all is_cont (take (?n - 1) s)"
    by (auto simp: utf8_ok_Cons_iff)
  show le: "?n \<le> i"
  proof (rule ccontr)
    assume "\<not> ?n \<le> i"
    with pos n(2) have "i - 1 < length (take (?n - 1) s)" by auto
    with n(3) have "is_cont (take (?n - 1) s ! (i - 1))" by (simp only: list_all_length)
    with \<open>\<not> ?n \<le> i\<close> pos n(2) b show False
      by (auto simp: is_char_boundary_def nth_Cons' split: if_splits)
  qed
  show "is_char_boundary (drop (?n - 1) s) (i - ?n)"
    using b pos le n by (auto simp: is_char_boundary_def nth_Cons' split: if_splits)
qed

lemma utf8_ok_take_drop:
  "utf8_ok s \<Longrightarrow> is_char_boundary s i \<Longrightarrow> utf8_ok (take i s) \<and> utf8_ok (drop i s)"
proof (induction s arbitrary: i rule: utf8_ok.induct)
  case 1
  then show ?case by simp
next
  case (2 c s)
  let ?n = "utf8_len c"
  show ?case
  proof (cases "i = 0")
    case True
    with 2 show ?thesis by simp
  next
    case False
    from 2(2) have n: "?n \<noteq> 0" "?n \<le> Suc (length s)" "list_all is_cont (take (?n - 1) s)"
      "1 < ?n \<longrightarrow> second_ok c (s ! 0)" "utf8_ok (drop (?n - 1) s)"
      by (auto simp: utf8_ok_Cons_iff)
    have le: "?n \<le> i" and b: "is_char_boundary (drop (?n - 1) s) (i - ?n)"
      using boundary_past_lead [OF 2(2,3)] False by auto
    from 2(1) [OF refl n(5) b]
    have IH: "utf8_ok (take (i - ?n) (drop (?n - 1) s))" "utf8_ok (drop (i - ?n) (drop (?n - 1) s))"
      by auto
    have "take (?n - 1) (take (i - 1) s) = take (?n - 1) s"
      using le by (simp add: min_def)
    moreover have "drop (?n - 1) (take (i - 1) s) = take (i - ?n) (drop (?n - 1) s)"
      using le n(1) by (simp add: drop_take)
    moreover have "1 < ?n \<longrightarrow> take (i - 1) s ! 0 = s ! 0"
      using le by auto
    ultimately have "utf8_ok (c # take (i - 1) s)"
      using n IH(1) le by (auto simp: utf8_ok_Cons_iff)
    moreover have "drop i (c # s) = drop (i - ?n) (drop (?n - 1) s)"
      using le n(1) False by (simp add: drop_Cons')
    ultimately show ?thesis
      using IH(2) False by (simp add: take_Cons')
  qed
qed

lemma utf8_ok_append: "utf8_ok s \<Longrightarrow> utf8_ok t \<Longrightarrow> utf8_ok (s @ t)"
proof (induction s rule: utf8_ok.induct)
  case (2 c s)
  from 2(2) have n: "utf8_len c - 1 \<le> length s" by (auto simp: utf8_ok_Cons_iff)
  from 2(2) have "utf8_ok (drop (utf8_len c - 1) s)" by (simp add: utf8_ok_Cons_iff)
  from 2(1) [OF refl this 2(3)] n have "utf8_ok (drop (utf8_len c - 1) (s @ t))" by simp
  with 2(2) n show ?case by (auto simp: utf8_ok_Cons_iff nth_append)
qed simp

lemma boundary_near:
  "utf8_ok s \<Longrightarrow> e \<le> length s \<Longrightarrow> \<exists>b \<le> e. e \<le> b + 3 \<and> is_char_boundary s b"
proof (induction s arbitrary: e rule: utf8_ok.induct)
  case 1
  then show ?case by simp
next
  case (2 c s)
  let ?n = "utf8_len c"
  from 2(2) have n: "?n \<noteq> 0" "?n \<le> Suc (length s)" "utf8_ok (drop (?n - 1) s)"
    by (auto simp: utf8_ok_Cons_iff)
  show ?case
  proof (cases "e < ?n")
    case True
    with utf8_len_le_4 [of c] show ?thesis by (intro exI [of _ 0]) simp
  next
    case False
    with 2(3) n have "e - ?n \<le> length (drop (?n - 1) s)" by auto
    from 2(1) [OF refl n(3) this] obtain b where
      b: "b \<le> e - ?n" "e - ?n \<le> b + 3" "is_char_boundary (drop (?n - 1) s) b"
      by blast
    have "is_char_boundary (c # s) (b + ?n)"
    proof (cases "b = 0")
      case True
      then show ?thesis
        using n utf8_ok_hd_not_cont [OF n(3)]
        by (cases "?n = Suc (length s)") (auto simp: is_char_boundary_def nth_Cons')
    next
      case False
      with b(3) n show ?thesis
        by (auto simp: is_char_boundary_def nth_Cons' add.commute split: if_splits)
    qed
    with b False show ?thesis by (intro exI [of _ "b + ?n"]) auto
  qed
qed

lemma floor_boundary_le: "floor_boundary s e \<le> e"
  by (induction e) auto

lemma floor_boundary_boundary [simp]: "is_char_boundary s (floor_boundary s e)"
  by (induction e) auto

lemma floor_boundary_greatest:
  "is_char_boundary s b \<Longrightarrow> b \<le> e \<Longrightarrow> b \<le> floor_boundary s e"
  by (induction e) (auto simp: le_Suc_eq)

lemma floor_boundary_near: "utf8_ok s \<Longrightarrow> e \<le> length s \<Longrightarrow> e \<le> floor_boundary s e + 3"
  using boundary_near [of s e] floor_boundary_greatest [of s _ e] by fastforce

lemma ceil_boundary_ge: "i \<le> ceil_boundary s i"
proof (induction s i rule: ceil_boundary.induct)
  case (1 s i)
  then show ?case by (subst ceil_boundary.simps) fastforce
qed

lemma ceil_boundary_boundary:
  "i \<le> length s \<Longrightarrow> is_char_boundary s (ceil_boundary s i) \<and> ceil_boundary s i \<le> length s"
proof (induction s i rule: ceil_boundary.induct)
  case (1 s i)
  show ?case
  proof (cases "is_char_boundary s i \<or> length s \<le> i")
    case True
    with 1(2) show ?thesis by (auto simp: ceil_boundary.simps [of s i])
  next
    case False
    with 1(1) show ?thesis by (simp add: ceil_boundary.simps [of s i] not_le Suc_le_eq)
  qed
qed

lemma ceil_boundary_least:
  "is_char_boundary s b \<Longrightarrow> i \<le> b \<Longrightarrow> ceil_boundary s i \<le> b"
proof (induction s i rule: ceil_boundary.induct)
  case (1 s i)
  show ?case
  proof (cases "is_char_boundary s i \<or> length s \<le> i")
    case True
    with 1(3) show ?thesis by (simp add: ceil_boundary.simps [of s i])
  next
    case False
    with 1(2,3) have "Suc i \<le> b" by (cases "i = b") auto
    with 1(1) [OF False 1(2)] False show ?thesis by (simp add: ceil_boundary.simps [of s i])
  qed
qed

section \<open>String search\<close>

text \<open>\<open>str::split_once\<close> at the first occurrence of an ASCII character.\<close>

fun split_once :: "char \<Rightarrow> string \<Rightarrow> (string \<times> string) option" where
  "split_once c [] = None"
| "split_once c (x # xs) =
     (if x = c then Some ([], xs)
      else map_option (\<lambda>(a, b). (x # a, b)) (split_once c xs))"

lemma split_once_append [simp]:
  "c \<notin> set a \<Longrightarrow> split_once c (a @ c # b) = Some (a, b)"
  by (induction a) auto

lemma split_once_Some: "split_once c s = Some (a, b) \<Longrightarrow> s = a @ c # b \<and> c \<notin> set a"
  by (induction s arbitrary: a) (auto split: if_splits)

lemma split_once_None: "split_once c s = None \<longleftrightarrow> c \<notin> set s"
  by (induction s) auto

section \<open>Lists\<close>

lemma length_filter_drop: "length (filter P (drop n xs)) \<le> length (filter P xs)"
  by (metis append_take_drop_id filter_append length_append le_add2)

section \<open>Printing numbers\<close>

definition digit_char :: "nat \<Rightarrow> char" where
  "digit_char d = char_of (48 + d)"

fun show_nat :: "nat \<Rightarrow> string" where
  "show_nat n = (if n < 10 then [digit_char n] else show_nat (n div 10) @ [digit_char (n mod 10)])"

declare show_nat.simps [simp del]

definition show_int :: "int \<Rightarrow> string" where
  "show_int i = (if i < 0 then CHR ''-'' # show_nat (nat (- i)) else show_nat (nat i))"

section \<open>Bounded queues\<close>

text \<open>
  The contract of a bounded queue that drops from the front and counts what it drops:
  \<open>pre\<close> are the elements it is given, \<open>ok\<close> its states. Its clients may rely on the queue
  always holding the newest part of its history, and on the counter saying how much is gone.
\<close>

locale fifo_ring =
  fixes items :: "'s \<Rightarrow> 'e list"
    and dropped :: "'s \<Rightarrow> nat"
    and push :: "'s \<Rightarrow> 'e \<Rightarrow> 's"
    and ok :: "'s \<Rightarrow> bool"
    and pre :: "'e \<Rightarrow> bool"
  assumes push_ok: "ok s \<Longrightarrow> pre e \<Longrightarrow> ok (push s e)"
    and dropped_le: "ok s \<Longrightarrow> dropped s \<le> u64_max"
    and push_items: "ok s \<Longrightarrow> pre e \<Longrightarrow>
      \<exists>n \<le> Suc (length (items s)). items (push s e) = drop n (items s @ [e]) \<and>
        dropped (push s e) = sat_add_u64 (dropped s) n"
begin

lemma pushes:
  assumes "ok s" and "list_all pre es"
  shows "ok (foldl push s es) \<and>
    (\<exists>k \<le> length (items s) + length es. items (foldl push s es) = drop k (items s @ es) \<and>
       dropped (foldl push s es) = sat_add_u64 (dropped s) k)"
  using assms
proof (induction es rule: rev_induct)
  case Nil
  then show ?case using dropped_le [of s] by (intro conjI exI [of _ 0]) auto
next
  case (snoc e es)
  let ?s = "foldl push s es"
  from snoc obtain k where ok: "ok ?s" "pre e" and k: "k \<le> length (items s) + length es"
    "items ?s = drop k (items s @ es)" "dropped ?s = sat_add_u64 (dropped s) k"
    by auto
  from push_items [OF ok] obtain n where n: "n \<le> Suc (length (items ?s))"
    "items (push ?s e) = drop n (items ?s @ [e])" "dropped (push ?s e) = sat_add_u64 (dropped ?s) n"
    by blast
  have "items (push ?s e) = drop (k + n) (items s @ es @ [e])"
  proof -
    have "drop k (items s @ es) @ [e] = drop k ((items s @ es) @ [e])"
      using k(1) by (subst (2) drop_append) simp
    then show ?thesis by (simp only: n(2) k(2) drop_drop append_assoc add.commute)
  qed
  moreover have "k + n \<le> length (items s) + length (es @ [e])"
    using n(1) k(1,2) by simp
  ultimately show ?case
    using push_ok [OF ok] n(3) k(3) by (auto simp: sat_add_assoc simp del: drop_append)
qed

lemma history:
  assumes "ok s" and "items s = []" and "dropped s = 0" and "list_all pre es" and "length es \<le> u64_max"
  shows "items (foldl push s es) = drop (dropped (foldl push s es)) es \<and>
    dropped (foldl push s es) + length (items (foldl push s es)) = length es"
proof -
  from pushes [OF assms(1,4)] assms(2,3) obtain k where "k \<le> length es"
    "items (foldl push s es) = drop k es" "dropped (foldl push s es) = sat_add_u64 0 k" by auto
  with assms(5) show ?thesis by (simp add: sat_add_def)
qed

end

text \<open>
  A queue that drops no more than it must: what it drops at an append does not fit with what it keeps.
\<close>

locale least_ring = fifo_ring +
  fixes fits :: "'a \<Rightarrow> 'b list \<Rightarrow> bool"
  assumes fits_push: "ok s \<Longrightarrow> pre e \<Longrightarrow> fits (push s e) = fits s"
    and fits_shorter: "fits s (xs @ [e]) \<Longrightarrow> fits s xs"
    and push_least: "ok s \<Longrightarrow> pre e \<Longrightarrow> k + length (items (push s e)) < Suc (length (items s)) \<Longrightarrow>
      \<not> fits s (drop k (items s @ [e]))"
begin

lemma history_least:
  assumes "ok s" and "items s = []" and "dropped s = 0" and "list_all pre es" and "length es \<le> u64_max"
    and "k < dropped (foldl push s es)"
  shows "\<not> fits s (drop k es)"
  using assms(4-6)
proof (induction es arbitrary: k rule: rev_induct)
  case Nil
  then show ?case using assms(3) by simp
next
  case (snoc e es)
  let ?s = "foldl push s es"
  have pre: "list_all pre es" "pre e" "length es \<le> u64_max" using snoc.prems(1,2) by auto
  have ok: "ok ?s" using pushes [OF assms(1) pre(1)] by simp
  have same: "fits ?s = fits s" using pre(1)
  proof (induction es rule: rev_induct)
    case (snoc x xs)
    then show ?case using pushes [OF assms(1), of xs] fits_push [of "foldl push s xs" x] by simp
  qed simp
  note h = history [OF assms(1-3) pre(1,3)]
  note h' = history [OF assms(1-3) snoc.prems(1,2)]
  show ?case
  proof (cases "k < dropped ?s")
    case True
    then have "drop k (es @ [e]) = drop k es @ [e]" using h by simp
    with snoc.IH [OF pre(1,3) True] fits_shorter show ?thesis by metis
  next
    case False
    let ?k = "k - dropped ?s"
    have "drop k (es @ [e]) = drop ?k (drop (dropped ?s) (es @ [e]))" using False by (simp del: drop_append)
    also have "drop (dropped ?s) (es @ [e]) = items ?s @ [e]" using h by simp
    finally have d: "drop k (es @ [e]) = drop ?k (items ?s @ [e])" .
    have "?k + length (items (push ?s e)) < Suc (length (items ?s))"
      using False snoc.prems(3) conjunct2 [OF h] conjunct2 [OF h'] by simp
    from push_least [OF ok pre(2) this] d same show ?thesis by simp
  qed
qed

end

end
