(* ===== verification/TC_Event.thy ===== *)
theory TC_Event
  imports TC_Prelude
begin

text \<open>
  The data model of \<^verbatim>\<open>crates/core\<close>: typed identifiers (\<^verbatim>\<open>ids.rs\<close>), severities
  (\<^verbatim>\<open>severity.rs\<close>), event origins (\<^verbatim>\<open>source.rs\<close>), back-pointers (\<^verbatim>\<open>pointer.rs\<close>),
  signal events and their drafts (\<^verbatim>\<open>event.rs\<close>), with the pointer invariant that every
  event of severity \<open>Medium\<close> or above carries a pointer or the reason it has none.
\<close>

section \<open>Typed identifiers (ids.rs)\<close>

text \<open>
  A UUID is represented by its simple form (32 hexadecimal digits), the only form the
  sources write; parsing one back belongs to the external \<open>uuid\<close> crate and is the
  parameter \<open>parse_str\<close> of \<open>parse_wire\<close>.
\<close>

type_synonym uuid = string

datatype id_kind =
    EventIdKind | BucketIdKind | JobIdKind | ProbeIdKind | RuleIdKind
  | SourceIdKind | FrameIdKind | ActivationIdKind | AuditIdKind | SessionIdKind

fun id_prefix :: "id_kind \<Rightarrow> string" where
  "id_prefix EventIdKind = ''evt''"
| "id_prefix BucketIdKind = ''bkt''"
| "id_prefix JobIdKind = ''job''"
| "id_prefix ProbeIdKind = ''prb''"
| "id_prefix RuleIdKind = ''rul''"
| "id_prefix SourceIdKind = ''src''"
| "id_prefix FrameIdKind = ''frm''"
| "id_prefix ActivationIdKind = ''act''"
| "id_prefix AuditIdKind = ''aud''"
| "id_prefix SessionIdKind = ''ses''"

datatype event_id = EventId uuid
datatype bucket_id = BucketId uuid
datatype job_id = JobId uuid
datatype probe_id = ProbeId uuid
datatype rule_id = RuleId uuid
datatype frame_id = FrameId uuid

datatype core_error =
    InvalidId string
  | IdParse string string
  | UnknownSeverity string
  | PointerInvariantViolation string string

definition to_wire_string :: "id_kind \<Rightarrow> uuid \<Rightarrow> string" where
  "to_wire_string k raw = id_prefix k @ ''_'' @ raw"

definition quoted :: "string \<Rightarrow> string" where
  "quoted s = CHR 0x27 # s @ [CHR 0x27]"

definition parse_wire ::
  "(string \<Rightarrow> (string, uuid) outcome) \<Rightarrow> id_kind \<Rightarrow> string \<Rightarrow> (core_error, uuid) outcome" where
  "parse_wire parse_str k s =
     (case split_once CHR ''_'' s of
        None \<Rightarrow> Err (IdParse s (''missing '' @ quoted ''_'' @ '' separator''))
      | Some (pre, rest) \<Rightarrow>
          if pre \<noteq> id_prefix k then
            Err (IdParse s (''expected prefix '' @ quoted (id_prefix k) @ '' got '' @ quoted pre))
          else (case parse_str rest of
                  Ok raw \<Rightarrow> Ok raw
                | Err e \<Rightarrow> Err (IdParse s e)
                | Panic \<Rightarrow> Panic))"

text \<open>Wire form of the typed identifiers the components print.\<close>

primrec event_wire :: "event_id \<Rightarrow> string" where
  "event_wire (EventId u) = to_wire_string EventIdKind u"

primrec bucket_wire :: "bucket_id \<Rightarrow> string" where
  "bucket_wire (BucketId u) = to_wire_string BucketIdKind u"

primrec job_wire :: "job_id \<Rightarrow> string" where
  "job_wire (JobId u) = to_wire_string JobIdKind u"

primrec probe_wire :: "probe_id \<Rightarrow> string" where
  "probe_wire (ProbeId u) = to_wire_string ProbeIdKind u"

primrec rule_wire :: "rule_id \<Rightarrow> string" where
  "rule_wire (RuleId u) = to_wire_string RuleIdKind u"

lemma id_prefix_no_underscore: "CHR ''_'' \<notin> set (id_prefix k)"
  by (cases k) simp_all

lemma id_prefix_inject [simp]: "id_prefix j = id_prefix k \<longleftrightarrow> j = k"
  by (cases j; cases k) simp_all

lemma split_once_wire [simp]:
  "split_once CHR ''_'' (to_wire_string k u) = Some (id_prefix k, u)"
  by (simp add: to_wire_string_def id_prefix_no_underscore)

lemma to_wire_string_inject [simp]:
  "to_wire_string j u = to_wire_string k v \<longleftrightarrow> j = k \<and> u = v"
proof
  assume "to_wire_string j u = to_wire_string k v"
  then have "split_once CHR ''_'' (to_wire_string j u) = split_once CHR ''_'' (to_wire_string k v)"
    by simp
  then show "j = k \<and> u = v" by simp
qed simp

section \<open>Severity (severity.rs)\<close>

datatype severity = Trace | Debug | Info | Low | Medium | High | Critical

fun rank :: "severity \<Rightarrow> nat" where
  "rank Trace = 0"
| "rank Debug = 1"
| "rank Info = 2"
| "rank Low = 3"
| "rank Medium = 4"
| "rank High = 5"
| "rank Critical = 6"

fun as_str :: "severity \<Rightarrow> string" where
  "as_str Trace = ''trace''"
| "as_str Debug = ''debug''"
| "as_str Info = ''info''"
| "as_str Low = ''low''"
| "as_str Medium = ''medium''"
| "as_str High = ''high''"
| "as_str Critical = ''critical''"

definition parse_severity :: "string \<Rightarrow> (core_error, severity) outcome" where
  "parse_severity v =
     (if v = ''trace'' then Ok Trace
      else if v = ''debug'' then Ok Debug
      else if v = ''info'' then Ok Info
      else if v = ''low'' then Ok Low
      else if v = ''medium'' then Ok Medium
      else if v = ''high'' then Ok High
      else if v = ''critical'' then Ok Critical
      else Err (UnknownSeverity v))"

lemma rank_inject [simp]: "rank a = rank b \<longleftrightarrow> a = b"
  by (cases a; cases b) simp_all

text \<open>The derived \<open>Ord\<close> of the enum is the order of its ranks.\<close>

instantiation severity :: linorder
begin

definition less_eq_severity :: "severity \<Rightarrow> severity \<Rightarrow> bool" where
  "less_eq_severity a b \<longleftrightarrow> rank a \<le> rank b"

definition less_severity :: "severity \<Rightarrow> severity \<Rightarrow> bool" where
  "less_severity a b \<longleftrightarrow> rank a < rank b"

instance
  by standard (auto simp: less_eq_severity_def less_severity_def)

end

lemmas severity_order = less_eq_severity_def less_severity_def

section \<open>Origins and pointers (source.rs, pointer.rs)\<close>

datatype source_type = SProcess | STerminal | SFile | SDirectory | SJournal | SArtifact | STOther

datatype source_stream = Stdout | Stderr | Meta | FileStream | SSOther

record event_source =
  es_probe_id :: probe_id
  es_source_type :: source_type
  es_stream :: source_stream
  es_job_id :: "job_id option"

record source_pointer =
  sp_frame_id :: frame_id
  sp_line :: "nat option"
  sp_byte_start :: "nat option"
  sp_byte_end :: "nat option"
  sp_stream :: "source_stream option"
  sp_context_available :: bool

definition pointer_new :: "frame_id \<Rightarrow> source_pointer" where
  "pointer_new f =
     \<lparr>sp_frame_id = f, sp_line = None, sp_byte_start = None, sp_byte_end = None,
      sp_stream = None, sp_context_available = True\<rparr>"

definition pointer_with_line :: "source_pointer \<Rightarrow> nat \<Rightarrow> source_pointer" where
  "pointer_with_line p n = p\<lparr>sp_line := Some n\<rparr>"

definition pointer_with_stream :: "source_pointer \<Rightarrow> source_stream \<Rightarrow> source_pointer" where
  "pointer_with_stream p s = p\<lparr>sp_stream := Some s\<rparr>"

definition pointer_evicted :: "source_pointer \<Rightarrow> source_pointer" where
  "pointer_evicted p = p\<lparr>sp_context_available := False\<rparr>"

section \<open>Signal events and drafts (event.rs)\<close>

text \<open>Captures keep insertion order, so they are an association list.\<close>

type_synonym captures = "(string \<times> string) list"

record rule_ref =
  rr_id :: rule_id
  rr_version :: nat
  rr_registry_id :: "string option"

record signal_event =
  ev_event_id :: event_id
  ev_bucket_id :: bucket_id
  ev_seq :: nat
  ev_timestamp :: timestamp
  ev_severity :: severity
  ev_kind :: string
  ev_summary :: string
  ev_rule :: "rule_ref option"
  ev_source :: event_source
  ev_captures :: "captures option"
  ev_pointer :: "source_pointer option"
  ev_pointer_unavailable_reason :: "string option"
  ev_tags :: "string list option"
  ev_count :: nat
  ev_first_seen :: "timestamp option"
  ev_last_seen :: "timestamp option"
  ev_suppressed :: bool

record event_draft =
  d_bucket_id :: bucket_id
  d_timestamp :: timestamp
  d_severity :: severity
  d_kind :: string
  d_summary :: string
  d_rule :: "rule_ref option"
  d_source :: event_source
  d_captures :: "captures option"
  d_pointer :: "source_pointer option"
  d_pointer_unavailable_reason :: "string option"
  d_tags :: "string list option"
  d_frame_truncated_bytes :: nat
  d_count :: nat
  d_first_seen :: "timestamp option"
  d_last_seen :: "timestamp option"
  d_suppressed :: bool

definition validate_event :: "signal_event \<Rightarrow> (core_error, unit) outcome" where
  "validate_event e =
     (if Medium \<le> ev_severity e \<and> ev_pointer e = None \<and> ev_pointer_unavailable_reason e = None
      then Err (PointerInvariantViolation (event_wire (ev_event_id e)) (as_str (ev_severity e)))
      else Ok ())"

definition validate_draft :: "event_draft \<Rightarrow> (core_error, unit) outcome" where
  "validate_draft d =
     (if Medium \<le> d_severity d \<and> d_pointer d = None \<and> d_pointer_unavailable_reason d = None
      then Err (PointerInvariantViolation ''<draft>'' (as_str (d_severity d)))
      else Ok ())"

text \<open>\<open>EventDraft::into_signal_event\<close>; the freshly minted id is an argument.\<close>

definition into_signal_event :: "event_id \<Rightarrow> event_draft \<Rightarrow> nat \<Rightarrow> signal_event" where
  "into_signal_event fresh d seq =
     \<lparr>ev_event_id = fresh, ev_bucket_id = d_bucket_id d, ev_seq = seq,
      ev_timestamp = d_timestamp d, ev_severity = d_severity d, ev_kind = d_kind d,
      ev_summary = d_summary d, ev_rule = d_rule d, ev_source = d_source d,
      ev_captures = d_captures d, ev_pointer = d_pointer d,
      ev_pointer_unavailable_reason = d_pointer_unavailable_reason d, ev_tags = d_tags d,
      ev_count = d_count d, ev_first_seen = d_first_seen d, ev_last_seen = d_last_seen d,
      ev_suppressed = d_suppressed d\<rparr>"

text \<open>The pointer invariant that \<open>validate\<close> decides.\<close>

definition pointer_inv :: "signal_event \<Rightarrow> bool" where
  "pointer_inv e \<longleftrightarrow>
     (Medium \<le> ev_severity e \<longrightarrow> ev_pointer e \<noteq> None \<or> ev_pointer_unavailable_reason e \<noteq> None)"

lemma validate_event_Ok_iff: "validate_event e = Ok () \<longleftrightarrow> pointer_inv e"
  by (auto simp: validate_event_def pointer_inv_def)

lemma validate_event_cases:
  "validate_event e = Ok () \<and> pointer_inv e \<or>
   validate_event e =
     Err (PointerInvariantViolation (event_wire (ev_event_id e)) (as_str (ev_severity e))) \<and>
   \<not> pointer_inv e"
  by (auto simp: validate_event_def pointer_inv_def)

lemma validate_into_signal_event:
  "(validate_event (into_signal_event i d n) = Ok ()) \<longleftrightarrow> (validate_draft d = Ok ())"
  by (simp add: validate_event_def validate_draft_def into_signal_event_def)

section \<open>Sample values\<close>

text \<open>Concrete values at which the theorems of the development are instantiated.\<close>

definition sample_source :: event_source where
  "sample_source = \<lparr>es_probe_id = ProbeId ''p'', es_source_type = SProcess,
     es_stream = Stdout, es_job_id = None\<rparr>"

definition sample_event :: "bucket_id \<Rightarrow> timestamp \<Rightarrow> signal_event" where
  "sample_event b t =
     \<lparr>ev_event_id = EventId ''e'', ev_bucket_id = b, ev_seq = 0, ev_timestamp = t,
      ev_severity = Low, ev_kind = ''note'', ev_summary = ''s'', ev_rule = None,
      ev_source = sample_source, ev_captures = None, ev_pointer = None,
      ev_pointer_unavailable_reason = None, ev_tags = None, ev_count = 1,
      ev_first_seen = None, ev_last_seen = None, ev_suppressed = False\<rparr>"

lemma sample_event_sel [simp]:
  "ev_bucket_id (sample_event b t) = b" "ev_seq (sample_event b t) = 0"
  "ev_timestamp (sample_event b t) = t" "ev_severity (sample_event b t) = Low"
  "ev_kind (sample_event b t) = ''note''" "pointer_inv (sample_event b t)"
  "validate_event (sample_event b t) = Ok ()"
  by (simp_all add: sample_event_def pointer_inv_def validate_event_def severity_order)

text \<open>
  The arithmetic of the \<^verbatim>\<open>time\<close> crate: a date time lies between the years -9999 and 9999, here
  in nanoseconds from the epoch, and subtracting seconds gives the earlier time as long as it is in that
  range. Below the range the subtraction panics. A reading of the system clock is taken to be after the
  epoch and in the range.
\<close>

definition TIME_MIN :: timestamp where
  "TIME_MIN = - 377705116800000000000"

definition TIME_MAX :: timestamp where
  "TIME_MAX = 253402300799999999999"

definition sub_contract :: "dt_sub \<Rightarrow> bool" where
  "sub_contract sub \<longleftrightarrow>
     (\<forall>t secs. t \<le> TIME_MAX \<and> TIME_MIN \<le> t - int secs * 1000000000 \<longrightarrow>
        sub t secs = Some (t - int secs * 1000000000))"

definition real_time :: "timestamp \<Rightarrow> bool" where
  "real_time t \<longleftrightarrow> 0 \<le> t \<and> t \<le> TIME_MAX"

definition sample_sub :: dt_sub where
  "sample_sub now secs =
     (let r = now - int secs * 1000000000 in
      if r < - 377705116800000000000 then None else Some r)"

lemma sample_sub_contract: "sub_contract sample_sub"
  by (simp add: sub_contract_def sample_sub_def TIME_MIN_def Let_def)

definition sample_parse_str :: "string \<Rightarrow> (string, uuid) outcome" where
  "sample_parse_str s =
     (if length s = 32 \<and> list_all (\<lambda>c. c \<in> set ''0123456789abcdef'') s then Ok s
      else Err ''invalid length or character'')"

section \<open>Properties of the wire forms\<close>

text \<open>
  An identifier's wire form parses back to the identifier, and as no other kind: with a
  UUID parser that reads the simple form back, \<open>parse_wire\<close> of kind \<open>j\<close> accepts a wire string
  of kind \<open>k\<close> exactly when the kinds agree, and otherwise names both prefixes.
\<close>

lemma parse_wire_roundtrip:
  assumes "parse_str u = Ok u"
  shows "parse_wire parse_str j (to_wire_string k u) =
    (if j = k then Ok u
     else Err (IdParse (to_wire_string k u)
       (''expected prefix '' @ quoted (id_prefix j) @ '' got '' @ quoted (id_prefix k))))"
  using assms by (auto simp: parse_wire_def)

text \<open>
  Severity strings and severities correspond one to one: the parser accepts exactly the
  seven printed forms, each as the severity it was printed from, and the ranks it is stored
  under order severities as the comparison does.
\<close>

lemma severity_roundtrip:
  "(parse_severity v = Ok s \<longleftrightarrow> v = as_str s) \<and> (rank s \<le> rank t \<longleftrightarrow> s \<le> t) \<and>
   (parse_severity v = Err (UnknownSeverity v) \<longleftrightarrow> v \<notin> range as_str)"
proof (intro conjI)
  have *: "parse_severity (as_str x) = Ok x" for x
    by (cases x) (simp_all add: parse_severity_def)
  have **: "parse_severity v = Ok x \<Longrightarrow> v = as_str x" for x
    by (auto simp: parse_severity_def split: if_splits)
  show "parse_severity v = Ok s \<longleftrightarrow> v = as_str s" using * ** by blast
  show "parse_severity v = Err (UnknownSeverity v) \<longleftrightarrow> v \<notin> range as_str"
  proof (cases "\<exists>x. parse_severity v = Ok x")
    case True
    then show ?thesis using ** by auto
  next
    case False
    then have "v \<notin> range as_str" using * by auto
    moreover have "parse_severity v = Err (UnknownSeverity v)"
      using False by (auto simp: parse_severity_def split: if_splits)
    ultimately show ?thesis by simp
  qed
qed (simp add: severity_order)

end
