(* ===== verification/TC_Bucket.thy ===== *)
theory TC_Bucket
  imports TC_Event
begin

text \<open>
  The in-memory bucket manager of \<^verbatim>\<open>crates/core/src/bucket.rs\<close>: cursor-ordered streams
  of signal events with a capacity and an age limit.

  The manager's \<open>HashMap\<close> is an association list with distinct keys, whose order stands
  for the iteration order the language leaves open. Every operation is one critical
  section of the source (the per-bucket write lock is held throughout) and becomes one
  function from the manager to the manager. The clock and the time crate's subtraction are
  arguments. The blocking \<open>bucket_wait\<close>, which gives up its locks between reads, is a step
  relation that interleaves with other callers.
\<close>

section \<open>Data\<close>

definition DEFAULT_MAX_EVENTS :: nat where
  "DEFAULT_MAX_EVENTS = 10000"

definition DEFAULT_TTL :: duration where
  "DEFAULT_TTL = 24 * 3600 * 1000000000"

definition DEFAULT_READ_LIMIT :: nat where
  "DEFAULT_READ_LIMIT = 200"

definition MAX_READ_LIMIT :: nat where
  "MAX_READ_LIMIT = 10000"

record bucket_config =
  max_events :: nat
  ttl :: duration

definition bucket_config_default :: bucket_config where
  "bucket_config_default = \<lparr>max_events = DEFAULT_MAX_EVENTS, ttl = DEFAULT_TTL\<rparr>"

record bucket_state =
  bs_bucket_id :: bucket_id
  bs_created_at :: timestamp
  bs_last_event_at :: "timestamp option"
  bs_head_seq :: nat
  bs_tail_seq :: nat
  bs_event_count :: nat
  bs_dropped_count :: nat

record by_severity =
  n_trace :: nat
  n_debug :: nat
  n_info :: nat
  n_low :: nat
  n_medium :: nat
  n_high :: nat
  n_critical :: nat

definition by_severity_default :: by_severity where
  "by_severity_default = \<lparr>n_trace = 0, n_debug = 0, n_info = 0, n_low = 0, n_medium = 0,
     n_high = 0, n_critical = 0\<rparr>"

record bucket_summary =
  sm_bucket_id :: bucket_id
  sm_created_at :: timestamp
  sm_head_seq :: nat
  sm_tail_seq :: nat
  sm_event_count :: nat
  sm_last_event_at :: "timestamp option"
  sm_by_severity :: by_severity
  sm_by_kind :: "string \<rightharpoonup> nat"
  sm_dropped_count :: nat
  sm_noise_suppressed_count :: nat
  sm_dedupe_collapsed_count :: nat

text \<open>\<open>slot_mut\<close>: the counter a severity addresses, read and written.\<close>

fun slot :: "severity \<Rightarrow> by_severity \<Rightarrow> nat" where
  "slot Trace b = n_trace b"
| "slot Debug b = n_debug b"
| "slot Info b = n_info b"
| "slot Low b = n_low b"
| "slot Medium b = n_medium b"
| "slot High b = n_high b"
| "slot Critical b = n_critical b"

fun slot_mut :: "severity \<Rightarrow> (nat \<Rightarrow> nat) \<Rightarrow> by_severity \<Rightarrow> by_severity" where
  "slot_mut Trace f b = b\<lparr>n_trace := f (n_trace b)\<rparr>"
| "slot_mut Debug f b = b\<lparr>n_debug := f (n_debug b)\<rparr>"
| "slot_mut Info f b = b\<lparr>n_info := f (n_info b)\<rparr>"
| "slot_mut Low f b = b\<lparr>n_low := f (n_low b)\<rparr>"
| "slot_mut Medium f b = b\<lparr>n_medium := f (n_medium b)\<rparr>"
| "slot_mut High f b = b\<lparr>n_high := f (n_high b)\<rparr>"
| "slot_mut Critical f b = b\<lparr>n_critical := f (n_critical b)\<rparr>"

definition bump :: "severity \<Rightarrow> by_severity \<Rightarrow> by_severity" where
  "bump s b = slot_mut s (\<lambda>n. sat_add_u64 n 1) b"

definition unbump :: "severity \<Rightarrow> by_severity \<Rightarrow> by_severity" where
  "unbump s b = slot_mut s (\<lambda>n. n - 1) b"

record bucket_read_request =
  rq_cursor :: nat
  rq_severity_min :: "severity option"
  rq_kind_filter :: "string option"
  rq_limit :: "nat option"

definition read_request_new :: "nat \<Rightarrow> bucket_read_request" where
  "read_request_new c =
     \<lparr>rq_cursor = c, rq_severity_min = None, rq_kind_filter = None, rq_limit = None\<rparr>"

record bucket_read_response =
  rp_bucket_id :: bucket_id
  rp_cursor_in :: nat
  rp_next_cursor :: nat
  rp_has_more :: bool
  rp_dropped_count :: nat
  rp_events :: "signal_event list"

record bucket_wait_response =
  wr_bucket_id :: bucket_id
  wr_cursor_in :: nat
  wr_next_cursor :: nat
  wr_heartbeat :: bool
  wr_events :: "signal_event list"
  wr_dropped_count :: nat

datatype bucket_error =
    AlreadyExists bucket_id
  | NotFound bucket_id
  | EventBucketMismatch bucket_id bucket_id
  | NonMonotonicSeq nat nat
  | EventSeqNotFound bucket_id nat
  | PresetSeqIntoEmptyBucket bucket_id nat
  | SeqExhausted bucket_id nat
  | BCore core_error

record bucket_inner =
  bi_config :: bucket_config
  bi_state :: bucket_state
  bi_by_severity :: by_severity
  bi_by_kind :: "string \<rightharpoonup> nat"
  bi_events :: "signal_event list"
  bi_noise_suppressed_count :: nat
  bi_dedupe_collapsed_count :: nat

section \<open>Operations on one bucket\<close>

definition bucket_inner_new :: "timestamp \<Rightarrow> bucket_id \<Rightarrow> bucket_config \<Rightarrow> bucket_inner" where
  "bucket_inner_new now b cfg =
     \<lparr>bi_config = cfg,
      bi_state = \<lparr>bs_bucket_id = b, bs_created_at = now, bs_last_event_at = None,
                  bs_head_seq = 0, bs_tail_seq = 0, bs_event_count = 0, bs_dropped_count = 0\<rparr>,
      bi_by_severity = by_severity_default,
      bi_by_kind = Map.empty,
      bi_events = [],
      bi_noise_suppressed_count = 0,
      bi_dedupe_collapsed_count = 0\<rparr>"

text \<open>The entry for a kind is at most the number of events held, so its \<open>+= 1\<close> is plain.\<close>

definition count_event :: "signal_event \<Rightarrow> bucket_inner \<Rightarrow> bucket_inner" where
  "count_event ev bi =
     bi\<lparr>bi_by_severity := bump (ev_severity ev) (bi_by_severity bi),
        bi_by_kind := (bi_by_kind bi)(ev_kind ev \<mapsto>
          (case bi_by_kind bi (ev_kind ev) of None \<Rightarrow> 0 | Some n \<Rightarrow> n) + 1)\<rparr>"

definition uncount_event :: "signal_event \<Rightarrow> bucket_inner \<Rightarrow> bucket_inner" where
  "uncount_event ev bi =
     bi\<lparr>bi_by_severity := unbump (ev_severity ev) (bi_by_severity bi),
        bi_by_kind :=
          (case bi_by_kind bi (ev_kind ev) of
             None \<Rightarrow> bi_by_kind bi
           | Some n \<Rightarrow>
               if n - 1 = 0 then (bi_by_kind bi)(ev_kind ev := None)
               else (bi_by_kind bi)(ev_kind ev \<mapsto> n - 1))\<rparr>"

definition refresh_state :: "bucket_inner \<Rightarrow> bucket_inner" where
  "refresh_state bi =
     (case bi_events bi of
        front # rest \<Rightarrow>
          let back = last (front # rest) in
          bi\<lparr>bi_state := (bi_state bi)
               \<lparr>bs_head_seq := ev_seq front, bs_tail_seq := ev_seq back,
                bs_event_count := length (bi_events bi),
                bs_last_event_at := Some (ev_timestamp back)\<rparr>\<rparr>
      | [] \<Rightarrow>
          bi\<lparr>bi_state := (bi_state bi)
               \<lparr>bs_head_seq := bs_tail_seq (bi_state bi),
                bs_event_count := 0, bs_last_event_at := None\<rparr>\<rparr>)"

text \<open>The body shared by both eviction loops: pop the front, uncount it, count the drop.\<close>

definition pop_evicted :: "signal_event \<Rightarrow> signal_event list \<Rightarrow> bucket_inner \<Rightarrow> bucket_inner" where
  "pop_evicted ev rest bi =
     (let bi1 = uncount_event ev (bi\<lparr>bi_events := rest\<rparr>) in
      bi1\<lparr>bi_state := (bi_state bi1)
            \<lparr>bs_dropped_count := sat_add_u64 (bs_dropped_count (bi_state bi1)) 1\<rparr>\<rparr>)"

lemma pop_evicted_events [simp]: "bi_events (pop_evicted ev rest bi) = rest"
  by (simp add: pop_evicted_def uncount_event_def Let_def)

function evict_expired_loop :: "timestamp \<Rightarrow> bucket_inner \<Rightarrow> bucket_inner" where
  "evict_expired_loop cutoff bi =
     (case bi_events bi of
        [] \<Rightarrow> bi
      | front # rest \<Rightarrow>
          if ev_timestamp front < cutoff
          then evict_expired_loop cutoff (pop_evicted front rest bi)
          else bi)"
  by pat_completeness auto
termination
  by (relation "measure (\<lambda>(c, bi). length (bi_events bi))") auto

function evict_for_capacity_loop :: "bucket_inner \<Rightarrow> bucket_inner" where
  "evict_for_capacity_loop bi =
     (if max_events (bi_config bi) < length (bi_events bi) then
        (case bi_events bi of
           [] \<Rightarrow> bi
         | front # rest \<Rightarrow> evict_for_capacity_loop (pop_evicted front rest bi))
      else bi)"
  by pat_completeness auto
termination
  by (relation "measure (\<lambda>bi. length (bi_events bi))") auto

declare evict_expired_loop.simps [simp del] evict_for_capacity_loop.simps [simp del]

text \<open>\<open>i64::try_from(ttl.as_secs()).unwrap_or(i64::MAX)\<close>, then the crate's subtraction.\<close>

definition evict_expired :: "dt_sub \<Rightarrow> timestamp \<Rightarrow> bucket_inner \<Rightarrow> bucket_inner option" where
  "evict_expired sub now bi =
     (let ttl_secs = try_from_or_max i64_max (as_secs (ttl (bi_config bi))) in
      case sub now ttl_secs of
        None \<Rightarrow> None
      | Some cutoff \<Rightarrow> Some (refresh_state (evict_expired_loop cutoff bi)))"

definition evict_for_capacity :: "bucket_inner \<Rightarrow> bucket_inner" where
  "evict_for_capacity bi = refresh_state (evict_for_capacity_loop bi)"

definition inner_summary :: "bucket_inner \<Rightarrow> bucket_summary" where
  "inner_summary bi =
     \<lparr>sm_bucket_id = bs_bucket_id (bi_state bi), sm_created_at = bs_created_at (bi_state bi),
      sm_head_seq = bs_head_seq (bi_state bi), sm_tail_seq = bs_tail_seq (bi_state bi),
      sm_event_count = bs_event_count (bi_state bi),
      sm_last_event_at = bs_last_event_at (bi_state bi),
      sm_by_severity = bi_by_severity bi, sm_by_kind = bi_by_kind bi,
      sm_dropped_count = bs_dropped_count (bi_state bi),
      sm_noise_suppressed_count = bi_noise_suppressed_count bi,
      sm_dedupe_collapsed_count = bi_dedupe_collapsed_count bi\<rparr>"

section \<open>The manager\<close>

type_synonym bucket_manager = "(bucket_id \<times> bucket_inner) list"

definition manager_new :: bucket_manager where
  "manager_new = []"

definition create_bucket ::
  "timestamp \<Rightarrow> bucket_manager \<Rightarrow> bucket_id \<Rightarrow> bucket_config \<Rightarrow>
     (bucket_error, bucket_manager) outcome" where
  "create_bucket now m b cfg =
     (case map_of m b of
        Some _ \<Rightarrow> Err (AlreadyExists b)
      | None \<Rightarrow> Ok (AList.update b (bucket_inner_new now b cfg) m))"

definition create_bucket_default ::
  "timestamp \<Rightarrow> bucket_manager \<Rightarrow> bucket_id \<Rightarrow> (bucket_error, bucket_manager) outcome" where
  "create_bucket_default now m b = create_bucket now m b bucket_config_default"

definition drop_bucket :: "bucket_manager \<Rightarrow> bucket_id \<Rightarrow> bucket_manager \<times> bool" where
  "drop_bucket m b = (AList.delete b m, map_of m b \<noteq> None)"

definition has_bucket :: "bucket_manager \<Rightarrow> bucket_id \<Rightarrow> bool" where
  "has_bucket m b \<longleftrightarrow> map_of m b \<noteq> None"

definition bucket :: "bucket_manager \<Rightarrow> bucket_id \<Rightarrow> (bucket_error, bucket_inner) outcome" where
  "bucket m b = (case map_of m b of None \<Rightarrow> Err (NotFound b) | Some bi \<Rightarrow> Ok bi)"

text \<open>
  \<open>append\<close>: the branches are those of the source, in its order. \<open>append_inner\<close> is the
  part under the bucket's write lock.
\<close>

definition assign_seq :: "bucket_id \<Rightarrow> signal_event \<Rightarrow> bucket_inner \<Rightarrow> (bucket_error, nat) outcome" where
  "assign_seq b ev bi =
     (let tail = bs_tail_seq (bi_state bi) in
      if ev_seq ev = 0 then
        (case checked_add u64_max tail 1 of
           None \<Rightarrow> Err (SeqExhausted b tail)
         | Some s \<Rightarrow> Ok s)
      else if bs_event_count (bi_state bi) = 0 then Err (PresetSeqIntoEmptyBucket b (ev_seq ev))
      else if ev_seq ev \<le> tail then Err (NonMonotonicSeq (ev_seq ev) tail)
      else Ok (ev_seq ev))"

definition push_event :: "signal_event \<Rightarrow> bucket_inner \<Rightarrow> bucket_inner" where
  "push_event ev bi =
     (let bi1 = count_event ev bi;
          bi2 = bi1\<lparr>bi_events := bi_events bi1 @ [ev]\<rparr>
      in evict_for_capacity (refresh_state bi2))"

definition append_inner ::
  "bucket_id \<Rightarrow> signal_event \<Rightarrow> bucket_inner \<Rightarrow> (bucket_error, bucket_inner \<times> nat) outcome" where
  "append_inner b ev bi =
     and_then (assign_seq b ev bi)
       (\<lambda>s. Ok (push_event (ev\<lparr>ev_seq := s\<rparr>) bi, s))"

definition append_event ::
  "bucket_manager \<Rightarrow> bucket_id \<Rightarrow> signal_event \<Rightarrow> (bucket_error, bucket_manager \<times> nat) outcome" where
  "append_event m b ev =
     (if ev_bucket_id ev \<noteq> b then Err (EventBucketMismatch (ev_bucket_id ev) b)
      else case validate_event ev of
        Err e \<Rightarrow> Err (BCore e)
      | Panic \<Rightarrow> Panic
      | Ok _ \<Rightarrow>
          and_then (bucket m b) (\<lambda>bi.
          and_then (append_inner b ev bi) (\<lambda>(bi', s).
            Ok (AList.update b bi' m, s))))"

text \<open>\<open>patch_event_aggregation\<close>: the first event with the sequence number is rewritten.\<close>

fun patch_first :: "nat \<Rightarrow> (signal_event \<Rightarrow> signal_event) \<Rightarrow> signal_event list \<Rightarrow> signal_event list option" where
  "patch_first s f [] = None"
| "patch_first s f (e # es) =
     (if ev_seq e = s then Some (f e # es) else map_option ((#) e) (patch_first s f es))"

definition patch_event_aggregation ::
  "bucket_manager \<Rightarrow> bucket_id \<Rightarrow> nat \<Rightarrow> nat \<Rightarrow> timestamp \<Rightarrow> timestamp \<Rightarrow>
     (bucket_error, bucket_manager) outcome" where
  "patch_event_aggregation m b s cnt first_seen last_seen =
     and_then (bucket m b) (\<lambda>bi.
       case patch_first s (\<lambda>e. e\<lparr>ev_count := cnt, ev_first_seen := Some first_seen,
                                  ev_last_seen := Some last_seen\<rparr>) (bi_events bi) of
         None \<Rightarrow> Err (EventSeqNotFound b s)
       | Some es \<Rightarrow>
           Ok (AList.update b
                 (bi\<lparr>bi_events := es,
                     bi_dedupe_collapsed_count := sat_add_u64 (bi_dedupe_collapsed_count bi) 1\<rparr>) m))"

text \<open>\<open>events_since\<close>: the read loop, with its three filters and its early exit.\<close>

definition passes :: "bucket_read_request \<Rightarrow> signal_event \<Rightarrow> bool" where
  "passes rq ev \<longleftrightarrow>
     \<not> ev_seq ev \<le> rq_cursor rq \<and>
     (case rq_severity_min rq of None \<Rightarrow> True | Some mn \<Rightarrow> \<not> ev_severity ev < mn) \<and>
     (case rq_kind_filter rq of None \<Rightarrow> True | Some kf \<Rightarrow> \<not> ev_kind ev \<noteq> kf)"

fun read_loop ::
  "bucket_read_request \<Rightarrow> nat \<Rightarrow> signal_event list \<Rightarrow> nat \<Rightarrow> signal_event list \<Rightarrow>
     signal_event list \<times> nat \<times> bool" where
  "read_loop rq limit out last_seq [] = (out, last_seq, False)"
| "read_loop rq limit out last_seq (ev # evs) =
     (if \<not> passes rq ev then read_loop rq limit out last_seq evs
      else if limit \<le> length out then (out, last_seq, True)
      else read_loop rq limit (out @ [ev]) (ev_seq ev) evs)"

definition read_limit :: "bucket_read_request \<Rightarrow> nat" where
  "read_limit rq =
     clamp 1 MAX_READ_LIMIT (case rq_limit rq of None \<Rightarrow> DEFAULT_READ_LIMIT | Some n \<Rightarrow> n)"

definition read_inner :: "bucket_id \<Rightarrow> bucket_read_request \<Rightarrow> bucket_inner \<Rightarrow> bucket_read_response" where
  "read_inner b rq bi =
     (case read_loop rq (read_limit rq) [] (rq_cursor rq) (bi_events bi) of
        (out, last_seq, has_more) \<Rightarrow>
          \<lparr>rp_bucket_id = b, rp_cursor_in = rq_cursor rq, rp_next_cursor = last_seq,
           rp_has_more = has_more, rp_dropped_count = bs_dropped_count (bi_state bi),
           rp_events = out\<rparr>)"

definition events_since ::
  "dt_sub \<Rightarrow> timestamp \<Rightarrow> bucket_manager \<Rightarrow> bucket_id \<Rightarrow> bucket_read_request \<Rightarrow>
     (bucket_error, bucket_manager \<times> bucket_read_response) outcome" where
  "events_since sub now m b rq =
     and_then (bucket m b) (\<lambda>bi.
       case evict_expired sub now bi of
         None \<Rightarrow> Panic
       | Some bi' \<Rightarrow> Ok (AList.update b bi' m, read_inner b rq bi'))"

definition summary ::
  "dt_sub \<Rightarrow> timestamp \<Rightarrow> bucket_manager \<Rightarrow> bucket_id \<Rightarrow>
     (bucket_error, bucket_manager \<times> bucket_summary) outcome" where
  "summary sub now m b =
     and_then (bucket m b) (\<lambda>bi.
       case evict_expired sub now bi of
         None \<Rightarrow> Panic
       | Some bi' \<Rightarrow> Ok (AList.update b bi' m, inner_summary bi'))"

definition state_of :: "bucket_manager \<Rightarrow> bucket_id \<Rightarrow> (bucket_error, bucket_state) outcome" where
  "state_of m b = and_then (bucket m b) (\<lambda>bi. Ok (bi_state bi))"

definition list_bucket_ids :: "bucket_manager \<Rightarrow> bucket_id list" where
  "list_bucket_ids m = map fst m"

section \<open>The bucket invariant\<close>

definition sev_ok :: "bucket_inner \<Rightarrow> bool" where
  "sev_ok bi \<longleftrightarrow>
     (\<forall>s. slot s (bi_by_severity bi) = length (filter (\<lambda>e. ev_severity e = s) (bi_events bi)))"

definition kind_count :: "string \<Rightarrow> signal_event list \<Rightarrow> nat option" where
  "kind_count k es =
     (case length (filter (\<lambda>e. ev_kind e = k) es) of 0 \<Rightarrow> None | Suc n \<Rightarrow> Some (Suc n))"

definition kind_ok :: "bucket_inner \<Rightarrow> bool" where
  "kind_ok bi \<longleftrightarrow> (\<forall>k. bi_by_kind bi k = kind_count k (bi_events bi))"

text \<open>The published state agrees with the ring.\<close>

definition state_ok :: "bucket_inner \<Rightarrow> bool" where
  "state_ok bi \<longleftrightarrow>
     (let st = bi_state bi; es = bi_events bi in
      bs_event_count st = length es \<and>
      (if es = [] then bs_head_seq st = bs_tail_seq st \<and> bs_last_event_at st = None
       else bs_head_seq st = ev_seq (hd es) \<and> bs_tail_seq st = ev_seq (last es) \<and>
            bs_last_event_at st = Some (ev_timestamp (last es))))"

definition seqs_ok :: "bucket_inner \<Rightarrow> bool" where
  "seqs_ok bi \<longleftrightarrow>
     sorted_wrt (<) (map ev_seq (bi_events bi)) \<and>
     (\<forall>e \<in> set (bi_events bi). 1 \<le> ev_seq e \<and> ev_seq e \<le> bs_tail_seq (bi_state bi)) \<and>
     bs_tail_seq (bi_state bi) \<le> u64_max"

definition events_ok :: "bucket_inner \<Rightarrow> bool" where
  "events_ok bi \<longleftrightarrow>
     (\<forall>e \<in> set (bi_events bi). ev_bucket_id e = bs_bucket_id (bi_state bi) \<and> pointer_inv e)"

definition bounds_ok :: "bucket_inner \<Rightarrow> bool" where
  "bounds_ok bi \<longleftrightarrow>
     bs_dropped_count (bi_state bi) \<le> u64_max \<and> bi_dedupe_collapsed_count bi \<le> u64_max"

text \<open>Everything but the capacity, which an append restores last.\<close>

definition bucket_core :: "bucket_inner \<Rightarrow> bool" where
  "bucket_core bi \<longleftrightarrow>
     sev_ok bi \<and> kind_ok bi \<and> seqs_ok bi \<and> events_ok bi \<and> bounds_ok bi"

definition bucket_inv :: "bucket_inner \<Rightarrow> bool" where
  "bucket_inv bi \<longleftrightarrow>
     bucket_core bi \<and> state_ok bi \<and> length (bi_events bi) \<le> max_events (bi_config bi)"

definition manager_inv :: "bucket_manager \<Rightarrow> bool" where
  "manager_inv m \<longleftrightarrow>
     distinct (map fst m) \<and>
     (\<forall>b bi. map_of m b = Some bi \<longrightarrow> bucket_inv bi \<and> bs_bucket_id (bi_state bi) = b)"

lemmas bucket_inv_defs =
  bucket_inv_def bucket_core_def sev_ok_def kind_ok_def seqs_ok_def events_ok_def bounds_ok_def

subsection \<open>Severity and kind counters\<close>

lemma slot_slot_mut [simp]:
  "slot s (slot_mut t f b) = (if s = t then f (slot t b) else slot s b)"
  by (cases s; cases t) simp_all

lemma slot_default [simp]: "slot s by_severity_default = 0"
  by (cases s) (simp_all add: by_severity_default_def)

lemma kind_count_Nil [simp]: "kind_count k [] = None"
  by (simp add: kind_count_def)

lemma kind_count_snoc:
  "kind_count k (es @ [e]) =
     (if ev_kind e = k then Some ((case kind_count k es of None \<Rightarrow> 0 | Some n \<Rightarrow> n) + 1)
      else kind_count k es)"
  by (auto simp: kind_count_def split: nat.splits)

lemma kind_count_tl:
  "kind_count k es =
     (case kind_count k (e # es) of
        None \<Rightarrow> None
      | Some n \<Rightarrow> if ev_kind e = k then (if n - 1 = 0 then None else Some (n - 1)) else Some n)"
  by (auto simp: kind_count_def split: nat.splits)

subsection \<open>Popping from the front\<close>

primrec pop_front_n :: "nat \<Rightarrow> bucket_inner \<Rightarrow> bucket_inner" where
  "pop_front_n 0 bi = bi"
| "pop_front_n (Suc n) bi =
     (case bi_events bi of [] \<Rightarrow> bi | e # es \<Rightarrow> pop_front_n n (pop_evicted e es bi))"

lemma evict_expired_loop_pop:
  "evict_expired_loop c bi =
     pop_front_n (length (takeWhile (\<lambda>e. ev_timestamp e < c) (bi_events bi))) bi"
proof (induction c bi rule: evict_expired_loop.induct)
  case (1 c bi)
  then show ?case
    by (subst evict_expired_loop.simps) (auto split: list.splits)
qed

lemma evict_for_capacity_loop_pop:
  "evict_for_capacity_loop bi =
     pop_front_n (length (bi_events bi) - max_events (bi_config bi)) bi"
proof (induction bi rule: evict_for_capacity_loop.induct)
  case (1 bi)
  show ?case
  proof (cases "max_events (bi_config bi) < length (bi_events bi)")
    case True
    then obtain e es where ev: "bi_events bi = e # es" by (cases "bi_events bi") auto
    have cfg: "bi_config (pop_evicted e es bi) = bi_config bi"
      by (simp add: pop_evicted_def uncount_event_def Let_def)
    have "evict_for_capacity_loop bi = evict_for_capacity_loop (pop_evicted e es bi)"
      using True by (subst evict_for_capacity_loop.simps) (simp add: ev)
    also have "\<dots> = pop_front_n (length es - max_events (bi_config bi)) (pop_evicted e es bi)"
      using 1 [OF True ev] by (simp add: cfg)
    finally show ?thesis
      using True by (simp add: ev Suc_diff_le)
  next
    case False
    then show ?thesis by (subst evict_for_capacity_loop.simps) simp
  qed
qed

lemma pop_evicted_frame [simp]:
  "bi_config (pop_evicted e es bi) = bi_config bi"
  "bi_noise_suppressed_count (pop_evicted e es bi) = bi_noise_suppressed_count bi"
  "bi_dedupe_collapsed_count (pop_evicted e es bi) = bi_dedupe_collapsed_count bi"
  "bs_bucket_id (bi_state (pop_evicted e es bi)) = bs_bucket_id (bi_state bi)"
  "bs_created_at (bi_state (pop_evicted e es bi)) = bs_created_at (bi_state bi)"
  "bs_tail_seq (bi_state (pop_evicted e es bi)) = bs_tail_seq (bi_state bi)"
  "bs_dropped_count (bi_state (pop_evicted e es bi)) =
     sat_add_u64 (bs_dropped_count (bi_state bi)) 1"
  by (simp_all add: pop_evicted_def uncount_event_def Let_def)

lemma pop_evicted_core:
  assumes "bucket_core bi" and "bi_events bi = e # es"
  shows "bucket_core (pop_evicted e es bi)"
proof -
  have "sev_ok (pop_evicted e es bi)"
    using assms by (auto simp: bucket_core_def sev_ok_def pop_evicted_def uncount_event_def
        unbump_def Let_def)
  moreover have "kind_ok (pop_evicted e es bi)"
    unfolding kind_ok_def
  proof
    fix k
    show "bi_by_kind (pop_evicted e es bi) k = kind_count k (bi_events (pop_evicted e es bi))"
      using assms kind_count_tl [of k es e]
      by (auto simp: bucket_core_def kind_ok_def pop_evicted_def uncount_event_def Let_def
          split: option.splits if_splits)
  qed
  ultimately show ?thesis
    using assms by (auto simp: bucket_core_def seqs_ok_def events_ok_def bounds_ok_def)
qed

lemma pop_front_n_core: "bucket_core bi \<Longrightarrow> bucket_core (pop_front_n n bi)"
  by (induction n arbitrary: bi) (auto intro: pop_evicted_core split: list.split)

lemma pop_front_n_events [simp]: "bi_events (pop_front_n n bi) = drop n (bi_events bi)"
  by (induction n arbitrary: bi) (auto split: list.split)

lemma pop_front_n_frame [simp]:
  "bi_config (pop_front_n n bi) = bi_config bi"
  "bi_noise_suppressed_count (pop_front_n n bi) = bi_noise_suppressed_count bi"
  "bi_dedupe_collapsed_count (pop_front_n n bi) = bi_dedupe_collapsed_count bi"
  "bs_bucket_id (bi_state (pop_front_n n bi)) = bs_bucket_id (bi_state bi)"
  "bs_created_at (bi_state (pop_front_n n bi)) = bs_created_at (bi_state bi)"
  "bs_tail_seq (bi_state (pop_front_n n bi)) = bs_tail_seq (bi_state bi)"
  by (induction n arbitrary: bi; auto split: list.split)+

lemma pop_front_n_dropped:
  "bs_dropped_count (bi_state bi) \<le> u64_max \<Longrightarrow>
   bs_dropped_count (bi_state (pop_front_n n bi)) =
     sat_add_u64 (bs_dropped_count (bi_state bi)) (min n (length (bi_events bi)))"
  by (induction n arbitrary: bi) (auto simp: sat_add_assoc split: list.split)

subsection \<open>Refreshing the published state\<close>

lemma refresh_state_frame [simp]:
  "bi_config (refresh_state bi) = bi_config bi"
  "bi_events (refresh_state bi) = bi_events bi"
  "bi_by_severity (refresh_state bi) = bi_by_severity bi"
  "bi_by_kind (refresh_state bi) = bi_by_kind bi"
  "bi_noise_suppressed_count (refresh_state bi) = bi_noise_suppressed_count bi"
  "bi_dedupe_collapsed_count (refresh_state bi) = bi_dedupe_collapsed_count bi"
  "bs_bucket_id (bi_state (refresh_state bi)) = bs_bucket_id (bi_state bi)"
  "bs_created_at (bi_state (refresh_state bi)) = bs_created_at (bi_state bi)"
  "bs_dropped_count (bi_state (refresh_state bi)) = bs_dropped_count (bi_state bi)"
  by (simp_all add: refresh_state_def Let_def split: list.split)

lemma refresh_state_tail:
  "bs_tail_seq (bi_state (refresh_state bi)) =
     (if bi_events bi = [] then bs_tail_seq (bi_state bi) else ev_seq (last (bi_events bi)))"
  by (simp add: refresh_state_def Let_def split: list.split)

lemma refresh_state_ok [simp]: "state_ok (refresh_state bi)"
  by (auto simp: state_ok_def refresh_state_def Let_def split: list.split)

lemma sorted_seq_le_last:
  "sorted_wrt (<) (map ev_seq es) \<Longrightarrow> e \<in> set es \<Longrightarrow> ev_seq e \<le> ev_seq (last es)"
  by (induction es) (auto simp: less_imp_le split: if_splits)

lemma refresh_state_core:
  assumes "bucket_core bi"
  shows "bucket_core (refresh_state bi)"
proof -
  have "seqs_ok (refresh_state bi)"
    using assms sorted_seq_le_last [of "bi_events bi"] last_in_set [of "bi_events bi"]
    by (auto simp: bucket_core_def seqs_ok_def refresh_state_tail intro: order_trans)
  then show ?thesis
    using assms by (auto simp: bucket_core_def sev_ok_def kind_ok_def events_ok_def bounds_ok_def)
qed

subsection \<open>Every operation on a bucket keeps the invariant\<close>

lemma bucket_inner_new_inv: "bucket_inv (bucket_inner_new now b cfg)"
  by (simp add: bucket_inv_defs state_ok_def bucket_inner_new_def u64_max_def)

lemma evict_expired_Some:
  assumes "evict_expired sub now bi = Some bi'"
  obtains cutoff where
    "sub now (try_from_or_max i64_max (as_secs (ttl (bi_config bi)))) = Some cutoff"
    "bi' = refresh_state
       (pop_front_n (length (takeWhile (\<lambda>e. ev_timestamp e < cutoff) (bi_events bi))) bi)"
  using assms by (auto simp: evict_expired_def Let_def evict_expired_loop_pop split: option.splits)

lemma evict_expired_inv:
  assumes "bucket_inv bi" and "evict_expired sub now bi = Some bi'"
  shows "bucket_inv bi'"
  using assms(2)
proof (rule evict_expired_Some)
  fix cutoff
  let ?n = "length (takeWhile (\<lambda>e. ev_timestamp e < cutoff) (bi_events bi))"
  assume "bi' = refresh_state (pop_front_n ?n bi)"
  moreover have "bucket_core (refresh_state (pop_front_n ?n bi))"
    using assms(1) by (intro refresh_state_core pop_front_n_core) (simp add: bucket_inv_def)
  ultimately show ?thesis
    using assms(1) by (auto simp: bucket_inv_def)
qed

lemma length_le_tail:
  assumes "seqs_ok bi"
  shows "length (bi_events bi) \<le> bs_tail_seq (bi_state bi)"
proof -
  from assms have d: "distinct (map ev_seq (bi_events bi))"
    by (simp add: seqs_ok_def strict_sorted_iff)
  have "set (map ev_seq (bi_events bi)) \<subseteq> {1..bs_tail_seq (bi_state bi)}"
    using assms by (auto simp: seqs_ok_def)
  from card_mono [OF _ this] d show ?thesis
    by (simp only: distinct_card finite_atLeastAtMost length_map card_atLeastAtMost) simp
qed

definition pushed :: "signal_event \<Rightarrow> bucket_inner \<Rightarrow> bucket_inner" where
  "pushed ev bi =
     refresh_state ((count_event ev bi)\<lparr>bi_events := bi_events (count_event ev bi) @ [ev]\<rparr>)"

lemma count_event_frame:
  "bi_events (count_event ev bi) = bi_events bi" "bi_config (count_event ev bi) = bi_config bi"
  by (simp_all add: count_event_def)

lemma pushed_frame [simp]:
  "bi_events (pushed ev bi) = bi_events bi @ [ev]"
  "bi_config (pushed ev bi) = bi_config bi"
  "bs_bucket_id (bi_state (pushed ev bi)) = bs_bucket_id (bi_state bi)"
  "bs_created_at (bi_state (pushed ev bi)) = bs_created_at (bi_state bi)"
  "bs_dropped_count (bi_state (pushed ev bi)) = bs_dropped_count (bi_state bi)"
  "bs_tail_seq (bi_state (pushed ev bi)) = ev_seq ev"
  "bi_dedupe_collapsed_count (pushed ev bi) = bi_dedupe_collapsed_count bi"
  by (simp_all add: pushed_def count_event_def refresh_state_tail)

lemma push_event_pop:
  "push_event ev bi =
     refresh_state
       (pop_front_n (Suc (length (bi_events bi)) - max_events (bi_config bi)) (pushed ev bi))"
  by (simp add: push_event_def pushed_def Let_def evict_for_capacity_def
      evict_for_capacity_loop_pop count_event_frame)

lemma pushed_core:
  assumes core: "bucket_core bi" and seq: "bs_tail_seq (bi_state bi) < ev_seq ev" "ev_seq ev \<le> u64_max"
    and ok: "ev_bucket_id ev = bs_bucket_id (bi_state bi)" "pointer_inv ev"
  shows "bucket_core (pushed ev bi)"
proof -
  have len: "length (bi_events bi) < u64_max"
    using core seq length_le_tail [of bi] by (simp add: bucket_core_def)
  have "sev_ok (pushed ev bi)"
    unfolding sev_ok_def
  proof
    fix s
    have "length (filter (\<lambda>e. ev_severity e = s) (bi_events bi)) < u64_max"
      using len le_less_trans [OF length_filter_le] by blast
    then show "slot s (bi_by_severity (pushed ev bi)) =
        length (filter (\<lambda>e. ev_severity e = s) (bi_events (pushed ev bi)))"
      using core by (auto simp: bucket_core_def sev_ok_def pushed_def count_event_def bump_def sat_add_def)
  qed
  moreover have "kind_ok (pushed ev bi)"
    using core kind_count_snoc [of _ "bi_events bi" ev]
    by (auto simp: bucket_core_def kind_ok_def pushed_def count_event_def split: option.splits)
  moreover have "seqs_ok (pushed ev bi)"
    using core seq by (fastforce simp: bucket_core_def seqs_ok_def sorted_wrt_append)
  ultimately show ?thesis
    using core ok by (auto simp: bucket_core_def events_ok_def bounds_ok_def)
qed

lemma push_event_inv:
  assumes "bucket_inv bi" and "bs_tail_seq (bi_state bi) < ev_seq ev" "ev_seq ev \<le> u64_max"
    and "ev_bucket_id ev = bs_bucket_id (bi_state bi)" "pointer_inv ev"
  shows "bucket_inv (push_event ev bi)"
proof -
  have "bucket_core (push_event ev bi)"
    unfolding push_event_pop
    using assms by (intro refresh_state_core pop_front_n_core pushed_core) (auto simp: bucket_inv_def)
  then show ?thesis
    by (auto simp: bucket_inv_def push_event_pop)
qed

text \<open>What one push does to the fields consumers see.\<close>

lemma push_event_tail [simp]: "bs_tail_seq (bi_state (push_event ev bi)) = ev_seq ev"
proof -
  have "drop n (es @ [ev]) \<noteq> [] \<Longrightarrow> last (drop n (es @ [ev])) = ev" for n and es :: "signal_event list"
    by (subst last_drop) auto
  then show ?thesis by (auto simp: push_event_pop refresh_state_tail)
qed

lemma push_event_frame [simp]:
  "bi_config (push_event ev bi) = bi_config bi"
  "bi_events (push_event ev bi) =
     drop (Suc (length (bi_events bi)) - max_events (bi_config bi)) (bi_events bi @ [ev])"
  "bs_bucket_id (bi_state (push_event ev bi)) = bs_bucket_id (bi_state bi)"
  by (simp_all add: push_event_pop)

lemma push_event_dropped:
  "bs_dropped_count (bi_state bi) \<le> u64_max \<Longrightarrow>
   bs_dropped_count (bi_state (push_event ev bi)) =
     sat_add_u64 (bs_dropped_count (bi_state bi))
       (Suc (length (bi_events bi)) - max_events (bi_config bi))"
  by (simp add: push_event_pop pop_front_n_dropped min_def)

interpretation bucket_fifo: fifo_ring bi_events "\<lambda>bi. bs_dropped_count (bi_state bi)"
  "\<lambda>bi ev. push_event ev bi" "\<lambda>bi. bs_dropped_count (bi_state bi) \<le> u64_max" "\<lambda>_. True"
  by unfold_locales (auto simp: push_event_dropped
      intro!: exI [where x = "Suc (length (bi_events _)) - max_events (bi_config _)"])

lemma assign_seq_Ok:
  "assign_seq b ev bi = Ok s \<Longrightarrow>
     bs_tail_seq (bi_state bi) < s \<and>
     (ev_seq ev = 0 \<and> s = Suc (bs_tail_seq (bi_state bi)) \<and> s \<le> u64_max \<or>
      ev_seq ev \<noteq> 0 \<and> s = ev_seq ev \<and> bs_event_count (bi_state bi) \<noteq> 0)"
  by (auto simp: assign_seq_def Let_def checked_add_Some split: if_splits option.splits)

lemma patch_first_Some:
  assumes "patch_first s f es = Some es'"
  obtains e us vs where "es = us @ e # vs" "es' = us @ f e # vs" "ev_seq e = s"
    "s \<notin> ev_seq ` set us"
proof -
  have "\<exists>us e vs. es = us @ e # vs \<and> es' = us @ f e # vs \<and> ev_seq e = s \<and> s \<notin> ev_seq ` set us"
    using assms
  proof (induction es arbitrary: es')
    case (Cons x es)
    show ?case
    proof (cases "ev_seq x = s")
      case True
      with Cons.prems show ?thesis by (intro exI [of _ "[]"]) auto
    next
      case False
      with Cons.prems obtain es1 where "patch_first s f es = Some es1" "es' = x # es1" by auto
      with Cons.IH [of es1] obtain us e vs where
        "es = us @ e # vs" "es1 = us @ f e # vs" "ev_seq e = s" "s \<notin> ev_seq ` set us" by auto
      with False \<open>es' = x # es1\<close> show ?thesis by (intro exI [of _ "x # us"]) auto
    qed
  qed simp
  with that show ?thesis by blast
qed

lemma patch_first_None: "patch_first s f es = None \<longleftrightarrow> s \<notin> ev_seq ` set es"
  by (induction es) auto

subsection \<open>Every operation on the manager keeps the invariant\<close>

lemma bucket_Ok_iff: "bucket m b = Ok bi \<longleftrightarrow> map_of m b = Some bi"
  by (auto simp: bucket_def split: option.splits)

lemma bucket_not_Panic [simp]: "bucket m b \<noteq> Panic"
  by (auto simp: bucket_def split: option.splits)

lemma manager_inv_update:
  "manager_inv m \<Longrightarrow> bucket_inv bi \<Longrightarrow> bs_bucket_id (bi_state bi) = b \<Longrightarrow>
   manager_inv (AList.update b bi m)"
  by (auto simp: manager_inv_def update_conv' distinct_update split: if_splits)

lemma manager_invD:
  "manager_inv m \<Longrightarrow> map_of m b = Some bi \<Longrightarrow> bucket_inv bi"
  "manager_inv m \<Longrightarrow> map_of m b = Some bi \<Longrightarrow> bs_bucket_id (bi_state bi) = b"
  by (auto simp: manager_inv_def)

lemma create_bucket_inv [tc_inv]:
  "manager_inv m \<Longrightarrow> create_bucket now m b cfg = Ok m' \<Longrightarrow> manager_inv m'"
  by (auto simp: create_bucket_def split: option.splits
      intro!: manager_inv_update bucket_inner_new_inv)
    (simp add: bucket_inner_new_def)

lemma drop_bucket_inv [tc_inv]: "manager_inv m \<Longrightarrow> manager_inv (fst (drop_bucket m b))"
  by (auto simp: drop_bucket_def manager_inv_def delete_conv' distinct_delete split: if_splits)

lemma append_event_Ok:
  assumes "append_event m b ev = Ok (m', s)"
  obtains bi where "map_of m b = Some bi" "ev_bucket_id ev = b" "pointer_inv ev"
    "assign_seq b ev bi = Ok s" "m' = AList.update b (push_event (ev\<lparr>ev_seq := s\<rparr>) bi) m"
  using assms
  by (auto simp: append_event_def append_inner_def and_then_Ok_iff bucket_Ok_iff
      validate_event_Ok_iff split: if_splits outcome.splits)

lemma append_event_inv [tc_inv]:
  assumes inv: "manager_inv m" and u64: "ev_seq ev \<le> u64_max"
    and ok: "append_event m b ev = Ok (m', s)"
  shows "manager_inv m'"
  using ok
proof (rule append_event_Ok)
  fix bi
  assume bi: "map_of m b = Some bi" "ev_bucket_id ev = b" "pointer_inv ev"
    "assign_seq b ev bi = Ok s" and m': "m' = AList.update b (push_event (ev\<lparr>ev_seq := s\<rparr>) bi) m"
  have "bucket_inv (push_event (ev\<lparr>ev_seq := s\<rparr>) bi)"
    using manager_invD [OF inv bi(1)] bi assign_seq_Ok [OF bi(4)] u64
    by (intro push_event_inv) (auto simp: pointer_inv_def)
  then show ?thesis
    using manager_invD [OF inv bi(1)] inv by (auto simp: m' intro: manager_inv_update)
qed

lemma patch_keeps_inv:
  assumes inv: "bucket_inv bi"
    and p: "patch_first s (\<lambda>e. e\<lparr>ev_count := c, ev_first_seen := f, ev_last_seen := l\<rparr>) (bi_events bi) = Some es"
    and n: "n \<le> u64_max"
  shows "bucket_inv (bi\<lparr>bi_events := es, bi_dedupe_collapsed_count := n\<rparr>)"
  using p
proof (rule patch_first_Some)
  fix e :: signal_event and us vs
  let ?e = "e\<lparr>ev_count := c, ev_first_seen := f, ev_last_seen := l\<rparr>"
  assume es: "bi_events bi = us @ e # vs" "es = us @ ?e # vs" "ev_seq e = s"
  have "kind_count k es = kind_count k (bi_events bi)" for k
    by (simp add: es kind_count_def)
  moreover have "ev_seq (hd es) = ev_seq (hd (bi_events bi))"
    "ev_seq (last es) = ev_seq (last (bi_events bi))"
    "ev_timestamp (last es) = ev_timestamp (last (bi_events bi))"
    by (cases us; simp add: es)+
  ultimately show ?thesis
    using inv n
    by (auto simp: bucket_inv_defs state_ok_def Let_def es pointer_inv_def)
qed

lemma patch_event_aggregation_inv [tc_inv]:
  assumes inv: "manager_inv m" and ok: "patch_event_aggregation m b s c f l = Ok m'"
  shows "manager_inv m'"
proof -
  from ok obtain bi es where bi: "map_of m b = Some bi"
    and es: "patch_first s (\<lambda>e. e\<lparr>ev_count := c, ev_first_seen := Some f, ev_last_seen := Some l\<rparr>)
               (bi_events bi) = Some es"
    and m': "m' = AList.update b (bi\<lparr>bi_events := es,
               bi_dedupe_collapsed_count := sat_add_u64 (bi_dedupe_collapsed_count bi) 1\<rparr>) m"
    by (auto simp: patch_event_aggregation_def and_then_Ok_iff bucket_Ok_iff split: option.splits)
  show ?thesis
    using manager_invD [OF inv bi] patch_keeps_inv [OF _ es] inv
    by (auto simp: m' intro!: manager_inv_update)
qed

lemma events_since_Ok:
  assumes "events_since sub now m b rq = Ok (m', r)"
  obtains bi bi' where "map_of m b = Some bi" "evict_expired sub now bi = Some bi'"
    "m' = AList.update b bi' m" "r = read_inner b rq bi'"
  using assms by (auto simp: events_since_def and_then_Ok_iff bucket_Ok_iff split: option.splits)

lemma evict_expired_frame:
  assumes "evict_expired sub now bi = Some bi'"
  shows "bs_bucket_id (bi_state bi') = bs_bucket_id (bi_state bi)"
    "bi_config bi' = bi_config bi"
  using assms by (auto elim!: evict_expired_Some)

lemma evict_update_inv:
  assumes "manager_inv m" and "map_of m b = Some bi" and "evict_expired sub now bi = Some bi'"
  shows "manager_inv (AList.update b bi' m)"
proof (rule manager_inv_update [OF assms(1)])
  show "bucket_inv bi'"
    using manager_invD(1) [OF assms(1,2)] assms(3) by (rule evict_expired_inv)
  show "bs_bucket_id (bi_state bi') = b"
    using manager_invD(2) [OF assms(1,2)] evict_expired_frame(1) [OF assms(3)] by simp
qed

lemma events_since_inv [tc_inv]:
  assumes "manager_inv m" and "events_since sub now m b rq = Ok (m', r)"
  shows "manager_inv m'"
  using assms(2) by (rule events_since_Ok) (simp add: evict_update_inv [OF assms(1)])

lemma summary_inv [tc_inv]:
  assumes "manager_inv m" and "summary sub now m b = Ok (m', r)"
  shows "manager_inv m'"
  using assms
  by (auto simp: summary_def and_then_Ok_iff bucket_Ok_iff split: option.splits
      intro: evict_update_inv)

section \<open>Reads\<close>

text \<open>
  What a consumer of an ordered log may rely on: the entries are in strictly increasing
  sequence order, and a page is the first matching entries after a cursor, up to a positive
  limit, together with the cursor to continue from. The lemmas say that pages chain
  without loss or repetition.
\<close>

lemma sorted_key_le_last:
  fixes f :: "'e \<Rightarrow> nat"
  shows "sorted_wrt (\<lambda>a b. f a < f b) xs \<Longrightarrow> e \<in> set xs \<Longrightarrow> f e \<le> f (last xs)"
  by (induction xs) (auto simp: less_imp_le)

lemma filter_after_page:
  fixes f :: "'e \<Rightarrow> nat"
  assumes sorted: "sorted_wrt (<) (map f xs)"
    and ms: "ms = filter (\<lambda>e. c < f e \<and> p e) xs" and ne: "take n ms \<noteq> []"
  shows "filter (\<lambda>e. f (last (take n ms)) < f e \<and> p e) xs = drop n ms"
proof -
  let ?d = "f (last (take n ms))"
  have "last (take n ms) \<in> set ms" using ne last_in_set set_take_subset by fast
  then have "c < ?d" using ms by auto
  then have "filter (\<lambda>e. ?d < f e \<and> p e) xs = filter (\<lambda>e. ?d < f e) ms"
    by (auto simp: ms intro!: filter_cong)
  also have "\<dots> = filter (\<lambda>e. ?d < f e) (take n ms) @ filter (\<lambda>e. ?d < f e) (drop n ms)"
    by (simp flip: filter_append)
  also have "filter (\<lambda>e. ?d < f e) (drop n ms) = drop n ms"
  proof -
    have "sorted_wrt (\<lambda>a b. f a < f b) (take n ms @ drop n ms)"
      using sorted by (simp add: ms sorted_wrt_map sorted_wrt_filter)
    then have "\<forall>e \<in> set (drop n ms). ?d < f e"
      using ne last_in_set [of "take n ms"] by (simp only: sorted_wrt_append) blast
    then show ?thesis by simp
  qed
  also have "filter (\<lambda>e. ?d < f e) (take n ms) = []"
  proof -
    have "sorted_wrt (\<lambda>a b. f a < f b) (take n ms)"
      using sorted by (simp add: ms sorted_wrt_map sorted_wrt_filter sorted_wrt_take)
    then have "f e \<le> ?d" if "e \<in> set (take n ms)" for e
      using that by (rule sorted_key_le_last)
    then show ?thesis by (auto simp: filter_empty_conv not_less)
  qed
  finally show ?thesis by simp
qed

locale cursor_log =
  fixes log :: "'s \<Rightarrow> 'e list"
    and seq :: "'e \<Rightarrow> nat"
    and ok :: "'s \<Rightarrow> bool"
    and sat :: "'q \<Rightarrow> 'e \<Rightarrow> bool"
    and eff :: "'l \<Rightarrow> nat"
    and page :: "'s \<Rightarrow> nat \<Rightarrow> 'q \<Rightarrow> 'l \<Rightarrow> 'e list"
    and next_cur :: "'s \<Rightarrow> nat \<Rightarrow> 'q \<Rightarrow> 'l \<Rightarrow> nat"
  assumes increasing: "ok s \<Longrightarrow> sorted_wrt (<) (map seq (log s))"
    and eff_pos: "0 < eff l"
    and page_eq: "page s c q l = take (eff l) (filter (\<lambda>e. c < seq e \<and> sat q e) (log s))"
    and next_eq: "next_cur s c q l =
      (if page s c q l = [] then c else seq (last (page s c q l)))"
begin

lemma page_after: "e \<in> set (page s c q l) \<Longrightarrow> c < seq e \<and> sat q e \<and> e \<in> set (log s)"
  using set_take_subset [of "eff l" "filter (\<lambda>e. c < seq e \<and> sat q e) (log s)"]
  by (auto simp: page_eq)

lemma next_ge: "c \<le> next_cur s c q l"
  using page_after [of "last (page s c q l)" s c q l] by (auto simp: next_eq less_imp_le)

lemma page_increasing: "ok s \<Longrightarrow> sorted_wrt (<) (map seq (page s c q l))"
  using increasing [of s]
  by (simp add: page_eq sorted_wrt_map sorted_wrt_take sorted_wrt_filter)

lemma page_empty_iff:
  "page s c q l = [] \<longleftrightarrow> (\<forall>e \<in> set (log s). \<not> (c < seq e \<and> sat q e))"
  using eff_pos [of l] by (auto simp: page_eq filter_empty_conv)

lemma page_chain:
  assumes "ok s"
  shows "filter (\<lambda>e. c < seq e \<and> sat q e) (log s) =
    page s c q l @ filter (\<lambda>e. next_cur s c q l < seq e \<and> sat q e) (log s)"
proof (cases "page s c q l = []")
  case True
  then show ?thesis by (simp add: next_eq)
next
  case False
  with filter_after_page [OF increasing [OF assms] refl, where p = "sat q" and n = "eff l" and c = c]
  show ?thesis by (simp add: next_eq page_eq)
qed

lemma page_le_next: "ok s \<Longrightarrow> e \<in> set (page s c q l) \<Longrightarrow> seq e \<le> next_cur s c q l"
  using page_chain [of s c q l] page_increasing [of s c q l]
  by (cases "page s c q l" rule: rev_cases)
    (auto simp: next_eq sorted_wrt_append less_imp_le)

end

definition field_ok :: "severity option \<times> string option \<Rightarrow> signal_event \<Rightarrow> bool" where
  "field_ok q ev \<longleftrightarrow>
     (case fst q of None \<Rightarrow> True | Some mn \<Rightarrow> mn \<le> ev_severity ev) \<and>
     (case snd q of None \<Rightarrow> True | Some kf \<Rightarrow> ev_kind ev = kf)"

lemma passes_field_ok:
  "passes rq ev \<longleftrightarrow>
     rq_cursor rq < ev_seq ev \<and> field_ok (rq_severity_min rq, rq_kind_filter rq) ev"
  by (auto simp: passes_def field_ok_def not_less split: option.splits)

lemma read_loop_eq:
  "read_loop rq limit out l evs =
     (let k = limit - length out; ms = filter (passes rq) evs in
      (out @ take k ms, if take k ms = [] then l else ev_seq (last (take k ms)), k < length ms))"
proof (induction evs arbitrary: out l)
  case Nil
  then show ?case by simp
next
  case (Cons ev evs)
  show ?case
  proof (cases "passes rq ev \<and> \<not> limit \<le> length out")
    case True
    then obtain k where "limit - length out = Suc k" by (metis Suc_diff_Suc not_le)
    then have "limit - Suc (length out) = k" by simp
    with True Cons [of "out @ [ev]" "ev_seq ev"] \<open>limit - length out = Suc k\<close> show ?thesis
      by (auto simp: Let_def)
  next
    case False
    with Cons show ?thesis by (auto simp: Let_def)
  qed
qed

lemma read_limit_bounds: "0 < read_limit rq" "read_limit rq \<le> MAX_READ_LIMIT"
  by (simp_all add: read_limit_def clamp_def MAX_READ_LIMIT_def)

lemma read_inner_events:
  "rp_events (read_inner b rq bi) = take (read_limit rq) (filter (passes rq) (bi_events bi))"
  by (simp add: read_inner_def read_loop_eq Let_def)

lemma read_inner_next:
  "rp_next_cursor (read_inner b rq bi) =
     (if rp_events (read_inner b rq bi) = [] then rq_cursor rq
      else ev_seq (last (rp_events (read_inner b rq bi))))"
  by (simp add: read_inner_def read_loop_eq Let_def)

lemma read_inner_more:
  "rp_has_more (read_inner b rq bi) \<longleftrightarrow>
     read_limit rq < length (filter (passes rq) (bi_events bi))"
  by (simp add: read_inner_def read_loop_eq Let_def)

lemma read_inner_frame [simp]:
  "rp_bucket_id (read_inner b rq bi) = b"
  "rp_cursor_in (read_inner b rq bi) = rq_cursor rq"
  "rp_dropped_count (read_inner b rq bi) = bs_dropped_count (bi_state bi)"
  by (simp_all add: read_inner_def read_loop_eq Let_def)

text \<open>The request for a cursor, the two field filters and a limit.\<close>

definition mk_request :: "nat \<Rightarrow> severity option \<times> string option \<Rightarrow> nat option \<Rightarrow> bucket_read_request" where
  "mk_request c q l =
     \<lparr>rq_cursor = c, rq_severity_min = fst q, rq_kind_filter = snd q, rq_limit = l\<rparr>"

lemma mk_request_sel [simp]:
  "rq_cursor (mk_request c q l) = c" "rq_limit (mk_request c q l) = l"
  "rq_severity_min (mk_request c q l) = fst q" "rq_kind_filter (mk_request c q l) = snd q"
  by (simp_all add: mk_request_def)

lemma read_limit_mk_request:
  "read_limit (mk_request c q l) =
     clamp 1 MAX_READ_LIMIT (case l of None \<Rightarrow> DEFAULT_READ_LIMIT | Some n \<Rightarrow> n)"
  by (simp add: read_limit_def)

lemma passes_mk_request: "passes (mk_request c q l) = (\<lambda>e. c < ev_seq e \<and> field_ok q e)"
  by (simp add: fun_eq_iff passes_field_ok)

interpretation bucket_log: cursor_log bi_events ev_seq bucket_inv field_ok
  "\<lambda>l. clamp 1 MAX_READ_LIMIT (case l of None \<Rightarrow> DEFAULT_READ_LIMIT | Some n \<Rightarrow> n)"
  "\<lambda>bi c q l. rp_events (read_inner b (mk_request c q l) bi)"
  "\<lambda>bi c q l. rp_next_cursor (read_inner b (mk_request c q l) bi)"
  for b
proof unfold_locales
  show "bucket_inv bi \<Longrightarrow> sorted_wrt (<) (map ev_seq (bi_events bi))" for bi
    by (simp add: bucket_inv_defs)
qed (simp_all add: read_inner_events read_inner_next passes_mk_request read_limit_mk_request
    clamp_def MAX_READ_LIMIT_def)

text \<open>
  A client that reads page after page, handing each response's cursor to the next request,
  until a response says there is no more. \<open>handle_event_context\<close> scans a bucket this way.
\<close>

lemma read_inner_advances:
  assumes "rp_has_more (read_inner b rq bi)"
  shows "last (rp_events (read_inner b rq bi)) \<in> set (bi_events bi)"
    "rq_cursor rq < rp_next_cursor (read_inner b rq bi)"
    "rp_next_cursor (read_inner b rq bi) = ev_seq (last (rp_events (read_inner b rq bi)))"
proof -
  let ?ms = "filter (passes rq) (bi_events bi)"
  have ne: "rp_events (read_inner b rq bi) \<noteq> []"
    using assms read_limit_bounds(1) [of rq] by (auto simp: read_inner_events read_inner_more)
  have "last (rp_events (read_inner b rq bi)) \<in> set ?ms"
    using last_in_set [OF ne] unfolding read_inner_events by (rule in_set_takeD)
  with ne show "last (rp_events (read_inner b rq bi)) \<in> set (bi_events bi)"
    "rq_cursor rq < rp_next_cursor (read_inner b rq bi)"
    "rp_next_cursor (read_inner b rq bi) = ev_seq (last (rp_events (read_inner b rq bi)))"
    by (auto simp: read_inner_next passes_field_ok)
qed

function read_pages :: "bucket_id \<Rightarrow> bucket_read_request \<Rightarrow> bucket_inner \<Rightarrow> signal_event list" where
  "read_pages b rq bi =
     (let r = read_inner b rq bi in
      if rp_has_more r then rp_events r @ read_pages b (rq\<lparr>rq_cursor := rp_next_cursor r\<rparr>) bi
      else rp_events r)"
  by pat_completeness auto
termination
proof (relation "measure (\<lambda>(b, rq, bi). length (filter (\<lambda>e. rq_cursor rq < ev_seq e) (bi_events bi)))")
  fix b rq bi r
  assume r: "r = read_inner b rq bi" and more: "rp_has_more r"
  note adv = read_inner_advances [OF more [unfolded r]]
  have "length (filter (\<lambda>e. rp_next_cursor r < ev_seq e) (filter (\<lambda>e. rq_cursor rq < ev_seq e) (bi_events bi)))
      < length (filter (\<lambda>e. rq_cursor rq < ev_seq e) (bi_events bi))"
    by (rule length_filter_less [of "last (rp_events r)"]) (use adv r in auto)
  moreover have "filter (\<lambda>e. rp_next_cursor r < ev_seq e) (filter (\<lambda>e. rq_cursor rq < ev_seq e) (bi_events bi))
      = filter (\<lambda>e. rp_next_cursor r < ev_seq e) (bi_events bi)"
    using adv(2) r by (auto intro: filter_cong)
  ultimately show "((b, rq\<lparr>rq_cursor := rp_next_cursor r\<rparr>, bi), (b, rq, bi))
      \<in> measure (\<lambda>(b, rq, bi). length (filter (\<lambda>e. rq_cursor rq < ev_seq e) (bi_events bi)))"
    by simp
qed simp

declare read_pages.simps [simp del]

lemma read_inner_chain:
  assumes "bucket_inv bi"
  shows "filter (passes rq) (bi_events bi) =
    rp_events (read_inner b rq bi) @
    filter (passes (rq\<lparr>rq_cursor := rp_next_cursor (read_inner b rq bi)\<rparr>)) (bi_events bi)"
proof -
  obtain c q l where rq: "rq = mk_request c q l"
    by (rule that [of "rq_cursor rq" "(rq_severity_min rq, rq_kind_filter rq)" "rq_limit rq"])
      (simp add: mk_request_def)
  have rq': "(mk_request c q l)\<lparr>rq_cursor := n\<rparr> = mk_request n q l" for n
    by (simp add: mk_request_def)
  show ?thesis
    using bucket_log.page_chain [OF assms, of c q b l]
    by (simp only: rq rq' passes_mk_request)
qed

lemma read_pages_eq:
  "bucket_inv bi \<Longrightarrow> read_pages b rq bi = filter (passes rq) (bi_events bi)"
proof (induction b rq bi rule: read_pages.induct)
  case (1 b rq bi)
  let ?r = "read_inner b rq bi"
  show ?case
  proof (cases "rp_has_more ?r")
    case True
    with 1 read_inner_chain [OF 1(2), of rq b] show ?thesis
      by (simp add: read_pages.simps [of b rq bi] Let_def)
  next
    case False
    then show ?thesis
      by (simp add: read_pages.simps [of b rq bi] Let_def read_inner_more read_inner_events)
  qed
qed

section \<open>Loss accounting\<close>

text \<open>
  Events appended the way the daemon appends them, with the sequence number left to the
  manager, are numbered without gaps, so the published counters account for every event
  ever appended.
\<close>

definition contiguous :: "bucket_inner \<Rightarrow> bool" where
  "contiguous bi \<longleftrightarrow>
     bs_dropped_count (bi_state bi) \<le> bs_tail_seq (bi_state bi) \<and>
     bs_tail_seq (bi_state bi) \<le> u64_max \<and>
     map ev_seq (bi_events bi) =
       [Suc (bs_dropped_count (bi_state bi)) ..< Suc (bs_tail_seq (bi_state bi))]"

lemma contiguous_length:
  assumes "contiguous bi"
  shows "length (bi_events bi) = bs_tail_seq (bi_state bi) - bs_dropped_count (bi_state bi)"
proof -
  have "length (map ev_seq (bi_events bi)) =
      length [Suc (bs_dropped_count (bi_state bi)) ..< Suc (bs_tail_seq (bi_state bi))]"
    using assms by (simp only: contiguous_def)
  then show ?thesis by (simp del: upt_Suc)
qed

lemma contiguous_pop:
  assumes c: "contiguous bi" and n: "n \<le> length (bi_events bi)"
  shows "contiguous (refresh_state (pop_front_n n bi))"
proof -
  let ?t = "bs_tail_seq (bi_state bi)" and ?d = "bs_dropped_count (bi_state bi)"
  have seqs: "map ev_seq (drop n (bi_events bi)) = [Suc (?d + n) ..< Suc ?t]"
    using c by (simp add: contiguous_def drop_upt flip: drop_map del: upt_Suc)
  have "ev_seq (last (drop n (bi_events bi))) = ?t" if ne: "drop n (bi_events bi) \<noteq> []"
  proof -
    have "last (map ev_seq (drop n (bi_events bi))) = last [Suc (?d + n) ..< Suc ?t]"
      by (simp only: seqs)
    moreover have "?d + n < ?t" using ne contiguous_length [OF c] by simp
    ultimately show ?thesis using ne by (simp add: last_map)
  qed
  then have "bs_tail_seq (bi_state (refresh_state (pop_front_n n bi))) = ?t"
    by (simp add: refresh_state_tail)
  moreover have "bs_dropped_count (bi_state (refresh_state (pop_front_n n bi))) = ?d + n"
    using c n contiguous_length [OF c] by (auto simp: contiguous_def pop_front_n_dropped sat_add_def)
  ultimately show ?thesis
    using c n seqs contiguous_length [OF c] by (auto simp: contiguous_def simp del: upt_Suc)
qed

lemma contiguous_pushed:
  assumes "contiguous bi" and "ev_seq ev = Suc (bs_tail_seq (bi_state bi))" "ev_seq ev \<le> u64_max"
  shows "contiguous (pushed ev bi)"
  using assms by (simp add: contiguous_def)

lemma contiguous_push_event:
  assumes "contiguous bi" and "ev_seq ev = Suc (bs_tail_seq (bi_state bi))" "ev_seq ev \<le> u64_max"
  shows "contiguous (push_event ev bi)"
  unfolding push_event_pop by (intro contiguous_pop contiguous_pushed assms) simp

lemma contiguous_evict_expired:
  assumes "contiguous bi" and "evict_expired sub now bi = Some bi'"
  shows "contiguous bi'"
  using assms(2) by (rule evict_expired_Some) (simp add: contiguous_pop [OF assms(1)] length_takeWhile_le)

lemma contiguous_new: "contiguous (bucket_inner_new now b cfg)"
  by (simp add: contiguous_def bucket_inner_new_def)

lemma contiguous_patch:
  assumes "contiguous bi"
    and "patch_first s (\<lambda>e. e\<lparr>ev_count := c, ev_first_seen := f, ev_last_seen := l\<rparr>) (bi_events bi) = Some es"
  shows "contiguous (bi\<lparr>bi_events := es, bi_dedupe_collapsed_count := n\<rparr>)"
  using assms(2) by (rule patch_first_Some) (use assms(1) in \<open>simp add: contiguous_def\<close>)

section \<open>Reachable managers\<close>

text \<open>
  The calls the daemon makes on a manager. Sequence numbers are left to the manager, as in
  \<open>Router::bucket_append\<close>, the only production caller of \<open>append\<close>.
\<close>

inductive mgr_step :: "dt_sub \<Rightarrow> bucket_manager \<Rightarrow> bucket_manager \<Rightarrow> bool" for sub where
  create: "create_bucket now m b cfg = Ok m' \<Longrightarrow> mgr_step sub m m'"
| remove: "mgr_step sub m (fst (drop_bucket m b))"
| append: "ev_seq ev = 0 \<Longrightarrow> append_event m b ev = Ok (m', s) \<Longrightarrow> mgr_step sub m m'"
| patch: "patch_event_aggregation m b s c f l = Ok m' \<Longrightarrow> mgr_step sub m m'"
| read: "events_since sub now m b rq = Ok (m', r) \<Longrightarrow> mgr_step sub m m'"
| summarise: "summary sub now m b = Ok (m', sm) \<Longrightarrow> mgr_step sub m m'"

inductive mgr_reach :: "dt_sub \<Rightarrow> bucket_manager \<Rightarrow> bool" for sub where
  start: "mgr_reach sub manager_new"
| step: "mgr_reach sub m \<Longrightarrow> mgr_step sub m m' \<Longrightarrow> mgr_reach sub m'"

definition all_contiguous :: "bucket_manager \<Rightarrow> bool" where
  "all_contiguous m \<longleftrightarrow> (\<forall>b bi. map_of m b = Some bi \<longrightarrow> contiguous bi)"

lemma all_contiguous_update:
  "all_contiguous m \<Longrightarrow> contiguous bi \<Longrightarrow> all_contiguous (AList.update b bi m)"
  by (simp add: all_contiguous_def update_conv')

lemma all_contiguous_evict:
  assumes "all_contiguous m" and "map_of m b = Some bi" and "evict_expired sub now bi = Some bi'"
  shows "all_contiguous (AList.update b bi' m)"
  using assms(1,2) contiguous_evict_expired [OF _ assms(3)]
  by (intro all_contiguous_update) (auto simp: all_contiguous_def)

lemma append_event_contiguous:
  assumes "all_contiguous m" and "ev_seq ev = 0" and "append_event m b ev = Ok (m', s)"
  shows "all_contiguous m'"
  using assms(3)
proof (rule append_event_Ok)
  fix bi
  assume bi: "map_of m b = Some bi" "assign_seq b ev bi = Ok s"
    and m': "m' = AList.update b (push_event (ev\<lparr>ev_seq := s\<rparr>) bi) m"
  have "contiguous (push_event (ev\<lparr>ev_seq := s\<rparr>) bi)"
    using assign_seq_Ok [OF bi(2)] assms(1,2) bi(1)
    by (intro contiguous_push_event) (auto simp: all_contiguous_def)
  then show ?thesis using assms(1) by (simp add: m' all_contiguous_update)
qed

lemma mgr_step_contiguous:
  "mgr_step sub m m' \<Longrightarrow> all_contiguous m \<Longrightarrow> all_contiguous m'"
proof (induction rule: mgr_step.induct)
  case (create now m b cfg m')
  then show ?case
    by (auto simp: create_bucket_def split: option.splits
        intro!: all_contiguous_update contiguous_new)
next
  case (remove m b)
  then show ?case by (auto simp: all_contiguous_def drop_bucket_def delete_conv' split: if_splits)
next
  case (append ev m b m' s)
  then show ?case by (blast intro: append_event_contiguous)
next
  case (patch m b s c f l m')
  then show ?case
    by (auto simp: patch_event_aggregation_def and_then_Ok_iff bucket_Ok_iff all_contiguous_def
        update_conv' split: option.splits if_splits intro!: contiguous_patch)
next
  case (read now m b rq m' r)
  then show ?case
    by (auto elim!: events_since_Ok intro: all_contiguous_evict)
next
  case (summarise now m b m' sm)
  then show ?case
    by (auto simp: summary_def and_then_Ok_iff bucket_Ok_iff split: option.splits
        intro: all_contiguous_evict)
qed

lemma mgr_step_inv: "mgr_step sub m m' \<Longrightarrow> manager_inv m \<Longrightarrow> manager_inv m'"
proof (induction rule: mgr_step.induct)
  case (append ev m b m' s)
  then show ?case using append_event_inv [of m ev b m' s] by simp
qed (auto intro: tc_inv)

lemma mgr_reach_inv: "mgr_reach sub m \<Longrightarrow> manager_inv m \<and> all_contiguous m"
proof (induction rule: mgr_reach.induct)
  case start
  show ?case by (simp add: manager_new_def manager_inv_def all_contiguous_def)
next
  case (step m m')
  then show ?case using mgr_step_inv mgr_step_contiguous by blast
qed

section \<open>Properties\<close>

text \<open>
  C4. In every state the daemon can bring a bucket manager to, every bucket satisfies its
  invariant: sequence numbers strictly increase and fit a \<open>u64\<close>, the published head, tail,
  count and last timestamp agree with the ring, the per-severity and per-kind counters
  equal what the ring holds, no bucket exceeds its capacity, and every stored event
  carries the bucket's id and satisfies the pointer invariant.
\<close>

theorem bucket_reachable_inv:
  assumes "mgr_reach sub m" and "map_of m b = Some bi"
  shows "bucket_inv bi \<and> bs_bucket_id (bi_state bi) = b"
  using mgr_reach_inv [OF assms(1)] assms(2) manager_invD by blast

text \<open>
  C5. Loss accounting. In every reachable state the surviving events of a bucket are
  numbered without a gap from \<open>dropped_count + 1\<close> to the tail, so a consumer can tell from
  the published counters exactly which events it can no longer read:
  \<open>dropped_count + event_count = tail_seq\<close>, and the head is the first undropped number.
\<close>

theorem bucket_loss_accounting:
  assumes "mgr_reach sub m" and "map_of m b = Some bi"
  shows "map ev_seq (bi_events bi) =
      [Suc (bs_dropped_count (bi_state bi)) ..< Suc (bs_tail_seq (bi_state bi))] \<and>
    bs_dropped_count (bi_state bi) + bs_event_count (bi_state bi) = bs_tail_seq (bi_state bi) \<and>
    (0 < bs_event_count (bi_state bi) \<longrightarrow>
      bs_head_seq (bi_state bi) = Suc (bs_dropped_count (bi_state bi)))"
proof (intro conjI impI)
  have c: "contiguous bi" and inv: "bucket_inv bi"
    using mgr_reach_inv [OF assms(1)] assms(2) by (auto simp: all_contiguous_def manager_inv_def)
  have n: "bs_event_count (bi_state bi) = length (bi_events bi)"
    using inv by (simp add: bucket_inv_def state_ok_def Let_def)
  show seqs: "map ev_seq (bi_events bi) =
      [Suc (bs_dropped_count (bi_state bi)) ..< Suc (bs_tail_seq (bi_state bi))]"
    using c by (simp only: contiguous_def)
  show "bs_dropped_count (bi_state bi) + bs_event_count (bi_state bi) = bs_tail_seq (bi_state bi)"
    using c n contiguous_length [OF c] by (simp add: contiguous_def)
  assume "0 < bs_event_count (bi_state bi)"
  then have ne: "bi_events bi \<noteq> []" using n by auto
  then have "bs_dropped_count (bi_state bi) < bs_tail_seq (bi_state bi)"
    using contiguous_length [OF c] by (cases "bi_events bi") auto
  then have "hd (map ev_seq (bi_events bi)) = Suc (bs_dropped_count (bi_state bi))"
    unfolding seqs by (subst upt_conv_Cons) auto
  with ne inv show "bs_head_seq (bi_state bi) = Suc (bs_dropped_count (bi_state bi))"
    by (simp add: bucket_inv_def state_ok_def Let_def hd_map)
qed

text \<open>
  A successful append assigns a number above the current tail (the next one when the
  caller leaves it to the manager), publishes it as the new tail, keeps the newest
  \<open>max_events\<close> events in order, counts every eviction, and touches no other bucket.
\<close>

lemma append_event_effect:
  assumes "manager_inv m" and "append_event m b ev = Ok (m', s)"
  shows "\<exists>bi bi'. map_of m b = Some bi \<and> map_of m' = (map_of m)(b \<mapsto> bi') \<and>
    bs_tail_seq (bi_state bi) < s \<and>
    (ev_seq ev = 0 \<longrightarrow> s = Suc (bs_tail_seq (bi_state bi))) \<and> (ev_seq ev \<noteq> 0 \<longrightarrow> s = ev_seq ev) \<and>
    bs_tail_seq (bi_state bi') = s \<and>
    (let n = Suc (length (bi_events bi)) - max_events (bi_config bi) in
     bi_events bi' = drop n (bi_events bi @ [ev\<lparr>ev_seq := s\<rparr>]) \<and>
     bs_dropped_count (bi_state bi') = sat_add_u64 (bs_dropped_count (bi_state bi)) n)"
  using assms(2)
proof (rule append_event_Ok)
  fix bi
  assume bi: "map_of m b = Some bi" "assign_seq b ev bi = Ok s"
    and m': "m' = AList.update b (push_event (ev\<lparr>ev_seq := s\<rparr>) bi) m"
  have "bs_dropped_count (bi_state bi) \<le> u64_max"
    using manager_invD [OF assms(1) bi(1)] by (simp add: bucket_inv_defs)
  with bi assign_seq_Ok [OF bi(2)] show ?thesis
    by (intro exI [of _ bi] exI [of _ "push_event (ev\<lparr>ev_seq := s\<rparr>) bi"])
      (auto simp: m' update_conv' push_event_dropped Let_def)
qed

section \<open>Sample managers\<close>

definition the_ok :: "('e, 'a) outcome \<Rightarrow> 'a" where
  "the_ok r = (case r of Ok a \<Rightarrow> a)"

definition wit_b :: bucket_id where
  "wit_b = BucketId ''b''"

definition wit_m0 :: bucket_manager where
  "wit_m0 = [(wit_b, bucket_inner_new 0 wit_b bucket_config_default)]"

definition wit_m1 :: bucket_manager where
  "wit_m1 = fst (the_ok (append_event wit_m0 wit_b (sample_event wit_b 0)))"

lemma wit_m0_reach: "mgr_reach sub wit_m0"
  by (rule mgr_reach.step [OF mgr_reach.start], rule mgr_step.create [of 0 _ wit_b bucket_config_default])
    (simp add: create_bucket_def manager_new_def wit_m0_def)

lemma wit_m1_append: "append_event wit_m0 wit_b (sample_event wit_b 0) = Ok (wit_m1, 1)"
  by (simp add: wit_m1_def the_ok_def append_event_def bucket_def wit_m0_def append_inner_def
      assign_seq_def checked_add_def bucket_inner_new_def u64_max_def)

lemma wit_m1_reach: "mgr_reach sub wit_m1"
  by (rule mgr_reach.step [OF wit_m0_reach], rule mgr_step.append [OF _ wit_m1_append]) simp

lemma wit_m1_lookup:
  "map_of wit_m1 wit_b = Some (push_event ((sample_event wit_b 0)\<lparr>ev_seq := 1\<rparr>)
     (bucket_inner_new 0 wit_b bucket_config_default))"
  by (simp add: wit_m1_def the_ok_def append_event_def bucket_def wit_m0_def append_inner_def
      assign_seq_def checked_add_def u64_max_def) (simp add: bucket_inner_new_def)

lemma wit_m1_events:
  "bi_events (push_event ((sample_event wit_b 0)\<lparr>ev_seq := 1\<rparr>)
     (bucket_inner_new 0 wit_b bucket_config_default)) = [(sample_event wit_b 0)\<lparr>ev_seq := 1\<rparr>]"
  by (simp add: bucket_inner_new_def bucket_config_default_def DEFAULT_MAX_EVENTS_def)

lemma wit_m1_inv: "manager_inv wit_m1"
  using mgr_reach_inv [OF wit_m1_reach] by simp

theorem bucket_reachable_inv_witness:
  "mgr_reach sample_sub wit_m1 \<and> (\<exists>bi. map_of wit_m1 wit_b = Some bi \<and> length (bi_events bi) = 1 \<and>
     bucket_inv bi)"
  using bucket_reachable_inv [OF wit_m1_reach wit_m1_lookup] wit_m1_reach wit_m1_lookup
    wit_m1_events by simp

theorem bucket_loss_accounting_witness:
  "\<exists>bi. mgr_reach sample_sub wit_m1 \<and> map_of wit_m1 wit_b = Some bi \<and>
     0 < bs_event_count (bi_state bi) \<and> bs_head_seq (bi_state bi) = Suc (bs_dropped_count (bi_state bi))"
proof -
  let ?bi = "push_event ((sample_event wit_b 0)\<lparr>ev_seq := 1\<rparr>) (bucket_inner_new 0 wit_b bucket_config_default)"
  have "0 < bs_event_count (bi_state ?bi)"
    by (simp add: push_event_def evict_for_capacity_def evict_for_capacity_loop.simps refresh_state_def
        count_event_def bucket_inner_new_def bucket_config_default_def DEFAULT_MAX_EVENTS_def)
  with bucket_loss_accounting [OF wit_m1_reach wit_m1_lookup] wit_m1_reach wit_m1_lookup
  show ?thesis by blast
qed

text \<open>
  An append of an event addressed to the bucket, with its number left to the manager,
  succeeds exactly when the bucket exists, the event satisfies the pointer invariant and
  the sequence space is not exhausted, and it never panics: an event of medium severity or
  above with neither a pointer nor a reason is refused, and the bucket is left alone.
\<close>

lemma append_event_total:
  assumes "manager_inv m" and "ev_bucket_id ev = b" and "ev_seq ev = 0"
  shows "((\<exists>m' s. append_event m b ev = Ok (m', s)) \<longleftrightarrow>
      pointer_inv ev \<and> (\<exists>bi. map_of m b = Some bi \<and> bs_tail_seq (bi_state bi) < u64_max)) \<and>
    append_event m b ev \<noteq> Panic \<and>
    (\<forall>e. append_event m b ev = Err e \<longrightarrow>
       e = NotFound b \<or> e = SeqExhausted b u64_max \<or> (\<exists>c. e = BCore c \<and> \<not> pointer_inv ev))"
proof (cases "map_of m b")
  case None
  with assms show ?thesis
    by (auto simp: append_event_def bucket_def validate_event_Ok_iff validate_event_def pointer_inv_def
        split: outcome.splits)
next
  case (Some bi)
  then have "bs_tail_seq (bi_state bi) \<le> u64_max"
    using manager_invD(1) [OF assms(1)] by (auto simp: bucket_inv_defs)
  then have "assign_seq b ev bi = (if bs_tail_seq (bi_state bi) < u64_max
      then Ok (Suc (bs_tail_seq (bi_state bi))) else Err (SeqExhausted b u64_max))"
    using assms(3) by (auto simp: assign_seq_def checked_add_def Let_def)
  with assms Some show ?thesis
    by (cases "validate_event ev")
      (auto simp: append_event_def bucket_def append_inner_def validate_event_Ok_iff
        validate_event_def pointer_inv_def split: if_splits)
qed

text \<open>
  A read returns, in order, the first \<open>limit\<close> events after the cursor that pass both
  filters, of those left when the expired front of the ring is evicted; the returned cursor
  is that of the last event returned (the request's own when there is none), \<open>has_more\<close>
  says whether the limit cut the page short, the page never exceeds \<open>MAX_READ_LIMIT\<close>, and
  only the bucket read is changed.
\<close>

lemma events_since_page:
  assumes "events_since sub now m b rq = Ok (m', r)"
  shows "\<exists>bi bi' cutoff. map_of m b = Some bi \<and>
    sub now (min (ttl (bi_config bi) div 1000000000) i64_max) = Some cutoff \<and>
    bi_events bi' = dropWhile (\<lambda>e. ev_timestamp e < cutoff) (bi_events bi) \<and>
    map_of m' = (map_of m)(b \<mapsto> bi') \<and>
    (let hits = filter (\<lambda>e. rq_cursor rq < ev_seq e \<and>
           field_ok (rq_severity_min rq, rq_kind_filter rq) e) (bi_events bi') in
     rp_events r = take (read_limit rq) hits \<and>
     rp_next_cursor r = (if hits = [] then rq_cursor rq else ev_seq (last (rp_events r))) \<and>
     (rp_has_more r \<longleftrightarrow> read_limit rq < length hits) \<and>
     length (rp_events r) \<le> MAX_READ_LIMIT)"
  using assms
proof (rule events_since_Ok)
  fix bi bi'
  assume bi: "map_of m b = Some bi" and ev: "evict_expired sub now bi = Some bi'"
    and m': "m' = AList.update b bi' m" and r: "r = read_inner b rq bi'"
  from ev obtain cutoff where
    c: "sub now (try_from_or_max i64_max (as_secs (ttl (bi_config bi)))) = Some cutoff"
    and bi': "bi' = refresh_state
       (pop_front_n (length (takeWhile (\<lambda>e. ev_timestamp e < cutoff) (bi_events bi))) bi)"
    by (rule evict_expired_Some)
  have p: "passes rq = (\<lambda>e. rq_cursor rq < ev_seq e \<and>
      field_ok (rq_severity_min rq, rq_kind_filter rq) e)"
    by (simp add: fun_eq_iff passes_field_ok)
  have "sub now (min (ttl (bi_config bi) div 1000000000) i64_max) = Some cutoff"
    using c by (auto simp: try_from_or_max_def as_secs_def min_def split: if_splits)
  moreover have "bi_events bi' = dropWhile (\<lambda>e. ev_timestamp e < cutoff) (bi_events bi)"
    by (simp add: bi' dropWhile_eq_drop)
  ultimately show ?thesis
    using bi read_limit_bounds [of rq]
    by (intro exI [of _ bi] exI [of _ bi'] exI [of _ cutoff])
      (auto simp: m' r update_conv' Let_def p read_inner_events read_inner_next read_inner_more)
qed

lemma wit_m1_read:
  "\<exists>m' r. events_since sample_sub 1 wit_m1 wit_b (read_request_new 0) = Ok (m', r)"
  by (simp add: events_since_def bucket_def wit_m1_lookup evict_expired_def sample_sub_def
      try_from_or_max_def as_secs_def bucket_inner_new_def bucket_config_default_def DEFAULT_TTL_def
      i64_max_def)

text \<open>
  C30. Paging is lossless: a consumer that follows the returned cursor until \<open>has_more\<close> is
  false receives every event after its cursor that passes its filters, each once and in
  order, whatever limit it asks for. The number of requests is finite.
\<close>

theorem read_pages_lossless:
  assumes "bucket_inv bi"
  shows "read_pages b rq bi = filter (passes rq) (bi_events bi)"
  using assms by (rule read_pages_eq)

theorem read_pages_lossless_witness:
  "\<exists>bi. map_of wit_m1 wit_b = Some bi \<and> length (read_pages wit_b (read_request_new 0) bi) = 1"
  using read_pages_lossless [OF manager_invD(1) [OF wit_m1_inv wit_m1_lookup], of wit_b "read_request_new 0"]
    wit_m1_lookup
  by (simp only: wit_m1_events) (simp add: passes_def read_request_new_def)

text \<open>
  The configuration's documentation lets \<open>Duration::MAX\<close> switch the age limit off. With
  any duration of \<open>i64::MAX\<close> seconds or more the cutoff is \<open>now - i64::MAX s\<close>; a time library
  whose subtraction panics there makes every read and every summary of the bucket panic.
\<close>

lemma unbounded_ttl_panics:
  assumes "map_of m b = Some bi" and "i64_max * 1000000000 \<le> ttl (bi_config bi)"
    and "sub now i64_max = None"
  shows "events_since sub now m b rq = Panic \<and> summary sub now m b = Panic"
proof -
  have "i64_max \<le> as_secs (ttl (bi_config bi))"
    using div_le_mono [OF assms(2), of 1000000000] by (simp add: as_secs_def)
  then have "try_from_or_max i64_max (as_secs (ttl (bi_config bi))) = i64_max"
    by (auto simp: try_from_or_max_def)
  with assms show ?thesis
    by (simp add: events_since_def summary_def bucket_def evict_expired_def)
qed

end
