(* ===== verification/TC_Wait.thy ===== *)
theory TC_Wait
  imports TC_Bucket
begin

text \<open>
  The blocking read \<open>bucket_wait\<close> of \<^verbatim>\<open>crates/core/src/bucket.rs\<close>. The call holds the bucket's
  lock only inside its reads and suspends on a \<open>tokio::sync::Notify\<close> in between, so other
  callers run between its critical sections: each section is one step of \<open>wait_step\<close>, and
  \<open>wait_sys\<close> interleaves those steps with every other operation of the manager. As tokio
  documents, a \<open>Notified\<close> receives the \<open>notify_waiters\<close> calls made after it was created, and
  \<open>timeout\<close> polls the inner future before the timer.
\<close>

section \<open>The waiter\<close>

record bucket_wait_request =
  wq_cursor :: nat
  wq_timeout :: duration
  wq_severity_min :: "severity option"
  wq_kind_filter :: "string option"
  wq_limit :: "nat option"

definition wait_request_new :: "nat \<Rightarrow> duration \<Rightarrow> bucket_wait_request" where
  "wait_request_new c t =
     \<lparr>wq_cursor = c, wq_timeout = t, wq_severity_min = None, wq_kind_filter = None, wq_limit = None\<rparr>"

text \<open>
  Where a call stands between its critical sections: before the handle snapshot, before the
  first read, before \<open>notify.notified()\<close>, suspended on it (with whether \<open>notify_waiters\<close> was
  called since), before the second read, past the timeout and before \<open>state()\<close>, returned.
\<close>

datatype wait_pc =
    WStart
  | WRead
  | WArm
  | WWait bool
  | WReread
  | WElapsed
  | WDone "(bucket_error, bucket_wait_response) outcome"

definition wait_read :: "bucket_wait_request \<Rightarrow> bucket_read_request" where
  "wait_read q = \<lparr>rq_cursor = wq_cursor q, rq_severity_min = wq_severity_min q,
     rq_kind_filter = wq_kind_filter q, rq_limit = wq_limit q\<rparr>"

definition wait_response :: "bucket_id \<Rightarrow> bucket_wait_request \<Rightarrow> bucket_read_response \<Rightarrow> bucket_wait_response" where
  "wait_response b q r =
     \<lparr>wr_bucket_id = b, wr_cursor_in = wq_cursor q, wr_next_cursor = rp_next_cursor r,
      wr_heartbeat = (rp_events r = []), wr_events = rp_events r,
      wr_dropped_count = rp_dropped_count r\<rparr>"

definition wait_heartbeat :: "bucket_id \<Rightarrow> bucket_wait_request \<Rightarrow> bucket_state \<Rightarrow> bucket_wait_response" where
  "wait_heartbeat b q st =
     \<lparr>wr_bucket_id = b, wr_cursor_in = wq_cursor q,
      wr_next_cursor = max (bs_tail_seq st) (wq_cursor q), wr_heartbeat = True, wr_events = [],
      wr_dropped_count = bs_dropped_count st\<rparr>"

text \<open>
  One step of the call itself. A suspended call proceeds to its second read once notified,
  and otherwise only when its timer fires.
\<close>

fun wait_step ::
  "dt_sub \<Rightarrow> timestamp \<Rightarrow> bucket_id \<Rightarrow> bucket_wait_request \<Rightarrow> wait_pc \<Rightarrow> bucket_manager \<Rightarrow>
     wait_pc \<times> bucket_manager" where
  "wait_step sub now b q WStart m =
     (case bucket m b of
        Ok _ \<Rightarrow> (WRead, m) | Err e \<Rightarrow> (WDone (Err e), m) | Panic \<Rightarrow> (WDone Panic, m))"
| "wait_step sub now b q WRead m =
     (case events_since sub now m b (wait_read q) of
        Ok (m', r) \<Rightarrow>
          (if rp_events r \<noteq> [] then WDone (Ok (wait_response b q r)) else WArm, m')
      | Err e \<Rightarrow> (WDone (Err e), m) | Panic \<Rightarrow> (WDone Panic, m))"
| "wait_step sub now b q WArm m = (WWait False, m)"
| "wait_step sub now b q (WWait woken) m = (if woken then WReread else WElapsed, m)"
| "wait_step sub now b q WReread m =
     (case events_since sub now m b (wait_read q) of
        Ok (m', r) \<Rightarrow> (WDone (Ok (wait_response b q r)), m')
      | Err e \<Rightarrow> (WDone (Err e), m) | Panic \<Rightarrow> (WDone Panic, m))"
| "wait_step sub now b q WElapsed m =
     (case state_of m b of
        Ok st \<Rightarrow> (WDone (Ok (wait_heartbeat b q st)), m)
      | Err e \<Rightarrow> (WDone (Err e), m) | Panic \<Rightarrow> (WDone Panic, m))"
| "wait_step sub now b q (WDone r) m = (WDone r, m)"

text \<open>\<open>notify_waiters\<close> reaches a call that has created its \<open>Notified\<close>, and no other.\<close>

fun notify_waiters :: "wait_pc \<Rightarrow> wait_pc" where
  "notify_waiters (WWait _) = WWait True"
| "notify_waiters pc = pc"

fun returned :: "wait_pc \<Rightarrow> bool" where
  "returned (WDone _) \<longleftrightarrow> True"
| "returned _ \<longleftrightarrow> False"

text \<open>
  The two windows in which the call listens to no notification although it has not yet
  looked at the bucket for the last time.
\<close>

fun deaf :: "wait_pc \<Rightarrow> bool" where
  "deaf WArm \<longleftrightarrow> True"
| "deaf WElapsed \<longleftrightarrow> True"
| "deaf _ \<longleftrightarrow> False"

text \<open>
  The call interleaved with every other caller of the manager. \<open>race\<close> says whether others
  may append to the awaited bucket inside the deaf windows. Nothing in production drops a
  bucket.
\<close>

inductive wait_sys ::
  "dt_sub \<Rightarrow> bool \<Rightarrow> bucket_id \<Rightarrow> bucket_wait_request \<Rightarrow>
     wait_pc \<times> bucket_manager \<Rightarrow> wait_pc \<times> bucket_manager \<Rightarrow> bool"
  for sub race b q where
  own: "wait_step sub now b q pc m = (pc', m') \<Longrightarrow> \<not> returned pc \<Longrightarrow>
     wait_sys sub race b q (pc, m) (pc', m')"
| append: "ev_seq ev = 0 \<Longrightarrow> append_event m b' ev = Ok (m', s) \<Longrightarrow> \<not> returned pc \<Longrightarrow>
     b' = b \<and> deaf pc \<longrightarrow> race \<Longrightarrow>
     wait_sys sub race b q (pc, m) (if b' = b then notify_waiters pc else pc, m')"
| patch: "patch_event_aggregation m b' s c f l = Ok m' \<Longrightarrow> \<not> returned pc \<Longrightarrow>
     wait_sys sub race b q (pc, m) (if b' = b then notify_waiters pc else pc, m')"
| create: "create_bucket now m b' cfg = Ok m' \<Longrightarrow> \<not> returned pc \<Longrightarrow>
     wait_sys sub race b q (pc, m) (pc, m')"
| read: "events_since sub now m b' rq = Ok (m', r) \<Longrightarrow> \<not> returned pc \<Longrightarrow>
     wait_sys sub race b q (pc, m) (pc, m')"
| summarise: "summary sub now m b' = Ok (m', sm) \<Longrightarrow> \<not> returned pc \<Longrightarrow>
     wait_sys sub race b q (pc, m) (pc, m')"

inductive wait_run ::
  "dt_sub \<Rightarrow> bool \<Rightarrow> bucket_id \<Rightarrow> bucket_wait_request \<Rightarrow> bucket_manager \<Rightarrow>
     wait_pc \<times> bucket_manager \<Rightarrow> bool"
  for sub race b q m0 where
  start: "wait_run sub race b q m0 (WStart, m0)"
| step: "wait_run sub race b q m0 s \<Longrightarrow> wait_sys sub race b q s s' \<Longrightarrow> wait_run sub race b q m0 s'"

inductive_cases wait_sysE: "wait_sys sub race b q (pc, m) (pc', m')"

section \<open>What a run keeps\<close>

lemma state_of_Ok_iff: "state_of m b = Ok st \<longleftrightarrow> (\<exists>bi. map_of m b = Some bi \<and> st = bi_state bi)"
  by (auto simp: state_of_def and_then_Ok_iff bucket_Ok_iff)

lemma wait_step_inv:
  "wait_step sub now b q pc m = (pc', m') \<Longrightarrow> manager_inv m \<Longrightarrow> manager_inv m'"
  by (cases pc) (auto split: outcome.splits if_splits intro: tc_inv)

lemma wait_sys_inv: "wait_sys sub race b q (pc, m) (pc', m') \<Longrightarrow> manager_inv m \<Longrightarrow> manager_inv m'"
proof (erule wait_sysE)
  fix ev b1 s
  assume "manager_inv m" "ev_seq ev = 0" "append_event m b1 ev = Ok (m', s)"
  then show "manager_inv m'" using append_event_inv [of m ev b1 m' s] by simp
qed (auto intro: tc_inv wait_step_inv)

lemma wait_run_inv:
  assumes "wait_run sub race b q m0 s" and "manager_inv m0"
  shows "manager_inv (snd s)"
  using assms
proof (induction rule: wait_run.induct)
  case (step s s')
  then show ?case by (cases s; cases s') (auto intro: wait_sys_inv)
qed simp

subsection \<open>Every answer is sound\<close>

definition answer_ok :: "bucket_id \<Rightarrow> bucket_wait_request \<Rightarrow> bucket_wait_response \<Rightarrow> bool" where
  "answer_ok b q r \<longleftrightarrow>
     wr_bucket_id r = b \<and> wr_cursor_in r = wq_cursor q \<and> wq_cursor q \<le> wr_next_cursor r \<and>
     (wr_heartbeat r \<longleftrightarrow> wr_events r = []) \<and> length (wr_events r) \<le> read_limit (wait_read q) \<and>
     sorted_wrt (<) (map ev_seq (wr_events r)) \<and>
     (\<forall>e \<in> set (wr_events r). passes (wait_read q) e \<and> ev_seq e \<le> wr_next_cursor r)"

fun pc_answer :: "(bucket_wait_response \<Rightarrow> bool) \<Rightarrow> wait_pc \<Rightarrow> bool" where
  "pc_answer P (WDone (Ok r)) \<longleftrightarrow> P r"
| "pc_answer P _ \<longleftrightarrow> True"

lemma pc_answer_notify [simp]: "pc_answer P (if c then notify_waiters pc else pc) = pc_answer P pc"
  by (cases pc) auto

lemma wait_read_mk: "wait_read q = mk_request (wq_cursor q) (wq_severity_min q, wq_kind_filter q) (wq_limit q)"
  by (simp add: wait_read_def mk_request_def)

lemma wait_response_ok:
  assumes "manager_inv m" and "events_since sub now m b (wait_read q) = Ok (m', r)"
  shows "answer_ok b q (wait_response b q r)"
  using assms(2)
proof (rule events_since_Ok)
  fix bi bi'
  assume bi: "map_of m b = Some bi" "evict_expired sub now bi = Some bi'" "m' = AList.update b bi' m"
    and r: "r = read_inner b (wait_read q) bi'"
  have inv: "bucket_inv bi'"
    using bi assms(1) by (metis evict_expired_inv manager_invD(1))
  let ?q = "(wq_severity_min q, wq_kind_filter q)"
  note r' = r [unfolded wait_read_mk]
  have "passes (wait_read q) e \<and> ev_seq e \<le> rp_next_cursor r" if "e \<in> set (rp_events r)" for e
    using bucket_log.page_after [of e b "wq_cursor q" ?q "wq_limit q" bi']
      bucket_log.page_le_next [OF inv, of e b "wq_cursor q" ?q "wq_limit q"] that
    by (simp add: r' wait_read_mk passes_mk_request)
  moreover have "sorted_wrt (<) (map ev_seq (rp_events r))"
    unfolding r' by (rule bucket_log.page_increasing [OF inv])
  moreover have "wq_cursor q \<le> rp_next_cursor r"
    unfolding r' by (rule bucket_log.next_ge)
  moreover have "length (rp_events r) \<le> read_limit (wait_read q)"
    by (simp add: r read_inner_events)
  ultimately show ?thesis by (simp add: answer_ok_def wait_response_def)
qed

lemma wait_heartbeat_ok: "answer_ok b q (wait_heartbeat b q st)"
  by (simp add: answer_ok_def wait_heartbeat_def)

lemma wait_step_answer:
  assumes "wait_step sub now b q pc m = (pc', m')" and "manager_inv m" and "\<not> returned pc"
  shows "pc_answer (answer_ok b q) pc'"
  using assms
  by (cases pc)
    (auto split: outcome.splits if_splits intro: wait_response_ok wait_heartbeat_ok)

lemma wait_run_answer:
  assumes "wait_run sub race b q m0 s" and "manager_inv m0"
  shows "pc_answer (answer_ok b q) (fst s)"
  using assms
proof (induction rule: wait_run.induct)
  case (step s s')
  have "manager_inv (snd s)" using step.hyps(1) step.prems by (rule wait_run_inv)
  with step show ?case
    by (cases s; cases s') (auto elim!: wait_sysE dest: wait_step_answer)
qed simp

subsection \<open>Without the race nothing is skipped\<close>

definition quiet :: "bucket_id \<Rightarrow> bucket_read_request \<Rightarrow> bucket_manager \<Rightarrow> bool" where
  "quiet b rq m \<longleftrightarrow> (\<forall>bi. map_of m b = Some bi \<longrightarrow> (\<forall>e \<in> set (bi_events bi). \<not> passes rq e))"

text \<open>Every matching event up to the returned cursor was delivered.\<close>

definition complete :: "bucket_id \<Rightarrow> bucket_read_request \<Rightarrow> bucket_manager \<Rightarrow> bucket_wait_response \<Rightarrow> bool" where
  "complete b rq m r \<longleftrightarrow>
     (\<forall>bi. map_of m b = Some bi \<longrightarrow>
        (\<forall>e \<in> set (bi_events bi). passes rq e \<and> ev_seq e \<le> wr_next_cursor r \<longrightarrow> e \<in> set (wr_events r)))"

fun no_skip :: "bucket_id \<Rightarrow> bucket_read_request \<Rightarrow> wait_pc \<Rightarrow> bucket_manager \<Rightarrow> bool" where
  "no_skip b rq WArm m = quiet b rq m"
| "no_skip b rq (WWait False) m = quiet b rq m"
| "no_skip b rq WElapsed m = quiet b rq m"
| "no_skip b rq (WDone (Ok r)) m = complete b rq m r"
| "no_skip b rq _ m = True"

lemma quiet_evict:
  assumes "quiet b rq m" and "map_of m b' = Some bi" and "evict_expired sub now bi = Some bi'"
  shows "quiet b rq (AList.update b' bi' m)"
proof -
  have "set (bi_events bi') \<subseteq> set (bi_events bi)"
    using assms(3) by (rule evict_expired_Some) (auto dest: in_set_dropD)
  with assms(1,2) show ?thesis by (auto simp: quiet_def update_conv')
qed

lemma passes_patched [simp]:
  "passes rq (e\<lparr>ev_count := c, ev_first_seen := f, ev_last_seen := l\<rparr>) = passes rq e"
  by (simp add: passes_def split: option.splits)

lemma quiet_patch:
  assumes "quiet b rq m" and "patch_event_aggregation m b' s c f l = Ok m'"
  shows "quiet b rq m'"
proof -
  from assms(2) obtain bi es where bi: "map_of m b' = Some bi"
    and es: "patch_first s (\<lambda>e. e\<lparr>ev_count := c, ev_first_seen := Some f, ev_last_seen := Some l\<rparr>)
      (bi_events bi) = Some es"
    and m': "m' = AList.update b' (bi\<lparr>bi_events := es,
      bi_dedupe_collapsed_count := sat_add_u64 (bi_dedupe_collapsed_count bi) 1\<rparr>) m"
    by (auto simp: patch_event_aggregation_def and_then_Ok_iff bucket_Ok_iff split: option.splits)
  have "\<forall>e \<in> set es. \<exists>e' \<in> set (bi_events bi). passes rq e \<longleftrightarrow> passes rq e'"
    using es by (rule patch_first_Some) (simp add: bex_Un ball_Un, blast)
  with assms(1) bi show ?thesis by (auto simp: m' quiet_def update_conv')
qed

lemma quiet_append_other:
  "quiet b rq m \<Longrightarrow> append_event m b' ev = Ok (m', s) \<Longrightarrow> b' \<noteq> b \<Longrightarrow> quiet b rq m'"
  by (auto simp: quiet_def update_conv' elim!: append_event_Ok)

lemma quiet_create: "quiet b rq m \<Longrightarrow> create_bucket now m b' cfg = Ok m' \<Longrightarrow> quiet b rq m'"
  by (auto simp: create_bucket_def quiet_def update_conv' bucket_inner_new_def split: option.splits if_splits)

lemma quiet_read: "quiet b rq m \<Longrightarrow> events_since sub now m b' rq' = Ok (m', r) \<Longrightarrow> quiet b rq m'"
  by (auto elim!: events_since_Ok intro: quiet_evict)

lemma quiet_summary: "quiet b rq m \<Longrightarrow> summary sub now m b' = Ok (m', r) \<Longrightarrow> quiet b rq m'"
  by (auto simp: summary_def and_then_Ok_iff bucket_Ok_iff split: option.splits intro: quiet_evict)

lemma events_since_quiet:
  assumes "events_since sub now m b rq = Ok (m', r)" and "rp_events r = []"
  shows "quiet b rq m'"
  using assms(1)
proof (rule events_since_Ok)
  fix bi bi'
  assume "m' = AList.update b bi' m" and "r = read_inner b rq bi'"
  with assms(2) read_limit_bounds(1) [of rq] show ?thesis
    by (simp add: quiet_def update_conv' read_inner_events filter_empty_conv)
qed

lemma wait_response_complete:
  assumes "manager_inv m" and "events_since sub now m b (wait_read q) = Ok (m', r)"
  shows "complete b (wait_read q) m' (wait_response b q r)"
  using assms(2)
proof (rule events_since_Ok)
  fix bi bi'
  assume bi: "map_of m b = Some bi" "evict_expired sub now bi = Some bi'"
    and m': "m' = AList.update b bi' m" and r: "r = read_inner b (wait_read q) bi'"
  have "bucket_inv bi'"
    using bi assms(1) by (metis evict_expired_inv manager_invD(1))
  from read_inner_chain [OF this, of "wait_read q" b]
  have "e \<in> set (rp_events r)"
    if "e \<in> set (bi_events bi')" "passes (wait_read q) e" "ev_seq e \<le> rp_next_cursor r" for e
  proof -
    have "e \<in> set (filter (passes (wait_read q)) (bi_events bi'))" using that by simp
    then have "e \<in> set (rp_events r) \<or>
        passes ((wait_read q)\<lparr>rq_cursor := rp_next_cursor r\<rparr>) e"
      unfolding read_inner_chain [OF \<open>bucket_inv bi'\<close>, of "wait_read q" b] r by auto
    with that(3) show ?thesis by (auto simp: passes_def)
  qed
  then show ?thesis by (simp add: complete_def m' update_conv' wait_response_def)
qed

lemma quiet_complete: "quiet b rq m \<Longrightarrow> complete b rq m r"
  by (auto simp: quiet_def complete_def)

lemma wait_step_no_skip:
  assumes "wait_step sub now b q pc m = (pc', m')" and "manager_inv m" and "no_skip b (wait_read q) pc m"
    and "\<not> returned pc"
  shows "no_skip b (wait_read q) pc' m'"
proof (cases pc)
  case (WWait w)
  with assms show ?thesis by (cases w) auto
qed (use assms in \<open>auto split: outcome.splits if_splits
      intro: wait_response_complete events_since_quiet quiet_complete\<close>)

lemma no_skip_mono:
  assumes "\<And>rq. quiet b rq m \<Longrightarrow> quiet b rq m'" and "no_skip b rq pc m" and "\<not> returned pc"
  shows "no_skip b rq pc m'" "no_skip b rq (notify_waiters pc) m'"
  using assms by (induction b rq pc m rule: no_skip.induct) auto

lemma no_skip_awake: "\<not> deaf pc \<Longrightarrow> \<not> returned pc \<Longrightarrow> no_skip b rq (notify_waiters pc) m"
  by (cases pc) auto

lemma wait_sys_no_skip:
  assumes "wait_sys sub False b q (pc, m) (pc', m')" and "manager_inv m"
    and "no_skip b (wait_read q) pc m"
  shows "no_skip b (wait_read q) pc' m'"
  using assms(1)
proof (cases rule: wait_sys.cases)
  case (own now)
  then show ?thesis using wait_step_no_skip assms(2,3) by blast
next
  case (append ev b' s)
  then show ?thesis
    using no_skip_awake [of pc] no_skip_mono(1) [OF quiet_append_other assms(3)] by (cases "b' = b") auto
next
  case (patch b' s c f l)
  then show ?thesis using no_skip_mono [OF quiet_patch assms(3)] by simp
next
  case (create now b' cfg)
  then show ?thesis using no_skip_mono(1) [OF quiet_create assms(3)] by simp
next
  case (read now b' rq r)
  then show ?thesis using no_skip_mono(1) [OF quiet_read assms(3)] by simp
next
  case (summarise now b' sm)
  then show ?thesis using no_skip_mono(1) [OF quiet_summary assms(3)] by simp
qed

lemma wait_run_no_skip:
  assumes "wait_run sub False b q m0 s" and "manager_inv m0"
  shows "no_skip b (wait_read q) (fst s) (snd s)"
  using assms
proof (induction rule: wait_run.induct)
  case (step s s')
  have "manager_inv (snd s)" using step.hyps(1) step.prems by (rule wait_run_inv)
  with step show ?case
    by (cases s; cases s') (auto intro: wait_sys_no_skip)
qed simp

subsection \<open>A call that has been woken\<close>

text \<open>A woken call answers with what it finds at its second read, whatever happens before it.\<close>

fun awake :: "bucket_id \<Rightarrow> bucket_read_request \<Rightarrow> wait_pc \<times> bucket_manager \<Rightarrow> bool" where
  "awake b rq (WWait woken, m) \<longleftrightarrow> woken"
| "awake b rq (WReread, m) \<longleftrightarrow> True"
| "awake b rq (WDone (Ok r), m) \<longleftrightarrow>
     complete b rq m r \<and> (wr_heartbeat r \<longleftrightarrow> wr_events r = []) \<and> (wr_events r = [] \<longrightarrow> quiet b rq m)"
| "awake b rq (WDone _, m) \<longleftrightarrow> True"
| "awake b rq _ \<longleftrightarrow> False"

lemma wait_step_awake:
  assumes "wait_step sub now b q pc m = (pc', m')" and "manager_inv m" and "awake b (wait_read q) (pc, m)"
    and "\<not> returned pc"
  shows "awake b (wait_read q) (pc', m')"
proof (cases pc)
  case WReread
  show ?thesis
  proof (cases "events_since sub now m b (wait_read q)")
    case (Ok a)
    obtain m1 r where a: "a = (m1, r)" by fastforce
    with Ok have es: "events_since sub now m b (wait_read q) = Ok (m1, r)" by simp
    with assms(1) WReread have "pc' = WDone (Ok (wait_response b q r))" "m' = m1" by auto
    with wait_response_complete [OF assms(2) es] events_since_quiet [OF es] show ?thesis
      by (simp add: wait_response_def)
  qed (use assms(1) WReread in auto)
qed (use assms in auto)

lemma wait_sys_awake:
  "wait_sys sub race b q s s' \<Longrightarrow> manager_inv (snd s) \<Longrightarrow> awake b (wait_read q) s \<Longrightarrow> awake b (wait_read q) s'"
proof (induction rule: wait_sys.induct)
  case (own now pc m pc' m')
  then show ?case using wait_step_awake by simp
next
  case (append ev m b' m' s pc)
  then show ?case by (cases pc) auto
next
  case (patch m b' s c f l m' pc)
  then show ?case by (cases pc) auto
next
  case (create now m b' cfg m' pc)
  then show ?case by (cases pc) auto
next
  case (read now m b' rq m' r pc)
  then show ?case by (cases pc) auto
next
  case (summarise now m b' m' sm pc)
  then show ?case by (cases pc) auto
qed

lemma wait_path_awake:
  assumes "(wait_sys sub race b q)\<^sup>*\<^sup>* s s'" and "manager_inv (snd s)" and "awake b (wait_read q) s"
  shows "manager_inv (snd s') \<and> awake b (wait_read q) s'"
  using assms
proof (induction rule: rtranclp_induct)
  case (step s1 s2)
  then have "manager_inv (snd s1)" "awake b (wait_read q) s1" by simp_all
  with step.hyps(2) wait_sys_awake wait_sys_inv show ?case by (cases s1; cases s2) auto
qed simp

section \<open>Properties of the wait\<close>

text \<open>A read of the sample manager with one event, and a run of the fast path on it.\<close>

lemma wit_read:
  "\<exists>m' rp bi. events_since sample_sub 1 wit_m1 wit_b (wait_read (wait_request_new 0 t)) = Ok (m', rp) \<and>
     map_of m' wit_b = Some bi \<and> bi_events bi = [(sample_event wit_b 0)\<lparr>ev_seq := 1\<rparr>] \<and>
     rp_events rp = [(sample_event wit_b 0)\<lparr>ev_seq := 1\<rparr>] \<and> rp_next_cursor rp = 1"
proof -
  let ?q = "wait_request_new 0 t"
  let ?bi = "push_event ((sample_event wit_b 0)\<lparr>ev_seq := 1\<rparr>) (bucket_inner_new 0 wit_b bucket_config_default)"
  have "evict_expired_loop c ?bi = ?bi" if "c \<le> 0" for c
    by (subst evict_expired_loop.simps, subst wit_m1_events) (use that in simp)
  then have "evict_expired sample_sub 1 ?bi = Some (refresh_state ?bi)"
    by (simp add: evict_expired_def sample_sub_def try_from_or_max_def as_secs_def i64_max_def)
      (simp add: bucket_inner_new_def bucket_config_default_def DEFAULT_TTL_def)
  then have es: "events_since sample_sub 1 wit_m1 wit_b (wait_read ?q) =
      Ok (AList.update wit_b (refresh_state ?bi) wit_m1, read_inner wit_b (wait_read ?q) (refresh_state ?bi))"
    by (simp add: events_since_def bucket_def wit_m1_lookup)
  have ev: "bi_events (refresh_state ?bi) = [(sample_event wit_b 0)\<lparr>ev_seq := 1\<rparr>]"
    using wit_m1_events by (simp only: refresh_state_frame)
  then have r: "rp_events (read_inner wit_b (wait_read ?q) (refresh_state ?bi)) =
      [(sample_event wit_b 0)\<lparr>ev_seq := 1\<rparr>]"
    using read_limit_bounds(1) [of "wait_read ?q"]
    by (simp only: read_inner_events) (simp add: wait_read_def wait_request_new_def passes_def)
  show ?thesis
  proof (intro exI conjI)
    show "map_of (AList.update wit_b (refresh_state ?bi) wit_m1) wit_b = Some (refresh_state ?bi)"
      by (simp add: update_conv')
    show "rp_next_cursor (read_inner wit_b (wait_read ?q) (refresh_state ?bi)) = 1"
      by (simp add: read_inner_next r del: One_nat_def)
  qed (fact es ev r)+
qed

lemma wit_wait_run:
  obtains r m bi where "wait_run sample_sub race wit_b (wait_request_new 0 t) wit_m1 (WDone (Ok r), m)"
    "map_of m wit_b = Some bi" "bi_events bi = [(sample_event wit_b 0)\<lparr>ev_seq := 1\<rparr>]"
    "wr_next_cursor r = 1"
proof -
  let ?q = "wait_request_new 0 t"
  let ?run = "wait_run sample_sub race wit_b ?q wit_m1"
  obtain m rp bi where rd: "events_since sample_sub 1 wit_m1 wit_b (wait_read ?q) = Ok (m, rp)"
    "map_of m wit_b = Some bi" "bi_events bi = [(sample_event wit_b 0)\<lparr>ev_seq := 1\<rparr>]"
    "rp_events rp = [(sample_event wit_b 0)\<lparr>ev_seq := 1\<rparr>]" "rp_next_cursor rp = 1"
    using wit_read [of t] by blast
  have "?run (WRead, wit_m1)"
    by (rule wait_run.step [OF wait_run.start], rule wait_sys.own [where now = 0])
      (simp_all add: bucket_def wit_m1_lookup)
  then have "?run (WDone (Ok (wait_response wit_b ?q rp)), m)"
    by (rule wait_run.step, intro wait_sys.own [where now = 1]) (simp_all add: rd(1,4) del: One_nat_def)
  then show ?thesis by (rule that [OF _ rd(2,3)]) (simp add: wait_response_def rd(5))
qed

text \<open>
  Whatever other callers do meanwhile, an answer of \<open>bucket_wait\<close> holds only events
  after the request's cursor that pass its filters, in order and within the limit, none of
  them above the returned cursor; it is a heartbeat exactly when it holds no event; and
  the cursor never goes back.
\<close>

lemma bucket_wait_sound:
  assumes "manager_inv m0" and "wait_run sub race b q m0 (WDone (Ok r), m)"
  shows "answer_ok b q r"
  using wait_run_answer [OF assms(2,1)] by simp

text \<open>
  C7. If nobody appends to the bucket between the first read and the creation of the
  \<open>Notified\<close>, nor between the timeout and the look at the tail, then every event at or below
  the returned cursor that the request asks for is in the answer: a client that continues
  from \<open>next_cursor\<close> misses nothing.
\<close>

theorem bucket_wait_complete_without_race:
  assumes "manager_inv m0" and "wait_run sub False b q m0 (WDone (Ok r), m)"
    and "map_of m b = Some bi" and "e \<in> set (bi_events bi)"
    and "passes (wait_read q) e" and "ev_seq e \<le> wr_next_cursor r"
  shows "e \<in> set (wr_events r)"
  using wait_run_no_skip [OF assms(2,1)] assms(3-6) by (simp add: complete_def)

theorem bucket_wait_complete_without_race_witness:
  "\<exists>r m. wait_run sample_sub False wit_b (wait_request_new 0 7) wit_m1 (WDone (Ok r), m) \<and>
     (sample_event wit_b 0)\<lparr>ev_seq := 1\<rparr> \<in> set (wr_events r)"
proof -
  obtain r m bi where r: "wait_run sample_sub False wit_b (wait_request_new 0 7) wit_m1 (WDone (Ok r), m)"
    and bi: "map_of m wit_b = Some bi" "bi_events bi = [(sample_event wit_b 0)\<lparr>ev_seq := 1\<rparr>]"
    and n: "wr_next_cursor r = 1" by (rule wit_wait_run)
  have "passes (wait_read (wait_request_new 0 7)) ((sample_event wit_b 0)\<lparr>ev_seq := 1\<rparr>)"
    by (simp add: passes_def wait_read_def wait_request_new_def)
  with bucket_wait_complete_without_race [OF wit_m1_inv r bi(1)] r bi(2) n show ?thesis by fastforce
qed

text \<open>
  C6. An append in the window before the \<open>Notified\<close> exists is lost. Take any run that has made its
  first read, found nothing, and not yet created its \<open>Notified\<close>, and let another caller append a
  matching event to the bucket right there. The call is not woken; left alone until its timer
  fires, it answers with an empty heartbeat whose cursor is already past the event, although the
  event is in the bucket. No read from that cursor returns it, whatever its filters.
\<close>

theorem bucket_wait_skips_event:
  assumes "manager_inv m0" and "wait_run sub True b q m0 (WArm, m)"
    and "map_of m b = Some bi" and "0 < max_events (bi_config bi)"
    and "append_event m b ev = Ok (m1, s)" and "ev_seq ev = 0" and "passes (wait_read q) (ev\<lparr>ev_seq := s\<rparr>)"
  shows "\<exists>r bi1. wait_sys sub True b q (WArm, m) (WArm, m1) \<and>
    wait_step sub n1 b q WArm m1 = (WWait False, m1) \<and> wait_step sub n2 b q (WWait False) m1 = (WElapsed, m1) \<and>
    wait_step sub n3 b q WElapsed m1 = (WDone (Ok r), m1) \<and> wait_run sub True b q m0 (WDone (Ok r), m1) \<and>
    wr_heartbeat r \<and> wr_events r = [] \<and> map_of m1 b = Some bi1 \<and> ev\<lparr>ev_seq := s\<rparr> \<in> set (bi_events bi1) \<and>
    (\<forall>rq. rq_cursor rq = wr_next_cursor r \<longrightarrow> ev\<lparr>ev_seq := s\<rparr> \<notin> set (rp_events (read_inner b rq bi1)))"
proof -
  have inv: "manager_inv m" using wait_run_inv [OF assms(2,1)] by simp
  from append_event_effect [OF inv assms(5)] assms(3) obtain bi1 where
    bi1: "map_of m1 b = Some bi1" "bs_tail_seq (bi_state bi1) = s"
    "bi_events bi1 = drop (Suc (length (bi_events bi)) - max_events (bi_config bi)) (bi_events bi @ [ev\<lparr>ev_seq := s\<rparr>])"
    by (auto simp: Let_def)
  let ?r = "wait_heartbeat b q (bi_state bi1)"
  have held: "ev\<lparr>ev_seq := s\<rparr> \<in> set (bi_events bi1)" using assms(4) by (simp add: bi1(3))
  have cur: "s \<le> wr_next_cursor ?r" using bi1(2) by (simp add: wait_heartbeat_def)
  have lost: "ev\<lparr>ev_seq := s\<rparr> \<notin> set (rp_events (read_inner b rq bi1))" if "rq_cursor rq = wr_next_cursor ?r" for rq
    using cur that by (auto simp: read_inner_events passes_def dest!: in_set_takeD)
  have app: "wait_sys sub True b q (WArm, m) (WArm, m1)"
    using wait_sys.append [OF assms(6,5), of WArm b True sub q] by simp
  have steps: "wait_step sub n1 b q WArm m1 = (WWait False, m1)" "wait_step sub n2 b q (WWait False) m1 = (WElapsed, m1)"
    "wait_step sub n3 b q WElapsed m1 = (WDone (Ok ?r), m1)"
    using bi1(1) by (simp_all add: state_of_def bucket_def)
  have "wait_run sub True b q m0 (WArm, m1)" by (rule wait_run.step [OF assms(2) app])
  then have "wait_run sub True b q m0 (WWait False, m1)" by (rule wait_run.step) (rule wait_sys.own [OF steps(1)], simp)
  then have "wait_run sub True b q m0 (WElapsed, m1)" by (rule wait_run.step) (rule wait_sys.own [OF steps(2)], simp)
  then have "wait_run sub True b q m0 (WDone (Ok ?r), m1)" by (rule wait_run.step) (rule wait_sys.own [OF steps(3)], simp)
  with app steps bi1(1) held lost show ?thesis
    by (intro exI [of _ ?r] exI [of _ bi1]) (simp add: wait_heartbeat_def)
qed

text \<open>A call on the empty sample bucket finds nothing at its first read.\<close>

lemma wit_wait_armed: "wait_run sample_sub True wit_b (wait_request_new 0 t) wit_m0 (WArm, wit_m0)"
proof -
  let ?run = "wait_run sample_sub True wit_b (wait_request_new 0 t) wit_m0"
  have "?run (WRead, wit_m0)"
    by (rule wait_run.step [OF wait_run.start], rule wait_sys.own [where now = 0])
      (simp_all add: bucket_def wit_m0_def)
  then show ?thesis
    by (rule wait_run.step, intro wait_sys.own [where now = 0])
      (simp_all add: events_since_def bucket_def wit_m0_def evict_expired_def sample_sub_def
        try_from_or_max_def as_secs_def bucket_inner_new_def bucket_config_default_def DEFAULT_TTL_def
        i64_max_def evict_expired_loop.simps refresh_state_def read_inner_def)
qed

theorem bucket_wait_skips_event_witness:
  "\<exists>r bi1. wait_run sample_sub True wit_b (wait_request_new 0 7) wit_m0 (WDone (Ok r), wit_m1) \<and>
     wr_heartbeat r \<and> wr_events r = [] \<and> map_of wit_m1 wit_b = Some bi1 \<and>
     (sample_event wit_b 0)\<lparr>ev_seq := 1\<rparr> \<in> set (bi_events bi1) \<and>
     rp_events (read_inner wit_b (read_request_new (wr_next_cursor r)) bi1) = []"
proof -
  have inv: "manager_inv wit_m0" using mgr_reach_inv [OF wit_m0_reach] by simp
  have bi: "map_of wit_m0 wit_b = Some (bucket_inner_new 0 wit_b bucket_config_default)" by (simp add: wit_m0_def)
  have mx: "0 < max_events (bi_config (bucket_inner_new 0 wit_b bucket_config_default))"
    by (simp add: bucket_inner_new_def bucket_config_default_def DEFAULT_MAX_EVENTS_def)
  have ps: "passes (wait_read (wait_request_new 0 7)) ((sample_event wit_b 0)\<lparr>ev_seq := 1\<rparr>)"
    by (simp add: passes_def wait_read_def wait_request_new_def)
  from bucket_wait_skips_event [OF inv wit_wait_armed bi mx wit_m1_append _ ps] obtain r bi1 where
    r: "wait_run sample_sub True wit_b (wait_request_new 0 7) wit_m0 (WDone (Ok r), wit_m1)"
    "wr_heartbeat r" "wr_events r = []" "map_of wit_m1 wit_b = Some bi1"
    "(sample_event wit_b 0)\<lparr>ev_seq := 1\<rparr> \<in> set (bi_events bi1)"
    "\<forall>rq. rq_cursor rq = wr_next_cursor r \<longrightarrow>
      (sample_event wit_b 0)\<lparr>ev_seq := 1\<rparr> \<notin> set (rp_events (read_inner wit_b rq bi1))" by auto
  have "set (rp_events (read_inner wit_b (read_request_new (wr_next_cursor r)) bi1)) \<subseteq>
      {(sample_event wit_b 0)\<lparr>ev_seq := 1\<rparr>}"
    using r(4) wit_m1_lookup wit_m1_events by (auto simp: read_inner_events dest!: in_set_takeD)
  moreover have "rq_cursor (read_request_new (wr_next_cursor r)) = wr_next_cursor r" by (simp add: read_request_new_def)
  ultimately have "rp_events (read_inner wit_b (read_request_new (wr_next_cursor r)) bi1) = []"
    using r(6) by (metis set_empty subset_singletonD insertI1)
  with r show ?thesis by blast
qed

text \<open>
  C29. Once the \<open>Notified\<close> exists nothing is slept through: an append to the awaited bucket wakes the
  call, a woken call returns at its second own step, and whatever other callers do until then, if
  the appended event is still in the bucket and matches the request, an answer is not a heartbeat,
  and the event is in it unless it lies above the returned cursor.
\<close>

theorem suspended_wait_delivers:
  assumes "manager_inv m" and "append_event m b ev = Ok (m1, s)" and "ev_seq ev = 0"
    and "(wait_sys sub race b q)\<^sup>*\<^sup>* (WWait True, m1) (WDone (Ok r), m2)"
    and "map_of m2 b = Some bi" and "e \<in> set (bi_events bi)" and "ev_seq e = s" and "passes (wait_read q) e"
  shows "wait_sys sub race b q (WWait w, m) (WWait True, m1) \<and>
    (\<forall>n n' m'. returned (fst (wait_step sub n' b q (fst (wait_step sub n b q (WWait True) m)) m'))) \<and>
    \<not> wr_heartbeat r \<and> wr_events r \<noteq> [] \<and>
    (s \<le> wr_next_cursor r \<longrightarrow> e \<in> set (wr_events r))"
proof (intro conjI allI)
  fix n n' m'
  show "returned (fst (wait_step sub n' b q (fst (wait_step sub n b q (WWait True) m)) m'))"
    by (auto split: outcome.split)
next
  have "manager_inv m1" using append_event_inv [OF assms(1) _ assms(2)] assms(3) by simp
  with wait_path_awake [OF assms(4)] have "awake b (wait_read q) (WDone (Ok r), m2)" by simp
  with assms(5-8) have "\<not> wr_heartbeat r \<and> wr_events r \<noteq> [] \<and> (s \<le> wr_next_cursor r \<longrightarrow> e \<in> set (wr_events r))"
    by (auto simp: complete_def quiet_def)
  then show "\<not> wr_heartbeat r" "wr_events r \<noteq> []" "s \<le> wr_next_cursor r \<longrightarrow> e \<in> set (wr_events r)" by simp_all
  show "wait_sys sub race b q (WWait w, m) (WWait True, m1)"
    using wait_sys.append [OF assms(3,2), of "WWait w" b race sub q] by simp
qed

theorem suspended_wait_delivers_witness:
  "\<exists>r m2. (wait_sys sample_sub False wit_b (wait_request_new 0 7))\<^sup>*\<^sup>* (WWait True, wit_m1) (WDone (Ok r), m2) \<and>
     wr_events r \<noteq> []"
proof -
  let ?q = "wait_request_new 0 7"
  have inv: "manager_inv wit_m0" using mgr_reach_inv [OF wit_m0_reach] by simp
  obtain m2 rp where es: "events_since sample_sub 1 wit_m1 wit_b (wait_read ?q) = Ok (m2, rp)"
    and bi: "\<exists>bi. map_of m2 wit_b = Some bi \<and> bi_events bi = [(sample_event wit_b 0)\<lparr>ev_seq := 1\<rparr>]"
    using wit_read [of 7] by blast
  have "wait_sys sample_sub False wit_b ?q (WWait True, wit_m1) (WReread, wit_m1)"
    by (rule wait_sys.own [where now = 1]) simp_all
  moreover have "wait_sys sample_sub False wit_b ?q (WReread, wit_m1) (WDone (Ok (wait_response wit_b ?q rp)), m2)"
    by (rule wait_sys.own [where now = 1]) (simp_all add: es)
  ultimately have path: "(wait_sys sample_sub False wit_b ?q)\<^sup>*\<^sup>* (WWait True, wit_m1)
      (WDone (Ok (wait_response wit_b ?q rp)), m2)" by auto
  have ps: "passes (wait_read ?q) ((sample_event wit_b 0)\<lparr>ev_seq := 1\<rparr>)"
    by (simp add: passes_def wait_read_def wait_request_new_def)
  from bi suspended_wait_delivers [OF inv wit_m1_append _ path _ _ _ ps] path show ?thesis by fastforce
qed

end
