(* ===== verification/TC_Context.thy ===== *)
theory TC_Context
  imports TC_Event
begin

text \<open>
  The per-probe context rings of \<^verbatim>\<open>crates/core/src/context.rs\<close>: bounded FIFO queues of
  normalised output frames, with the three bounded reads (a window around an anchor frame,
  the tail and the head). Frame identifiers and timestamps that the source draws from the
  UUID generator and the clock are arguments.
\<close>

section \<open>Frames\<close>

definition DEFAULT_RING_FRAMES :: nat where
  "DEFAULT_RING_FRAMES = 4096"

definition DEFAULT_RING_BYTES :: nat where
  "DEFAULT_RING_BYTES = 1048576"

definition MAX_FRAME_BYTES :: nat where
  "MAX_FRAME_BYTES = 8192"

definition MAX_WINDOW_BYTES :: nat where
  "MAX_WINDOW_BYTES = 65536"

definition MAX_WINDOW_FRAMES :: nat where
  "MAX_WINDOW_FRAMES = 256"

record source_frame =
  f_frame_id :: frame_id
  f_probe_id :: probe_id
  f_stream :: source_stream
  f_timestamp :: timestamp
  f_text :: string
  f_line :: "nat option"
  f_byte_offset :: "nat option"
  f_truncated_bytes :: nat

definition cap_text :: "string \<Rightarrow> string \<times> nat" where
  "cap_text text =
     (if length text \<le> MAX_FRAME_BYTES then (text, 0)
      else let end = floor_boundary text MAX_FRAME_BYTES in
        (take end text, try_from_or_max u32_max (length text - end)))"

definition frame_new ::
  "frame_id \<Rightarrow> timestamp \<Rightarrow> probe_id \<Rightarrow> source_stream \<Rightarrow> string \<Rightarrow> source_frame" where
  "frame_new fid now p s text =
     (case cap_text text of
        (kept, dropped) \<Rightarrow>
          \<lparr>f_frame_id = fid, f_probe_id = p, f_stream = s, f_timestamp = now, f_text = kept,
           f_line = None, f_byte_offset = None, f_truncated_bytes = dropped\<rparr>)"

definition frame_with_line :: "source_frame \<Rightarrow> nat \<Rightarrow> source_frame" where
  "frame_with_line f n = f\<lparr>f_line := Some n\<rparr>"

definition frame_with_byte_offset :: "source_frame \<Rightarrow> nat \<Rightarrow> source_frame" where
  "frame_with_byte_offset f n = f\<lparr>f_byte_offset := Some n\<rparr>"

section \<open>Requests and responses\<close>

record ring_config =
  rc_max_frames :: nat
  rc_max_bytes :: nat

definition ring_config_default :: ring_config where
  "ring_config_default = \<lparr>rc_max_frames = DEFAULT_RING_FRAMES, rc_max_bytes = DEFAULT_RING_BYTES\<rparr>"

record window_request =
  wn_probe_id :: probe_id
  wn_anchor :: frame_id
  wn_before :: nat
  wn_after :: nat
  wn_max_bytes :: "nat option"

record context_line =
  cl_frame_id :: frame_id
  cl_stream :: source_stream
  cl_timestamp :: timestamp
  cl_text :: string
  cl_line :: "nat option"
  cl_truncated_bytes :: nat

definition context_line_of :: "source_frame \<Rightarrow> context_line" where
  "context_line_of f =
     \<lparr>cl_frame_id = f_frame_id f, cl_stream = f_stream f, cl_timestamp = f_timestamp f,
      cl_text = f_text f, cl_line = f_line f, cl_truncated_bytes = f_truncated_bytes f\<rparr>"

record window_response =
  wp_probe_id :: probe_id
  wp_anchor :: frame_id
  wp_frames :: "context_line list"
  wp_anchor_missing :: bool
  wp_truncated_before :: bool
  wp_truncated_after :: bool
  wp_truncated_bytes :: bool
  wp_truncated_frames :: bool
  wp_evicted_frames :: nat

record ring_tail =
  rt_lines :: "string list"
  rt_evicted_frames :: nat
  rt_truncated :: bool

datatype context_error = RingExists probe_id | RingNotFound probe_id

section \<open>One ring\<close>

record ring_inner =
  ri_config :: ring_config
  ri_frames :: "source_frame list"
  ri_total_bytes :: nat
  ri_evicted_frames :: nat

definition ring_inner_new :: "ring_config \<Rightarrow> ring_inner" where
  "ring_inner_new cfg =
     \<lparr>ri_config = cfg, ri_frames = [], ri_total_bytes = 0, ri_evicted_frames = 0\<rparr>"

function evict_until_in_bounds :: "ring_inner \<Rightarrow> ring_inner" where
  "evict_until_in_bounds r =
     (if rc_max_frames (ri_config r) < length (ri_frames r) \<or>
         rc_max_bytes (ri_config r) < ri_total_bytes r then
        (case ri_frames r of
           [] \<Rightarrow> r
         | front # rest \<Rightarrow>
             evict_until_in_bounds
               (r\<lparr>ri_frames := rest,
                  ri_total_bytes := ri_total_bytes r - length (f_text front),
                  ri_evicted_frames := sat_add_u64 (ri_evicted_frames r) 1\<rparr>))
      else r)"
  by pat_completeness auto
termination
  by (relation "measure (\<lambda>r. length (ri_frames r))") auto

declare evict_until_in_bounds.simps [simp del]

definition ring_push :: "ring_inner \<Rightarrow> source_frame \<Rightarrow> ring_inner" where
  "ring_push r f =
     evict_until_in_bounds
       (r\<lparr>ri_total_bytes := sat_add usize_max (ri_total_bytes r) (length (f_text f)),
          ri_frames := ri_frames r @ [f]\<rparr>)"

fun position :: "('a \<Rightarrow> bool) \<Rightarrow> 'a list \<Rightarrow> nat option" where
  "position p [] = None"
| "position p (x # xs) = (if p x then Some 0 else map_option Suc (position p xs))"

definition index_of :: "ring_inner \<Rightarrow> frame_id \<Rightarrow> nat option" where
  "index_of r a = position (\<lambda>f. f_frame_id f = a) (ri_frames r)"

text \<open>\<open>tail\<close>: the loop over the frames, newest first, that fills a deque from the front.\<close>

fun tail_loop ::
  "nat \<Rightarrow> nat \<Rightarrow> source_frame list \<Rightarrow> string list \<Rightarrow> nat \<Rightarrow> bool \<Rightarrow> ring_tail" where
  "tail_loop ev max_bytes [] chosen bytes truncated =
     \<lparr>rt_lines = chosen, rt_evicted_frames = ev, rt_truncated = truncated\<rparr>"
| "tail_loop ev max_bytes (f # fs) chosen bytes truncated =
     (let len = length (f_text f) in
      if chosen = [] \<and> max_bytes < len then
        \<lparr>rt_lines = [drop (ceil_boundary (f_text f) (len - max_bytes)) (f_text f)],
         rt_evicted_frames = ev, rt_truncated = True\<rparr>
      else if chosen \<noteq> [] \<and> max_bytes - bytes < len then
        \<lparr>rt_lines = chosen, rt_evicted_frames = ev, rt_truncated = True\<rparr>
      else
        tail_loop ev max_bytes fs (f_text f # chosen) (bytes + len)
          (truncated \<or> 0 < f_truncated_bytes f))"

definition ring_tail_of :: "ring_inner \<Rightarrow> nat \<Rightarrow> nat \<Rightarrow> ring_tail" where
  "ring_tail_of r max_lines max_bytes =
     tail_loop (ri_evicted_frames r) max_bytes (take max_lines (rev (ri_frames r))) [] 0 False"

fun head_loop ::
  "nat \<Rightarrow> nat \<Rightarrow> source_frame list \<Rightarrow> string list \<Rightarrow> nat \<Rightarrow> bool \<Rightarrow> ring_tail" where
  "head_loop ev max_bytes [] chosen bytes truncated =
     \<lparr>rt_lines = chosen, rt_evicted_frames = ev, rt_truncated = truncated\<rparr>"
| "head_loop ev max_bytes (f # fs) chosen bytes truncated =
     (let len = length (f_text f) in
      if chosen \<noteq> [] \<and> max_bytes < bytes + len then
        \<lparr>rt_lines = chosen, rt_evicted_frames = ev, rt_truncated = True\<rparr>
      else
        head_loop ev max_bytes fs (chosen @ [f_text f]) (bytes + len)
          (truncated \<or> (chosen = [] \<and> max_bytes < len) \<or> 0 < f_truncated_bytes f))"

definition ring_head_of :: "ring_inner \<Rightarrow> nat \<Rightarrow> nat \<Rightarrow> ring_tail" where
  "ring_head_of r max_lines max_bytes =
     head_loop (ri_evicted_frames r) max_bytes (take max_lines (ri_frames r)) [] 0 False"

text \<open>\<open>window\<close>: the loop's variables, and one attempt to grow on either side.\<close>

record win =
  w_lo :: nat
  w_hi :: nat
  w_bytes :: nat
  w_count :: nat
  w_tb :: bool
  w_tf :: bool

definition grow_after :: "source_frame list \<Rightarrow> nat \<Rightarrow> nat \<Rightarrow> win \<Rightarrow> win \<times> bool" where
  "grow_after fs end cap w =
     (if w_hi w < end then
        if MAX_WINDOW_FRAMES \<le> w_count w then (w\<lparr>w_tf := True\<rparr>, False)
        else let b = length (f_text (fs ! (w_hi w + 1))) in
          if cap < sat_add usize_max (w_bytes w) b then (w\<lparr>w_tb := True\<rparr>, False)
          else (w\<lparr>w_hi := w_hi w + 1, w_bytes := sat_add usize_max (w_bytes w) b,
                  w_count := w_count w + 1\<rparr>, True)
      else (w, False))"

definition grow_before :: "source_frame list \<Rightarrow> nat \<Rightarrow> nat \<Rightarrow> win \<Rightarrow> win \<times> bool" where
  "grow_before fs want_start cap w =
     (if want_start < w_lo w then
        if MAX_WINDOW_FRAMES \<le> w_count w then (w\<lparr>w_tf := True\<rparr>, False)
        else let b = length (f_text (fs ! (w_lo w - 1))) in
          if cap < sat_add usize_max (w_bytes w) b then (w\<lparr>w_tb := True\<rparr>, False)
          else (w\<lparr>w_lo := w_lo w - 1, w_bytes := sat_add usize_max (w_bytes w) b,
                  w_count := w_count w + 1\<rparr>, True)
      else (w, False))"

function window_loop :: "source_frame list \<Rightarrow> nat \<Rightarrow> nat \<Rightarrow> nat \<Rightarrow> win \<Rightarrow> win" where
  "window_loop fs want_start end cap w =
     (let (w1, p1) = grow_after fs end cap w; (w2, p2) = grow_before fs want_start cap w1 in
      if p1 \<or> p2 then window_loop fs want_start end cap w2 else w2)"
  by pat_completeness auto
termination
  by (relation "measure (\<lambda>(fs, s, e, cap, w). (e - w_hi w) + (w_lo w - s))")
    (auto simp: grow_after_def grow_before_def Let_def split: if_splits)

declare window_loop.simps [simp del]

definition ring_window :: "ring_inner \<Rightarrow> window_request \<Rightarrow> window_response" where
  "ring_window r req =
     (case index_of r (wn_anchor req) of
        None \<Rightarrow>
          \<lparr>wp_probe_id = wn_probe_id req, wp_anchor = wn_anchor req, wp_frames = [],
           wp_anchor_missing = True, wp_truncated_before = False, wp_truncated_after = False,
           wp_truncated_bytes = False, wp_truncated_frames = False,
           wp_evicted_frames = ri_evicted_frames r\<rparr>
      | Some anchor_idx \<Rightarrow>
          let want_start = anchor_idx - wn_before req;
              want_end = sat_add usize_max anchor_idx (wn_after req);
              end = min want_end (length (ri_frames r) - 1);
              cap_bytes = min (case wn_max_bytes req of None \<Rightarrow> MAX_WINDOW_BYTES | Some n \<Rightarrow> n)
                MAX_WINDOW_BYTES;
              w = window_loop (ri_frames r) want_start end cap_bytes
                \<lparr>w_lo = anchor_idx, w_hi = anchor_idx,
                 w_bytes = length (f_text (ri_frames r ! anchor_idx)), w_count = 1,
                 w_tb = False, w_tf = False\<rparr>
          in \<lparr>wp_probe_id = wn_probe_id req, wp_anchor = wn_anchor req,
              wp_frames = map (\<lambda>i. context_line_of (ri_frames r ! i)) [w_lo w ..< Suc (w_hi w)],
              wp_anchor_missing = False, wp_truncated_before = anchor_idx < wn_before req,
              wp_truncated_after = length (ri_frames r) \<le> want_end,
              wp_truncated_bytes = w_tb w, wp_truncated_frames = w_tf w,
              wp_evicted_frames = ri_evicted_frames r\<rparr>)"

section \<open>The manager\<close>

type_synonym ring_manager = "(probe_id \<times> ring_inner) list"

definition ring_manager_new :: ring_manager where
  "ring_manager_new = []"

definition create_ring ::
  "ring_manager \<Rightarrow> probe_id \<Rightarrow> ring_config \<Rightarrow> (context_error, ring_manager) outcome" where
  "create_ring m p cfg =
     (case map_of m p of
        Some _ \<Rightarrow> Err (RingExists p)
      | None \<Rightarrow> Ok (AList.update p (ring_inner_new cfg) m))"

definition create_ring_default :: "ring_manager \<Rightarrow> probe_id \<Rightarrow> (context_error, ring_manager) outcome" where
  "create_ring_default m p = create_ring m p ring_config_default"

definition drop_ring :: "ring_manager \<Rightarrow> probe_id \<Rightarrow> ring_manager \<times> bool" where
  "drop_ring m p = (AList.delete p m, map_of m p \<noteq> None)"

definition ring_cell :: "ring_manager \<Rightarrow> probe_id \<Rightarrow> (context_error, ring_inner) outcome" where
  "ring_cell m p = (case map_of m p of None \<Rightarrow> Err (RingNotFound p) | Some r \<Rightarrow> Ok r)"

definition append_frame ::
  "ring_manager \<Rightarrow> probe_id \<Rightarrow> source_frame \<Rightarrow> (context_error, ring_manager \<times> frame_id) outcome" where
  "append_frame m p f =
     and_then (ring_cell m p) (\<lambda>r. Ok (AList.update p (ring_push r f) m, f_frame_id f))"

definition context_window ::
  "ring_manager \<Rightarrow> window_request \<Rightarrow> (context_error, window_response) outcome" where
  "context_window m req = and_then (ring_cell m (wn_probe_id req)) (\<lambda>r. Ok (ring_window r req))"

definition window_around_pointer ::
  "ring_manager \<Rightarrow> probe_id \<Rightarrow> source_pointer \<Rightarrow> nat \<Rightarrow> nat \<Rightarrow> nat option \<Rightarrow>
     (context_error, window_response) outcome" where
  "window_around_pointer m p ptr before after mb =
     context_window m \<lparr>wn_probe_id = p, wn_anchor = sp_frame_id ptr, wn_before = before,
       wn_after = after, wn_max_bytes = mb\<rparr>"

definition tail_frames ::
  "ring_manager \<Rightarrow> probe_id \<Rightarrow> nat \<Rightarrow> nat \<Rightarrow> (context_error, ring_tail) outcome" where
  "tail_frames m p n b = and_then (ring_cell m p) (\<lambda>r. Ok (ring_tail_of r n b))"

definition head_frames ::
  "ring_manager \<Rightarrow> probe_id \<Rightarrow> nat \<Rightarrow> nat \<Rightarrow> (context_error, ring_tail) outcome" where
  "head_frames m p n b = and_then (ring_cell m p) (\<lambda>r. Ok (ring_head_of r n b))"

definition has_ring :: "ring_manager \<Rightarrow> probe_id \<Rightarrow> bool" where
  "has_ring m p \<longleftrightarrow> map_of m p \<noteq> None"

definition frame_count :: "ring_manager \<Rightarrow> probe_id \<Rightarrow> nat" where
  "frame_count m p = (case map_of m p of None \<Rightarrow> 0 | Some r \<Rightarrow> length (ri_frames r))"

section \<open>The ring invariant\<close>

definition frame_bytes :: "source_frame list \<Rightarrow> nat" where
  "frame_bytes fs = sum_list (map (\<lambda>f. length (f_text f)) fs)"

lemma frame_bytes_simps [simp]:
  "frame_bytes [] = 0" "frame_bytes (f # fs) = length (f_text f) + frame_bytes fs"
  "frame_bytes (fs @ gs) = frame_bytes fs + frame_bytes gs"
  by (simp_all add: frame_bytes_def)

definition in_bounds :: "ring_config \<Rightarrow> source_frame list \<Rightarrow> bool" where
  "in_bounds cfg fs \<longleftrightarrow> length fs \<le> rc_max_frames cfg \<and> frame_bytes fs \<le> rc_max_bytes cfg"

definition ring_inv :: "ring_inner \<Rightarrow> bool" where
  "ring_inv r \<longleftrightarrow>
     ri_total_bytes r = frame_bytes (ri_frames r) \<and> in_bounds (ri_config r) (ri_frames r) \<and>
     ri_evicted_frames r \<le> u64_max"

text \<open>Eviction keeps the longest run of newest frames that is within bounds.\<close>

lemma evict_until_in_bounds_spec:
  assumes "ri_total_bytes r = frame_bytes (ri_frames r)" and "ri_evicted_frames r \<le> u64_max"
  shows "\<exists>n \<le> length (ri_frames r).
    evict_until_in_bounds r =
      r\<lparr>ri_frames := drop n (ri_frames r), ri_total_bytes := frame_bytes (drop n (ri_frames r)),
        ri_evicted_frames := sat_add_u64 (ri_evicted_frames r) n\<rparr> \<and>
    in_bounds (ri_config r) (drop n (ri_frames r)) \<and>
    (\<forall>k < n. \<not> in_bounds (ri_config r) (drop k (ri_frames r)))"
  using assms
proof (induction r rule: evict_until_in_bounds.induct)
  case (1 r)
  show ?case
  proof (cases "in_bounds (ri_config r) (ri_frames r)")
    case True
    then have "evict_until_in_bounds r = r"
      using 1(2) by (subst evict_until_in_bounds.simps) (auto simp: in_bounds_def)
    with True 1(2,3) show ?thesis by (intro exI [of _ 0]) simp
  next
    case False
    then obtain f fs where fs: "ri_frames r = f # fs"
      by (cases "ri_frames r") (auto simp: in_bounds_def)
    let ?r = "r\<lparr>ri_frames := fs, ri_total_bytes := ri_total_bytes r - length (f_text f),
      ri_evicted_frames := sat_add_u64 (ri_evicted_frames r) 1\<rparr>"
    have c: "rc_max_frames (ri_config r) < length (ri_frames r) \<or>
        rc_max_bytes (ri_config r) < ri_total_bytes r"
      using False 1(2) by (auto simp: in_bounds_def)
    then have step: "evict_until_in_bounds r = evict_until_in_bounds ?r"
      by (subst evict_until_in_bounds.simps) (simp add: fs)
    from 1(1) [OF c fs] 1(2) fs obtain n where n: "n \<le> length fs"
      "evict_until_in_bounds ?r = ?r\<lparr>ri_frames := drop n fs, ri_total_bytes := frame_bytes (drop n fs),
        ri_evicted_frames := sat_add_u64 (ri_evicted_frames ?r) n\<rparr>"
      "in_bounds (ri_config r) (drop n fs)" "\<forall>k < n. \<not> in_bounds (ri_config r) (drop k fs)"
      by auto
    have "\<not> in_bounds (ri_config r) (drop k (f # fs))" if "k < Suc n" for k
      using that n(4) False fs by (cases k) auto
    with n show ?thesis
      by (intro exI [of _ "Suc n"]) (simp add: step fs sat_add_assoc)
  qed
qed

lemma ring_push_spec:
  assumes "ring_inv r" and "frame_bytes (ri_frames r) + length (f_text f) \<le> usize_max"
  shows "\<exists>n \<le> Suc (length (ri_frames r)).
    ring_push r f =
      r\<lparr>ri_frames := drop n (ri_frames r @ [f]), ri_total_bytes := frame_bytes (drop n (ri_frames r @ [f])),
        ri_evicted_frames := sat_add_u64 (ri_evicted_frames r) n\<rparr> \<and>
    in_bounds (ri_config r) (drop n (ri_frames r @ [f])) \<and>
    (\<forall>k < n. \<not> in_bounds (ri_config r) (drop k (ri_frames r @ [f])))"
  using assms
    evict_until_in_bounds_spec [of "r\<lparr>ri_total_bytes := frame_bytes (ri_frames r) + length (f_text f),
          ri_frames := ri_frames r @ [f]\<rparr>"]
  by (auto simp: ring_push_def ring_inv_def sat_add_def min_def simp del: drop_append)

lemma ring_push_inv:
  assumes "ring_inv r" and "frame_bytes (ri_frames r) + length (f_text f) \<le> usize_max"
  shows "ring_inv (ring_push r f)"
  using ring_push_spec [OF assms] by (auto simp: ring_inv_def simp del: drop_append)

section \<open>Windows\<close>

definition win_ok :: "source_frame list \<Rightarrow> nat \<Rightarrow> nat \<Rightarrow> nat \<Rightarrow> nat \<Rightarrow> win \<Rightarrow> bool" where
  "win_ok fs i s e cap w \<longleftrightarrow>
     s \<le> w_lo w \<and> w_lo w \<le> i \<and> i \<le> w_hi w \<and> w_hi w \<le> e \<and>
     w_count w = Suc (w_hi w) - w_lo w \<and> w_count w \<le> MAX_WINDOW_FRAMES \<and>
     w_bytes w = (\<Sum>k = w_lo w..w_hi w. length (f_text (fs ! k))) \<and>
     w_bytes w \<le> max cap (length (f_text (fs ! i)))"

lemma win_ok_flags [simp]:
  "win_ok fs i s e cap (w\<lparr>w_tb := t\<rparr>) = win_ok fs i s e cap w"
  "win_ok fs i s e cap (w\<lparr>w_tf := t\<rparr>) = win_ok fs i s e cap w"
  by (simp_all add: win_ok_def)

lemma sat_add_under: "sat_add b x y \<le> c \<Longrightarrow> c < b \<Longrightarrow> sat_add b x y = x + y"
  by (auto simp: sat_add_def min_def split: if_splits)

lemma win_ok_after:
  assumes "win_ok fs i s e cap w" and "w_hi w < e" and "w_count w < MAX_WINDOW_FRAMES"
    and "w_bytes w + length (f_text (fs ! Suc (w_hi w))) \<le> cap"
  shows "win_ok fs i s e cap (w\<lparr>w_hi := Suc (w_hi w),
    w_bytes := w_bytes w + length (f_text (fs ! Suc (w_hi w))), w_count := Suc (w_count w)\<rparr>)"
proof -
  have "(\<Sum>k = w_lo w..Suc (w_hi w). length (f_text (fs ! k))) =
      (\<Sum>k = w_lo w..w_hi w. length (f_text (fs ! k))) + length (f_text (fs ! Suc (w_hi w)))"
    using assms(1) by (simp add: win_ok_def)
  with assms show ?thesis by (simp add: win_ok_def Suc_diff_le le_max_iff_disj)
qed

lemma win_ok_before:
  assumes "win_ok fs i s e cap w" and "s < w_lo w" and "w_count w < MAX_WINDOW_FRAMES"
    and "w_bytes w + length (f_text (fs ! (w_lo w - 1))) \<le> cap"
  shows "win_ok fs i s e cap (w\<lparr>w_lo := w_lo w - 1,
    w_bytes := w_bytes w + length (f_text (fs ! (w_lo w - 1))), w_count := Suc (w_count w)\<rparr>)"
proof -
  obtain l where l: "w_lo w = Suc l" using assms(2) by (cases "w_lo w") auto
  have "(\<Sum>k = l..w_hi w. length (f_text (fs ! k))) =
      length (f_text (fs ! l)) + (\<Sum>k = Suc l..w_hi w. length (f_text (fs ! k)))"
    using assms(1) l by (intro sum.atLeast_Suc_atMost) (simp add: win_ok_def)
  with assms l show ?thesis by (simp add: win_ok_def Suc_diff_le le_max_iff_disj)
qed

lemma grow_after_ok:
  assumes "win_ok fs i s e cap w" and "cap < usize_max" and "grow_after fs e cap w = (w', p)"
  shows "win_ok fs i s e cap w'" "\<not> p \<Longrightarrow> w_hi w' = e \<or> w_tb w' \<or> w_tf w'"
    "w_lo w' = w_lo w"
proof -
  have "win_ok fs i s e cap w' \<and> (\<not> p \<longrightarrow> w_hi w' = e \<or> w_tb w' \<or> w_tf w') \<and> w_lo w' = w_lo w"
  proof (cases "w_hi w < e \<and> w_count w < MAX_WINDOW_FRAMES \<and>
      sat_add usize_max (w_bytes w) (length (f_text (fs ! Suc (w_hi w)))) \<le> cap")
    case True
    with win_ok_after [OF assms(1)] assms(2,3) sat_add_under [OF _ assms(2)] show ?thesis
      by (auto simp: grow_after_def)
  next
    case False
    moreover have "w_hi w \<le> e" using assms(1) by (simp add: win_ok_def)
    ultimately show ?thesis using assms(1,3)
      by (auto simp: grow_after_def Let_def not_less not_le split: if_splits)
  qed
  then show "win_ok fs i s e cap w'" "\<not> p \<Longrightarrow> w_hi w' = e \<or> w_tb w' \<or> w_tf w'"
    "w_lo w' = w_lo w" by blast+
qed

lemma grow_before_ok:
  assumes "win_ok fs i s e cap w" and "cap < usize_max" and "grow_before fs s cap w = (w', p)"
  shows "win_ok fs i s e cap w'" "\<not> p \<Longrightarrow> w_lo w' = s \<or> w_tb w' \<or> w_tf w'"
    "w_hi w' = w_hi w" "w_tb w \<Longrightarrow> w_tb w'" "w_tf w \<Longrightarrow> w_tf w'"
proof -
  have "win_ok fs i s e cap w' \<and> (\<not> p \<longrightarrow> w_lo w' = s \<or> w_tb w' \<or> w_tf w') \<and>
    w_hi w' = w_hi w \<and> (w_tb w \<longrightarrow> w_tb w') \<and> (w_tf w \<longrightarrow> w_tf w')"
  proof (cases "s < w_lo w \<and> w_count w < MAX_WINDOW_FRAMES \<and>
      sat_add usize_max (w_bytes w) (length (f_text (fs ! (w_lo w - 1)))) \<le> cap")
    case True
    with win_ok_before [OF assms(1)] assms(2,3) sat_add_under [OF _ assms(2)] show ?thesis
      by (auto simp: grow_before_def)
  next
    case False
    moreover have "s \<le> w_lo w" using assms(1) by (simp add: win_ok_def)
    ultimately show ?thesis using assms(1,3)
      by (auto simp: grow_before_def Let_def not_less not_le split: if_splits)
  qed
  then show "win_ok fs i s e cap w'" "\<not> p \<Longrightarrow> w_lo w' = s \<or> w_tb w' \<or> w_tf w'"
    "w_hi w' = w_hi w" "w_tb w \<Longrightarrow> w_tb w'" "w_tf w \<Longrightarrow> w_tf w'" by blast+
qed

lemma window_loop_ok:
  assumes "win_ok fs i s e cap w" and "cap < usize_max"
  shows "win_ok fs i s e cap (window_loop fs s e cap w) \<and>
    (w_tb (window_loop fs s e cap w) \<or> w_tf (window_loop fs s e cap w) \<or>
     w_lo (window_loop fs s e cap w) = s \<and> w_hi (window_loop fs s e cap w) = e)"
  using assms
proof (induction fs s e cap w rule: window_loop.induct)
  case (1 fs s e cap w)
  obtain w1 p1 where a: "grow_after fs e cap w = (w1, p1)" by force
  obtain w2 p2 where b: "grow_before fs s cap w1 = (w2, p2)" by force
  note oka = grow_after_ok [OF 1(2,3) a]
  note okb = grow_before_ok [OF oka(1) 1(3) b]
  show ?case
  proof (cases "p1 \<or> p2")
    case True
    with 1(1) [OF a [symmetric] refl b [symmetric] refl True okb(1) 1(3)] show ?thesis
      by (simp add: window_loop.simps [of fs s e cap w] a b)
  next
    case False
    then have "window_loop fs s e cap w = w2"
      by (simp add: window_loop.simps [of fs s e cap w] a b)
    with False oka okb show ?thesis by auto
  qed
qed

lemma position_Some:
  "position p xs = Some i \<longleftrightarrow> i < length xs \<and> p (xs ! i) \<and> (\<forall>k < i. \<not> p (xs ! k))"
proof (induction xs arbitrary: i)
  case (Cons x xs)
  show ?case
  proof (cases i)
    case 0
    then show ?thesis by auto
  next
    case (Suc j)
    then show ?thesis using Cons.IH [of j] by (auto simp: All_less_Suc2)
  qed
qed simp

lemma position_None: "position p xs = None \<longleftrightarrow> (\<forall>x \<in> set xs. \<not> p x)"
  by (induction xs) auto

lemma in_bounds_shorter: "in_bounds cfg (fs @ [f]) \<Longrightarrow> in_bounds cfg fs"
  by (simp add: in_bounds_def frame_bytes_def)

interpretation ring_fifo: least_ring ri_frames ri_evicted_frames ring_push
  "\<lambda>r. ring_inv r \<and> rc_max_bytes (ri_config r) + MAX_FRAME_BYTES \<le> usize_max"
  "\<lambda>f. length (f_text f) \<le> MAX_FRAME_BYTES" "\<lambda>r. in_bounds (ri_config r)"
proof unfold_locales
  fix r :: ring_inner and f :: source_frame
  assume r: "ring_inv r \<and> rc_max_bytes (ri_config r) + MAX_FRAME_BYTES \<le> usize_max"
    and f: "length (f_text f) \<le> MAX_FRAME_BYTES"
  have m: "frame_bytes (ri_frames r) + length (f_text f) \<le> usize_max"
    using r f by (auto simp: ring_inv_def in_bounds_def)
  from r ring_push_spec [OF _ m] obtain n where n: "n \<le> Suc (length (ri_frames r))"
    "ri_config (ring_push r f) = ri_config r" "ri_frames (ring_push r f) = drop n (ri_frames r @ [f])"
    "ri_evicted_frames (ring_push r f) = sat_add_u64 (ri_evicted_frames r) n"
    "\<forall>k < n. \<not> in_bounds (ri_config r) (drop k (ri_frames r @ [f]))" by (auto simp del: drop_append)
  from n(2) r ring_push_inv [OF _ m] show "ring_inv (ring_push r f) \<and>
      rc_max_bytes (ri_config (ring_push r f)) + MAX_FRAME_BYTES \<le> usize_max" by simp
  show "\<exists>n \<le> Suc (length (ri_frames r)). ri_frames (ring_push r f) = drop n (ri_frames r @ [f]) \<and>
      ri_evicted_frames (ring_push r f) = sat_add_u64 (ri_evicted_frames r) n"
    using n(1,3,4) by blast
  show "in_bounds (ri_config (ring_push r f)) = in_bounds (ri_config r)" by (simp add: n(2))
  show "\<not> in_bounds (ri_config r) (drop k (ri_frames r @ [f]))"
    if "k + length (ri_frames (ring_push r f)) < Suc (length (ri_frames r))" for k
    using that n(1,5) unfolding n(3) by (simp del: drop_append)
qed (simp_all add: ring_inv_def in_bounds_shorter)

lemma evict_config: "ri_config (evict_until_in_bounds r) = ri_config r"
proof (induction r rule: evict_until_in_bounds.induct)
  case (1 r)
  then show ?case by (cases "ri_frames r") (simp_all add: evict_until_in_bounds.simps [of r])
qed

lemma ring_pushes_config: "ri_config (foldl ring_push r fs) = ri_config r"
  by (induction fs arbitrary: r) (simp_all add: ring_push_def evict_config)

lemma ring_inner_new_inv: "ring_inv (ring_inner_new cfg)"
  by (simp add: ring_inv_def ring_inner_new_def in_bounds_def u64_max_def)

lemma cap_text_spec:
  assumes "utf8_ok text"
  shows "length (fst (cap_text text)) \<le> MAX_FRAME_BYTES" "utf8_ok (fst (cap_text text))"
    "prefix (fst (cap_text text)) text"
    "length text \<le> u32_max \<Longrightarrow> length (fst (cap_text text)) + snd (cap_text text) = length text"
    "MAX_FRAME_BYTES < length text \<Longrightarrow> MAX_FRAME_BYTES \<le> length (fst (cap_text text)) + 3"
proof -
  let ?e = "floor_boundary text MAX_FRAME_BYTES"
  have le: "?e \<le> MAX_FRAME_BYTES" by (rule floor_boundary_le)
  show "length (fst (cap_text text)) \<le> MAX_FRAME_BYTES"
    using le by (auto simp: cap_text_def Let_def)
  show "utf8_ok (fst (cap_text text))"
    using assms utf8_ok_take_drop [OF assms, of ?e] by (simp add: cap_text_def Let_def)
  show "prefix (fst (cap_text text)) text"
    by (simp add: cap_text_def Let_def take_is_prefix)
  show "length text \<le> u32_max \<Longrightarrow> length (fst (cap_text text)) + snd (cap_text text) = length text"
    using le by (auto simp: cap_text_def Let_def try_from_or_max_def)
  show "MAX_FRAME_BYTES < length text \<Longrightarrow> MAX_FRAME_BYTES \<le> length (fst (cap_text text)) + 3"
    using le floor_boundary_near [OF assms, of MAX_FRAME_BYTES] by (simp add: cap_text_def Let_def)
qed

section \<open>Tail and head\<close>

abbreviation text_bytes :: "string list \<Rightarrow> nat" where
  "text_bytes ls \<equiv> sum_list (map length ls)"

lemma tail_loop_spec:
  assumes "bytes = text_bytes chosen" and "bytes \<le> mb"
    and "t = tail_loop ev mb fs chosen bytes tr"
  shows "text_bytes (rt_lines t) \<le> mb \<and> length (rt_lines t) \<le> length chosen + length fs \<and>
    rt_evicted_frames t = ev \<and>
    (\<not> rt_truncated t \<longrightarrow> rt_lines t = map f_text (rev fs) @ chosen \<and> \<not> tr \<and>
       (\<forall>f \<in> set fs. f_truncated_bytes f = 0))"
  unfolding assms(3) using assms(1,2)
proof (induction fs arbitrary: chosen bytes tr)
  case (Cons f fs)
  show ?case
  proof (cases "chosen = [] \<and> mb < length (f_text f) \<or> chosen \<noteq> [] \<and> mb - bytes < length (f_text f)")
    case True
    with Cons.prems ceil_boundary_ge [of "length (f_text f) - mb" "f_text f"] show ?thesis
      by (auto simp: Let_def)
  next
    case False
    with Cons.prems Cons.IH [of "bytes + length (f_text f)" "f_text f # chosen"
        "tr \<or> 0 < f_truncated_bytes f"] show ?thesis
      by (cases "chosen = []") (auto simp: Let_def)
  qed
qed simp

lemma tail_loop_utf8:
  assumes "\<forall>f \<in> set fs. utf8_ok (f_text f)" and "\<forall>l \<in> set chosen. utf8_ok l"
  shows "\<forall>l \<in> set (rt_lines (tail_loop ev mb fs chosen bytes tr)). utf8_ok l"
  using assms
proof (induction fs arbitrary: chosen bytes tr)
  case (Cons f fs)
  have "utf8_ok (drop (ceil_boundary (f_text f) (length (f_text f) - mb)) (f_text f))"
    using Cons.prems(1) ceil_boundary_boundary [of "length (f_text f) - mb" "f_text f"]
      utf8_ok_take_drop [of "f_text f"] by simp
  note clip = this
  have "\<forall>l \<in> set (f_text f # chosen). utf8_ok l" and fs: "\<forall>f \<in> set fs. utf8_ok (f_text f)"
    using Cons.prems by auto
  note IH = Cons.IH [OF fs this(1)]
  show ?case
    unfolding tail_loop.simps Let_def
    using IH clip Cons.prems(2) by (auto split: if_split)
qed simp

text \<open>Without an oversized newest frame the tail is a run of whole frames ending in the newest.\<close>

lemma tail_loop_suffix:
  assumes "chosen \<noteq> [] \<or> (\<forall>f \<in> set (take 1 fs). length (f_text f) \<le> mb)"
  shows "\<exists>k \<le> length fs. rt_lines (tail_loop ev mb fs chosen bytes tr) = map f_text (rev (take k fs)) @ chosen"
  using assms
proof (induction fs arbitrary: chosen bytes tr)
  case (Cons f fs)
  show ?case
  proof (cases "chosen \<noteq> [] \<and> mb - bytes < length (f_text f)")
    case True
    then show ?thesis by (intro exI [of _ 0]) (simp add: Let_def)
  next
    case False
    with Cons.prems Cons.IH [of "f_text f # chosen" "bytes + length (f_text f)"
        "tr \<or> 0 < f_truncated_bytes f"] obtain k where "k \<le> length fs"
      "rt_lines (tail_loop ev mb (f # fs) chosen bytes tr) = map f_text (rev (take k fs)) @ f_text f # chosen"
      by (auto simp: Let_def)
    then show ?thesis by (intro exI [of _ "Suc k"]) simp
  qed
qed simp

lemma head_loop_spec:
  assumes "bytes = text_bytes chosen" and "chosen \<noteq> []"
  shows "\<exists>k \<le> length fs. rt_lines (head_loop ev mb fs chosen bytes tr) = chosen @ map f_text (take k fs) \<and>
    (k = 0 \<or> text_bytes chosen + frame_bytes (take k fs) \<le> mb) \<and>
    (\<not> rt_truncated (head_loop ev mb fs chosen bytes tr) \<longrightarrow>
       k = length fs \<and> \<not> tr \<and> (\<forall>f \<in> set fs. f_truncated_bytes f = 0))"
  using assms
proof (induction fs arbitrary: chosen bytes tr)
  case (Cons f fs)
  show ?case
  proof (cases "mb < bytes + length (f_text f)")
    case True
    with Cons.prems show ?thesis by (intro exI [of _ 0]) (simp add: Let_def)
  next
    case False
    let ?t = "head_loop ev mb fs (chosen @ [f_text f]) (bytes + length (f_text f)) (tr \<or> 0 < f_truncated_bytes f)"
    have step: "head_loop ev mb (f # fs) chosen bytes tr = ?t"
      using False Cons.prems by (simp add: Let_def)
    have "bytes + length (f_text f) = text_bytes (chosen @ [f_text f])" "chosen @ [f_text f] \<noteq> []"
      using Cons.prems by simp_all
    from Cons.IH [OF this, of "tr \<or> 0 < f_truncated_bytes f"] obtain k where
      "k \<le> length fs \<and> rt_lines ?t = (chosen @ [f_text f]) @ map f_text (take k fs) \<and>
       (k = 0 \<or> text_bytes (chosen @ [f_text f]) + frame_bytes (take k fs) \<le> mb) \<and>
       (\<not> rt_truncated ?t \<longrightarrow> k = length fs \<and> \<not> (tr \<or> 0 < f_truncated_bytes f) \<and>
        (\<forall>f \<in> set fs. f_truncated_bytes f = 0))"
      by (rule exE)
    note k = conjunct1 [OF this] conjunct1 [OF conjunct2 [OF this]]
      conjunct1 [OF conjunct2 [OF conjunct2 [OF this]]] conjunct2 [OF conjunct2 [OF conjunct2 [OF this]]]
    show ?thesis
      unfolding step
    proof (intro exI [of _ "Suc k"] conjI)
      show "Suc k = 0 \<or> text_bytes chosen + frame_bytes (take (Suc k) (f # fs)) \<le> mb"
        using k(3) False Cons.prems(1) by (cases "k = 0") simp_all
      show "\<not> rt_truncated ?t \<longrightarrow> Suc k = length (f # fs) \<and> \<not> tr \<and>
          (\<forall>f \<in> set (f # fs). f_truncated_bytes f = 0)"
        using k(4) by auto
    qed (use k in simp_all)
  qed
qed simp

definition window_cap :: "window_request \<Rightarrow> nat" where
  "window_cap req = min (case wn_max_bytes req of None \<Rightarrow> MAX_WINDOW_BYTES | Some n \<Rightarrow> n) MAX_WINDOW_BYTES"

lemma ring_window_win:
  assumes "index_of r (wn_anchor req) = Some i" and "length (ri_frames r) \<le> usize_max"
  obtains w where "i < length (ri_frames r)" "f_frame_id (ri_frames r ! i) = wn_anchor req"
    "win_ok (ri_frames r) i (i - wn_before req) (min (i + wn_after req) (length (ri_frames r) - 1))
      (window_cap req) w"
    "w_tb w \<or> w_tf w \<or>
      w_lo w = i - wn_before req \<and> w_hi w = min (i + wn_after req) (length (ri_frames r) - 1)"
    "ring_window r req =
      \<lparr>wp_probe_id = wn_probe_id req, wp_anchor = wn_anchor req,
       wp_frames = map (\<lambda>k. context_line_of (ri_frames r ! k)) [w_lo w ..< Suc (w_hi w)],
       wp_anchor_missing = False, wp_truncated_before = i < wn_before req,
       wp_truncated_after = length (ri_frames r) \<le> sat_add usize_max i (wn_after req),
       wp_truncated_bytes = w_tb w, wp_truncated_frames = w_tf w,
       wp_evicted_frames = ri_evicted_frames r\<rparr>"
proof -
  let ?fs = "ri_frames r" and ?s = "i - wn_before req"
  let ?e = "min (i + wn_after req) (length ?fs - 1)"
  let ?w0 = "\<lparr>w_lo = i, w_hi = i, w_bytes = length (f_text (?fs ! i)), w_count = 1, w_tb = False, w_tf = False\<rparr>"
  have i: "i < length ?fs" "f_frame_id (?fs ! i) = wn_anchor req"
    using assms(1) by (auto simp: index_of_def position_Some)
  have e: "min (sat_add usize_max i (wn_after req)) (length ?fs - 1) = ?e"
    using assms(2) i(1) by (auto simp: sat_add_def min_def)
  have ok: "win_ok ?fs i ?s ?e (window_cap req) ?w0"
    using i(1) by (auto simp: win_ok_def MAX_WINDOW_FRAMES_def)
  have cap: "window_cap req < usize_max"
    by (simp add: window_cap_def MAX_WINDOW_BYTES_def u64_max_def min_less_iff_disj)
  note loop = window_loop_ok [OF ok cap]
  show ?thesis
    by (rule that [OF i conjunct1 [OF loop] conjunct2 [OF loop]])
      (simp add: ring_window_def assms(1) Let_def e window_cap_def del: upt_Suc One_nat_def)
qed

lemma ring_window_spec:
  assumes "index_of r (wn_anchor req) = Some i" and "length (ri_frames r) \<le> usize_max"
  shows "\<exists>lo hi. i - wn_before req \<le> lo \<and> lo \<le> i \<and> i \<le> hi \<and> hi \<le> i + wn_after req \<and>
    hi < length (ri_frames r) \<and> f_frame_id (ri_frames r ! i) = wn_anchor req \<and>
    (let w = ring_window r req in
     wp_frames w = map (\<lambda>k. context_line_of (ri_frames r ! k)) [lo ..< Suc hi] \<and>
     \<not> wp_anchor_missing w \<and> length (wp_frames w) \<le> MAX_WINDOW_FRAMES \<and>
     sum_list (map (\<lambda>l. length (cl_text l)) (wp_frames w)) \<le>
       max (min (case wn_max_bytes req of None \<Rightarrow> MAX_WINDOW_BYTES | Some n \<Rightarrow> n) MAX_WINDOW_BYTES)
         (length (f_text (ri_frames r ! i))) \<and>
     (\<not> wp_truncated_bytes w \<and> \<not> wp_truncated_frames w \<longrightarrow>
        lo = i - wn_before req \<and> hi = min (i + wn_after req) (length (ri_frames r) - 1)))"
proof -
  obtain w where i: "i < length (ri_frames r)" "f_frame_id (ri_frames r ! i) = wn_anchor req"
    and ok: "win_ok (ri_frames r) i (i - wn_before req) (min (i + wn_after req) (length (ri_frames r) - 1))
      (window_cap req) w"
    and full: "w_tb w \<or> w_tf w \<or>
      w_lo w = i - wn_before req \<and> w_hi w = min (i + wn_after req) (length (ri_frames r) - 1)"
    and r: "ring_window r req =
      \<lparr>wp_probe_id = wn_probe_id req, wp_anchor = wn_anchor req,
       wp_frames = map (\<lambda>k. context_line_of (ri_frames r ! k)) [w_lo w ..< Suc (w_hi w)],
       wp_anchor_missing = False, wp_truncated_before = i < wn_before req,
       wp_truncated_after = length (ri_frames r) \<le> sat_add usize_max i (wn_after req),
       wp_truncated_bytes = w_tb w, wp_truncated_frames = w_tf w,
       wp_evicted_frames = ri_evicted_frames r\<rparr>"
    using assms by (rule ring_window_win)
  have lo: "i - wn_before req \<le> w_lo w" "w_lo w \<le> i" and hi: "i \<le> w_hi w" "w_hi w \<le> i + wn_after req"
    "w_hi w < length (ri_frames r)"
    and count: "length (map (\<lambda>k. context_line_of (ri_frames r ! k)) [w_lo w ..< Suc (w_hi w)]) \<le> MAX_WINDOW_FRAMES"
    using ok i(1) by (auto simp: win_ok_def simp del: upt_Suc)
  have "sum_list (map (\<lambda>k. length (f_text (ri_frames r ! k))) [w_lo w ..< Suc (w_hi w)]) = w_bytes w"
    using ok by (simp add: win_ok_def interv_sum_list_conv_sum_set_nat atLeastLessThanSuc_atLeastAtMost
        del: upt_Suc)
  then have bytes: "sum_list (map (\<lambda>l. length (cl_text l))
        (map (\<lambda>k. context_line_of (ri_frames r ! k)) [w_lo w ..< Suc (w_hi w)]))
      \<le> max (window_cap req) (length (f_text (ri_frames r ! i)))"
    using ok by (simp add: win_ok_def o_def context_line_of_def del: upt_Suc)
  have all: "\<not> w_tb w \<and> \<not> w_tf w \<longrightarrow>
      w_lo w = i - wn_before req \<and> w_hi w = min (i + wn_after req) (length (ri_frames r) - 1)"
    using full by blast
  show ?thesis
    unfolding r Let_def window_response.select_convs window_cap_def [symmetric]
    by (intro exI [of _ "w_lo w"] exI [of _ "w_hi w"] conjI lo hi i count bytes all refl not_False_eq_True [THEN iffD2, OF TrueI])
qed

lemma ring_head_spec:
  assumes "ri_frames r = f # fs" and "0 < n"
  shows "(let t = ring_head_of r n mb in
     (mb < length (f_text f) \<longrightarrow> rt_lines t = [f_text f] \<and> rt_truncated t \<and> mb < text_bytes (rt_lines t)) \<and>
     (length (f_text f) \<le> mb \<longrightarrow> text_bytes (rt_lines t) \<le> mb \<and>
       (\<exists>k. 0 < k \<and> k \<le> n \<and> rt_lines t = map f_text (take k (ri_frames r)))) \<and>
     (\<not> rt_truncated t \<longrightarrow> rt_lines t = map f_text (take n (ri_frames r))))"
proof -
  obtain gs tr where gs: "gs = take (n - 1) fs" and tr: "tr \<longleftrightarrow> mb < length (f_text f) \<or> 0 < f_truncated_bytes f"
    by blast
  let ?t = "head_loop (ri_evicted_frames r) mb gs [f_text f] (length (f_text f)) tr"
  have t: "ring_head_of r n mb = ?t"
    using assms by (cases n) (simp_all add: ring_head_of_def Let_def gs tr)
  have "length (f_text f) = text_bytes [f_text f]" "[f_text f] \<noteq> []" by simp_all
  from head_loop_spec [OF this, of gs "ri_evicted_frames r" mb tr] obtain k where
    k: "k \<le> length gs \<and> rt_lines ?t = [f_text f] @ map f_text (take k gs) \<and>
      (k = 0 \<or> text_bytes [f_text f] + frame_bytes (take k gs) \<le> mb) \<and>
      (\<not> rt_truncated ?t \<longrightarrow> k = length gs \<and> \<not> tr \<and> (\<forall>f \<in> set gs. f_truncated_bytes f = 0))"
    by (rule exE)
  have "k \<le> length gs" using k by (rule conjunct1)
  then have kn: "Suc k \<le> n" and tk: "take (Suc k) (ri_frames r) = f # take k gs"
    using assms by (auto simp: gs min_absorb1)
  have tn: "take n (ri_frames r) = f # gs" using assms by (cases n) (simp_all add: gs)
  have big: "k = 0 \<and> tr" if "mb < length (f_text f)" using k that tr by auto
  have lines: "rt_lines ?t = map f_text (take (Suc k) (ri_frames r))" using k by (simp add: tk)
  show ?thesis
    unfolding t Let_def
  proof (intro conjI impI)
    show "rt_lines ?t = [f_text f]" "rt_truncated ?t" "mb < text_bytes (rt_lines ?t)"
      if "mb < length (f_text f)" using k big [OF that] that by auto
    show "text_bytes (rt_lines ?t) \<le> mb" if "length (f_text f) \<le> mb"
      using k that by (auto simp: frame_bytes_def o_def)
    show "\<exists>k. 0 < k \<and> k \<le> n \<and> rt_lines ?t = map f_text (take k (ri_frames r))"
      using lines kn by blast
    show "rt_lines ?t = map f_text (take n (ri_frames r))" if "\<not> rt_truncated ?t"
    proof -
      have "take k gs = gs" using k that by simp
      with k show ?thesis by (simp add: tn)
    qed
  qed
qed

lemma ring_tail_spec:
  assumes "\<forall>f \<in> set (ri_frames r). utf8_ok (f_text f)"
  shows "(let t = ring_tail_of r n mb in
      text_bytes (rt_lines t) \<le> mb \<and> length (rt_lines t) \<le> n \<and> (\<forall>l \<in> set (rt_lines t). utf8_ok l) \<and>
      rt_evicted_frames t = ri_evicted_frames r \<and>
      (\<not> rt_truncated t \<longrightarrow>
        rt_lines t = map f_text (drop (length (ri_frames r) - n) (ri_frames r)) \<and>
        (\<forall>f \<in> set (drop (length (ri_frames r) - n) (ri_frames r)). f_truncated_bytes f = 0)))"
proof -
  let ?fs = "take n (rev (ri_frames r))"
  have rev: "rev ?fs = drop (length (ri_frames r) - n) (ri_frames r)" by (simp add: take_rev)
  have "\<forall>l \<in> set (rt_lines (ring_tail_of r n mb)). utf8_ok l"
    unfolding ring_tail_of_def using assms by (intro tail_loop_utf8) (auto dest: in_set_takeD)
  moreover note tail_loop_spec [of 0 "[]" mb "ring_tail_of r n mb" "ri_evicted_frames r" ?fs False]
  ultimately show ?thesis
    unfolding Let_def ring_tail_of_def rev [symmetric] set_rev by simp
qed

section \<open>Properties of the context rings\<close>

definition sample_frame :: "uuid \<Rightarrow> string \<Rightarrow> source_frame" where
  "sample_frame u t =
     \<lparr>f_frame_id = FrameId u, f_probe_id = ProbeId ''p'', f_stream = Stdout, f_timestamp = 0, f_text = t,
      f_line = None, f_byte_offset = None, f_truncated_bytes = 0\<rparr>"

definition sample_ring :: ring_inner where
  "sample_ring =
     \<lparr>ri_config = \<lparr>rc_max_frames = 3, rc_max_bytes = 100\<rparr>,
      ri_frames = [sample_frame ''0'' ''aa'', sample_frame ''1'' ''bbb'', sample_frame ''2'' ''cc''],
      ri_total_bytes = 7, ri_evicted_frames = 4\<rparr>"

lemmas sample_ring_defs = sample_ring_def sample_frame_def

text \<open>
  C33. A ring fed any sequence of capped frames holds the longest newest part of that sequence
  that fits its bounds, in order: \<open>evicted_frames\<close> is the number of older frames that are gone, the
  frame count and the byte total are within the configured bounds and agree with the frames
  held, and keeping one of the evicted frames, with all that came after it, would have exceeded a bound.
\<close>

theorem ring_holds_newest:
  assumes "list_all (\<lambda>f. length (f_text f) \<le> MAX_FRAME_BYTES) fs" and "length fs \<le> u64_max"
    and "rc_max_bytes cfg + MAX_FRAME_BYTES \<le> usize_max"
  shows "(let r = foldl ring_push (ring_inner_new cfg) fs in
      ri_frames r = drop (ri_evicted_frames r) fs \<and>
      ri_evicted_frames r + length (ri_frames r) = length fs \<and>
      ri_total_bytes r = frame_bytes (ri_frames r) \<and>
      length (ri_frames r) \<le> rc_max_frames cfg \<and> ri_total_bytes r \<le> rc_max_bytes cfg \<and>
      (\<forall>k < ri_evicted_frames r.
         rc_max_frames cfg < length (drop k fs) \<or> rc_max_bytes cfg < frame_bytes (drop k fs)))"
proof -
  let ?r = "ring_inner_new cfg"
  have ok: "ring_inv ?r \<and> rc_max_bytes (ri_config ?r) + MAX_FRAME_BYTES \<le> usize_max"
    using assms(3) ring_inner_new_inv by (simp add: ring_inner_new_def)
  have new: "ri_frames ?r = []" "ri_evicted_frames ?r = 0" "ri_config ?r = cfg" by (simp_all add: ring_inner_new_def)
  have "ring_inv (foldl ring_push ?r fs)" using ring_fifo.pushes [OF ok assms(1)] by simp
  with ring_fifo.history [OF ok new(1,2) assms(1,2)] ring_fifo.history_least [OF ok new(1,2) assms(1,2)]
    ring_pushes_config [of ?r fs]
  show ?thesis
    unfolding new(3) by (auto simp: Let_def ring_inv_def in_bounds_def not_le)
qed

theorem ring_holds_newest_witness:
  "(let fs = [sample_frame ''0'' ''aa'', sample_frame ''1'' ''bbb'', sample_frame ''2'' ''c''];
        r = foldl ring_push (ring_inner_new \<lparr>rc_max_frames = 5, rc_max_bytes = 4\<rparr>) fs in
    ri_evicted_frames r = 1 \<and> ri_frames r = drop 1 fs)"
proof -
  let ?fs = "[sample_frame ''0'' ''aa'', sample_frame ''1'' ''bbb'', sample_frame ''2'' ''c'']"
  let ?cfg = "\<lparr>rc_max_frames = 5, rc_max_bytes = 4\<rparr>"
  let ?r = "foldl ring_push (ring_inner_new ?cfg) ?fs"
  have "list_all (\<lambda>f. length (f_text f) \<le> MAX_FRAME_BYTES) ?fs" "length ?fs \<le> u64_max"
    "rc_max_bytes ?cfg + MAX_FRAME_BYTES \<le> usize_max"
    by (simp_all add: sample_frame_def MAX_FRAME_BYTES_def u64_max_def)
  note r = ring_holds_newest [OF this, unfolded Let_def]
  obtain n where n: "n = ri_evicted_frames ?r" by simp
  have fits: "frame_bytes (drop n ?fs) \<le> 4" using r unfolding n by (metis ring_config.select_convs(2))
  have least: "\<forall>k < n. 5 < length (drop k ?fs) \<or> 4 < frame_bytes (drop k ?fs)" using r unfolding n by simp
  have "n \<noteq> 0" using fits by (cases n) (simp_all add: frame_bytes_def sample_frame_def)
  moreover have "\<not> 1 < n" using least by (auto simp: frame_bytes_def sample_frame_def)
  ultimately have "n = 1" by simp
  with r n show ?thesis by (simp add: Let_def)
qed

text \<open>
  An append evicts no more than it must: the ring keeps the longest run of newest frames,
  the appended one included, that fits the frame and byte bounds. In particular the appended
  frame itself is kept exactly when it fits a ring of its own.
\<close>

lemma ring_push_evicts_least:
  assumes "ring_inv r" and "frame_bytes (ri_frames r) + length (f_text f) \<le> usize_max"
  shows "ring_inv (ring_push r f) \<and> ri_config (ring_push r f) = ri_config r \<and>
    (\<exists>n. ri_frames (ring_push r f) = drop n (ri_frames r @ [f]) \<and>
      (\<forall>k < n. \<not> in_bounds (ri_config r) (drop k (ri_frames r @ [f])))) \<and>
    (f \<in> set (ri_frames (ring_push r f)) \<longleftrightarrow>
      1 \<le> rc_max_frames (ri_config r) \<and> length (f_text f) \<le> rc_max_bytes (ri_config r))"
proof -
  from ring_push_spec [OF assms] obtain n where n: "n \<le> Suc (length (ri_frames r))"
    "ri_config (ring_push r f) = ri_config r"
    "ri_frames (ring_push r f) = drop n (ri_frames r @ [f])"
    "\<forall>k < n. \<not> in_bounds (ri_config r) (drop k (ri_frames r @ [f]))"
    by (auto simp del: drop_append)
  have "f \<in> set (ri_frames (ring_push r f))"
    if "1 \<le> rc_max_frames (ri_config r)" "length (f_text f) \<le> rc_max_bytes (ri_config r)"
  proof -
    have "in_bounds (ri_config r) (drop (length (ri_frames r)) (ri_frames r @ [f]))"
      using that by (simp add: in_bounds_def)
    with n(4) have "n \<le> length (ri_frames r)" by (meson not_le)
    then show ?thesis by (simp add: n(3))
  qed
  moreover have "1 \<le> rc_max_frames (ri_config r) \<and> length (f_text f) \<le> rc_max_bytes (ri_config r)"
    if "f \<in> set (ri_frames (ring_push r f))"
    using ring_push_inv [OF assms] that n(2) split_list [OF that]
    by (auto simp: ring_inv_def in_bounds_def)
  ultimately show ?thesis using n ring_push_inv [OF assms] by blast
qed

text \<open>
  A context window around a frame that is still in the ring is a contiguous run of frames
  that contains it, reaches at most \<open>before\<close> back and \<open>after\<close> forward, holds at most
  \<open>MAX_WINDOW_FRAMES\<close> frames and at most the byte cap (the anchor frame alone may exceed it);
  if neither truncation flag is set it is the whole range asked for, as far as the ring
  reaches.
\<close>

lemma window_contains_anchor:
  assumes "index_of r (wn_anchor req) = Some i" and "length (ri_frames r) \<le> usize_max"
  shows "\<exists>lo hi. i - wn_before req \<le> lo \<and> lo \<le> i \<and> i \<le> hi \<and> hi \<le> i + wn_after req \<and>
    hi < length (ri_frames r) \<and> f_frame_id (ri_frames r ! i) = wn_anchor req \<and>
    (let w = ring_window r req in
     wp_frames w = map (\<lambda>k. context_line_of (ri_frames r ! k)) [lo ..< Suc hi] \<and>
     \<not> wp_anchor_missing w \<and> length (wp_frames w) \<le> MAX_WINDOW_FRAMES \<and>
     sum_list (map (\<lambda>l. length (cl_text l)) (wp_frames w)) \<le>
       max (min (case wn_max_bytes req of None \<Rightarrow> MAX_WINDOW_BYTES | Some n \<Rightarrow> n) MAX_WINDOW_BYTES)
         (length (f_text (ri_frames r ! i))) \<and>
     (\<not> wp_truncated_bytes w \<and> \<not> wp_truncated_frames w \<longrightarrow>
        lo = i - wn_before req \<and> hi = min (i + wn_after req) (length (ri_frames r) - 1)))"
  using assms by (rule ring_window_spec)

text \<open>
  The tail read never returns more than its byte budget nor more lines than asked for, and
  every line is valid UTF-8, also when an oversized newest frame is cut; if the read reports
  no truncation it returned the last \<open>max_lines\<close> frames whole and none of them had lost bytes
  on capture.
\<close>

lemma tail_within_budget:
  assumes "\<forall>f \<in> set (ri_frames r). utf8_ok (f_text f)"
  shows "(let t = ring_tail_of r n mb in
      text_bytes (rt_lines t) \<le> mb \<and> length (rt_lines t) \<le> n \<and> (\<forall>l \<in> set (rt_lines t). utf8_ok l) \<and>
      rt_evicted_frames t = ri_evicted_frames r \<and>
      (\<not> rt_truncated t \<longrightarrow>
        rt_lines t = map f_text (drop (length (ri_frames r) - n) (ri_frames r)) \<and>
        (\<forall>f \<in> set (drop (length (ri_frames r) - n) (ri_frames r)). f_truncated_bytes f = 0)))"
  using assms by (rule ring_tail_spec)

text \<open>
  The head read is documented as bounded by its byte budget, but takes an oversized first
  frame whole: whenever the oldest retained frame alone exceeds the budget, exactly that frame
  is returned, however small the budget (flagged as truncated). With an oldest frame that fits,
  the budget holds and the lines are the oldest retained frames.
\<close>

lemma head_budget:
  assumes "ri_frames r = f # fs" and "0 < n"
  shows "(let t = ring_head_of r n mb in
     (mb < length (f_text f) \<longrightarrow> rt_lines t = [f_text f] \<and> rt_truncated t \<and> mb < text_bytes (rt_lines t)) \<and>
     (length (f_text f) \<le> mb \<longrightarrow> text_bytes (rt_lines t) \<le> mb \<and>
       (\<exists>k. 0 < k \<and> k \<le> n \<and> rt_lines t = map f_text (take k (ri_frames r)))) \<and>
     (\<not> rt_truncated t \<longrightarrow> rt_lines t = map f_text (take n (ri_frames r))))"
  using assms by (rule ring_head_spec)

text \<open>
  Capping a frame's text keeps a valid UTF-8 prefix of at most \<open>MAX_FRAME_BYTES\<close> bytes, gives
  up at most three more bytes than the cap demands, and reports exactly the bytes dropped.
\<close>

lemma cap_text_utf8:
  assumes "utf8_ok text" and "length text \<le> u32_max"
  shows "(case cap_text text of (kept, dropped) \<Rightarrow>
      prefix kept text \<and> utf8_ok kept \<and> length kept \<le> MAX_FRAME_BYTES \<and>
      length kept + dropped = length text \<and>
      (MAX_FRAME_BYTES < length text \<longrightarrow> MAX_FRAME_BYTES \<le> length kept + 3))"
  using cap_text_spec [OF assms(1)] assms(2) by (cases "cap_text text") auto

end
