(* ===== verification/TC_Text.thy ===== *)
theory TC_Text
  imports TC_Prelude
begin

text \<open>
  The string functions of Rust's standard library that the command guards use, on strings as
  UTF-8 bytes: ASCII case folding, prefix and suffix tests, splitting, trimming, the iteration
  over characters, and the lexical structure of POSIX paths.

  A loop over characters that treats only ASCII characters specially and copies every other
  character is modelled as a loop over bytes: the bytes of a non-ASCII character are all above
  127, so none of them is special. Where a non-ASCII character matters (\<open>char::is_whitespace\<close>),
  \<open>chars\<close> cuts the string into the byte sequences of its characters.
\<close>

section \<open>ASCII characters\<close>

abbreviation BSL :: char where "BSL \<equiv> CHR 0x5C"
abbreviation DQ :: char where "DQ \<equiv> CHR 0x22"
abbreviation SQ :: char where "SQ \<equiv> CHR 0x27"
abbreviation BTICK :: char where "BTICK \<equiv> CHR 0x60"
abbreviation NL :: char where "NL \<equiv> CHR 0x0A"
abbreviation TAB :: char where "TAB \<equiv> CHR 0x09"
abbreviation CR :: char where "CR \<equiv> CHR 0x0D"

definition is_upper :: "char \<Rightarrow> bool" where
  "is_upper c \<longleftrightarrow> 65 \<le> byte c \<and> byte c \<le> 90"

definition is_digit :: "char \<Rightarrow> bool" where
  "is_digit c \<longleftrightarrow> 48 \<le> byte c \<and> byte c \<le> 57"

definition is_alpha :: "char \<Rightarrow> bool" where
  "is_alpha c \<longleftrightarrow> is_upper c \<or> 97 \<le> byte c \<and> byte c \<le> 122"

definition is_alnum :: "char \<Rightarrow> bool" where
  "is_alnum c \<longleftrightarrow> is_alpha c \<or> is_digit c"

definition lower_char :: "char \<Rightarrow> char" where
  "lower_char c = (if is_upper c then char_of (byte c + 32) else c)"

definition lower :: "string \<Rightarrow> string" where
  "lower s = map lower_char s"

definition eq_ignore_case :: "string \<Rightarrow> string \<Rightarrow> bool" where
  "eq_ignore_case a b \<longleftrightarrow> lower a = lower b"

lemma length_lower [simp]: "length (lower s) = length s"
  by (simp add: lower_def)

lemma lower_Nil [simp]: "lower [] = []"
  by (simp add: lower_def)

lemma lower_append [simp]: "lower (a @ b) = lower a @ lower b"
  by (simp add: lower_def)

section \<open>Prefixes, suffixes, splitting\<close>

definition starts_with :: "string \<Rightarrow> string \<Rightarrow> bool" where
  "starts_with p s \<longleftrightarrow> take (length p) s = p"

definition ends_with :: "string \<Rightarrow> string \<Rightarrow> bool" where
  "ends_with p s \<longleftrightarrow> length p \<le> length s \<and> drop (length s - length p) s = p"

fun contains :: "string \<Rightarrow> string \<Rightarrow> bool" where
  "contains p [] \<longleftrightarrow> p = []"
| "contains p (c # s) \<longleftrightarrow> starts_with p (c # s) \<or> contains p s"

definition strip_prefix :: "string \<Rightarrow> string \<Rightarrow> string option" where
  "strip_prefix p s = (if starts_with p s then Some (drop (length p) s) else None)"

definition strip_suffix :: "string \<Rightarrow> string \<Rightarrow> string option" where
  "strip_suffix p s = (if ends_with p s then Some (take (length s - length p) s) else None)"

definition trim_start_matches :: "char list \<Rightarrow> string \<Rightarrow> string" where
  "trim_start_matches cs s = dropWhile (\<lambda>c. c \<in> set cs) s"

definition trim_end_matches :: "char list \<Rightarrow> string \<Rightarrow> string" where
  "trim_end_matches cs s = rev (dropWhile (\<lambda>c. c \<in> set cs) (rev s))"

fun split_on :: "char \<Rightarrow> string \<Rightarrow> string list" where
  "split_on c [] = [[]]"
| "split_on c (x # xs) =
     (if x = c then [] # split_on c xs
      else case split_on c xs of [] \<Rightarrow> [[x]] | p # ps \<Rightarrow> (x # p) # ps)"

definition replace_char :: "char \<Rightarrow> char \<Rightarrow> string \<Rightarrow> string" where
  "replace_char a b s = map (\<lambda>c. if c = a then b else c) s"

fun join :: "string \<Rightarrow> string list \<Rightarrow> string" where
  "join sep [] = []"
| "join sep [w] = w"
| "join sep (w # ws) = w @ sep @ join sep ws"

text \<open>\<open>rsplit(['/', BSL]).next()\<close>: what follows the last separator of either kind.\<close>

definition last_segment :: "string \<Rightarrow> string" where
  "last_segment s = rev (takeWhile (\<lambda>c. c \<noteq> CHR ''/'' \<and> c \<noteq> BSL) (rev s))"

lemma starts_with_iff: "starts_with p s \<longleftrightarrow> (\<exists>t. s = p @ t)"
  by (metis append_eq_conv_conj append_take_drop_id starts_with_def)

lemma starts_with_Nil [simp]: "starts_with [] s"
  by (simp add: starts_with_def)

lemma starts_with_Cons [simp]:
  "starts_with (p # ps) [] \<longleftrightarrow> False"
  "starts_with (p # ps) (c # s) \<longleftrightarrow> c = p \<and> starts_with ps s"
  by (auto simp: starts_with_def)

lemma strip_prefix_Some: "strip_prefix p s = Some t \<longleftrightarrow> s = p @ t"
  by (auto simp: strip_prefix_def starts_with_iff)

lemma strip_prefix_None: "strip_prefix p s = None \<longleftrightarrow> \<not> starts_with p s"
  by (simp add: strip_prefix_def)

lemma strip_prefix_Nil [simp]: "strip_prefix [] s = Some s"
  by (simp add: strip_prefix_def)

lemma strip_prefix_Cons [simp]:
  "strip_prefix (p # ps) [] = None"
  "strip_prefix (p # ps) (c # s) = (if c = p then strip_prefix ps s else None)"
  by (auto simp: strip_prefix_def)

lemma split_on_not_Nil [simp]: "split_on c s \<noteq> []"
  by (induction s) (auto split: list.splits)

lemma split_on_notin: "c \<notin> set s \<Longrightarrow> split_on c s = [s]"
  by (induction s) auto

lemma split_on_append: "c \<notin> set a \<Longrightarrow> split_on c (a @ c # b) = a # split_on c b"
  by (induction a) auto

lemma split_on_sep: "split_on c (a @ c # b) = split_on c a @ split_on c b"
  by (induction a) (auto split: list.splits)

lemma split_on_pieces: "p \<in> set (split_on c s) \<Longrightarrow> c \<notin> set p"
proof (induction s arbitrary: p)
  case (Cons x s)
  then show ?case by (cases "split_on c s") (auto split: if_splits)
qed simp

lemma join_Cons: "ws \<noteq> [] \<Longrightarrow> join sep (w # ws) = w @ sep @ join sep ws"
  by (cases ws) auto

lemma join_split_on: "join [c] (split_on c s) = s"
proof (induction s)
  case (Cons x s)
  then show ?case
    by (cases "split_on c s"; cases "tl (split_on c s)") (auto simp: join_Cons)
qed simp

lemma trim_start_matches_hd: "c \<notin> set cs \<Longrightarrow> trim_start_matches cs (c # s) = c # s"
  by (simp add: trim_start_matches_def)

lemma trim_end_matches_snoc: "c \<notin> set cs \<Longrightarrow> trim_end_matches cs (s @ [c]) = s @ [c]"
  by (simp add: trim_end_matches_def)

lemma trim_end_matches_last:
  "s \<noteq> [] \<Longrightarrow> last s \<notin> set cs \<Longrightarrow> trim_end_matches cs s = s"
  by (metis append_butlast_last_id trim_end_matches_snoc)

lemma trim_end_matches_Nil [simp]: "trim_end_matches cs [] = []"
  by (simp add: trim_end_matches_def)

lemma last_segment_plain:
  "CHR ''/'' \<notin> set s \<Longrightarrow> BSL \<notin> set s \<Longrightarrow> last_segment s = s"
  unfolding last_segment_def by (subst takeWhile_eq_all_conv [THEN iffD2]) auto

section \<open>Characters\<close>

text \<open>The byte sequences of the characters of a string.\<close>

function chars :: "string \<Rightarrow> string list" where
  "chars [] = []"
| "chars (c # s) = (let n = utf8_len c - 1 in (c # take n s) # chars (drop n s))"
  by pat_completeness auto
termination
  by (relation "measure length") auto

declare chars.simps(2) [simp del]

lemma chars_ascii [simp]: "byte c < 128 \<Longrightarrow> chars (c # s) = [c] # chars s"
  by (simp add: chars.simps utf8_len_def)

lemma concat_chars [simp]: "concat (chars s) = s"
  by (induction s rule: chars.induct) (auto simp: chars.simps Let_def)

lemma chars_all_ascii: "\<forall>c \<in> set s. byte c < 128 \<Longrightarrow> chars s = map (\<lambda>c. [c]) s"
  by (induction s) auto

text \<open>\<open>char::is_whitespace\<close>: the property White_Space, by encoding.\<close>

definition is_whitespace :: "string \<Rightarrow> bool" where
  "is_whitespace ch =
     (case map byte ch of
        [b] \<Rightarrow> 9 \<le> b \<and> b \<le> 13 \<or> b = 32
      | [b, c] \<Rightarrow> b = 194 \<and> (c = 133 \<or> c = 160)
      | [b, c, d] \<Rightarrow>
          b = 225 \<and> c = 154 \<and> d = 128 \<or>
          b = 226 \<and> c = 128 \<and> (128 \<le> d \<and> d \<le> 138 \<or> d = 168 \<or> d = 169 \<or> d = 175) \<or>
          b = 226 \<and> c = 129 \<and> d = 159 \<or>
          b = 227 \<and> c = 128 \<and> d = 128
      | _ \<Rightarrow> False)"

definition trim_start :: "string \<Rightarrow> string" where
  "trim_start s = concat (dropWhile is_whitespace (chars s))"

definition trim :: "string \<Rightarrow> string" where
  "trim s = concat (rev (dropWhile is_whitespace (rev (dropWhile is_whitespace (chars s)))))"

definition solid :: "char \<Rightarrow> bool" where
  "solid c \<longleftrightarrow> 32 < byte c \<and> byte c < 127"

lemma solid_not_ws: "solid c \<Longrightarrow> \<not> is_whitespace [c]"
  by (simp add: solid_def is_whitespace_def)

text \<open>Text without spaces and without non-ASCII characters has nothing to trim.\<close>

lemma trim_solid: "\<forall>c \<in> set s. solid c \<Longrightarrow> trim s = s"
proof -
  assume s: "\<forall>c \<in> set s. solid c"
  then have c: "chars s = map (\<lambda>c. [c]) s" by (intro chars_all_ascii) (auto simp: solid_def)
  have "dropWhile is_whitespace (map (\<lambda>c. [c]) s) = map (\<lambda>c. [c]) s"
    using s solid_not_ws by (cases s) auto
  moreover have "dropWhile is_whitespace (rev (map (\<lambda>c. [c]) s)) = rev (map (\<lambda>c. [c]) s)"
    using s solid_not_ws by (cases s rule: rev_cases) auto
  ultimately show ?thesis by (simp add: trim_def c concat_map_singleton)
qed

section \<open>POSIX paths\<close>

text \<open>
  \<open>Path::components\<close> on Unix: the named parts, with empty parts and \<open>.\<close> dropped; \<open>is_rooted\<close> is
  the leading separator. (A leading \<open>.\<close> is a component of its own in the standard library;
  every use of the components in the modelled code skips it.)
\<close>

definition is_rooted :: "string \<Rightarrow> bool" where
  "is_rooted p \<longleftrightarrow> starts_with ''/'' p"

definition path_parts :: "string \<Rightarrow> string list" where
  "path_parts p = filter (\<lambda>s. s \<noteq> [] \<and> s \<noteq> ''.'') (split_on CHR ''/'' p)"

text \<open>\<open>Path::file_name\<close>: the last component, unless it is the parent.\<close>

definition file_name :: "string \<Rightarrow> string option" where
  "file_name p =
     (case rev (path_parts p) of
        [] \<Rightarrow> None
      | s # _ \<Rightarrow> if s = ''..'' then None else Some s)"

end
