(* ===== verification/TC_Job.thy ===== *)
theory TC_Job
  imports TC_Event TC_Text
begin

text \<open>
  The job ledger of \<^verbatim>\<open>crates/core/src/job.rs\<close> and the liveness projection of
  \<^verbatim>\<open>crates/daemon/src/liveness.rs\<close>. The clock readings are arguments; adding a duration to
  a point in time belongs to the \<open>time\<close> crate and is the parameter \<open>add\<close>, with \<open>None\<close> for its
  panic; the quoting of a string by \<open>Debug\<close> is the parameter \<open>debug_str\<close>.
\<close>

section \<open>Data\<close>

definition DEFAULT_JOB_GRACE :: duration where
  "DEFAULT_JOB_GRACE = 10 * 1000000000"

record job_config =
  jc_job_id :: job_id
  jc_argv :: "string list"
  jc_bucket_id :: bucket_id
  jc_probe_id :: probe_id
  jc_source_type :: source_type
  jc_grace_secs :: nat

definition job_config_new :: "job_id \<Rightarrow> string list \<Rightarrow> bucket_id \<Rightarrow> probe_id \<Rightarrow> job_config" where
  "job_config_new j argv b p =
     \<lparr>jc_job_id = j, jc_argv = argv, jc_bucket_id = b, jc_probe_id = p, jc_source_type = SProcess,
      jc_grace_secs = as_secs DEFAULT_JOB_GRACE\<rparr>"

datatype job_state = Starting | Running | Exited | Cancelled | Failed

record job_exit_info =
  xi_exit_code :: "int option"
  xi_signal :: "string option"
  xi_duration_ms :: nat

record job_record =
  jr_config :: job_config
  jr_state :: job_state
  jr_started_at :: timestamp
  jr_ended_at :: "timestamp option"
  jr_last_output_at :: "timestamp option"
  jr_bytes_seen :: nat
  jr_frames_seen :: nat
  jr_events_emitted :: nat
  jr_exit_info :: "job_exit_info option"

definition job_record_new :: "timestamp \<Rightarrow> job_config \<Rightarrow> job_record" where
  "job_record_new now cfg =
     \<lparr>jr_config = cfg, jr_state = Starting, jr_started_at = now, jr_ended_at = None,
      jr_last_output_at = None, jr_bytes_seen = 0, jr_frames_seen = 0, jr_events_emitted = 0,
      jr_exit_info = None\<rparr>"

type_synonym job_manager = "(job_id \<times> job_record) list"

type_synonym dt_add = "timestamp \<Rightarrow> nat \<Rightarrow> timestamp option"

section \<open>Operations\<close>

definition job_manager_new :: job_manager where
  "job_manager_new = []"

definition job_start :: "timestamp \<Rightarrow> job_manager \<Rightarrow> job_config \<Rightarrow> job_manager \<times> job_id" where
  "job_start now m cfg = (AList.update (jc_job_id cfg) (job_record_new now cfg) m, jc_job_id cfg)"

definition mark_running :: "job_manager \<Rightarrow> job_id \<Rightarrow> job_manager" where
  "mark_running m j =
     (case map_of m j of
        Some rec \<Rightarrow> if jr_state rec = Starting then AList.update j (rec\<lparr>jr_state := Running\<rparr>) m else m
      | None \<Rightarrow> m)"

definition record_frame :: "timestamp \<Rightarrow> job_manager \<Rightarrow> job_id \<Rightarrow> nat \<Rightarrow> job_manager" where
  "record_frame now m j bytes =
     (case map_of m j of
        Some rec \<Rightarrow>
          AList.update j
            (rec\<lparr>jr_frames_seen := sat_add_u64 (jr_frames_seen rec) 1,
                 jr_bytes_seen := sat_add_u64 (jr_bytes_seen rec) bytes,
                 jr_last_output_at := Some now\<rparr>) m
      | None \<Rightarrow> m)"

definition record_event :: "job_manager \<Rightarrow> job_id \<Rightarrow> job_manager" where
  "record_event m j =
     (case map_of m j of
        Some rec \<Rightarrow> AList.update j (rec\<lparr>jr_events_emitted := sat_add_u64 (jr_events_emitted rec) 1\<rparr>) m
      | None \<Rightarrow> m)"

definition lifecycle_command_label :: "(string \<Rightarrow> string) \<Rightarrow> string list \<Rightarrow> string" where
  "lifecycle_command_label debug_str argv =
     (let program =
        (case argv of
           [] \<Rightarrow> ''<unknown>''
         | arg0 # _ \<Rightarrow>
             (case file_name arg0 of
                None \<Rightarrow> ''<unknown>''
              | Some name \<Rightarrow> if name = [] then ''<unknown>'' else name))
      in ''program='' @ debug_str program @ '' argc='' @ show_nat (length argv))"

definition exit_info_timestamp :: "dt_add \<Rightarrow> job_exit_info \<Rightarrow> timestamp \<Rightarrow> timestamp option" where
  "exit_info_timestamp add xi started_at = add started_at (try_from_or_max i64_max (xi_duration_ms xi))"

definition debug_option :: "('a \<Rightarrow> string) \<Rightarrow> 'a option \<Rightarrow> string" where
  "debug_option sh v = (case v of None \<Rightarrow> ''None'' | Some a \<Rightarrow> ''Some('' @ sh a @ '')'')"

definition build_exit_event ::
  "dt_add \<Rightarrow> (string \<Rightarrow> string) \<Rightarrow> timestamp \<Rightarrow> job_config \<Rightarrow> job_exit_info \<Rightarrow> bool \<Rightarrow> timestamp \<Rightarrow>
     event_draft option" where
  "build_exit_event add debug_str now cfg exit nonzero started_at =
     (let caps =
        (case xi_exit_code exit of None \<Rightarrow> [] | Some c \<Rightarrow> [(''exit_code'', show_int c)]) @
        (case xi_signal exit of None \<Rightarrow> [] | Some s \<Rightarrow> [(''signal'', s)]) @
        [(''duration_ms'', show_nat (xi_duration_ms exit))];
          command = lifecycle_command_label debug_str (jc_argv cfg);
          summary =
            (if nonzero then
               ''command failed: '' @ command @ '' (exit='' @ debug_option show_int (xi_exit_code exit) @
               '', signal='' @ debug_option debug_str (xi_signal exit) @ '', dur_ms='' @
               show_nat (xi_duration_ms exit) @ '')''
             else
               ''command exited cleanly: '' @ command @ '' (dur_ms='' @
               show_nat (xi_duration_ms exit) @ '')'')
      in case exit_info_timestamp add exit started_at of
           None \<Rightarrow> None
         | Some seen \<Rightarrow> Some
             \<lparr>d_bucket_id = jc_bucket_id cfg, d_timestamp = now,
              d_severity = (if nonzero then Critical else Low),
              d_kind = (if nonzero then ''command_failed'' else ''command_exited''),
              d_summary = summary, d_rule = None,
              d_source = \<lparr>es_probe_id = jc_probe_id cfg, es_source_type = jc_source_type cfg,
                es_stream = Meta, es_job_id = Some (jc_job_id cfg)\<rparr>,
              d_captures = Some caps, d_pointer = None,
              d_pointer_unavailable_reason =
                (if nonzero then Some ''synthetic command-exit lifecycle event'' else None),
              d_tags = None, d_frame_truncated_bytes = 0, d_count = 1,
              d_first_seen = Some started_at, d_last_seen = Some seen, d_suppressed = False\<rparr>)"

definition duration_ms :: "timestamp \<Rightarrow> timestamp \<Rightarrow> nat" where
  "duration_ms ended started = try_from_or_max u64_max (nat (max 0 ((ended - started) div 1000000)))"

text \<open>
  \<open>finish\<close> and \<open>cancel\<close>: the ledger is updated under the lock, the draft is built after it is
  released, so a panic while building leaves the update in place. \<open>None\<close> is an unknown job.
\<close>

definition job_finish ::
  "dt_add \<Rightarrow> (string \<Rightarrow> string) \<Rightarrow> timestamp \<Rightarrow> timestamp \<Rightarrow> job_manager \<Rightarrow> job_id \<Rightarrow> int option \<Rightarrow>
     string option \<Rightarrow> job_manager \<times> (unit, event_draft option) outcome" where
  "job_finish add debug_str now now' m j exit_code signal =
     (case map_of m j of
        None \<Rightarrow> (m, Ok None)
      | Some rec \<Rightarrow>
          let exit = \<lparr>xi_exit_code = exit_code, xi_signal = signal,
                xi_duration_ms = duration_ms now (jr_started_at rec)\<rparr>;
              nonzero = (exit_code \<noteq> Some 0 \<or> signal \<noteq> None)
          in (AList.update j
                (rec\<lparr>jr_ended_at := Some now, jr_state := (if nonzero then Failed else Exited),
                     jr_exit_info := Some exit\<rparr>) m,
              case build_exit_event add debug_str now' (jr_config rec) exit nonzero (jr_started_at rec) of
                None \<Rightarrow> Panic | Some d \<Rightarrow> Ok (Some d)))"

definition job_cancel ::
  "dt_add \<Rightarrow> (string \<Rightarrow> string) \<Rightarrow> timestamp \<Rightarrow> timestamp \<Rightarrow> job_manager \<Rightarrow> job_id \<Rightarrow>
     job_manager \<times> (unit, event_draft option) outcome" where
  "job_cancel add debug_str now now' m j =
     (case map_of m j of
        None \<Rightarrow> (m, Ok None)
      | Some rec \<Rightarrow>
          let exit = \<lparr>xi_exit_code = None, xi_signal = Some ''CANCELLED'',
                xi_duration_ms = duration_ms now (jr_started_at rec)\<rparr>
          in (AList.update j
                (rec\<lparr>jr_state := Cancelled, jr_ended_at := Some now, jr_exit_info := Some exit\<rparr>) m,
              case build_exit_event add debug_str now' (jr_config rec) exit True (jr_started_at rec) of
                None \<Rightarrow> Panic | Some d \<Rightarrow> Ok (Some d)))"

definition job_get :: "job_manager \<Rightarrow> job_id \<Rightarrow> job_record option" where
  "job_get m j = map_of m j"

definition job_list :: "job_manager \<Rightarrow> job_record list" where
  "job_list m = map snd m"

definition job_forget :: "job_manager \<Rightarrow> job_id \<Rightarrow> job_manager \<times> job_record option" where
  "job_forget m j = (AList.delete j m, map_of m j)"

section \<open>Liveness\<close>

datatype liveness =
    LStarting
  | LRunning
  | LExited int
  | LFailed "int option" "string option"
  | LCancelled
  | LStopped
  | LDropped nat

fun command_liveness :: "job_state \<Rightarrow> int option \<Rightarrow> string option \<Rightarrow> liveness" where
  "command_liveness Starting c s = LStarting"
| "command_liveness Running c s = LRunning"
| "command_liveness Exited c s = LExited (case c of None \<Rightarrow> 0 | Some n \<Rightarrow> n)"
| "command_liveness Failed c s = LFailed c s"
| "command_liveness Cancelled c s = LCancelled"

section \<open>The ledger invariant\<close>

fun terminal :: "job_state \<Rightarrow> bool" where
  "terminal Starting \<longleftrightarrow> False"
| "terminal Running \<longleftrightarrow> False"
| "terminal _ \<longleftrightarrow> True"

text \<open>How the recorded exit explains the state.\<close>

fun exit_matches :: "job_state \<Rightarrow> job_exit_info option \<Rightarrow> bool" where
  "exit_matches Exited (Some xi) \<longleftrightarrow> xi_exit_code xi = Some 0 \<and> xi_signal xi = None"
| "exit_matches Failed (Some xi) \<longleftrightarrow> xi_exit_code xi \<noteq> Some 0 \<or> xi_signal xi \<noteq> None"
| "exit_matches Cancelled (Some xi) \<longleftrightarrow> xi_exit_code xi = None \<and> xi_signal xi = Some ''CANCELLED''"
| "exit_matches Starting None \<longleftrightarrow> True"
| "exit_matches Running None \<longleftrightarrow> True"
| "exit_matches _ _ \<longleftrightarrow> False"

definition job_inv :: "job_id \<Rightarrow> job_record \<Rightarrow> bool" where
  "job_inv j rec \<longleftrightarrow>
     jc_job_id (jr_config rec) = j \<and> exit_matches (jr_state rec) (jr_exit_info rec) \<and>
     (jr_ended_at rec \<noteq> None \<longleftrightarrow> terminal (jr_state rec)) \<and>
     jr_bytes_seen rec \<le> u64_max \<and> jr_frames_seen rec \<le> u64_max \<and> jr_events_emitted rec \<le> u64_max"

definition jobs_inv :: "job_manager \<Rightarrow> bool" where
  "jobs_inv m \<longleftrightarrow> (\<forall>j rec. map_of m j = Some rec \<longrightarrow> job_inv j rec)"

inductive job_step :: "dt_add \<Rightarrow> (string \<Rightarrow> string) \<Rightarrow> job_manager \<Rightarrow> job_manager \<Rightarrow> bool" for add dbg where
  start: "job_step add dbg m (fst (job_start now m cfg))"
| running: "job_step add dbg m (mark_running m j)"
| frame: "job_step add dbg m (record_frame now m j n)"
| event: "job_step add dbg m (record_event m j)"
| finish: "job_step add dbg m (fst (job_finish add dbg now now' m j code sig))"
| cancel: "job_step add dbg m (fst (job_cancel add dbg now now' m j))"
| forget: "job_step add dbg m (fst (job_forget m j))"

inductive job_reach :: "dt_add \<Rightarrow> (string \<Rightarrow> string) \<Rightarrow> job_manager \<Rightarrow> bool" for add dbg where
  new: "job_reach add dbg job_manager_new"
| step: "job_reach add dbg m \<Longrightarrow> job_step add dbg m m' \<Longrightarrow> job_reach add dbg m'"

lemma jobs_inv_update:
  "jobs_inv m \<Longrightarrow> job_inv j rec \<Longrightarrow> jobs_inv (AList.update j rec m)"
  by (simp add: jobs_inv_def update_conv')

lemma jobs_invD: "jobs_inv m \<Longrightarrow> map_of m j = Some rec \<Longrightarrow> job_inv j rec"
  by (simp add: jobs_inv_def)

lemma jobs_inv_modify:
  "jobs_inv m \<Longrightarrow> map_of m j = Some rec \<Longrightarrow> (job_inv j rec \<Longrightarrow> job_inv j rec') \<Longrightarrow>
   jobs_inv (AList.update j rec' m)"
  using jobs_invD jobs_inv_update by blast

lemma exit_matches_live: "exit_matches s xi \<Longrightarrow> \<not> terminal s \<Longrightarrow> xi = None"
  by (cases s; cases xi) auto

lemma job_step_inv: "job_step add dbg m m' \<Longrightarrow> jobs_inv m \<Longrightarrow> jobs_inv m'"
proof (induction rule: job_step.induct)
  case (start m now cfg)
  then show ?case
    by (auto simp: job_start_def job_record_new_def job_inv_def intro!: jobs_inv_update)
next
  case (running m j)
  have "job_inv j (rec\<lparr>jr_state := Running\<rparr>)" if "map_of m j = Some rec" "jr_state rec = Starting" for rec
    using jobs_invD [OF running that(1)] that(2) exit_matches_live [of Starting "jr_exit_info rec"]
    by (simp add: job_inv_def)
  with running show ?case
    by (auto simp: mark_running_def intro: jobs_inv_update split: option.splits)
next
  case (frame m now j n)
  then show ?case
    by (auto simp: record_frame_def job_inv_def split: option.splits
        elim!: jobs_inv_modify)
next
  case (event m j)
  then show ?case
    by (auto simp: record_event_def job_inv_def split: option.splits
        elim!: jobs_inv_modify)
next
  case (finish m now now' j code sig)
  then show ?case
    by (auto simp: job_finish_def job_inv_def Let_def split: option.splits
        elim!: jobs_inv_modify)
next
  case (cancel m now now' j)
  then show ?case
    by (auto simp: job_cancel_def job_inv_def Let_def split: option.splits
        elim!: jobs_inv_modify)
next
  case (forget m j)
  then show ?case by (auto simp: job_forget_def jobs_inv_def delete_conv' split: if_splits)
qed

lemma job_reach_inv: "job_reach add dbg m \<Longrightarrow> jobs_inv m"
proof (induction rule: job_reach.induct)
  case new
  show ?case by (simp add: job_manager_new_def jobs_inv_def)
qed (rule job_step_inv)

text \<open>The liveness both consumers derive from a ledger record.\<close>

definition record_liveness :: "job_record \<Rightarrow> liveness" where
  "record_liveness rec =
     command_liveness (jr_state rec)
       (case jr_exit_info rec of None \<Rightarrow> None | Some xi \<Rightarrow> xi_exit_code xi)
       (case jr_exit_info rec of None \<Rightarrow> None | Some xi \<Rightarrow> xi_signal xi)"

lemma duration_ms_bound: "max 0 (int (duration_ms e s) * 1000000) \<le> max 0 (e - s)"
proof -
  have "int (duration_ms e s) \<le> max 0 ((e - s) div 1000000)"
    using try_from_or_max_le(2) [of u64_max "nat (max 0 ((e - s) div 1000000))"]
    by (simp add: duration_ms_def le_nat_iff del: try_from_or_max_le)
  moreover have "(e - s) div 1000000 * 1000000 \<le> e - s" by simp
  ultimately show ?thesis by (auto simp: max_def split: if_splits)
qed

text \<open>
  The time crate's addition to a time \<open>s\<close>, as far as the result is not after a time \<open>t\<close>. As the crate
  documents, it is exact while the result can be represented and panics beyond, so this holds for any
  two times the clock has shown.
\<close>

definition add_total_until :: "dt_add \<Rightarrow> timestamp \<Rightarrow> timestamp \<Rightarrow> bool" where
  "add_total_until add s t \<longleftrightarrow>
     (\<forall>ms. s + int ms * 1000000 \<le> t \<longrightarrow> add s ms = Some (s + int ms * 1000000))"

lemma exit_info_timestamp_total:
  assumes "add_total_until add started (max now started)" and "xi_duration_ms xi = duration_ms now started"
  shows "\<exists>t. exit_info_timestamp add xi started = Some t \<and> started \<le> t \<and> t \<le> max now started"
proof -
  let ?n = "try_from_or_max i64_max (xi_duration_ms xi)"
  have "int ?n \<le> int (duration_ms now started)"
    using try_from_or_max_le(2) [of i64_max "xi_duration_ms xi"] assms(2) by simp
  then have "int ?n * 1000000 \<le> max 0 (now - started)"
    using duration_ms_bound [of now started] by linarith
  then have "started + int ?n * 1000000 \<le> max now started" by (auto simp: max_def split: if_splits)
  with assms(1) show ?thesis by (auto simp: exit_info_timestamp_def add_total_until_def)
qed

lemma build_exit_event_total:
  assumes "add_total_until add started (max now started)" and "xi_duration_ms xi = duration_ms now started"
  shows "\<exists>d. build_exit_event add dbg now' cfg xi nz started = Some d \<and> validate_draft d = Ok () \<and>
    d_kind d = (if nz then ''command_failed'' else ''command_exited'') \<and>
    d_severity d = (if nz then Critical else Low) \<and> d_bucket_id d = jc_bucket_id cfg \<and>
    es_job_id (d_source d) = Some (jc_job_id cfg)"
proof -
  obtain t where "exit_info_timestamp add xi started = Some t"
    using exit_info_timestamp_total [OF assms] by blast
  then show ?thesis
    by (cases nz) (simp_all add: build_exit_event_def Let_def validate_draft_def severity_order)
qed

section \<open>Properties of the ledger\<close>

text \<open>A time arithmetic in nanoseconds with an upper end: results after the year 9999 are not representable.\<close>

definition sample_add :: dt_add where
  "sample_add t ms =
     (let r = t + int ms * 1000000 in if 253402300799999999999 < r then None else Some r)"

lemma sample_add_total: "t \<le> 253402300799999999999 \<Longrightarrow> add_total_until sample_add s t"
  by (simp add: add_total_until_def sample_add_def)

definition sample_job :: job_config where
  "sample_job = job_config_new (JobId ''j'') [''/bin/ls'', ''-l''] (BucketId ''b'') (ProbeId ''p'')"

definition sample_jobs :: job_manager where
  "sample_jobs = fst (job_start 0 job_manager_new sample_job)"

lemma sample_jobs_reach: "job_reach add dbg sample_jobs"
  unfolding sample_jobs_def by (rule job_reach.step [OF job_reach.new job_step.start])

lemma sample_jobs_lookup: "map_of sample_jobs (JobId ''j'') = Some (job_record_new 0 sample_job)"
  by (simp add: sample_jobs_def job_start_def job_manager_new_def sample_job_def job_config_new_def)

text \<open>
  In every reachable ledger a job has an end time exactly when its state is terminal, and
  the recorded exit explains the state: a clean exit is code 0 without a signal, a failure is
  anything else, a cancellation carries the cancel marker. The liveness shown to clients is
  therefore faithful: a cancelled job is never shown as failed, and an exited one always
  with code 0.
\<close>

lemma job_liveness_faithful:
  assumes "job_reach add dbg m" and "map_of m j = Some rec"
  shows "job_inv j rec \<and>
    (record_liveness rec = LCancelled \<longleftrightarrow> jr_state rec = Cancelled) \<and>
    (jr_state rec = Exited \<longrightarrow> record_liveness rec = LExited 0) \<and>
    (\<forall>c s. record_liveness rec = LFailed c s \<longrightarrow> c \<noteq> Some 0 \<or> s \<noteq> None) \<and>
    (record_liveness rec \<in> {LStarting, LRunning} \<longleftrightarrow> jr_ended_at rec = None)"
proof -
  have inv: "job_inv j rec" using jobs_invD [OF job_reach_inv [OF assms(1)] assms(2)] .
  then show ?thesis
    by (cases "jr_state rec"; cases "jr_exit_info rec") (auto simp: job_inv_def record_liveness_def)
qed

text \<open>
  Finishing a known job never panics and always yields a draft the bucket accepts: with a
  time library that can add up to the current time, the draft is a \<open>command_exited\<close> of low
  severity for code 0 without a signal and a critical \<open>command_failed\<close> otherwise, it
  satisfies the pointer invariant, and the ledger state agrees with its kind.
\<close>

lemma job_finish_draft:
  assumes "map_of m j = Some rec" and "add_total_until add (jr_started_at rec) (max now (jr_started_at rec))"
  shows "\<exists>m' rec' d. job_finish add dbg now now' m j code sig = (m', Ok (Some d)) \<and>
    map_of m' = (map_of m)(j \<mapsto> rec') \<and> validate_draft d = Ok () \<and>
    (if code = Some 0 \<and> sig = None
     then d_kind d = ''command_exited'' \<and> d_severity d = Low \<and> jr_state rec' = Exited
     else d_kind d = ''command_failed'' \<and> d_severity d = Critical \<and> jr_state rec' = Failed)"
proof -
  let ?xi = "\<lparr>xi_exit_code = code, xi_signal = sig, xi_duration_ms = duration_ms now (jr_started_at rec)\<rparr>"
  let ?nz = "code \<noteq> Some 0 \<or> sig \<noteq> None"
  let ?rec = "rec\<lparr>jr_ended_at := Some now, jr_state := (if ?nz then Failed else Exited), jr_exit_info := Some ?xi\<rparr>"
  obtain d where d: "build_exit_event add dbg now' (jr_config rec) ?xi ?nz (jr_started_at rec) = Some d"
    "validate_draft d = Ok ()" "d_kind d = (if ?nz then ''command_failed'' else ''command_exited'')"
    "d_severity d = (if ?nz then Critical else Low)"
    using build_exit_event_total [OF assms(2), of ?xi dbg now' "jr_config rec" ?nz] by auto
  have "job_finish add dbg now now' m j code sig = (AList.update j ?rec m, Ok (Some d))"
    using assms(1) d(1) by (simp add: job_finish_def Let_def)
  with d(2-4) show ?thesis
    by (intro exI [of _ "AList.update j ?rec m"] exI [of _ ?rec] exI [of _ d]) (auto simp: update_conv')
qed

text \<open>
  The ledger does not protect a terminal state: a \<open>finish\<close> that comes after a \<open>cancel\<close>
  turns the cancelled job into an exited or failed one, and the client no longer sees the
  cancellation. Only the callers' own checks keep the two from meeting.
\<close>

lemma job_finish_overwrites_cancel:
  assumes "map_of m j = Some rec"
  shows "(let m1 = fst (job_cancel add dbg n1 n2 m j);
          m2 = fst (job_finish add dbg n3 n4 m1 j code sig) in
     map_option record_liveness (map_of m1 j) = Some LCancelled \<and>
     map_option record_liveness (map_of m2 j) =
       Some (if code = Some 0 \<and> sig = None then LExited 0 else LFailed code sig))"
  using assms by (auto simp: job_cancel_def job_finish_def Let_def update_conv' record_liveness_def)

end
