(* ===== verification/TC_Router.thy ===== *)
theory TC_Router
  imports TC_Wait TC_Context TC_Job
begin

text \<open>
  The daemon's in-process router (\<^verbatim>\<open>crates/daemon/src/router.rs\<close>), its in-memory audit sink
  (\<^verbatim>\<open>crates/daemon/src/audit.rs\<close>) and the bucket handlers of the local API
  (\<^verbatim>\<open>crates/daemon/src/ipc/handlers/bucket.rs\<close>). A router state holds the managers it
  shares and the sink; every operation first records an audit row and then calls its manager.
  Clock readings and fresh identifiers are arguments; a handler that reads the clock several
  times takes the readings as a function of their number.
\<close>

section \<open>The audit sink\<close>

definition ALLOWED_AUDIT_DECISIONS :: "string list" where
  "ALLOWED_AUDIT_DECISIONS = [''allow'', ''deny'', ''allow_with_audit'', ''error'', ''info'']"

definition DEFAULT_AUDIT_READ_LIMIT :: nat where
  "DEFAULT_AUDIT_READ_LIMIT = 200"

definition MAX_AUDIT_READ_LIMIT :: nat where
  "MAX_AUDIT_READ_LIMIT = 10000"

record audit_entry =
  ae_action :: string
  ae_subject :: string
  ae_decision :: string
  ae_profile :: "string option"
  ae_reason :: "string option"
  ae_actor :: "string option"
  ae_metadata_json :: "string option"

definition audit_entry_new :: "string \<Rightarrow> string \<Rightarrow> string \<Rightarrow> audit_entry" where
  "audit_entry_new action subject decision =
     \<lparr>ae_action = action, ae_subject = subject, ae_decision = decision, ae_profile = None,
      ae_reason = None, ae_actor = None, ae_metadata_json = None\<rparr>"

record audit_row =
  ar_audit_id :: nat
  ar_timestamp :: timestamp
  ar_entry :: audit_entry

record in_memory_audit =
  au_rows :: "audit_row list"
  au_next_id :: nat

definition audit_new :: in_memory_audit where
  "audit_new = \<lparr>au_rows = [], au_next_id = 0\<rparr>"

text \<open>The counter's \<open>+= 1\<close> on a \<open>u64\<close> overflows only after that many rows.\<close>

definition audit_emit :: "timestamp \<Rightarrow> in_memory_audit \<Rightarrow> audit_entry \<Rightarrow> in_memory_audit \<times> (string, nat) outcome" where
  "audit_emit now a e =
     (if ae_decision e \<notin> set ALLOWED_AUDIT_DECISIONS then
        (a, Err (''audit decision '' @ quoted (ae_decision e) @ '' is not in the closed set''))
      else
        let i = au_next_id a + 1 in
        (\<lparr>au_rows = au_rows a @ [\<lparr>ar_audit_id = i, ar_timestamp = now, ar_entry = e\<rparr>],
          au_next_id = i\<rparr>, Ok i))"

record audit_read_request =
  aq_cursor :: nat
  aq_action_filter :: "string option"
  aq_decision_filter :: "string option"
  aq_limit :: "nat option"

definition audit_matches :: "audit_read_request \<Rightarrow> audit_row \<Rightarrow> bool" where
  "audit_matches rq r \<longleftrightarrow>
     aq_cursor rq < ar_audit_id r \<and>
     (case aq_action_filter rq of None \<Rightarrow> True | Some a \<Rightarrow> ae_action (ar_entry r) = a) \<and>
     (case aq_decision_filter rq of None \<Rightarrow> True | Some d \<Rightarrow> ae_decision (ar_entry r) = d)"

definition audit_limit :: "nat option \<Rightarrow> nat" where
  "audit_limit l =
     clamp 1 MAX_AUDIT_READ_LIMIT (case l of None \<Rightarrow> DEFAULT_AUDIT_READ_LIMIT | Some n \<Rightarrow> n)"

definition audit_read_since :: "in_memory_audit \<Rightarrow> audit_read_request \<Rightarrow> audit_row list" where
  "audit_read_since a rq = take (audit_limit (aq_limit rq)) (filter (audit_matches rq) (au_rows a))"

section \<open>The router\<close>

record router =
  ro_buckets :: bucket_manager
  ro_rings :: ring_manager
  ro_jobs :: job_manager
  ro_audit :: in_memory_audit

definition record_audit :: "timestamp \<Rightarrow> router \<Rightarrow> audit_entry \<Rightarrow> router" where
  "record_audit now r e = r\<lparr>ro_audit := fst (audit_emit now (ro_audit r) e)\<rparr>"

definition router_entry :: "string \<Rightarrow> string \<Rightarrow> audit_entry" where
  "router_entry action subject = (audit_entry_new action subject ''info'')\<lparr>ae_actor := Some ''router''\<rparr>"

text \<open>A manager call that returns the changed manager with its result.\<close>

definition on_buckets ::
  "router \<Rightarrow> (bucket_error, bucket_manager \<times> 'a) outcome \<Rightarrow> router \<times> (bucket_error, 'a) outcome" where
  "on_buckets r res =
     (case res of
        Ok (m, a) \<Rightarrow> (r\<lparr>ro_buckets := m\<rparr>, Ok a) | Err e \<Rightarrow> (r, Err e) | Panic \<Rightarrow> (r, Panic))"

definition bucket_create ::
  "timestamp \<Rightarrow> router \<Rightarrow> bucket_id \<Rightarrow> bucket_config \<Rightarrow> router \<times> (bucket_error, unit) outcome" where
  "bucket_create now r b cfg =
     (let r1 = record_audit now r (router_entry ''bucket_create'' (bucket_wire b)) in
      on_buckets r1 (and_then (create_bucket now (ro_buckets r1) b cfg) (\<lambda>m. Ok (m, ()))))"

definition bucket_append ::
  "timestamp \<Rightarrow> event_id \<Rightarrow> router \<Rightarrow> bucket_id \<Rightarrow> event_draft \<Rightarrow>
     router \<times> (bucket_error, signal_event) outcome" where
  "bucket_append now eid r b draft =
     (let r1 = record_audit now r (router_entry ''bucket_append'' (bucket_wire b));
          ev = into_signal_event eid draft 0
      in on_buckets r1 (and_then (append_event (ro_buckets r1) b ev)
           (\<lambda>(m, s). Ok (m, ev\<lparr>ev_seq := s\<rparr>))))"

record dedupe_patch =
  dp_seq :: nat
  dp_count :: nat
  dp_first_seen :: timestamp
  dp_last_seen :: timestamp

definition bucket_patch_aggregation ::
  "timestamp \<Rightarrow> router \<Rightarrow> bucket_id \<Rightarrow> dedupe_patch \<Rightarrow> router \<times> (bucket_error, unit) outcome" where
  "bucket_patch_aggregation now r b p =
     (let r1 = record_audit now r (router_entry ''bucket_patch_aggregation'' (bucket_wire b)) in
      on_buckets r1 (and_then
        (patch_event_aggregation (ro_buckets r1) b (dp_seq p) (dp_count p) (dp_first_seen p) (dp_last_seen p))
        (\<lambda>m. Ok (m, ()))))"

definition bucket_events_since ::
  "dt_sub \<Rightarrow> timestamp \<Rightarrow> router \<Rightarrow> bucket_id \<Rightarrow> bucket_read_request \<Rightarrow>
     router \<times> (bucket_error, bucket_read_response) outcome" where
  "bucket_events_since sub now r b rq =
     (let r1 = record_audit now r (router_entry ''bucket_events_since'' (bucket_wire b)) in
      on_buckets r1 (events_since sub now (ro_buckets r1) b rq))"

definition router_bucket_summary ::
  "dt_sub \<Rightarrow> timestamp \<Rightarrow> router \<Rightarrow> bucket_id \<Rightarrow> router \<times> (bucket_error, bucket_summary) outcome" where
  "router_bucket_summary sub now r b =
     (let r1 = record_audit now r (router_entry ''bucket_summary'' (bucket_wire b)) in
      on_buckets r1 (summary sub now (ro_buckets r1) b))"

definition event_context ::
  "timestamp \<Rightarrow> router \<Rightarrow> probe_id \<Rightarrow> frame_id \<Rightarrow> nat \<Rightarrow> nat \<Rightarrow> nat option \<Rightarrow>
     router \<times> (context_error, window_response) outcome" where
  "event_context now r p anchor before after mb =
     (let r1 = record_audit now r (router_entry ''event_context'' (probe_wire p)) in
      (r1, context_window (ro_rings r1)
        \<lparr>wn_probe_id = p, wn_anchor = anchor, wn_before = before, wn_after = after, wn_max_bytes = mb\<rparr>))"

definition router_job_start :: "timestamp \<Rightarrow> router \<Rightarrow> job_config \<Rightarrow> router \<times> job_id" where
  "router_job_start now r cfg =
     (let r1 = record_audit now r (router_entry ''job_start'' (job_wire (jc_job_id cfg)));
          (m, j) = job_start now (ro_jobs r1) cfg
      in (r1\<lparr>ro_jobs := m\<rparr>, j))"

definition router_job_finish ::
  "dt_add \<Rightarrow> (string \<Rightarrow> string) \<Rightarrow> timestamp \<Rightarrow> timestamp \<Rightarrow> router \<Rightarrow> job_id \<Rightarrow> int option \<Rightarrow>
     string option \<Rightarrow> router \<times> (unit, event_draft option) outcome" where
  "router_job_finish add dbg now now' r j code sig =
     (let r1 = record_audit now r (router_entry ''job_finish'' (job_wire j));
          (m, d) = job_finish add dbg now now' (ro_jobs r1) j code sig
      in (r1\<lparr>ro_jobs := m\<rparr>, d))"

definition router_job_cancel ::
  "dt_add \<Rightarrow> (string \<Rightarrow> string) \<Rightarrow> timestamp \<Rightarrow> timestamp \<Rightarrow> router \<Rightarrow> job_id \<Rightarrow>
     router \<times> (unit, event_draft option) outcome" where
  "router_job_cancel add dbg now now' r j =
     (let r1 = record_audit now r (router_entry ''job_cancel'' (job_wire j));
          (m, d) = job_cancel add dbg now now' (ro_jobs r1) j
      in (r1\<lparr>ro_jobs := m\<rparr>, d))"

section \<open>Error reporting\<close>

datatype ipc_error_code =
    BucketNotFoundCode | EventNotFoundCode | InternalCode | FrameTooLargeCode | MalformedJsonCode
  | UnknownSubscriptionCode | SubscriptionLimitExceededCode

datatype ipc_error = IpcError ipc_error_code string

fun core_error_display :: "core_error \<Rightarrow> string" where
  "core_error_display (InvalidId r) = ''invalid identifier: '' @ r"
| "core_error_display (IdParse v r) = ''could not parse identifier '' @ quoted v @ '': '' @ r"
| "core_error_display (UnknownSeverity v) =
     ''unknown severity '' @ quoted v @ '' (expected one of trace/debug/info/low/medium/high/critical)''"
| "core_error_display (PointerInvariantViolation e s) =
     ''event '' @ quoted e @ '' (severity '' @ s @ '') has neither pointer nor pointer_unavailable_reason''"

fun bucket_error_display :: "bucket_error \<Rightarrow> string" where
  "bucket_error_display (AlreadyExists b) = ''bucket '' @ quoted (bucket_wire b) @ '' already exists''"
| "bucket_error_display (NotFound b) = ''bucket '' @ quoted (bucket_wire b) @ '' not found''"
| "bucket_error_display (EventBucketMismatch e b) =
     ''event bucket mismatch: event.bucket_id='' @ bucket_wire e @ '' but appending to '' @ bucket_wire b"
| "bucket_error_display (NonMonotonicSeq s t) =
     ''event seq '' @ show_nat s @ '' is not greater than the bucket tail seq '' @ show_nat t @
     '' (manager assigns seq monotonically; do not pre-set)''"
| "bucket_error_display (EventSeqNotFound b s) =
     ''event seq '' @ show_nat s @ '' not found in bucket '' @ quoted (bucket_wire b)"
| "bucket_error_display (PresetSeqIntoEmptyBucket b s) =
     ''caller pre-set a nonzero seq '' @ show_nat s @ '' on the first event of empty bucket '' @
     quoted (bucket_wire b) @ '' (the manager assigns seq monotonically from 1; do not pre-set)''"
| "bucket_error_display (SeqExhausted b t) =
     ''bucket '' @ quoted (bucket_wire b) @ '' seq space exhausted at u64::MAX (tail '' @ show_nat t @
     ''); cannot assign a new monotonic seq''"
| "bucket_error_display (BCore e) = ''core error: '' @ core_error_display e"

fun context_error_display :: "context_error \<Rightarrow> string" where
  "context_error_display (RingExists p) = ''context ring for probe '' @ quoted (probe_wire p) @ '' already exists''"
| "context_error_display (RingNotFound p) = ''no context ring for probe '' @ quoted (probe_wire p)"

fun map_bucket_error :: "bucket_error \<Rightarrow> ipc_error" where
  "map_bucket_error (NotFound b) = IpcError BucketNotFoundCode (bucket_error_display (NotFound b))"
| "map_bucket_error e = IpcError InternalCode (bucket_error_display e)"

section \<open>The bucket handlers\<close>

definition MAX_BUCKET_READ_LIMIT :: nat where
  "MAX_BUCKET_READ_LIMIT = 10000"

definition DEFAULT_BUCKET_READ_LIMIT :: nat where
  "DEFAULT_BUCKET_READ_LIMIT = 200"

definition MAX_CONTEXT_FRAMES :: nat where
  "MAX_CONTEXT_FRAMES = 1024"

definition DEFAULT_CONTEXT_BEFORE :: nat where
  "DEFAULT_CONTEXT_BEFORE = 5"

definition DEFAULT_CONTEXT_AFTER :: nat where
  "DEFAULT_CONTEXT_AFTER = 5"

definition MAX_CONTEXT_BYTES :: nat where
  "MAX_CONTEXT_BYTES = 65536"

definition handler_limit :: "nat \<Rightarrow> nat option \<Rightarrow> nat" where
  "handler_limit config_limit l =
     min (min (case l of None \<Rightarrow> DEFAULT_BUCKET_READ_LIMIT | Some n \<Rightarrow> n) MAX_BUCKET_READ_LIMIT) config_limit"

record events_since_params =
  ep_bucket_id :: bucket_id
  ep_cursor :: nat
  ep_severity_min :: "severity option"
  ep_kind_filter :: "string option"
  ep_limit :: "nat option"

text \<open>Results of the router with their errors mapped to the wire.\<close>

definition map_err :: "('e \<Rightarrow> 'f) \<Rightarrow> ('e, 'a) outcome \<Rightarrow> ('f, 'a) outcome" where
  "map_err f r = (case r of Ok a \<Rightarrow> Ok a | Err e \<Rightarrow> Err (f e) | Panic \<Rightarrow> Panic)"

definition handle_bucket_events_since ::
  "dt_sub \<Rightarrow> nat \<Rightarrow> timestamp \<Rightarrow> router \<Rightarrow> events_since_params \<Rightarrow>
     router \<times> (ipc_error, bucket_read_response) outcome" where
  "handle_bucket_events_since sub config_limit now r p =
     (let (r', res) = bucket_events_since sub now r (ep_bucket_id p)
        \<lparr>rq_cursor = ep_cursor p, rq_severity_min = ep_severity_min p, rq_kind_filter = ep_kind_filter p,
         rq_limit = Some (handler_limit config_limit (ep_limit p))\<rparr>
      in (r', map_err map_bucket_error res))"

definition handle_bucket_summary ::
  "dt_sub \<Rightarrow> timestamp \<Rightarrow> router \<Rightarrow> bucket_id \<Rightarrow> router \<times> (ipc_error, bucket_summary) outcome" where
  "handle_bucket_summary sub now r b =
     (let (r', res) = router_bucket_summary sub now r b in (r', map_err map_bucket_error res))"

definition scan_request :: "nat \<Rightarrow> bucket_read_request" where
  "scan_request cursor =
     \<lparr>rq_cursor = cursor, rq_severity_min = None, rq_kind_filter = None, rq_limit = Some MAX_BUCKET_READ_LIMIT\<rparr>"

text \<open>What a router read does to the buckets.\<close>

lemma record_audit_frame [simp]:
  "ro_buckets (record_audit now r e) = ro_buckets r" "ro_rings (record_audit now r e) = ro_rings r"
  "ro_jobs (record_audit now r e) = ro_jobs r"
  by (simp_all add: record_audit_def)

lemma bucket_events_since_Ok:
  assumes "bucket_events_since sub now r b rq = (r', Ok page)"
  obtains m bi bi' where "events_since sub now (ro_buckets r) b rq = Ok (m, page)" "ro_buckets r' = m"
    "ro_rings r' = ro_rings r" "map_of (ro_buckets r) b = Some bi" "evict_expired sub now bi = Some bi'"
    "m = AList.update b bi' (ro_buckets r)" "page = read_inner b rq bi'"
    "set (bi_events bi') \<subseteq> set (bi_events bi)"
    "length (filter (\<lambda>e. c < ev_seq e) (bi_events bi')) \<le> length (filter (\<lambda>e. c < ev_seq e) (bi_events bi))"
proof -
  from assms obtain m where m: "events_since sub now (ro_buckets r) b rq = Ok (m, page)"
    and r': "ro_buckets r' = m" "ro_rings r' = ro_rings r"
    by (auto simp: bucket_events_since_def Let_def on_buckets_def split: outcome.splits)
  from m obtain bi bi' where bi: "map_of (ro_buckets r) b = Some bi" "evict_expired sub now bi = Some bi'"
    "m = AList.update b bi' (ro_buckets r)" "page = read_inner b rq bi'"
    by (rule events_since_Ok)
  from bi(2) obtain n where n: "bi_events bi' = drop n (bi_events bi)"
    by (rule evict_expired_Some) auto
  have "length (filter (\<lambda>e. c < ev_seq e) (bi_events bi')) \<le> length (filter (\<lambda>e. c < ev_seq e) (bi_events bi))"
    by (simp add: n length_filter_drop)
  then show thesis
    using that [OF m r' bi] by (auto simp: n dest: in_set_dropD)
qed

function scan_bucket ::
  "dt_sub \<Rightarrow> (nat \<Rightarrow> timestamp) \<Rightarrow> nat \<Rightarrow> router \<Rightarrow> bucket_id \<Rightarrow> event_id \<Rightarrow> nat \<Rightarrow>
     router \<times> (ipc_error, signal_event option) outcome" where
  "scan_bucket sub clk n r b eid cursor =
     (case bucket_events_since sub (clk n) r b (scan_request cursor) of
        (r', Ok page) \<Rightarrow>
          (case find (\<lambda>e. ev_event_id e = eid) (rp_events page) of
             Some ev \<Rightarrow> (r', Ok (Some ev))
           | None \<Rightarrow>
               if \<not> rp_has_more page then (r', Ok None)
               else scan_bucket sub clk (Suc n) r' b eid (rp_next_cursor page))
      | (r', Err e) \<Rightarrow> (r', Err (map_bucket_error e))
      | (r', Panic) \<Rightarrow> (r', Panic))"
  by pat_completeness auto
termination
proof (relation "measure (\<lambda>(sub, clk, n, r, b, eid, cursor).
    case map_of (ro_buckets r) b of None \<Rightarrow> 0
    | Some bi \<Rightarrow> length (filter (\<lambda>e. cursor < ev_seq e) (bi_events bi)))", goal_cases)
  case 1
  show ?case by simp
next
  case (2 sub clk n r b eid cursor r' oc page)
  then have page: "bucket_events_since sub (clk n) r b (scan_request cursor) = (r', Ok page)"
    and more: "rp_has_more page" by simp_all
  from page obtain m bi bi' where *: "ro_buckets r' = m" "map_of (ro_buckets r) b = Some bi"
    "m = AList.update b bi' (ro_buckets r)" "page = read_inner b (scan_request cursor) bi'"
    "length (filter (\<lambda>e. cursor < ev_seq e) (bi_events bi')) \<le> length (filter (\<lambda>e. cursor < ev_seq e) (bi_events bi))"
    by (rule bucket_events_since_Ok)
  note adv = read_inner_advances [OF more [unfolded *(4)]]
  have cur: "rq_cursor (scan_request cursor) = cursor" by (simp add: scan_request_def)
  have "length (filter (\<lambda>e. rp_next_cursor page < ev_seq e) (filter (\<lambda>e. cursor < ev_seq e) (bi_events bi')))
      < length (filter (\<lambda>e. cursor < ev_seq e) (bi_events bi'))"
    by (rule length_filter_less [of "last (rp_events page)"]) (use adv *(4) cur in auto)
  moreover have "filter (\<lambda>e. rp_next_cursor page < ev_seq e) (filter (\<lambda>e. cursor < ev_seq e) (bi_events bi'))
      = filter (\<lambda>e. rp_next_cursor page < ev_seq e) (bi_events bi')"
    using adv(2) *(4) cur by (auto intro!: filter_cong)
  ultimately show ?case using * by (simp add: update_conv')
qed

declare scan_bucket.simps [simp del]

text \<open>The scan over the live buckets, in the map's iteration order, up to the first hit.\<close>

fun scan_buckets ::
  "dt_sub \<Rightarrow> (nat \<Rightarrow> nat \<Rightarrow> timestamp) \<Rightarrow> router \<Rightarrow> event_id \<Rightarrow> nat \<Rightarrow> bucket_id list \<Rightarrow>
     router \<times> (ipc_error, (bucket_id \<times> signal_event) option) outcome" where
  "scan_buckets sub clk r eid k [] = (r, Ok None)"
| "scan_buckets sub clk r eid k (b # bs) =
     (case scan_bucket sub (clk k) 0 r b eid 0 of
        (r', Ok (Some ev)) \<Rightarrow> (r', Ok (Some (b, ev)))
      | (r', Ok None) \<Rightarrow> scan_buckets sub clk r' eid (Suc k) bs
      | (r', Err e) \<Rightarrow> (r', Err e)
      | (r', Panic) \<Rightarrow> (r', Panic))"

datatype context_unavailable_reason = NoPointer | SyntheticEvent | AnchorEvicted | UnknownProbe

record event_context_params =
  cp_bucket_id :: "bucket_id option"
  cp_event_id :: event_id
  cp_before :: "nat option"
  cp_after :: "nat option"
  cp_max_bytes :: "nat option"

record ipc_context_frame =
  cf_probe_id :: probe_id
  cf_frame_id :: frame_id
  cf_stream :: source_stream
  cf_line :: "nat option"
  cf_text :: string

record event_context_response =
  cr_bucket_id :: bucket_id
  cr_event_id :: event_id
  cr_anchor_missing :: bool
  cr_unavailable_reason :: "context_unavailable_reason option"
  cr_pointer_unavailable_reason :: "string option"
  cr_frames :: "ipc_context_frame list"
  cr_total_bytes :: nat
  cr_truncated :: bool

definition resolve_event ::
  "dt_sub \<Rightarrow> (nat \<Rightarrow> nat \<Rightarrow> timestamp) \<Rightarrow> router \<Rightarrow> event_context_params \<Rightarrow>
     router \<times> (ipc_error, bucket_id \<times> signal_event) outcome" where
  "resolve_event sub clk r p =
     (case cp_bucket_id p of
        Some requested \<Rightarrow>
          (case scan_bucket sub (clk 0) 0 r requested (cp_event_id p) 0 of
             (r', Ok (Some ev)) \<Rightarrow> (r', Ok (requested, ev))
           | (r', Ok None) \<Rightarrow>
               (r', Err (IpcError EventNotFoundCode
                 (''event '' @ event_wire (cp_event_id p) @ '' not found in bucket '' @ bucket_wire requested)))
           | (r', Err e) \<Rightarrow> (r', Err e)
           | (r', Panic) \<Rightarrow> (r', Panic))
      | None \<Rightarrow>
          (case scan_buckets sub clk r (cp_event_id p) 0 (list_bucket_ids (ro_buckets r)) of
             (r', Ok (Some pair)) \<Rightarrow> (r', Ok pair)
           | (r', Ok None) \<Rightarrow>
               (r', Err (IpcError EventNotFoundCode
                 (''event '' @ event_wire (cp_event_id p) @ '' not found in any live bucket'')))
           | (r', Err e) \<Rightarrow> (r', Err e)
           | (r', Panic) \<Rightarrow> (r', Panic)))"

definition empty_context ::
  "bucket_id \<Rightarrow> event_id \<Rightarrow> bool \<Rightarrow> context_unavailable_reason \<Rightarrow> string option \<Rightarrow> event_context_response" where
  "empty_context b eid missing reason pur =
     \<lparr>cr_bucket_id = b, cr_event_id = eid, cr_anchor_missing = missing,
      cr_unavailable_reason = Some reason, cr_pointer_unavailable_reason = pur,
      cr_frames = [], cr_total_bytes = 0, cr_truncated = False\<rparr>"

definition project_line :: "probe_id \<Rightarrow> context_line \<Rightarrow> ipc_context_frame" where
  "project_line p l =
     \<lparr>cf_probe_id = p, cf_frame_id = cl_frame_id l, cf_stream = cl_stream l, cf_line = cl_line l,
      cf_text = cl_text l\<rparr>"

text \<open>Step 3 of the handler: the clamped window request for an event's pointer.\<close>

definition clamp_to :: "nat option \<Rightarrow> nat \<Rightarrow> nat \<Rightarrow> nat" where
  "clamp_to v dflt cap = min (case v of None \<Rightarrow> dflt | Some n \<Rightarrow> n) cap"

text \<open>Step 6: the projection of a window onto the wire.\<close>

definition context_of_window ::
  "event_context_params \<Rightarrow> bucket_id \<Rightarrow> signal_event \<Rightarrow> window_response \<Rightarrow> event_context_response" where
  "context_of_window p b ev w =
     \<lparr>cr_bucket_id = b, cr_event_id = cp_event_id p, cr_anchor_missing = False,
      cr_unavailable_reason = None,
      cr_pointer_unavailable_reason = ev_pointer_unavailable_reason ev,
      cr_frames = map (project_line (es_probe_id (ev_source ev))) (wp_frames w),
      cr_total_bytes = foldl (\<lambda>n l. sat_add usize_max n (length (cl_text l))) 0 (wp_frames w),
      cr_truncated = (wp_truncated_before w \<or> wp_truncated_after w \<or>
        wp_truncated_bytes w \<or> wp_truncated_frames w)\<rparr>"

definition context_reply ::
  "timestamp \<Rightarrow> router \<Rightarrow> event_context_params \<Rightarrow> bucket_id \<Rightarrow> signal_event \<Rightarrow>
     router \<times> (ipc_error, event_context_response) outcome" where
  "context_reply now r p b ev =
     (case ev_pointer ev of
        None \<Rightarrow>
          (r, Ok (empty_context b (cp_event_id p) False
             (if ev_pointer_unavailable_reason ev \<noteq> None then SyntheticEvent
              else if ev_severity ev < Medium then NoPointer else SyntheticEvent)
             (ev_pointer_unavailable_reason ev)))
      | Some ptr \<Rightarrow>
          (case event_context now r (es_probe_id (ev_source ev)) (sp_frame_id ptr)
                  (clamp_to (cp_before p) DEFAULT_CONTEXT_BEFORE MAX_CONTEXT_FRAMES)
                  (clamp_to (cp_after p) DEFAULT_CONTEXT_AFTER MAX_CONTEXT_FRAMES)
                  (Some (clamp_to (cp_max_bytes p) MAX_CONTEXT_BYTES MAX_CONTEXT_BYTES)) of
             (r2, Err e) \<Rightarrow> (r2, Err (IpcError InternalCode (context_error_display e)))
           | (r2, Panic) \<Rightarrow> (r2, Panic)
           | (r2, Ok w) \<Rightarrow>
               (r2, Ok (if wp_anchor_missing w
                        then empty_context b (cp_event_id p) True AnchorEvicted
                               (ev_pointer_unavailable_reason ev)
                        else context_of_window p b ev w))))"

definition handle_event_context ::
  "dt_sub \<Rightarrow> (nat \<Rightarrow> nat \<Rightarrow> timestamp) \<Rightarrow> timestamp \<Rightarrow> router \<Rightarrow> event_context_params \<Rightarrow>
     router \<times> (ipc_error, event_context_response) outcome" where
  "handle_event_context sub clk now r p =
     (case resolve_event sub clk r p of
        (r1, Ok (b, ev)) \<Rightarrow> context_reply now r1 p b ev
      | (r1, Err e) \<Rightarrow> (r1, Err e)
      | (r1, Panic) \<Rightarrow> (r1, Panic))"

section \<open>The scan finds every live event\<close>

definition bucket_events :: "router \<Rightarrow> bucket_id \<Rightarrow> signal_event list" where
  "bucket_events r b = (case map_of (ro_buckets r) b of None \<Rightarrow> [] | Some bi \<Rightarrow> bi_events bi)"

lemma scan_page:
  assumes "manager_inv (ro_buckets r)" and "bucket_events_since sub now r b (scan_request cursor) = (r', Ok page)"
  shows "manager_inv (ro_buckets r')" "ro_rings r' = ro_rings r"
    "set (bucket_events r' b) \<subseteq> set (bucket_events r b)"
    "b' \<noteq> b \<Longrightarrow> bucket_events r' b' = bucket_events r b'"
    "set (rp_events page) \<subseteq> set (bucket_events r' b)"
    "\<And>e. e \<in> set (bucket_events r' b) \<Longrightarrow> cursor < ev_seq e \<Longrightarrow>
      e \<in> set (rp_events page) \<or> rp_has_more page \<and> rp_next_cursor page < ev_seq e"
proof -
  from assms(2) obtain m bi bi' where *: "events_since sub now (ro_buckets r) b (scan_request cursor) = Ok (m, page)"
    "ro_buckets r' = m" "ro_rings r' = ro_rings r" "map_of (ro_buckets r) b = Some bi"
    "evict_expired sub now bi = Some bi'" "m = AList.update b bi' (ro_buckets r)"
    "page = read_inner b (scan_request cursor) bi'" "set (bi_events bi') \<subseteq> set (bi_events bi)"
    by (rule bucket_events_since_Ok)
  show "manager_inv (ro_buckets r')"
    using events_since_inv [OF assms(1) *(1)] *(2) by simp
  show "ro_rings r' = ro_rings r" by (rule *(3))
  show "set (bucket_events r' b) \<subseteq> set (bucket_events r b)"
    "b' \<noteq> b \<Longrightarrow> bucket_events r' b' = bucket_events r b'"
    using *(2,4,6,8) by (simp_all add: bucket_events_def update_conv')
  have ev: "bucket_events r' b = bi_events bi'" using *(2,6) by (simp add: bucket_events_def update_conv')
  have p: "passes (scan_request c) = (\<lambda>e. c < ev_seq e)" for c
    by (simp add: fun_eq_iff passes_def scan_request_def not_le)
  have upd: "(scan_request cursor)\<lparr>rq_cursor := n\<rparr> = scan_request n" for n
    by (simp add: scan_request_def)
  show "set (rp_events page) \<subseteq> set (bucket_events r' b)"
    unfolding ev *(7) read_inner_events by (auto dest: in_set_takeD)
  have "bucket_inv bi'" using assms(1) *(4,5) by (metis evict_expired_inv manager_invD(1))
  from read_inner_chain [OF this, of "scan_request cursor" b]
  have chain: "filter (\<lambda>e. cursor < ev_seq e) (bi_events bi') =
      rp_events page @ filter (\<lambda>e. rp_next_cursor page < ev_seq e) (bi_events bi')"
    unfolding *(7) upd p .
  show "e \<in> set (rp_events page) \<or> rp_has_more page \<and> rp_next_cursor page < ev_seq e"
    if e: "e \<in> set (bucket_events r' b)" "cursor < ev_seq e" for e
  proof -
    have "e \<in> set (filter (\<lambda>e. cursor < ev_seq e) (bi_events bi'))" using e by (simp add: ev)
    then have *: "e \<in> set (rp_events page) \<or> rp_next_cursor page < ev_seq e" unfolding chain by auto
    have "e \<in> set (rp_events page)" if "\<not> rp_has_more page"
      using that \<open>e \<in> set (filter _ _)\<close> unfolding \<open>page = _\<close> read_inner_more read_inner_events p by simp
    with * show ?thesis by blast
  qed
qed

lemma bucket_events_since_fails:
  "bucket_events_since sub now r b rq = (r', oc) \<Longrightarrow> (\<And>page. oc \<noteq> Ok page) \<Longrightarrow>
     ro_buckets r' = ro_buckets r \<and> ro_rings r' = ro_rings r"
  by (auto simp: bucket_events_since_def Let_def on_buckets_def split: outcome.splits)

lemma scan_bucket_spec:
  assumes "manager_inv (ro_buckets r)" and "scan_bucket sub clk n r b eid cursor = (r', res)"
  shows "manager_inv (ro_buckets r')" "ro_rings r' = ro_rings r"
    "b' \<noteq> b \<Longrightarrow> bucket_events r' b' = bucket_events r b'"
    "set (bucket_events r' b) \<subseteq> set (bucket_events r b)"
    "res = Ok (Some ev) \<Longrightarrow> ev \<in> set (bucket_events r b) \<and> ev_event_id ev = eid"
    "res = Ok None \<Longrightarrow> e \<in> set (bucket_events r' b) \<Longrightarrow> cursor < ev_seq e \<Longrightarrow> ev_event_id e \<noteq> eid"
proof -
  have "manager_inv (ro_buckets r') \<and> ro_rings r' = ro_rings r \<and>
    (\<forall>b'. b' \<noteq> b \<longrightarrow> bucket_events r' b' = bucket_events r b') \<and>
    set (bucket_events r' b) \<subseteq> set (bucket_events r b) \<and>
    (\<forall>ev. res = Ok (Some ev) \<longrightarrow> ev \<in> set (bucket_events r b) \<and> ev_event_id ev = eid) \<and>
    (res = Ok None \<longrightarrow> (\<forall>e \<in> set (bucket_events r' b). cursor < ev_seq e \<longrightarrow> ev_event_id e \<noteq> eid))"
    using assms
  proof (induction sub clk n r b eid cursor arbitrary: r' res rule: scan_bucket.induct)
    case (1 sub clk n r b eid cursor)
    obtain r1 oc where rd: "bucket_events_since sub (clk n) r b (scan_request cursor) = (r1, oc)" by force
    show ?case
    proof (cases oc)
      case (Ok page)
      note page = scan_page [OF 1(2) rd [unfolded Ok]]
      show ?thesis
      proof (cases "find (\<lambda>e. ev_event_id e = eid) (rp_events page)")
        case (Some ev)
        with 1(3) rd Ok have "r' = r1" "res = Ok (Some ev)"
          by (simp_all add: scan_bucket.simps [of sub clk n r b eid cursor])
        moreover have "ev \<in> set (rp_events page)" "ev_event_id ev = eid"
          using Some by (auto simp: find_Some_iff)
        ultimately show ?thesis using page by auto
      next
        case None
        then have miss: "\<forall>e \<in> set (rp_events page). ev_event_id e \<noteq> eid" by (simp add: find_None_iff)
        show ?thesis
        proof (cases "rp_has_more page")
          case True
          have step: "scan_bucket sub clk (Suc n) r1 b eid (rp_next_cursor page) = (r', res)"
            using 1(3) rd Ok None True by (simp add: scan_bucket.simps [of sub clk n r b eid cursor])
          note IH = 1(1) [OF rd [symmetric] Ok None _ page(1) step]
          have *: "manager_inv (ro_buckets r') \<and> ro_rings r' = ro_rings r1 \<and>
              (\<forall>b'. b' \<noteq> b \<longrightarrow> bucket_events r' b' = bucket_events r1 b') \<and>
              set (bucket_events r' b) \<subseteq> set (bucket_events r1 b) \<and>
              (\<forall>ev. res = Ok (Some ev) \<longrightarrow> ev \<in> set (bucket_events r1 b) \<and> ev_event_id ev = eid) \<and>
              (res = Ok None \<longrightarrow> (\<forall>e \<in> set (bucket_events r' b). rp_next_cursor page < ev_seq e \<longrightarrow> ev_event_id e \<noteq> eid))"
            using IH True by simp
          then have "\<forall>e \<in> set (bucket_events r' b). cursor < ev_seq e \<longrightarrow> ev_event_id e \<noteq> eid" if "res = Ok None"
            using that page(6) miss by blast
          with * page(2,3,4) show ?thesis by auto
        next
          case False
          with 1(3) rd Ok None have "r' = r1" "res = Ok None"
            by (simp_all add: scan_bucket.simps [of sub clk n r b eid cursor])
          with page miss False show ?thesis by blast
        qed
      qed
    next
      case (Err e)
      with 1(3) rd have "r' = r1" "res = Err (map_bucket_error e)"
        by (simp_all add: scan_bucket.simps [of sub clk n r b eid cursor])
      with bucket_events_since_fails [OF rd] Err 1(2) show ?thesis by (simp add: bucket_events_def)
    next
      case Panic
      with 1(3) rd have "r' = r1" "res = Panic"
        by (simp_all add: scan_bucket.simps [of sub clk n r b eid cursor])
      with bucket_events_since_fails [OF rd] Panic 1(2) show ?thesis by (simp add: bucket_events_def)
    qed
  qed
  then show "manager_inv (ro_buckets r')" "ro_rings r' = ro_rings r"
    "b' \<noteq> b \<Longrightarrow> bucket_events r' b' = bucket_events r b'"
    "set (bucket_events r' b) \<subseteq> set (bucket_events r b)"
    "res = Ok (Some ev) \<Longrightarrow> ev \<in> set (bucket_events r b) \<and> ev_event_id ev = eid"
    "res = Ok None \<Longrightarrow> e \<in> set (bucket_events r' b) \<Longrightarrow> cursor < ev_seq e \<Longrightarrow> ev_event_id e \<noteq> eid"
    by blast+
qed

lemma scan_buckets_spec:
  assumes "manager_inv (ro_buckets r)" and "scan_buckets sub clk r eid k bs = (r', res)"
  shows "manager_inv (ro_buckets r')" "ro_rings r' = ro_rings r"
    "set (bucket_events r' b) \<subseteq> set (bucket_events r b)"
    "res = Ok (Some (b, ev)) \<Longrightarrow> ev \<in> set (bucket_events r b) \<and> ev_event_id ev = eid"
    "res = Ok None \<Longrightarrow> b \<in> set bs \<Longrightarrow> e \<in> set (bucket_events r' b) \<Longrightarrow> 0 < ev_seq e \<Longrightarrow> ev_event_id e \<noteq> eid"
proof -
  have "manager_inv (ro_buckets r') \<and> ro_rings r' = ro_rings r \<and>
    (\<forall>b. set (bucket_events r' b) \<subseteq> set (bucket_events r b)) \<and>
    (\<forall>b ev. res = Ok (Some (b, ev)) \<longrightarrow> ev \<in> set (bucket_events r b) \<and> ev_event_id ev = eid) \<and>
    (res = Ok None \<longrightarrow> (\<forall>b \<in> set bs. \<forall>e \<in> set (bucket_events r' b). 0 < ev_seq e \<longrightarrow> ev_event_id e \<noteq> eid))"
    using assms
  proof (induction bs arbitrary: r k r' res)
    case (Cons b bs)
    obtain r1 oc where sc: "scan_bucket sub (clk k) 0 r b eid 0 = (r1, oc)" by force
    note spec = scan_bucket_spec [OF Cons.prems(1) sc]
    have sub: "set (bucket_events r1 b') \<subseteq> set (bucket_events r b')" for b'
      using spec(3,4) by (cases "b' = b") auto
    show ?case
    proof (cases "oc = Ok None")
      case True
      then have step: "scan_buckets sub clk r1 eid (Suc k) bs = (r', res)"
        using Cons.prems(2) sc by simp
      note ih = Cons.IH [OF spec(1) step]
      have here: "\<forall>e \<in> set (bucket_events r' b). 0 < ev_seq e \<longrightarrow> ev_event_id e \<noteq> eid"
        using ih spec(6) [OF True] by blast
      have "\<forall>b' \<in> set (b # bs). \<forall>e \<in> set (bucket_events r' b'). 0 < ev_seq e \<longrightarrow> ev_event_id e \<noteq> eid"
        if "res = Ok None" using ih that here by simp
      moreover have "\<forall>b'. set (bucket_events r' b') \<subseteq> set (bucket_events r b')"
        using ih sub by blast
      moreover have "\<forall>b' ev. res = Ok (Some (b', ev)) \<longrightarrow> ev \<in> set (bucket_events r b') \<and> ev_event_id ev = eid"
        using ih sub by blast
      ultimately show ?thesis using ih spec(2) by simp
    next
      case False
      then have r1: "r' = r1" and hit: "\<And>b' ev. res = Ok (Some (b', ev)) \<Longrightarrow> b' = b \<and> oc = Ok (Some ev)"
        and some: "res \<noteq> Ok None"
        using Cons.prems(2) sc by (auto split: outcome.splits option.splits)
      have "ev \<in> set (bucket_events r b') \<and> ev_event_id ev = eid" if "res = Ok (Some (b', ev))" for b' ev
        using hit [OF that] spec(5) by blast
      with r1 spec(1,2) sub some show ?thesis by simp
    qed
  qed simp
  then show "manager_inv (ro_buckets r')" "ro_rings r' = ro_rings r"
    "set (bucket_events r' b) \<subseteq> set (bucket_events r b)"
    "res = Ok (Some (b, ev)) \<Longrightarrow> ev \<in> set (bucket_events r b) \<and> ev_event_id ev = eid"
    "res = Ok None \<Longrightarrow> b \<in> set bs \<Longrightarrow> e \<in> set (bucket_events r' b) \<Longrightarrow> 0 < ev_seq e \<Longrightarrow> ev_event_id e \<noteq> eid"
    by blast+
qed

lemma resolve_event_Ok:
  assumes "manager_inv (ro_buckets r)" and "resolve_event sub clk r p = (r', Ok (b, ev))"
  shows "ev \<in> set (bucket_events r b) \<and> ev_event_id ev = cp_event_id p \<and> ro_rings r' = ro_rings r \<and>
    (\<forall>b'. cp_bucket_id p = Some b' \<longrightarrow> b = b')"
proof (cases "cp_bucket_id p")
  case None
  then have "scan_buckets sub clk r (cp_event_id p) 0 (list_bucket_ids (ro_buckets r)) = (r', Ok (Some (b, ev)))"
    using assms(2) by (auto simp: resolve_event_def split: prod.splits outcome.splits option.splits)
  with scan_buckets_spec [OF assms(1) this] None show ?thesis by simp
next
  case (Some b')
  then have "scan_bucket sub (clk 0) 0 r b' (cp_event_id p) 0 = (r', Ok (Some ev))" "b = b'"
    using assms(2) by (auto simp: resolve_event_def split: prod.splits outcome.splits option.splits)
  with scan_bucket_spec [OF assms(1) this(1)] Some show ?thesis by simp
qed

lemma events_positive:
  assumes "manager_inv (ro_buckets r)" and "e \<in> set (bucket_events r b)"
  shows "0 < ev_seq e"
proof -
  from assms(2) obtain bi where bi: "map_of (ro_buckets r) b = Some bi" "e \<in> set (bi_events bi)"
    by (cases "map_of (ro_buckets r) b") (simp_all add: bucket_events_def)
  from manager_invD(1) [OF assms(1) bi(1)] bi(2) show ?thesis
    by (auto simp: bucket_inv_defs)
qed

lemma map_bucket_error_code: "map_bucket_error e \<noteq> IpcError EventNotFoundCode s"
  by (cases e) simp_all

lemma scan_bucket_code: "scan_bucket sub clk n r b eid cursor \<noteq> (r', Err (IpcError EventNotFoundCode s))"
proof (induction sub clk n r b eid cursor rule: scan_bucket.induct)
  case (1 sub clk n r b eid cursor)
  obtain r1 oc where rd: "bucket_events_since sub (clk n) r b (scan_request cursor) = (r1, oc)" by force
  show ?case
    using 1 [OF rd [symmetric]] rd
    by (subst scan_bucket.simps) (auto simp: map_bucket_error_code split: outcome.splits option.splits)
qed

lemma scan_buckets_code: "scan_buckets sub clk r eid k bs \<noteq> (r', Err (IpcError EventNotFoundCode s))"
proof (induction bs arbitrary: r k)
  case (Cons b bs)
  then show ?case
    using scan_bucket_code [of sub "clk k" 0 r b eid 0 r' s]
    by (auto split: prod.splits outcome.splits option.splits)
qed simp

lemma resolve_event_not_found:
  assumes "manager_inv (ro_buckets r)" and "resolve_event sub clk r p = (r', Err (IpcError EventNotFoundCode s))"
    and "e \<in> set (bucket_events r' b)"
    and "case cp_bucket_id p of None \<Rightarrow> b \<in> set (list_bucket_ids (ro_buckets r)) | Some b' \<Rightarrow> b = b'"
  shows "ev_event_id e \<noteq> cp_event_id p"
proof (cases "cp_bucket_id p")
  case None
  then have sc: "scan_buckets sub clk r (cp_event_id p) 0 (list_bucket_ids (ro_buckets r)) = (r', Ok None)"
    using assms(2) scan_buckets_code
    by (auto simp: resolve_event_def split: prod.splits outcome.splits option.splits)
  note spec = scan_buckets_spec [OF assms(1) sc]
  show ?thesis
    using spec(5) [OF refl _ assms(3) events_positive [OF spec(1) assms(3)]] assms(4) None by simp
next
  case (Some b')
  then have sc: "scan_bucket sub (clk 0) 0 r b' (cp_event_id p) 0 = (r', Ok None)"
    using assms(2) scan_bucket_code
    by (auto simp: resolve_event_def split: prod.splits outcome.splits option.splits)
  note spec = scan_bucket_spec [OF assms(1) sc]
  show ?thesis
    using spec(6) [OF refl] events_positive [OF spec(1) assms(3)] assms(3,4) Some by simp
qed

section \<open>The audit sink as a cursor log\<close>

definition audit_inv :: "in_memory_audit \<Rightarrow> bool" where
  "audit_inv a \<longleftrightarrow> map ar_audit_id (au_rows a) = [1 ..< Suc (length (au_rows a))] \<and>
     au_next_id a = length (au_rows a)"

lemma audit_new_inv: "audit_inv audit_new"
  by (simp add: audit_inv_def audit_new_def)

lemma audit_emit_inv: "audit_inv a \<Longrightarrow> audit_inv (fst (audit_emit now a e))"
  by (auto simp: audit_inv_def audit_emit_def Let_def)

definition audit_next :: "in_memory_audit \<Rightarrow> audit_read_request \<Rightarrow> nat" where
  "audit_next a rq =
     (case rev (audit_read_since a rq) of [] \<Rightarrow> aq_cursor rq | r # _ \<Rightarrow> ar_audit_id r)"

definition audit_sat :: "string option \<times> string option \<Rightarrow> audit_row \<Rightarrow> bool" where
  "audit_sat q r \<longleftrightarrow>
     (case fst q of None \<Rightarrow> True | Some a \<Rightarrow> ae_action (ar_entry r) = a) \<and>
     (case snd q of None \<Rightarrow> True | Some d \<Rightarrow> ae_decision (ar_entry r) = d)"

definition mk_audit_request :: "nat \<Rightarrow> string option \<times> string option \<Rightarrow> nat option \<Rightarrow> audit_read_request" where
  "mk_audit_request c q l =
     \<lparr>aq_cursor = c, aq_action_filter = fst q, aq_decision_filter = snd q, aq_limit = l\<rparr>"

interpretation audit_log: cursor_log au_rows ar_audit_id audit_inv audit_sat audit_limit
  "\<lambda>a c q l. audit_read_since a (mk_audit_request c q l)"
  "\<lambda>a c q l. audit_next a (mk_audit_request c q l)"
proof unfold_locales
  fix a :: in_memory_audit
  assume "audit_inv a"
  then show "sorted_wrt (<) (map ar_audit_id (au_rows a))"
    by (simp only: audit_inv_def sorted_wrt_upt)
next
  fix a c q l
  show "audit_next a (mk_audit_request c q l) =
    (if audit_read_since a (mk_audit_request c q l) = [] then c
     else ar_audit_id (last (audit_read_since a (mk_audit_request c q l))))"
    by (cases "audit_read_since a (mk_audit_request c q l)" rule: rev_cases)
      (simp_all add: audit_next_def mk_audit_request_def)
qed (simp_all add: audit_limit_def clamp_def MAX_AUDIT_READ_LIMIT_def audit_read_since_def
    mk_audit_request_def audit_matches_def [abs_def] audit_sat_def)

lemma foldl_sat_add:
  "a \<le> b \<Longrightarrow> foldl (\<lambda>n l. sat_add b n (f l)) a xs = sat_add b a (sum_list (map f xs))"
proof (induction xs arbitrary: a)
  case (Cons x xs)
  then show ?case using Cons.IH [of "sat_add b a (f x)"] by (simp add: sat_add_assoc)
qed simp

lemma ring_window_has_anchor:
  assumes "index_of r (wn_anchor req) = Some i" and "length (ri_frames r) \<le> usize_max"
  shows "\<exists>anchor \<in> set (ri_frames r). f_frame_id anchor = wn_anchor req \<and>
    context_line_of anchor \<in> set (wp_frames (ring_window r req)) \<and>
    length (wp_frames (ring_window r req)) \<le> MAX_WINDOW_FRAMES \<and>
    sum_list (map (\<lambda>l. length (cl_text l)) (wp_frames (ring_window r req))) \<le>
      max (window_cap req) (length (f_text anchor))"
proof -
  from ring_window_spec [OF assms] obtain lo hi where w: "lo \<le> i" "i \<le> hi" "hi < length (ri_frames r)"
    "f_frame_id (ri_frames r ! i) = wn_anchor req"
    "wp_frames (ring_window r req) = map (\<lambda>k. context_line_of (ri_frames r ! k)) [lo ..< Suc hi]"
    "length (wp_frames (ring_window r req)) \<le> MAX_WINDOW_FRAMES"
    "sum_list (map (\<lambda>l. length (cl_text l)) (wp_frames (ring_window r req))) \<le>
      max (window_cap req) (length (f_text (ri_frames r ! i)))"
    unfolding Let_def window_cap_def by blast
  have "context_line_of (ri_frames r ! i) \<in> set (wp_frames (ring_window r req))"
    unfolding w(5) using w(1,2) by (auto simp del: upt_Suc)
  with w show ?thesis by (intro bexI [of _ "ri_frames r ! i"]) simp_all
qed

lemma context_reply_window:
  assumes "context_reply now r p b ev = (r', Ok resp)" and "cr_unavailable_reason resp = None"
  shows "\<exists>ptr ring req. ev_pointer ev = Some ptr \<and>
    map_of (ro_rings r) (es_probe_id (ev_source ev)) = Some ring \<and> wn_anchor req = sp_frame_id ptr \<and>
    wn_max_bytes req = Some (clamp_to (cp_max_bytes p) MAX_CONTEXT_BYTES MAX_CONTEXT_BYTES) \<and>
    \<not> wp_anchor_missing (ring_window ring req) \<and> resp = context_of_window p b ev (ring_window ring req)"
proof -
  obtain ptr where ptr: "ev_pointer ev = Some ptr"
    using assms by (cases "ev_pointer ev") (auto simp: context_reply_def empty_context_def)
  let ?req = "\<lparr>wn_probe_id = es_probe_id (ev_source ev), wn_anchor = sp_frame_id ptr,
    wn_before = clamp_to (cp_before p) DEFAULT_CONTEXT_BEFORE MAX_CONTEXT_FRAMES,
    wn_after = clamp_to (cp_after p) DEFAULT_CONTEXT_AFTER MAX_CONTEXT_FRAMES,
    wn_max_bytes = Some (clamp_to (cp_max_bytes p) MAX_CONTEXT_BYTES MAX_CONTEXT_BYTES)\<rparr>"
  obtain ring where ring: "map_of (ro_rings r) (es_probe_id (ev_source ev)) = Some ring"
    using assms(1) ptr
    by (cases "map_of (ro_rings r) (es_probe_id (ev_source ev))")
      (auto simp: context_reply_def event_context_def Let_def context_window_def ring_cell_def)
  have "resp = (if wp_anchor_missing (ring_window ring ?req)
      then empty_context b (cp_event_id p) True AnchorEvicted (ev_pointer_unavailable_reason ev)
      else context_of_window p b ev (ring_window ring ?req))"
    using assms(1) ptr ring
    by (simp add: context_reply_def event_context_def Let_def context_window_def ring_cell_def)
  with assms(2) ptr ring show ?thesis
    by (intro exI [of _ ptr] exI [of _ ring] exI [of _ ?req])
      (auto simp: empty_context_def split: if_splits)
qed

section \<open>Properties of the router\<close>

text \<open>
  The audit trail can be read page by page without loss: a page and the rows after its
  returned cursor are together exactly the matching rows after the request's cursor, in id
  order, and rows get consecutive ids however many are recorded.
\<close>

lemma audit_pages_lossless:
  assumes "audit_inv a"
  shows "audit_inv (fst (audit_emit now a e)) \<and>
    filter (\<lambda>r. c < ar_audit_id r \<and> audit_sat q r) (au_rows a) =
      audit_read_since a (mk_audit_request c q l) @
      filter (\<lambda>r. audit_next a (mk_audit_request c q l) < ar_audit_id r \<and> audit_sat q r) (au_rows a) \<and>
    length (audit_read_since a (mk_audit_request c q l)) \<le> MAX_AUDIT_READ_LIMIT"
  using audit_emit_inv [OF assms] audit_log.page_chain [OF assms]
  by (simp add: audit_log.page_eq audit_limit_def clamp_def MAX_AUDIT_READ_LIMIT_def min_def)

text \<open>
  C32. \<open>event_context\<close> answers with the right context: when it returns a window, the bucket it
  names holds an event with the requested id, the window is read from the ring of that
  event's probe and contains the frame the event points at, it has at most 256 frames, and
  its byte total is the sum of its texts and within \<open>MAX_CONTEXT_BYTES\<close> unless the anchor
  frame alone is larger.
\<close>

theorem event_context_contains_anchor:
  assumes "manager_inv (ro_buckets r)"
    and "handle_event_context sub clk now r p = (r', Ok resp)" and "cr_unavailable_reason resp = None"
    and "\<forall>q ring. map_of (ro_rings r) q = Some ring \<longrightarrow> length (ri_frames ring) \<le> usize_max"
  shows "\<exists>ev ptr ring anchor. ev \<in> set (bucket_events r (cr_bucket_id resp)) \<and>
    ev_event_id ev = cp_event_id p \<and> ev_pointer ev = Some ptr \<and>
    map_of (ro_rings r) (es_probe_id (ev_source ev)) = Some ring \<and> anchor \<in> set (ri_frames ring) \<and>
    f_frame_id anchor = sp_frame_id ptr \<and>
    project_line (es_probe_id (ev_source ev)) (context_line_of anchor) \<in> set (cr_frames resp) \<and>
    length (cr_frames resp) \<le> 256 \<and>
    cr_total_bytes resp = min (sum_list (map (\<lambda>f. length (cf_text f)) (cr_frames resp))) usize_max \<and>
    sum_list (map (\<lambda>f. length (cf_text f)) (cr_frames resp)) \<le> max MAX_CONTEXT_BYTES (length (f_text anchor))"
proof -
  obtain r1 b ev where res: "resolve_event sub clk r p = (r1, Ok (b, ev))"
    and rep: "context_reply now r1 p b ev = (r', Ok resp)"
    using assms(2) by (auto simp: handle_event_context_def split: prod.splits outcome.splits)
  note found = resolve_event_Ok [OF assms(1) res]
  obtain ptr ring req where ctx: "ev_pointer ev = Some ptr"
    "map_of (ro_rings r) (es_probe_id (ev_source ev)) = Some ring" "wn_anchor req = sp_frame_id ptr"
    "wn_max_bytes req = Some (clamp_to (cp_max_bytes p) MAX_CONTEXT_BYTES MAX_CONTEXT_BYTES)"
    "\<not> wp_anchor_missing (ring_window ring req)" "resp = context_of_window p b ev (ring_window ring req)"
    using context_reply_window [OF rep assms(3)] found by auto
  obtain i where i: "index_of ring (wn_anchor req) = Some i"
    using ctx(5) by (cases "index_of ring (wn_anchor req)") (auto simp: ring_window_def)
  have "length (ri_frames ring) \<le> usize_max" using assms(4) ctx(2) by blast
  from ring_window_has_anchor [OF i this] obtain anchor where
    an: "anchor \<in> set (ri_frames ring)" "f_frame_id anchor = wn_anchor req"
    "context_line_of anchor \<in> set (wp_frames (ring_window ring req))"
    "length (wp_frames (ring_window ring req)) \<le> MAX_WINDOW_FRAMES"
    "sum_list (map (\<lambda>l. length (cl_text l)) (wp_frames (ring_window ring req))) \<le>
       max (window_cap req) (length (f_text anchor))" by blast
  have "window_cap req \<le> MAX_CONTEXT_BYTES"
    by (simp add: window_cap_def ctx(4) clamp_to_def MAX_CONTEXT_BYTES_def min_le_iff_disj)
  with an(5) have "sum_list (map (\<lambda>f. length (cf_text f)) (cr_frames resp)) \<le>
      max MAX_CONTEXT_BYTES (length (f_text anchor))"
    by (simp add: ctx(6) context_of_window_def o_def project_line_def)
  moreover have "cr_total_bytes resp = min (sum_list (map (\<lambda>f. length (cf_text f)) (cr_frames resp))) usize_max"
    using foldl_sat_add [of 0 usize_max "\<lambda>l. length (cl_text l)" "wp_frames (ring_window ring req)"]
    by (simp add: ctx(6) context_of_window_def o_def project_line_def sat_add_def min.commute)
  moreover have "project_line (es_probe_id (ev_source ev)) (context_line_of anchor) \<in> set (cr_frames resp)"
    "length (cr_frames resp) \<le> 256" "cr_bucket_id resp = b"
    using an(3,4) by (simp_all add: ctx(6) context_of_window_def MAX_WINDOW_FRAMES_def)
  ultimately show ?thesis
    using found ctx(1-3) an(1,2) by (intro exI [of _ ev] exI [of _ ptr] exI [of _ ring] exI [of _ anchor]) simp
qed

definition wit_ptr_event :: signal_event where
  "wit_ptr_event =
     (sample_event wit_b 0)\<lparr>ev_severity := High, ev_pointer := Some (pointer_new (FrameId ''1''))\<rparr>"

definition wit_router :: router where
  "wit_router =
     \<lparr>ro_buckets = fst (the_ok (append_event wit_m0 wit_b wit_ptr_event)),
      ro_rings = [(ProbeId ''p'', sample_ring)], ro_jobs = [], ro_audit = audit_new\<rparr>"

definition wit_params :: event_context_params where
  "wit_params = \<lparr>cp_bucket_id = Some wit_b, cp_event_id = EventId ''e'', cp_before = Some 1,
     cp_after = None, cp_max_bytes = None\<rparr>"

lemma wit_router_append:
  "append_event wit_m0 wit_b wit_ptr_event = Ok (ro_buckets wit_router, 1)"
  by (simp add: wit_router_def wit_ptr_event_def the_ok_def append_event_def bucket_def wit_m0_def append_inner_def
      assign_seq_def checked_add_def bucket_inner_new_def u64_max_def validate_event_def sample_event_def)

lemma wit_router_inv: "manager_inv (ro_buckets wit_router)"
  using append_event_inv [OF _ _ wit_router_append] mgr_reach_inv [OF wit_m0_reach]
  by (simp add: wit_ptr_event_def u64_max_def)

lemma wit_router_bucket:
  obtains bi where "map_of (ro_buckets wit_router) wit_b = Some bi"
    "bi_events bi = [wit_ptr_event\<lparr>ev_seq := 1\<rparr>]" "ttl (bi_config bi) = DEFAULT_TTL"
proof -
  from wit_router_append show thesis
  proof (rule append_event_Ok)
    fix bi
    assume bi: "map_of wit_m0 wit_b = Some bi"
      "ro_buckets wit_router = AList.update wit_b (push_event (wit_ptr_event\<lparr>ev_seq := 1\<rparr>) bi) wit_m0"
    from bi(1) have "bi = bucket_inner_new 0 wit_b bucket_config_default" by (simp add: wit_m0_def)
    with bi(2) show thesis
      by (intro that [of "push_event (wit_ptr_event\<lparr>ev_seq := 1\<rparr>) bi"])
        (simp_all add: update_conv' bucket_inner_new_def bucket_config_default_def DEFAULT_MAX_EVENTS_def)
  qed
qed

lemma wit_scan_page:
  obtains r1 page where "bucket_events_since sample_sub 1 wit_router wit_b (scan_request 0) = (r1, Ok page)"
    "rp_events page = [wit_ptr_event\<lparr>ev_seq := 1\<rparr>]" "ro_rings r1 = ro_rings wit_router"
    "\<not> rp_has_more page" "bucket_events r1 wit_b = [wit_ptr_event\<lparr>ev_seq := 1\<rparr>]"
proof -
  obtain bi where bi: "map_of (ro_buckets wit_router) wit_b = Some bi"
    "bi_events bi = [wit_ptr_event\<lparr>ev_seq := 1\<rparr>]" "ttl (bi_config bi) = DEFAULT_TTL"
    by (rule wit_router_bucket)
  have ev: "evict_expired sample_sub 1 bi = Some (refresh_state bi)"
    by (simp add: evict_expired_def sample_sub_def try_from_or_max_def as_secs_def i64_max_def bi(3) DEFAULT_TTL_def
        evict_expired_loop.simps [of _ bi] bi(2) wit_ptr_event_def)
  have "rp_events (read_inner wit_b (scan_request 0) (refresh_state bi)) = [wit_ptr_event\<lparr>ev_seq := 1\<rparr>]"
    "\<not> rp_has_more (read_inner wit_b (scan_request 0) (refresh_state bi))"
    using read_limit_bounds(1) [of "scan_request 0"]
    by (simp_all add: read_inner_events read_inner_more bi(2) passes_def scan_request_def)
  then show thesis
    using bi(2) that
    by (simp add: bucket_events_since_def Let_def on_buckets_def events_since_def bucket_def bi(1) ev
        bucket_events_def update_conv')
qed

lemma wit_event_context:
  "\<exists>r' resp. handle_event_context sample_sub (\<lambda>_ _. 1) 1 wit_router wit_params = (r', Ok resp) \<and>
     cr_unavailable_reason resp = None"
proof -
  obtain r1 page where pg: "bucket_events_since sample_sub 1 wit_router wit_b (scan_request 0) = (r1, Ok page)"
    "rp_events page = [wit_ptr_event\<lparr>ev_seq := 1\<rparr>]" "ro_rings r1 = ro_rings wit_router"
    by (rule wit_scan_page)
  have "scan_bucket sample_sub (\<lambda>_. 1) 0 wit_router wit_b (EventId ''e'') 0 = (r1, Ok (Some (wit_ptr_event\<lparr>ev_seq := 1\<rparr>)))"
    by (subst scan_bucket.simps) (simp add: pg wit_ptr_event_def sample_event_def)
  then have "resolve_event sample_sub (\<lambda>_ _. 1) wit_router wit_params = (r1, Ok (wit_b, wit_ptr_event\<lparr>ev_seq := 1\<rparr>))"
    by (simp add: resolve_event_def wit_params_def)
  moreover have "\<not> wp_anchor_missing (ring_window sample_ring req)" if "wn_anchor req = FrameId ''1''" for req
    by (simp add: ring_window_def index_of_def sample_ring_defs that Let_def)
  ultimately show ?thesis
    using pg(3)
    by (simp add: handle_event_context_def context_reply_def wit_ptr_event_def sample_event_def sample_source_def
        pointer_new_def event_context_def context_window_def ring_cell_def wit_router_def context_of_window_def Let_def)
qed

theorem event_context_contains_anchor_witness:
  "\<exists>r' resp f. handle_event_context sample_sub (\<lambda>_ _. 1) 1 wit_router wit_params = (r', Ok resp) \<and>
     f \<in> set (cr_frames resp)"
proof -
  obtain r' resp where h: "handle_event_context sample_sub (\<lambda>_ _. 1) 1 wit_router wit_params = (r', Ok resp)"
    "cr_unavailable_reason resp = None" using wit_event_context by blast
  have "\<forall>q ring. map_of (ro_rings wit_router) q = Some ring \<longrightarrow> length (ri_frames ring) \<le> usize_max"
    by (simp add: wit_router_def sample_ring_defs u64_max_def)
  from event_context_contains_anchor [OF wit_router_inv h this] h(1) show ?thesis by blast
qed

text \<open>
  "Event not found" is honest: when \<open>event_context\<close> reports it for a bucket, no event with
  that id is left in the bucket, and when it reports it without a bucket, none is left in any
  live bucket, however many pages the scan took and whatever expired meanwhile.
\<close>

lemma event_not_found_honest:
  assumes "manager_inv (ro_buckets r)"
    and "handle_event_context sub clk now r p = (r', Err (IpcError EventNotFoundCode s))"
    and "e \<in> set (bucket_events r' b)"
    and "case cp_bucket_id p of None \<Rightarrow> b \<in> set (list_bucket_ids (ro_buckets r)) | Some b' \<Rightarrow> b = b'"
  shows "ev_event_id e \<noteq> cp_event_id p"
proof -
  have "context_reply now r1 p b ev \<noteq> (r', Err (IpcError EventNotFoundCode s))" for r1 b ev
    by (auto simp: context_reply_def split: option.splits prod.splits outcome.splits)
  then have "resolve_event sub clk r p = (r', Err (IpcError EventNotFoundCode s))"
    using assms(2) by (auto simp: handle_event_context_def split: prod.splits outcome.splits)
  from resolve_event_not_found [OF assms(1) this assms(3,4)] show ?thesis .
qed

text \<open>
  The response type documents a reason \<open>UnknownProbe\<close> for an event whose probe has no ring.
  The handler never gives it: such an event makes it fail with an internal error.
\<close>

lemma unknown_probe_is_internal:
  assumes "manager_inv (ro_buckets r)" and "resolve_event sub clk r p = (r1, Ok (b, ev))"
    and "ev_pointer ev \<noteq> None" and "map_of (ro_rings r) (es_probe_id (ev_source ev)) = None"
  shows "\<exists>r2. handle_event_context sub clk now r p =
    (r2, Err (IpcError InternalCode (''no context ring for probe '' @ quoted (probe_wire (es_probe_id (ev_source ev))))))"
  using assms(3,4) resolve_event_Ok [OF assms(1,2)]
  by (auto simp: handle_event_context_def assms(2) context_reply_def event_context_def Let_def
      context_window_def ring_cell_def)

end
