(* ===== verification/TC_Receipt.thy ===== *)
theory TC_Receipt
  imports TC_Context
begin

text \<open>
  The no-silence receipt of a finished command, \<^verbatim>\<open>build_receipt\<close> in
  \<^verbatim>\<open>crates/daemon/src/command.rs\<close>, with its wire types of \<^verbatim>\<open>crates/ipc/src/protocol.rs\<close>, and
  the advisory scan for a pipeline in a shell script of the same file.
\<close>

section \<open>The receipt\<close>

definition MAX_RECEIPT_HEAD_LINES :: nat where
  "MAX_RECEIPT_HEAD_LINES = 20"

definition MAX_RECEIPT_TAIL_LINES :: nat where
  "MAX_RECEIPT_TAIL_LINES = 50"

definition RECEIPT_MAX_BYTES :: nat where
  "RECEIPT_MAX_BYTES = 4096"

definition RECEIPT_HEAD_MAX_BYTES :: nat where
  "RECEIPT_HEAD_MAX_BYTES = RECEIPT_MAX_BYTES div 2"

record receipt_shape =
  rs_head_lines :: nat
  rs_tail_lines :: nat

definition shape_clamped :: "receipt_shape \<Rightarrow> receipt_shape" where
  "shape_clamped s =
     \<lparr>rs_head_lines = min (rs_head_lines s) MAX_RECEIPT_HEAD_LINES,
      rs_tail_lines = min (rs_tail_lines s) MAX_RECEIPT_TAIL_LINES\<rparr>"

record command_receipt =
  rc_exit_code :: "int option"
  rc_lines_suppressed :: nat
  rc_head :: "string list"
  rc_tail :: "string list"
  rc_tail_incomplete :: bool
  rc_lines_omitted :: nat

definition empty_tail :: ring_tail where
  "empty_tail = \<lparr>rt_lines = [], rt_evicted_frames = 0, rt_truncated = False\<rparr>"

text \<open>\<open>while text_bytes(&head_lines) > cap { head_lines.pop(); truncated = true }\<close>\<close>

function pop_over :: "nat \<Rightarrow> string list \<Rightarrow> bool \<Rightarrow> string list \<times> bool" where
  "pop_over cap ls tr = (if cap < text_bytes ls then pop_over cap (butlast ls) True else (ls, tr))"
  by pat_completeness auto
termination
proof (relation "measure (\<lambda>(cap, ls, tr). length ls)")
  fix cap :: nat and ls :: "string list" and tr :: bool
  assume "cap < text_bytes ls"
  then have "0 < length ls" by (cases ls) auto
  then show "((cap, butlast ls, True), cap, ls, tr) \<in> measure (\<lambda>(cap, ls, tr). length ls)" by simp
qed simp

declare pop_over.simps [simp del]

text \<open>\<open>while text_bytes(&tail.lines) > budget { tail.lines.remove(0); truncated = true }\<close>\<close>

fun drop_over :: "nat \<Rightarrow> string list \<Rightarrow> bool \<Rightarrow> string list \<times> bool" where
  "drop_over cap [] tr = ([], tr)"
| "drop_over cap (l # ls) tr =
     (if cap < text_bytes (l # ls) then drop_over cap ls True else (l # ls, tr))"

text \<open>The head lines shown and whether some were lost.\<close>

definition receipt_head :: "ring_manager \<Rightarrow> probe_id \<Rightarrow> nat \<Rightarrow> string list \<times> bool" where
  "receipt_head rings p head_want =
     (let head =
        (if head_want = 0 then empty_tail
         else case head_frames rings p head_want RECEIPT_HEAD_MAX_BYTES of Ok t \<Rightarrow> t | _ \<Rightarrow> empty_tail);
          (lines, truncated) =
            (if 0 < rt_evicted_frames head then ([], False) else (rt_lines head, rt_truncated head))
      in pop_over RECEIPT_HEAD_MAX_BYTES lines truncated)"

definition receipt_tail ::
  "ring_manager \<Rightarrow> probe_id \<Rightarrow> bool \<Rightarrow> nat \<Rightarrow> nat \<Rightarrow> string list \<times> bool" where
  "receipt_tail rings p head_requested tail_want tail_budget =
     (let tail = (case tail_frames rings p tail_want tail_budget of Ok t \<Rightarrow> t | _ \<Rightarrow> empty_tail);
          (lines, truncated) =
            (if head_requested then drop_over tail_budget (rt_lines tail) (rt_truncated tail)
             else (rt_lines tail, rt_truncated tail))
      in (lines, 0 < rt_evicted_frames tail \<or> truncated))"

definition build_receipt ::
  "ring_manager \<Rightarrow> probe_id \<Rightarrow> receipt_shape \<Rightarrow> nat \<Rightarrow> int option \<Rightarrow> command_receipt" where
  "build_receipt rings p shape0 frames_total exit_code =
     (let shape = shape_clamped shape0;
          total = try_from_or_max u32_max frames_total;
          (head_lines, head_truncated) = receipt_head rings p (min (rs_head_lines shape) total);
          tail_budget = RECEIPT_MAX_BYTES - text_bytes head_lines;
          shown_head = try_from_or_max u32_max (length head_lines);
          tail_want = min (rs_tail_lines shape) (total - shown_head);
          (tail_lines, tail_lossy) =
            receipt_tail rings p (0 < rs_head_lines shape) tail_want tail_budget
      in \<lparr>rc_exit_code = exit_code, rc_lines_suppressed = frames_total,
          rc_head = head_lines, rc_tail = tail_lines,
          rc_tail_incomplete = (tail_lossy \<or> head_truncated),
          rc_lines_omitted = frames_total - (length head_lines + length tail_lines)\<rparr>)"

section \<open>Pipelines in shell scripts\<close>

text \<open>
  \<open>shell_script_has_pipeline\<close>: a scan over the characters that tracks quotes and escapes; the
  guard of the bar consumes a second bar. The characters it distinguishes are ASCII, so the
  scan over the bytes of the UTF-8 text is the scan over its characters.
\<close>

fun pipeline_scan :: "bool \<Rightarrow> bool \<Rightarrow> bool \<Rightarrow> string \<Rightarrow> bool" where
  "pipeline_scan in_single in_double escaped [] = False"
| "pipeline_scan in_single in_double escaped (ch # rest) =
     (if escaped then pipeline_scan in_single in_double False rest
      else if ch = CHR 0x5C \<and> \<not> in_single then pipeline_scan in_single in_double True rest
      else if ch = CHR 0x27 \<and> \<not> in_double then pipeline_scan (\<not> in_single) in_double False rest
      else if ch = CHR 0x22 \<and> \<not> in_single then pipeline_scan in_single (\<not> in_double) False rest
      else if ch = CHR ''|'' \<and> \<not> in_single \<and> \<not> in_double then
        (case rest of
           [] \<Rightarrow> True
         | c # rest' \<Rightarrow> if c = CHR ''|'' then pipeline_scan in_single in_double False rest' else True)
      else pipeline_scan in_single in_double False rest)"

definition shell_script_has_pipeline :: "string \<Rightarrow> bool" where
  "shell_script_has_pipeline script = pipeline_scan False False False script"

section \<open>Receipts are bounded and never repeat a line\<close>

lemma pop_over_spec:
  "text_bytes (fst (pop_over cap ls tr)) \<le> cap \<and> (\<exists>k. fst (pop_over cap ls tr) = take k ls)"
proof (induction cap ls tr rule: pop_over.induct)
  case (1 cap ls tr)
  show ?case
  proof (cases "cap < text_bytes ls")
    case True
    with 1 obtain k where "fst (pop_over cap (butlast ls) True) = take k (butlast ls)" by blast
    then have "fst (pop_over cap ls tr) = take (min k (length ls - 1)) ls"
      using True by (simp add: pop_over.simps [of cap ls] butlast_conv_take min.commute)
    with 1 True show ?thesis by (auto simp: pop_over.simps [of cap ls])
  next
    case False
    then show ?thesis by (auto simp: pop_over.simps [of cap ls] intro: exI [of _ "length ls"])
  qed
qed

lemma drop_over_id: "text_bytes ls \<le> cap \<Longrightarrow> drop_over cap ls tr = (ls, tr)"
  by (cases ls) auto

lemma ring_tail_bytes: "text_bytes (rt_lines (ring_tail_of r n mb)) \<le> mb"
  "length (rt_lines (ring_tail_of r n mb)) \<le> n"
  "rt_evicted_frames (ring_tail_of r n mb) = ri_evicted_frames r"
  using tail_loop_spec [of 0 "[]" mb "ring_tail_of r n mb" "ri_evicted_frames r"
      "take n (rev (ri_frames r))" False]
  by (simp_all add: ring_tail_of_def)

text \<open>A tail is a run of whole frames at the end, or a clipped newest frame alone.\<close>

lemma ring_tail_structure:
  "(\<exists>j. length (ri_frames r) - n \<le> j \<and> rt_lines (ring_tail_of r n mb) = map f_text (drop j (ri_frames r))) \<or>
   (0 < n \<and> ri_frames r \<noteq> [] \<and>
     (\<exists>s. suffix s (f_text (last (ri_frames r))) \<and> rt_lines (ring_tail_of r n mb) = [s]))"
proof (cases "take n (rev (ri_frames r))")
  case Nil
  then have "rt_lines (ring_tail_of r n mb) = map f_text (drop (length (ri_frames r)) (ri_frames r))"
    unfolding ring_tail_of_def Nil by simp
  then show ?thesis by (intro disjI1 exI [of _ "length (ri_frames r)"]) simp
next
  case (Cons f fs)
  then have ne: "0 < n" "ri_frames r \<noteq> []" and f: "f = last (ri_frames r)"
    by (cases n; cases "ri_frames r" rule: rev_cases; auto)+
  show ?thesis
  proof (cases "mb < length (f_text f)")
    case True
    then have "rt_lines (ring_tail_of r n mb) =
        [drop (ceil_boundary (f_text f) (length (f_text f) - mb)) (f_text f)]"
      by (simp add: ring_tail_of_def Cons Let_def)
    with ne f show ?thesis by (intro disjI2) (auto simp: suffix_drop)
  next
    case False
    with tail_loop_suffix [of "[]" "f # fs" mb "ri_evicted_frames r" 0 False] obtain k where
      k: "k \<le> length (f # fs)" "rt_lines (ring_tail_of r n mb) = map f_text (rev (take k (f # fs)))"
      by (auto simp: ring_tail_of_def Cons)
    then have "rt_lines (ring_tail_of r n mb) = map f_text (rev (take k (rev (ri_frames r))))"
      using Cons by (metis length_take min.bounded_iff take_take min.absorb1)
    then have "rt_lines (ring_tail_of r n mb) = map f_text (drop (length (ri_frames r) - k) (ri_frames r))"
      by (simp add: take_rev)
    moreover have "k \<le> n" using k(1) Cons [symmetric] by simp
    ultimately show ?thesis by (intro disjI1 exI [of _ "length (ri_frames r) - k"]) simp
  qed
qed

lemma ring_head_prefix: "\<exists>k \<le> n. rt_lines (ring_head_of r n mb) = map f_text (take k (ri_frames r))"
  "rt_evicted_frames (ring_head_of r n mb) = ri_evicted_frames r"
proof -
  have ev: "rt_evicted_frames (head_loop ev mb fs chosen bytes tr) = ev" for ev fs chosen bytes tr
    by (induction fs arbitrary: chosen bytes tr) (auto simp: Let_def)
  then show "rt_evicted_frames (ring_head_of r n mb) = ri_evicted_frames r" by (simp add: ring_head_of_def)
  show "\<exists>k \<le> n. rt_lines (ring_head_of r n mb) = map f_text (take k (ri_frames r))"
  proof (cases "take n (ri_frames r)")
    case Nil
    then show ?thesis unfolding ring_head_of_def Nil by (intro exI [of _ 0]) simp
  next
    case (Cons f fs)
    then have "0 < n" "\<exists>gs. ri_frames r = f # gs" by (cases n; cases "ri_frames r"; simp)+
    then obtain gs where gs: "ri_frames r = f # gs" by blast
    from ring_head_spec [OF gs \<open>0 < n\<close>, of mb] show ?thesis
      by (cases "mb < length (f_text f)")
        (use \<open>0 < n\<close> gs in \<open>auto simp: Let_def intro: exI [of _ 1]\<close>)
  qed
qed

lemma text_bytes_take: "text_bytes (take k ls) \<le> text_bytes ls"
  by (metis append_take_drop_id map_append sum_list_append le_add1)

lemma receipt_head_spec:
  assumes "map_of rings p = Some r"
  shows "text_bytes (fst (receipt_head rings p n)) \<le> RECEIPT_HEAD_MAX_BYTES \<and>
    (\<exists>k \<le> n. fst (receipt_head rings p n) = map f_text (take k (ri_frames r)) \<and>
      k \<le> length (ri_frames r) \<and> (0 < ri_evicted_frames r \<longrightarrow> k = 0))"
proof -
  let ?h = "ring_head_of r n RECEIPT_HEAD_MAX_BYTES"
  obtain ls tr where h: "receipt_head rings p n = pop_over RECEIPT_HEAD_MAX_BYTES ls tr"
    and ls: "ls = (if n = 0 \<or> 0 < ri_evicted_frames r then [] else rt_lines ?h)"
  proof -
    have hf: "head_frames rings p n RECEIPT_HEAD_MAX_BYTES = Ok ?h"
      using assms by (simp add: head_frames_def ring_cell_def)
    show thesis
      by (rule that [of _ "if n = 0 \<or> 0 < ri_evicted_frames r then False else rt_truncated ?h"])
        (simp_all add: receipt_head_def hf empty_tail_def Let_def ring_head_prefix(2))
  qed
  obtain k where k: "k \<le> n" "0 < ri_evicted_frames r \<longrightarrow> k = 0" "ls = map f_text (take k (ri_frames r))"
  proof (cases "n = 0 \<or> 0 < ri_evicted_frames r")
    case True
    with ls that [of 0] show thesis by simp
  next
    case False
    with ls ring_head_prefix(1) [of n r RECEIPT_HEAD_MAX_BYTES] that show thesis by auto
  qed
  from pop_over_spec [of RECEIPT_HEAD_MAX_BYTES ls tr] obtain i where
    i: "fst (receipt_head rings p n) = take i ls" "text_bytes (fst (receipt_head rings p n)) \<le> RECEIPT_HEAD_MAX_BYTES"
    by (auto simp: h)
  then show ?thesis
    using k by (intro conjI exI [of _ "min (min i k) (length (ri_frames r))"]) (auto simp: take_map min_def)
qed

lemma receipt_tail_spec:
  assumes "map_of rings p = Some r"
  shows "fst (receipt_tail rings p b n mb) = rt_lines (ring_tail_of r n mb)"
  using assms ring_tail_bytes(1) [of r n mb]
  by (simp add: receipt_tail_def tail_frames_def ring_cell_def Let_def drop_over_id)

lemma build_receipt_parts:
  "rc_head (build_receipt rings p shape ft ec) =
     fst (receipt_head rings p (min (rs_head_lines (shape_clamped shape)) (try_from_or_max u32_max ft)))"
  "rc_tail (build_receipt rings p shape ft ec) =
     fst (receipt_tail rings p (0 < rs_head_lines (shape_clamped shape))
       (min (rs_tail_lines (shape_clamped shape))
         (try_from_or_max u32_max ft - try_from_or_max u32_max (length (rc_head (build_receipt rings p shape ft ec)))))
       (RECEIPT_MAX_BYTES - text_bytes (rc_head (build_receipt rings p shape ft ec))))"
  "rc_lines_omitted (build_receipt rings p shape ft ec) =
     ft - (length (rc_head (build_receipt rings p shape ft ec)) + length (rc_tail (build_receipt rings p shape ft ec)))"
  by (simp_all add: build_receipt_def Let_def split: prod.splits)

section \<open>Properties of receipts\<close>

text \<open>
  A receipt's head and tail together stay within the shared 4096-byte budget, at most half
  of it for the head, and within their line caps, for every requested shape and every state
  of the ring.
\<close>

lemma receipt_within_budget:
  assumes "map_of rings p = Some r"
  shows "(let rc = build_receipt rings p shape ft ec in
    text_bytes (rc_head rc) + text_bytes (rc_tail rc) \<le> RECEIPT_MAX_BYTES \<and>
    text_bytes (rc_head rc) \<le> RECEIPT_HEAD_MAX_BYTES \<and>
    length (rc_head rc) \<le> MAX_RECEIPT_HEAD_LINES \<and> length (rc_tail rc) \<le> MAX_RECEIPT_TAIL_LINES)"
proof -
  let ?rc = "build_receipt rings p shape ft ec"
  from receipt_head_spec [OF assms] build_receipt_parts(1) obtain k where
    h: "text_bytes (rc_head ?rc) \<le> RECEIPT_HEAD_MAX_BYTES"
      "k \<le> min (rs_head_lines (shape_clamped shape)) (try_from_or_max u32_max ft)"
      "rc_head ?rc = map f_text (take k (ri_frames r))"
    by metis
  have t: "rc_tail ?rc = rt_lines (ring_tail_of r (min (rs_tail_lines (shape_clamped shape))
      (try_from_or_max u32_max ft - try_from_or_max u32_max (length (rc_head ?rc))))
      (RECEIPT_MAX_BYTES - text_bytes (rc_head ?rc)))"
    by (subst build_receipt_parts(2)) (rule receipt_tail_spec [OF assms])
  have "text_bytes (rc_tail ?rc) \<le> RECEIPT_MAX_BYTES - text_bytes (rc_head ?rc)"
    "length (rc_tail ?rc) \<le> rs_tail_lines (shape_clamped shape)"
    unfolding t using ring_tail_bytes by (meson min.boundedE)+
  moreover have "length (rc_head ?rc) \<le> rs_head_lines (shape_clamped shape)"
    using h(2) unfolding h(3) by (simp add: min.coboundedI2)
  ultimately show ?thesis
    using h(1) by (simp add: Let_def shape_clamped_def RECEIPT_HEAD_MAX_BYTES_def RECEIPT_MAX_BYTES_def)
qed

text \<open>
  No line appears twice in a receipt: when the probe's frame count is what passed through
  its ring, the head is the first lines and the tail comes from the frames after them (whole
  frames up to the newest, or a clipped newest frame alone), and a ring that has evicted
  frames yields no head at all.
\<close>

lemma receipt_no_overlap:
  assumes "map_of rings p = Some r" and "ft = ri_evicted_frames r + length (ri_frames r)" and "ft \<le> u32_max"
  shows "\<exists>k \<le> length (ri_frames r).
    rc_head (build_receipt rings p shape ft ec) = map f_text (take k (ri_frames r)) \<and>
    (0 < ri_evicted_frames r \<longrightarrow> k = 0) \<and>
    ((\<exists>j \<ge> k. rc_tail (build_receipt rings p shape ft ec) = map f_text (drop j (ri_frames r))) \<or>
     (k < length (ri_frames r) \<and> (\<exists>s. suffix s (f_text (last (ri_frames r))) \<and>
        rc_tail (build_receipt rings p shape ft ec) = [s])))"
proof -
  let ?rc = "build_receipt rings p shape ft ec"
  from receipt_head_spec [OF assms(1)] build_receipt_parts(1) obtain k where
    h: "rc_head ?rc = map f_text (take k (ri_frames r))" "k \<le> length (ri_frames r)"
      "0 < ri_evicted_frames r \<longrightarrow> k = 0"
    by metis
  have lk: "length (rc_head ?rc) = k" using h(1,2) by simp
  have tf: "try_from_or_max u32_max ft = ft" "try_from_or_max u32_max k = k"
    using assms(2,3) h(2) by (simp_all add: try_from_or_max_def)
  obtain n where t: "rc_tail ?rc = rt_lines (ring_tail_of r n (RECEIPT_MAX_BYTES - text_bytes (rc_head ?rc)))"
    and n: "n \<le> ft - k"
    using receipt_tail_spec [OF assms(1)] build_receipt_parts(2) [of rings p shape ft ec]
    unfolding lk tf by (metis min.cobounded2)
  have nk: "k \<le> length (ri_frames r) - n"
    using n h(2,3) assms(2) by auto
  from ring_tail_structure [of r n "RECEIPT_MAX_BYTES - text_bytes (rc_head ?rc)"]
  have "(\<exists>j \<ge> k. rc_tail ?rc = map f_text (drop j (ri_frames r))) \<or>
     (k < length (ri_frames r) \<and> (\<exists>s. suffix s (f_text (last (ri_frames r))) \<and> rc_tail ?rc = [s]))"
  proof (elim disjE exE conjE)
    fix j
    assume j: "length (ri_frames r) - n \<le> j"
      "rt_lines (ring_tail_of r n (RECEIPT_MAX_BYTES - text_bytes (rc_head ?rc))) = map f_text (drop j (ri_frames r))"
    have "k \<le> j" using nk j(1) by (rule le_trans)
    moreover have "rc_tail ?rc = map f_text (drop j (ri_frames r))" using t j(2) by (rule trans)
    ultimately show ?thesis by blast
  next
    fix s
    assume s: "0 < n" "ri_frames r \<noteq> []" "suffix s (f_text (last (ri_frames r)))"
      "rt_lines (ring_tail_of r n (RECEIPT_MAX_BYTES - text_bytes (rc_head ?rc))) = [s]"
    have "0 < length (ri_frames r)" using s(2) by (rule length_greater_0_conv [THEN iffD2])
    then have "k < length (ri_frames r)" using nk s(1) by linarith
    moreover have "rc_tail ?rc = [s]" using t s(4) by (rule trans)
    ultimately show ?thesis using s(3) by blast
  qed
  with h show ?thesis by (intro exI [of _ k] conjI)
qed

end
