(* ===== verification/TC_Lifecycle.thy ===== *)
theory TC_Lifecycle
  imports TC_Router TC_Receipt
begin

text \<open>
  The end of a combed command's life in \<^verbatim>\<open>crates/daemon/src/command.rs\<close>: the waiter task that
  \<open>start_combed\<close> spawns, which runs when the child has exited, and \<open>stop\<close>, which may be called at
  any time. The two share the ledger, the live map, the dedup map and the store, and hold no
  lock across the waiter's steps, so each of the waiter's critical sections is one step of
  \<open>waiter_step\<close> and a \<open>stop\<close> may fall between any two of them. A \<open>stop\<close> is one step: its look at
  the ledger and its update are under the live lock, which keeps other stops and the waiter's
  publication out; the waiter's \<open>finish\<close>, which takes no such lock, could fall between the two,
  and such a \<open>stop\<close> counts as one that overlaps the window described with \<open>life_sys\<close>. Of the probe's metrics the three
  counters are kept that the waiter and \<open>stop\<close> report, and of the governor's outcome its exit
  reason; the extra audit row for a memory ceiling and the evidence string of a stored receipt
  are left out.
\<close>

section \<open>Shared state\<close>

record probe_metrics =
  pm_frames_total :: nat
  pm_bytes_total :: nat
  pm_events_emitted :: nat

text \<open>
  The fields of a live binding that the waiter, \<open>stop\<close> and the status view touch. The handles on
  the process, the sifter with its inline rules, the redacted command line and the pipeline
  flag are fixed at the start and are not part of the state.
\<close>

record job_binding =
  jb_bucket_id :: bucket_id
  jb_probe_id :: probe_id
  jb_metrics :: probe_metrics
  jb_metrics_live :: probe_metrics
  jb_receipt :: "command_receipt option"
  jb_completion_committed :: bool
  jb_cancel :: bool
  jb_exit_reason :: "string option"

datatype probe_outcome =
    OExited "int option" "string option"
  | OCancelled

record receipt_row =
  rw_job_id :: job_id
  rw_bucket_id :: bucket_id
  rw_state :: job_state
  rw_exit_code :: "int option"
  rw_events_emitted :: nat

record daemon =
  dm_router :: router
  dm_live :: "job_id \<rightharpoonup> job_binding"
  dm_dedup :: "nat \<rightharpoonup> job_id"
  dm_receipts :: "receipt_row list"
  dm_killed :: "job_id set"
  dm_profile :: string

abbreviation dm_jobs :: "daemon \<Rightarrow> job_manager" where
  "dm_jobs d \<equiv> ro_jobs (dm_router d)"

definition set_jobs :: "job_manager \<Rightarrow> daemon \<Rightarrow> daemon" where
  "set_jobs m d = d\<lparr>dm_router := (dm_router d)\<lparr>ro_jobs := m\<rparr>\<rparr>"

definition is_terminal :: "job_manager \<Rightarrow> job_id \<Rightarrow> job_state option" where
  "is_terminal m j =
     (case job_get m j of
        None \<Rightarrow> None
      | Some rec \<Rightarrow> if jr_state rec \<in> {Exited, Failed, Cancelled} then Some (jr_state rec) else None)"

definition update_live :: "job_id \<Rightarrow> (job_binding \<Rightarrow> job_binding) \<Rightarrow> daemon \<Rightarrow> daemon" where
  "update_live j f d =
     (case dm_live d j of
        None \<Rightarrow> d | Some b \<Rightarrow> d\<lparr>dm_live := (dm_live d)(j \<mapsto> f b)\<rparr>)"

definition emit_audit :: "timestamp \<Rightarrow> audit_entry \<Rightarrow> daemon \<Rightarrow> daemon" where
  "emit_audit now e d = d\<lparr>dm_router := record_audit now (dm_router d) e\<rparr>"

definition command_audit ::
  "timestamp \<Rightarrow> string \<Rightarrow> string \<Rightarrow> string \<Rightarrow> string option \<Rightarrow> string option \<Rightarrow> daemon \<Rightarrow> daemon" where
  "command_audit now action subject decision reason metadata d =
     emit_audit now
       ((audit_entry_new action subject decision)
          \<lparr>ae_actor := Some ''command_runtime'', ae_profile := Some (dm_profile d),
           ae_reason := reason, ae_metadata_json := metadata\<rparr>) d"

text \<open>\<open>ok\<close> says whether the store takes the write; a failure is logged and dropped.\<close>

definition persist_job_receipt ::
  "bool \<Rightarrow> job_id \<Rightarrow> bucket_id \<Rightarrow> job_state \<Rightarrow> int option \<Rightarrow> nat \<Rightarrow> daemon \<Rightarrow> daemon" where
  "persist_job_receipt ok j b s code n d =
     (if ok then d\<lparr>dm_receipts := dm_receipts d @
         [\<lparr>rw_job_id = j, rw_bucket_id = b, rw_state = s, rw_exit_code = code, rw_events_emitted = n\<rparr>]\<rparr>
      else d)"

section \<open>The waiter\<close>

text \<open>
  What the task captured at spawn, what \<open>drive_to_exit\<close> returned, and whether the store takes the
  receipt.
\<close>

record waiter_ctx =
  wc_job :: job_id
  wc_bucket :: bucket_id
  wc_probe :: probe_id
  wc_dedup_k :: nat
  wc_shape :: receipt_shape
  wc_outcome :: probe_outcome
  wc_metrics :: probe_metrics
  wc_exit_reason :: "string option"
  wc_argv_metadata :: string
  wc_store_ok :: bool

definition receipt_exit_code :: "waiter_ctx \<Rightarrow> int option" where
  "receipt_exit_code c = (case wc_outcome c of OExited code _ \<Rightarrow> code | OCancelled \<Rightarrow> None)"

datatype waiter_pc =
    PPublish
  | PCheck
  | PSkipPersist job_state
  | PSkipEvict
  | PSkipCommit
  | PFinish
  | PReadback "event_draft option"
  | PEvict "event_draft option" job_state
  | PAppend "event_draft option" job_state
  | PRecord "event_draft option" job_state nat
  | PPersist "event_draft option" job_state nat
  | PMetrics "event_draft option" nat
  | PAudit "event_draft option"
  | PCommit
  | PDone
  | PPanicked

definition exit_audit_reason :: "event_draft option \<Rightarrow> string option" where
  "exit_audit_reason draft =
     (case draft of
        None \<Rightarrow> Some ''no draft''
      | Some d \<Rightarrow>
          if d_kind d = ''command_exited'' then None
          else if d_kind d = ''command_failed'' then Some (''nonzero exit: '' @ d_summary d)
          else Some ''no draft'')"

text \<open>
  One critical section of the waiter. \<open>n1\<close>, \<open>n2\<close> are the clock readings it makes and \<open>eid\<close> the
  identifier minted if it appends.
\<close>

fun waiter_step ::
  "dt_add \<Rightarrow> (string \<Rightarrow> string) \<Rightarrow> timestamp \<Rightarrow> timestamp \<Rightarrow> event_id \<Rightarrow> waiter_ctx \<Rightarrow>
     waiter_pc \<Rightarrow> daemon \<Rightarrow> waiter_pc \<times> daemon" where
  "waiter_step add dbg n1 n2 eid c PPublish d =
     (let receipt =
        (if pm_events_emitted (wc_metrics c) = 0
         then Some (build_receipt (ro_rings (dm_router d)) (wc_probe c) (wc_shape c)
                      (pm_frames_total (wc_metrics c)) (receipt_exit_code c))
         else None);
          reason0 = (if wc_outcome c = OCancelled then None else wc_exit_reason c);
          reason = (if is_terminal (dm_jobs d) (wc_job c) \<noteq> None then None else reason0)
      in (PCheck, update_live (wc_job c) (\<lambda>b. b\<lparr>jb_receipt := receipt, jb_exit_reason := reason\<rparr>) d))"
| "waiter_step add dbg n1 n2 eid c PCheck d =
     (case is_terminal (dm_jobs d) (wc_job c) of
        Some s \<Rightarrow> (PSkipPersist s, d) | None \<Rightarrow> (PFinish, d))"
| "waiter_step add dbg n1 n2 eid c (PSkipPersist s) d =
     (PSkipEvict, persist_job_receipt (wc_store_ok c) (wc_job c) (wc_bucket c) s (receipt_exit_code c)
        (pm_events_emitted (wc_metrics c)) d)"
| "waiter_step add dbg n1 n2 eid c PSkipEvict d =
     (PSkipCommit, d\<lparr>dm_dedup := (dm_dedup d)(wc_dedup_k c := None)\<rparr>)"
| "waiter_step add dbg n1 n2 eid c PSkipCommit d =
     (PDone, update_live (wc_job c)
        (\<lambda>b. b\<lparr>jb_metrics := wc_metrics c, jb_completion_committed := True\<rparr>) d)"
| "waiter_step add dbg n1 n2 eid c PFinish d =
     (let (m, r) =
        (case wc_outcome c of
           OExited code sig \<Rightarrow> job_finish add dbg n1 n2 (dm_jobs d) (wc_job c) code sig
         | OCancelled \<Rightarrow> job_cancel add dbg n1 n2 (dm_jobs d) (wc_job c))
      in (case r of Ok draft \<Rightarrow> PReadback draft | _ \<Rightarrow> PPanicked, set_jobs m d))"
| "waiter_step add dbg n1 n2 eid c (PReadback draft) d =
     (PEvict draft (case job_get (dm_jobs d) (wc_job c) of None \<Rightarrow> Failed | Some rec \<Rightarrow> jr_state rec), d)"
| "waiter_step add dbg n1 n2 eid c (PEvict draft s) d =
     (PAppend draft s, d\<lparr>dm_dedup := (dm_dedup d)(wc_dedup_k c := None)\<rparr>)"
| "waiter_step add dbg n1 n2 eid c (PAppend draft s) d =
     (case draft of
        None \<Rightarrow> (PPersist draft s (pm_events_emitted (wc_metrics c)), d)
      | Some dr \<Rightarrow>
          (case bucket_append n1 eid (dm_router d) (wc_bucket c) dr of
             (r, Ok _) \<Rightarrow>
               (PRecord draft s (sat_add_u64 (pm_events_emitted (wc_metrics c)) 1), d\<lparr>dm_router := r\<rparr>)
           | (r, _) \<Rightarrow> (PPersist draft s (pm_events_emitted (wc_metrics c)), d\<lparr>dm_router := r\<rparr>)))"
| "waiter_step add dbg n1 n2 eid c (PRecord draft s n) d =
     (PPersist draft s n, set_jobs (record_event (dm_jobs d) (wc_job c)) d)"
| "waiter_step add dbg n1 n2 eid c (PPersist draft s n) d =
     (PMetrics draft n, persist_job_receipt (wc_store_ok c) (wc_job c) (wc_bucket c) s (receipt_exit_code c) n d)"
| "waiter_step add dbg n1 n2 eid c (PMetrics draft n) d =
     (PAudit draft, update_live (wc_job c)
        (\<lambda>b. b\<lparr>jb_metrics := (wc_metrics c)\<lparr>pm_events_emitted := n\<rparr>\<rparr>) d)"
| "waiter_step add dbg n1 n2 eid c (PAudit draft) d =
     (PCommit, command_audit n1 ''command_exit'' (job_wire (wc_job c)) ''info'' (exit_audit_reason draft)
        (Some (wc_argv_metadata c)) d)"
| "waiter_step add dbg n1 n2 eid c PCommit d =
     (PDone, update_live (wc_job c) (\<lambda>b. b\<lparr>jb_completion_committed := True\<rparr>) d)"
| "waiter_step add dbg n1 n2 eid c PDone d = (PDone, d)"
| "waiter_step add dbg n1 n2 eid c PPanicked d = (PPanicked, d)"

section \<open>Stop and status\<close>

datatype command_error = PolicyDenied string | UnknownJob job_id

definition stop_metadata :: "probe_metrics \<Rightarrow> string" where
  "stop_metadata m =
     [CHR ''{'', CHR 0x22] @ ''frames'' @ [CHR 0x22, CHR '':''] @ show_nat (pm_frames_total m) @
     [CHR '','', CHR 0x22] @ ''events'' @ [CHR 0x22, CHR '':''] @ show_nat (pm_events_emitted m) @
     [CHR '','', CHR 0x22] @ ''bytes'' @ [CHR 0x22, CHR '':''] @ show_nat (pm_bytes_total m) @ [CHR ''}'']"

text \<open>
  \<open>stop\<close>: the section under the live lock decides and updates; the audit row and the kill come
  after it and touch nothing the waiter decides on. \<open>denied\<close> is the policy's reason, if any.
\<close>

definition stop ::
  "dt_add \<Rightarrow> (string \<Rightarrow> string) \<Rightarrow> timestamp \<Rightarrow> timestamp \<Rightarrow> string option \<Rightarrow> job_id \<Rightarrow> string \<Rightarrow>
     daemon \<Rightarrow> daemon \<times> (command_error, bucket_id \<times> probe_metrics) outcome" where
  "stop add dbg n1 n2 denied j peer d =
     (case denied of
        Some reason \<Rightarrow>
          (command_audit n1 ''command_stop'' peer ''deny'' (Some reason) None d, Err (PolicyDenied reason))
      | None \<Rightarrow>
          (case dm_live d j of
             None \<Rightarrow> (d, Err (UnknownJob j))
           | Some b \<Rightarrow>
               if is_terminal (dm_jobs d) j \<noteq> None then (d, Ok (jb_bucket_id b, jb_metrics b))
               else
                 let metrics = jb_metrics_live b;
                     handle = jb_cancel b;
                     d1 = update_live j (\<lambda>b. b\<lparr>jb_metrics := metrics, jb_cancel := False\<rparr>) d;
                     (m, r) = job_cancel add dbg n1 n2 (dm_jobs d1) j;
                     d2 = set_jobs m d1
                 in (case r of
                       Panic \<Rightarrow> (d2, Panic)
                     | _ \<Rightarrow>
                       let d3 = command_audit n1 ''command_stop'' (job_wire j) ''allow'' None
                             (Some (stop_metadata metrics)) d2
                       in (if handle then d3\<lparr>dm_killed := insert j (dm_killed d3)\<rparr> else d3,
                           Ok (jb_bucket_id b, metrics)))))"

text \<open>\<open>job_record\<close>: a natural completion is hidden until the waiter has committed it.\<close>

definition job_record_view :: "daemon \<Rightarrow> job_id \<Rightarrow> job_record option" where
  "job_record_view d j =
     (case job_get (dm_jobs d) j of
        None \<Rightarrow> None
      | Some rec \<Rightarrow>
          if jr_state rec \<in> {Exited, Failed} \<and>
             (case dm_live d j of None \<Rightarrow> False | Some b \<Rightarrow> \<not> jb_completion_committed b)
          then Some (rec\<lparr>jr_state := Running, jr_ended_at := None, jr_exit_info := None\<rparr>)
          else Some rec)"

section \<open>Interleavings\<close>

text \<open>
  The waiter of one job among calls of \<open>stop\<close> for any job. \<open>race\<close> says whether a stop of this job
  may fall between the waiter's check of the ledger and its call of \<open>finish\<close>.
\<close>

inductive life_sys ::
  "dt_add \<Rightarrow> (string \<Rightarrow> string) \<Rightarrow> bool \<Rightarrow> waiter_ctx \<Rightarrow> waiter_pc \<times> daemon \<Rightarrow> waiter_pc \<times> daemon \<Rightarrow> bool"
  for add dbg race c where
  waiter: "waiter_step add dbg n1 n2 eid c pc d = (pc', d') \<Longrightarrow> life_sys add dbg race c (pc, d) (pc', d')"
| stopped: "stop add dbg n1 n2 denied j peer d = (d', r) \<Longrightarrow> j = wc_job c \<and> pc = PFinish \<longrightarrow> race \<Longrightarrow>
     life_sys add dbg race c (pc, d) (pc, d')"

inductive life_run ::
  "dt_add \<Rightarrow> (string \<Rightarrow> string) \<Rightarrow> bool \<Rightarrow> waiter_ctx \<Rightarrow> waiter_pc \<times> daemon \<Rightarrow> waiter_pc \<times> daemon \<Rightarrow> bool"
  for add dbg race c s0 where
  here: "life_run add dbg race c s0 s0"
| more: "life_run add dbg race c s0 s \<Longrightarrow> life_sys add dbg race c s s' \<Longrightarrow> life_run add dbg race c s0 s'"

text \<open>A job as \<open>start_combed\<close> leaves it: bound, not committed, and running.\<close>

definition life_start :: "waiter_ctx \<Rightarrow> daemon \<Rightarrow> bool" where
  "life_start c d \<longleftrightarrow>
     (\<exists>b. dm_live d (wc_job c) = Some b \<and> \<not> jb_completion_committed b) \<and>
     (\<exists>rec. map_of (dm_jobs d) (wc_job c) = Some rec \<and> jr_state rec = Running)"

section \<open>What a run keeps\<close>

definition ledger :: "waiter_ctx \<Rightarrow> daemon \<Rightarrow> job_state option" where
  "ledger c d = map_option jr_state (map_of (dm_jobs d) (wc_job c))"

lemma is_terminal_iff:
  "is_terminal m j = Some s \<longleftrightarrow> map_option jr_state (map_of m j) = Some s \<and> terminal s"
  by (cases "map_of m j"; cases s) (auto simp: is_terminal_def job_get_def)

lemma is_terminal_None:
  "is_terminal m j = None \<longleftrightarrow> (\<forall>s. map_option jr_state (map_of m j) = Some s \<longrightarrow> \<not> terminal s)"
  using is_terminal_iff [of m j] by (metis not_Some_eq)

lemma set_jobs_frame [simp]:
  "dm_jobs (set_jobs m d) = m" "dm_live (set_jobs m d) = dm_live d" "dm_dedup (set_jobs m d) = dm_dedup d"
  "dm_receipts (set_jobs m d) = dm_receipts d"
  by (simp_all add: set_jobs_def)

lemma update_live_frame [simp]:
  "dm_router (update_live j f d) = dm_router d" "dm_dedup (update_live j f d) = dm_dedup d"
  "dm_receipts (update_live j f d) = dm_receipts d"
  by (simp_all add: update_live_def split: option.splits)

lemma update_live_lookup:
  "dm_live (update_live j f d) i = (if i = j then map_option f (dm_live d j) else dm_live d i)"
  by (auto simp: update_live_def split: option.splits)

lemma command_audit_frame [simp]:
  "dm_jobs (command_audit now a s x r m d) = dm_jobs d" "dm_live (command_audit now a s x r m d) = dm_live d"
  "dm_dedup (command_audit now a s x r m d) = dm_dedup d"
  "dm_receipts (command_audit now a s x r m d) = dm_receipts d"
  by (simp_all add: command_audit_def emit_audit_def)

lemma persist_frame [simp]:
  "dm_router (persist_job_receipt ok j b s x n d) = dm_router d"
  "dm_live (persist_job_receipt ok j b s x n d) = dm_live d"
  "dm_dedup (persist_job_receipt ok j b s x n d) = dm_dedup d"
  "dm_receipts (persist_job_receipt ok j b s x n d) = dm_receipts d @
     (if ok then [\<lparr>rw_job_id = j, rw_bucket_id = b, rw_state = s, rw_exit_code = x, rw_events_emitted = n\<rparr>]
      else [])"
  by (simp_all add: persist_job_receipt_def)

lemma bucket_append_jobs: "bucket_append n e r b d = (r', x) \<Longrightarrow> ro_jobs r' = ro_jobs r"
  by (auto simp: bucket_append_def Let_def on_buckets_def split: outcome.splits)

lemma job_cancel_ledger:
  assumes "job_cancel add dbg n1 n2 m j = (m', r)"
  shows "map_option jr_state (map_of m' i) =
    (if i = j then map_option (\<lambda>_. Cancelled) (map_of m j) else map_option jr_state (map_of m i))"
  using assms by (auto simp: job_cancel_def Let_def update_conv' split: option.splits)

lemma job_finish_ledger:
  assumes "job_finish add dbg n1 n2 m j code sig = (m', r)"
  shows "map_option jr_state (map_of m' i) =
    (if i = j then map_option (\<lambda>_. if code = Some 0 \<and> sig = None then Exited else Failed) (map_of m j)
     else map_option jr_state (map_of m i))"
  using assms by (auto simp: job_finish_def Let_def update_conv' split: option.splits)

lemma record_event_ledger:
  "map_of (record_event m j) i =
     (if i = j then map_option (\<lambda>r. r\<lparr>jr_events_emitted := sat_add_u64 (jr_events_emitted r) 1\<rparr>) (map_of m j)
      else map_of m i)"
  by (auto simp: record_event_def update_conv' split: option.splits)

text \<open>A \<open>stop\<close> changes the ledger of its job only, only from a live state, and only to cancelled.\<close>

lemma stop_effect:
  assumes "stop add dbg n1 n2 denied j peer d = (d', r)"
  shows "dm_dedup d' = dm_dedup d \<and> dm_receipts d' = dm_receipts d \<and>
    (\<forall>i. map_option jb_completion_committed (dm_live d' i) = map_option jb_completion_committed (dm_live d i)) \<and>
    (\<forall>i. map_option jr_state (map_of (dm_jobs d') i) = map_option jr_state (map_of (dm_jobs d) i) \<or>
       i = j \<and> is_terminal (dm_jobs d) j = None \<and> map_option jr_state (map_of (dm_jobs d') i) = Some Cancelled)"
proof (cases "denied = None \<and> is_terminal (dm_jobs d) j = None \<and> dm_live d j \<noteq> None")
  case False
  then have "d' = d \<or> (\<exists>q. d' = command_audit n1 ''command_stop'' peer ''deny'' (Some q) None d)"
    using assms by (auto simp: stop_def split: option.splits if_splits)
  then show ?thesis by auto
next
  case True
  then obtain b where b: "denied = None" "is_terminal (dm_jobs d) j = None" "dm_live d j = Some b" by auto
  let ?d1 = "update_live j (\<lambda>x. x\<lparr>jb_metrics := jb_metrics_live b, jb_cancel := False\<rparr>) d"
  obtain m oc where jc: "job_cancel add dbg n1 n2 (dm_jobs d) j = (m, oc)" by force
  have d': "dm_jobs d' = m" "dm_live d' = dm_live ?d1" "dm_dedup d' = dm_dedup d" "dm_receipts d' = dm_receipts d"
    using assms b jc by (auto simp: stop_def Let_def split: outcome.splits if_splits)
  have "map_option jb_completion_committed (dm_live d' i) = map_option jb_completion_committed (dm_live d i)" for i
    by (simp add: d'(2) update_live_lookup b(3))
  moreover have "map_option jr_state (map_of m i) = map_option jr_state (map_of (dm_jobs d) i) \<or>
       i = j \<and> map_option jr_state (map_of m i) = Some Cancelled" for i
    unfolding job_cancel_ledger [OF jc] by (cases "map_of (dm_jobs d) j") auto
  ultimately show ?thesis using d' b(2) by auto
qed

text \<open>Where the waiter stands relative to its effects.\<close>

fun evicted :: "waiter_pc \<Rightarrow> bool" where
  "evicted PSkipCommit \<longleftrightarrow> True"
| "evicted (PAppend _ _) \<longleftrightarrow> True"
| "evicted (PRecord _ _ _) \<longleftrightarrow> True"
| "evicted (PPersist _ _ _) \<longleftrightarrow> True"
| "evicted (PMetrics _ _) \<longleftrightarrow> True"
| "evicted (PAudit _) \<longleftrightarrow> True"
| "evicted PCommit \<longleftrightarrow> True"
| "evicted PDone \<longleftrightarrow> True"
| "evicted _ \<longleftrightarrow> False"

fun persisted :: "waiter_pc \<Rightarrow> bool" where
  "persisted PSkipEvict \<longleftrightarrow> True"
| "persisted PSkipCommit \<longleftrightarrow> True"
| "persisted (PMetrics _ _) \<longleftrightarrow> True"
| "persisted (PAudit _) \<longleftrightarrow> True"
| "persisted PCommit \<longleftrightarrow> True"
| "persisted PDone \<longleftrightarrow> True"
| "persisted _ \<longleftrightarrow> False"

definition life_inv :: "waiter_ctx \<Rightarrow> waiter_pc \<times> daemon \<Rightarrow> bool" where
  "life_inv c s \<longleftrightarrow>
     (\<exists>b. dm_live (snd s) (wc_job c) = Some b \<and> (jb_completion_committed b \<longrightarrow> fst s = PDone)) \<and>
     (evicted (fst s) \<longrightarrow> dm_dedup (snd s) (wc_dedup_k c) = None) \<and>
     (persisted (fst s) \<and> wc_store_ok c \<longrightarrow> (\<exists>row \<in> set (dm_receipts (snd s)). rw_job_id row = wc_job c)) \<and>
     ledger c (snd s) \<noteq> None"

lemma ledger_eq: "ledger c d = map_option jr_state (map_of (dm_jobs d) (wc_job c))"
  by (simp add: ledger_def)

lemma waiter_step_inv:
  assumes "life_inv c (pc, d)" and "waiter_step add dbg n1 n2 eid c pc d = (pc', d')"
  shows "life_inv c (pc', d')"
proof (cases pc)
  case PFinish
  then obtain m r where m: "(case wc_outcome c of
           OExited code sig \<Rightarrow> job_finish add dbg n1 n2 (dm_jobs d) (wc_job c) code sig
         | OCancelled \<Rightarrow> job_cancel add dbg n1 n2 (dm_jobs d) (wc_job c)) = (m, r)" by force
  have known: "map_of (dm_jobs d) (wc_job c) \<noteq> None" using assms(1) by (simp add: life_inv_def ledger_def)
  have "map_option jr_state (map_of m (wc_job c)) \<noteq> None"
  proof (cases "wc_outcome c")
    case (OExited code sig)
    with m have "job_finish add dbg n1 n2 (dm_jobs d) (wc_job c) code sig = (m, r)" by simp
    from job_finish_ledger [OF this, of "wc_job c"] known show ?thesis by simp
  next
    case OCancelled
    with m have "job_cancel add dbg n1 n2 (dm_jobs d) (wc_job c) = (m, r)" by simp
    from job_cancel_ledger [OF this, of "wc_job c"] known show ?thesis by simp
  qed
  with assms PFinish m show ?thesis
    by (auto simp: life_inv_def ledger_def split: outcome.splits)
next
  case (PAppend draft s)
  with assms show ?thesis
    by (auto simp: life_inv_def ledger_def split: option.splits prod.splits outcome.splits dest: bucket_append_jobs)
next
  case PCheck
  with assms show ?thesis by (auto simp: life_inv_def split: option.splits)
qed (use assms in \<open>auto simp: life_inv_def ledger_def update_live_lookup record_event_ledger Let_def\<close>)

lemma stop_inv:
  assumes "life_inv c (pc, d)" and "stop add dbg n1 n2 denied j peer d = (d', r)"
  shows "life_inv c (pc, d')"
proof -
  note e = stop_effect [OF assms(2)]
  from assms(1) obtain b where b: "dm_live d (wc_job c) = Some b" "jb_completion_committed b \<longrightarrow> pc = PDone"
    by (auto simp: life_inv_def)
  from e b(1) obtain b' where b': "dm_live d' (wc_job c) = Some b'"
    "jb_completion_committed b' = jb_completion_committed b"
    by (metis (no_types, lifting) map_option_eq_Some)
  have "ledger c d' = ledger c d \<or> ledger c d' = Some Cancelled"
    using e unfolding ledger_def by blast
  then have "ledger c d' \<noteq> None" using assms(1) by (auto simp: life_inv_def)
  with e b b' assms(1) show ?thesis by (auto simp: life_inv_def)
qed

lemma life_run_inv:
  "life_run add dbg race c s0 s \<Longrightarrow> life_inv c s0 \<Longrightarrow> life_inv c s"
proof (induction rule: life_run.induct)
  case (more s s')
  from more.hyps(2) more.IH [OF more.prems] show ?case
    by (induction rule: life_sys.induct) (auto intro: waiter_step_inv stop_inv)
qed

lemma life_start_inv: "life_start c d \<Longrightarrow> life_inv c (PPublish, d)"
  by (auto simp: life_start_def life_inv_def ledger_def)

text \<open>Without the race the waiter's \<open>finish\<close> finds the job live.\<close>

definition finish_live :: "waiter_ctx \<Rightarrow> waiter_pc \<times> daemon \<Rightarrow> bool" where
  "finish_live c s \<longleftrightarrow> (fst s = PFinish \<longrightarrow> is_terminal (dm_jobs (snd s)) (wc_job c) = None)"

lemma life_sys_finish_live:
  assumes "life_sys add dbg False c s s'" and "finish_live c s"
  shows "finish_live c s'"
  using assms
proof (induction rule: life_sys.induct)
  case (waiter n1 n2 eid pc d pc' d')
  then show ?case
    by (cases pc) (auto simp: finish_live_def Let_def split: option.splits outcome.splits prod.splits)
next
  case (stopped n1 n2 denied j peer d d' r pc)
  show ?case
  proof (cases "pc = PFinish")
    case True
    with stopped have "j \<noteq> wc_job c" by auto
    with stop_effect [OF stopped(1)]
    have "map_option jr_state (map_of (dm_jobs d') (wc_job c)) = map_option jr_state (map_of (dm_jobs d) (wc_job c))"
      by blast
    with stopped(3) True show ?thesis by (simp add: finish_live_def is_terminal_None)
  qed (simp add: finish_live_def)
qed

lemma life_sys_terminal_stable:
  assumes "life_sys add dbg False c s s'" and "finish_live c s"
    and "ledger c (snd s) = Some st" and "terminal st"
  shows "ledger c (snd s') = Some st"
  using assms
proof (induction rule: life_sys.induct)
  case (waiter n1 n2 eid pc d pc' d')
  have "pc \<noteq> PFinish"
    using waiter by (auto simp: finish_live_def ledger_def is_terminal_None)
  with waiter show ?case
    by (cases pc) (auto simp: ledger_def Let_def record_event_ledger dest!: bucket_append_jobs
        split: option.splits outcome.splits prod.splits)
next
  case (stopped n1 n2 denied j peer d d' r pc)
  have "ledger c d' = ledger c d \<or> is_terminal (dm_jobs d) (wc_job c) = None"
    using stop_effect [OF stopped(1), THEN conjunct2, THEN conjunct2, THEN conjunct2, rule_format, of "wc_job c"]
    by (auto simp: ledger_def)
  with stopped show ?case by (auto simp: ledger_def is_terminal_None)
qed

lemma life_run_terminal_stable:
  assumes "life_run add dbg False c s s'" and "finish_live c s"
    and "ledger c (snd s) = Some st" and "terminal st"
  shows "ledger c (snd s') = Some st \<and> finish_live c s'"
  using assms(1)
proof (induction rule: life_run.induct)
  case here
  with assms show ?case by simp
next
  case (more s1 s2)
  then show ?case
    using life_sys_terminal_stable [of add dbg c s1 s2 st] life_sys_finish_live [of add dbg c s1 s2] assms(4)
    by blast
qed

lemma life_run_finish_live:
  "life_run add dbg False c s s' \<Longrightarrow> finish_live c s \<Longrightarrow> finish_live c s'"
  by (induction rule: life_run.induct) (auto intro: life_sys_finish_live)

text \<open>The waiter reaches its \<open>finish\<close>, and from there its end, whatever it finds.\<close>

lemma life_run_waiter:
  "life_run add dbg race c s0 (pc, d) \<Longrightarrow> waiter_step add dbg n1 n2 eid c pc d = s' \<Longrightarrow>
   life_run add dbg race c s0 s'"
  using life_run.more life_sys.waiter by (metis prod.collapse)

lemma life_run_trans:
  assumes "life_run add dbg race c s0 s1" and "life_run add dbg race c s1 s2"
  shows "life_run add dbg race c s0 s2"
  using assms(2,1) by (induction rule: life_run.induct) (auto intro: life_run.more)

lemma waiter_reaches_finish:
  assumes "life_start c d"
  shows "\<exists>d1. life_run add dbg race c (PPublish, d) (PFinish, d1) \<and>
    dm_live d1 (wc_job c) \<noteq> None \<and> ledger c d1 = Some Running \<and> dm_jobs d1 = dm_jobs d"
proof -
  have t: "is_terminal (dm_jobs d) (wc_job c) = None"
    using assms by (auto simp: life_start_def is_terminal_None)
  obtain f where p: "waiter_step add dbg 0 0 eid c PPublish d = (PCheck, update_live (wc_job c) f d)" for eid
    by (simp add: Let_def)
  let ?d1 = "update_live (wc_job c) f d"
  have "life_run add dbg race c (PPublish, d) (PCheck, ?d1)"
    by (rule life_run_waiter [OF life_run.here p])
  then have "life_run add dbg race c (PPublish, d) (PFinish, ?d1)"
    by (rule life_run_waiter [where ?n1.0 = 0 and ?n2.0 = 0]) (simp add: t)
  moreover have "dm_live ?d1 (wc_job c) \<noteq> None" "ledger c ?d1 = Some Running" "dm_jobs ?d1 = dm_jobs d"
    using assms by (auto simp: life_start_def update_live_lookup ledger_def)
  ultimately show ?thesis by blast
qed

lemma job_cancel_ok:
  assumes "\<And>rec. map_of jobs j = Some rec \<Longrightarrow>
    add_total_until add (jr_started_at rec) (max n1 (jr_started_at rec))"
  shows "\<exists>m dr. job_cancel add dbg n1 n2 jobs j = (m, Ok dr)"
proof (cases "map_of jobs j")
  case (Some rec)
  let ?xi = "\<lparr>xi_exit_code = None, xi_signal = Some ''CANCELLED'',
    xi_duration_ms = duration_ms n1 (jr_started_at rec)\<rparr>"
  obtain dr where "build_exit_event add dbg n2 (jr_config rec) ?xi True (jr_started_at rec) = Some dr"
    using build_exit_event_total [OF assms [OF Some], of ?xi] by force
  with Some show ?thesis by (simp add: job_cancel_def Let_def)
qed (simp add: job_cancel_def)

lemma job_finish_ok:
  assumes "\<And>rec. map_of jobs j = Some rec \<Longrightarrow>
    add_total_until add (jr_started_at rec) (max n1 (jr_started_at rec))"
  shows "\<exists>m dr. job_finish add dbg n1 n2 jobs j code sig = (m, Ok dr)"
proof (cases "map_of jobs j")
  case (Some rec)
  let ?xi = "\<lparr>xi_exit_code = code, xi_signal = sig, xi_duration_ms = duration_ms n1 (jr_started_at rec)\<rparr>"
  obtain dr where "build_exit_event add dbg n2 (jr_config rec) ?xi (code \<noteq> Some 0 \<or> sig \<noteq> None)
      (jr_started_at rec) = Some dr"
    using build_exit_event_total [OF assms [OF Some], of ?xi] by force
  with Some show ?thesis by (simp add: job_finish_def Let_def)
qed (simp add: job_finish_def)

lemma stop_cancels:
  assumes "is_terminal (dm_jobs d) (wc_job c) = None" and "dm_live d (wc_job c) \<noteq> None"
    and rec: "map_of (dm_jobs d) (wc_job c) = Some rec"
    and add: "add_total_until add (jr_started_at rec) (max n1 (jr_started_at rec))"
  shows "\<exists>d' r rec'. stop add dbg n1 n2 None (wc_job c) peer d = (d', Ok r) \<and> ledger c d' = Some Cancelled \<and>
    map_of (dm_jobs d') (wc_job c) = Some rec' \<and> jr_started_at rec' = jr_started_at rec"
proof -
  obtain b where b: "dm_live d (wc_job c) = Some b" using assms(2) by auto
  obtain m dr where jc: "job_cancel add dbg n1 n2 (dm_jobs d) (wc_job c) = (m, Ok dr)"
    using job_cancel_ok [of "dm_jobs d" "wc_job c" add n1 dbg n2] rec add by auto
  have "map_option jr_state (map_of m (wc_job c)) = Some Cancelled"
    "map_option jr_started_at (map_of m (wc_job c)) = Some (jr_started_at rec)"
    using job_cancel_ledger [OF jc, of "wc_job c"] jc rec
    by (auto simp: job_cancel_def Let_def update_conv' split: option.splits)
  with b assms(1) jc show ?thesis
    by (auto simp: stop_def Let_def ledger_def)
qed

definition closes :: "dt_add \<Rightarrow> (string \<Rightarrow> string) \<Rightarrow> bool \<Rightarrow> waiter_ctx \<Rightarrow> waiter_pc \<times> daemon \<Rightarrow> waiter_pc \<Rightarrow> daemon \<Rightarrow> bool" where
  "closes add dbg race c s0 pc d \<longleftrightarrow> life_run add dbg race c s0 (pc, d) \<and> dm_live d (wc_job c) \<noteq> None"

lemma closes_step_at:
  assumes "closes add dbg race c s0 pc d" and "waiter_step add dbg n1 n2 eid c pc d = (pc', d')"
    and "dm_live d (wc_job c) \<noteq> None \<Longrightarrow> dm_live d' (wc_job c) \<noteq> None"
  shows "closes add dbg race c s0 pc' d'"
  using assms life_run_waiter [of add dbg race c s0 pc d n1 n2 eid] by (auto simp: closes_def)

lemmas closes_step = closes_step_at [where ?n1.0 = 0 and ?n2.0 = 0 and eid = "EventId []"]

lemma waiter_persists:
  assumes "closes add dbg race c s0 (PPersist dr s n) d"
  shows "\<exists>d'. life_run add dbg race c s0 (PDone, d') \<and>
    (\<exists>b. dm_live d' (wc_job c) = Some b \<and> jb_completion_committed b) \<and> ledger c d' = ledger c d"
proof -
  let ?d1 = "persist_job_receipt (wc_store_ok c) (wc_job c) (wc_bucket c) s (receipt_exit_code c) n d"
  let ?d2 = "update_live (wc_job c) (\<lambda>b. b\<lparr>jb_metrics := (wc_metrics c)\<lparr>pm_events_emitted := n\<rparr>\<rparr>) ?d1"
  let ?d3 = "command_audit 0 ''command_exit'' (job_wire (wc_job c)) ''info'' (exit_audit_reason dr)
        (Some (wc_argv_metadata c)) ?d2"
  let ?d4 = "update_live (wc_job c) (\<lambda>b. b\<lparr>jb_completion_committed := True\<rparr>) ?d3"
  have "closes add dbg race c s0 (PMetrics dr n) ?d1" by (rule closes_step [OF assms]) simp_all
  then have "closes add dbg race c s0 (PAudit dr) ?d2" by (rule closes_step) (simp_all add: update_live_lookup)
  then have "closes add dbg race c s0 PCommit ?d3" by (rule closes_step) simp_all
  then have "closes add dbg race c s0 PDone ?d4" by (rule closes_step) (simp_all add: update_live_lookup)
  moreover have "ledger c ?d4 = ledger c d" by (simp add: ledger_def)
  ultimately show ?thesis by (intro exI [of _ ?d4]) (auto simp: closes_def update_live_lookup)
qed

lemma waiter_appends:
  assumes "closes add dbg race c s0 (PAppend dr s) d"
  shows "\<exists>n d'. closes add dbg race c s0 (PPersist dr s n) d' \<and> ledger c d' = ledger c d"
proof -
  obtain pc' d1 where step: "waiter_step add dbg 0 0 (EventId []) c (PAppend dr s) d = (pc', d1)" by force
  then have d1: "dm_live d1 = dm_live d" "dm_jobs d1 = dm_jobs d"
    by (auto split: option.splits prod.splits outcome.splits dest: bucket_append_jobs)
  have cl: "closes add dbg race c s0 pc' d1" by (rule closes_step [OF assms step]) (simp add: d1)
  have "(\<exists>n. pc' = PPersist dr s n) \<or> (\<exists>n. pc' = PRecord dr s n)"
    using step by (auto split: option.splits prod.splits outcome.splits)
  then show ?thesis
  proof (elim disjE exE)
    fix n assume "pc' = PPersist dr s n"
    moreover have "ledger c d1 = ledger c d" by (simp add: ledger_def d1)
    ultimately show ?thesis using cl by blast
  next
    fix n assume "pc' = PRecord dr s n"
    with cl have "closes add dbg race c s0 (PPersist dr s n) (set_jobs (record_event (dm_jobs d1) (wc_job c)) d1)"
      by (auto elim!: closes_step)
    moreover have "ledger c (set_jobs (record_event (dm_jobs d1) (wc_job c)) d1) = ledger c d"
      by (simp add: ledger_def record_event_ledger d1 option.map_comp comp_def)
    ultimately show ?thesis by blast
  qed
qed

lemma waiter_finishes:
  assumes inv: "life_inv c (PFinish, d)" and "wc_outcome c = OExited code sig"
    and rec: "map_of (dm_jobs d) (wc_job c) = Some rec"
    and add: "add_total_until add (jr_started_at rec) (max n1 (jr_started_at rec))"
  shows "\<exists>d'. life_run add dbg race c (PFinish, d) (PDone, d') \<and>
    (\<exists>b. dm_live d' (wc_job c) = Some b \<and> jb_completion_committed b) \<and>
    ledger c d' = Some (if code = Some 0 \<and> sig = None then Exited else Failed)"
proof -
  obtain m dr where jf: "job_finish add dbg n1 n1 (dm_jobs d) (wc_job c) code sig = (m, Ok dr)"
    using job_finish_ok [of "dm_jobs d" "wc_job c" add n1 dbg n1 code sig] rec add by auto
  let ?d2 = "(set_jobs m d)\<lparr>dm_dedup := (dm_dedup (set_jobs m d))(wc_dedup_k c := None)\<rparr>"
  let ?s = "case job_get m (wc_job c) of None \<Rightarrow> Failed | Some rec \<Rightarrow> jr_state rec"
  have "closes add dbg race c (PFinish, d) PFinish d"
    using inv by (auto simp: closes_def life_inv_def intro: life_run.here)
  then have "closes add dbg race c (PFinish, d) (PReadback dr) (set_jobs m d)"
    by (rule closes_step_at [where ?n1.0 = n1 and ?n2.0 = n1 and eid = "EventId []"]) (simp_all add: assms(2) jf)
  then have "closes add dbg race c (PFinish, d) (PEvict dr ?s) (set_jobs m d)"
    by (rule closes_step) simp_all
  then have "closes add dbg race c (PFinish, d) (PAppend dr ?s) ?d2" by (rule closes_step) simp_all
  from waiter_appends [OF this] obtain n d3 where
    d3: "closes add dbg race c (PFinish, d) (PPersist dr ?s n) d3" "ledger c d3 = ledger c ?d2" by blast
  have "ledger c ?d2 = Some (if code = Some 0 \<and> sig = None then Exited else Failed)"
    using job_finish_ledger [OF jf, of "wc_job c"] inv by (auto simp: ledger_def life_inv_def)
  with waiter_persists [OF d3(1)] d3(2) show ?thesis by metis
qed

lemma view_cancelled:
  "ledger c d = Some Cancelled \<Longrightarrow> \<exists>rec. job_record_view d (wc_job c) = Some rec \<and> jr_state rec = Cancelled"
  by (auto simp: ledger_def job_record_view_def job_get_def)

lemma view_committed:
  "ledger c d = Some s \<Longrightarrow> \<exists>b. dm_live d (wc_job c) = Some b \<and> jb_completion_committed b \<Longrightarrow>
   \<exists>rec. job_record_view d (wc_job c) = Some rec \<and> jr_state rec = s"
  by (auto simp: ledger_def job_record_view_def job_get_def)

section \<open>Properties of the end of a job\<close>

definition sample_ctx :: waiter_ctx where
  "sample_ctx = \<lparr>wc_job = JobId ''j'', wc_bucket = BucketId ''b'', wc_probe = ProbeId ''p'', wc_dedup_k = 7,
     wc_shape = \<lparr>rs_head_lines = 0, rs_tail_lines = 5\<rparr>, wc_outcome = OExited (Some 0) None,
     wc_metrics = \<lparr>pm_frames_total = 1, pm_bytes_total = 2, pm_events_emitted = 0\<rparr>,
     wc_exit_reason = None, wc_argv_metadata = ''m'', wc_store_ok = True\<rparr>"

definition sample_daemon :: daemon where
  "sample_daemon =
     \<lparr>dm_router = \<lparr>ro_buckets = [], ro_rings = [],
        ro_jobs = mark_running sample_jobs (JobId ''j''), ro_audit = audit_new\<rparr>,
      dm_live = [JobId ''j'' \<mapsto>
        \<lparr>jb_bucket_id = BucketId ''b'', jb_probe_id = ProbeId ''p'',
         jb_metrics = \<lparr>pm_frames_total = 0, pm_bytes_total = 0, pm_events_emitted = 0\<rparr>,
         jb_metrics_live = \<lparr>pm_frames_total = 1, pm_bytes_total = 2, pm_events_emitted = 0\<rparr>,
         jb_receipt = None, jb_completion_committed = False, jb_cancel = True, jb_exit_reason = None\<rparr>],
      dm_dedup = [7 \<mapsto> JobId ''j''], dm_receipts = [], dm_killed = {}, dm_profile = ''developer_local''\<rparr>"

lemma sample_daemon_job:
  "map_of (dm_jobs sample_daemon) (JobId ''j'') = Some ((job_record_new 0 sample_job)\<lparr>jr_state := Running\<rparr>)"
  by (simp add: sample_daemon_def mark_running_def sample_jobs_lookup update_conv')
    (simp add: job_record_new_def)

lemma sample_daemon_rec:
  obtains rec where "map_of (dm_jobs sample_daemon) (wc_job sample_ctx) = Some rec"
    "add_total_until sample_add (jr_started_at rec) (max 5 (jr_started_at rec))"
proof (rule that)
  show "map_of (dm_jobs sample_daemon) (wc_job sample_ctx) = Some ((job_record_new 0 sample_job)\<lparr>jr_state := Running\<rparr>)"
    by (simp add: sample_ctx_def sample_daemon_job)
qed (simp add: job_record_new_def sample_add_total)

lemma sample_daemon_start: "life_start sample_ctx sample_daemon"
  by (simp add: life_start_def sample_ctx_def sample_daemon_job) (simp add: sample_daemon_def)

text \<open>
  C9. If no stop of the job falls between the waiter's look at the ledger and its \<open>finish\<close>, a
  terminal state is final: once the ledger says cancelled, exited or failed it says so for
  ever, whatever stops and waiter steps follow in whatever order.
\<close>

theorem terminal_state_final_without_race:
  assumes "life_start c d0" and "life_run add dbg False c (PPublish, d0) (pc, d)"
    and "life_run add dbg False c (pc, d) (pc', d')" and "ledger c d = Some st" and "terminal st"
  shows "ledger c d' = Some st"
proof -
  have "finish_live c (PPublish, d0)" by (simp add: finish_live_def)
  from life_run_terminal_stable [OF assms(3) life_run_finish_live [OF assms(2) this]] assms(4,5)
  show ?thesis by simp
qed

theorem terminal_state_final_without_race_witness:
  "\<exists>d d'. life_run sample_add id False sample_ctx (PPublish, sample_daemon) (PPublish, d) \<and>
     life_run sample_add id False sample_ctx (PPublish, d) (PCheck, d') \<and> ledger sample_ctx d = Some Cancelled \<and>
     ledger sample_ctx d' = Some Cancelled"
proof -
  obtain rec where rec: "map_of (dm_jobs sample_daemon) (wc_job sample_ctx) = Some rec"
    "add_total_until sample_add (jr_started_at rec) (max 5 (jr_started_at rec))" by (rule sample_daemon_rec)
  have st: "ledger sample_ctx sample_daemon = Some Running" "dm_live sample_daemon (wc_job sample_ctx) \<noteq> None"
    by (simp_all add: ledger_def sample_ctx_def sample_daemon_job) (simp add: sample_daemon_def)
  then have "is_terminal (dm_jobs sample_daemon) (wc_job sample_ctx) = None"
    by (auto simp: is_terminal_None ledger_def)
  from stop_cancels [OF this st(2) rec, of id 6 "''peer''"] obtain d r where
    d: "stop sample_add id 5 6 None (wc_job sample_ctx) ''peer'' sample_daemon = (d, Ok r)"
    "ledger sample_ctx d = Some Cancelled" by blast
  have run: "life_run sample_add id False sample_ctx (PPublish, sample_daemon) (PPublish, d)"
    by (rule life_run.more [OF life_run.here life_sys.stopped [OF d(1)]]) simp
  obtain f where p: "waiter_step sample_add id 7 8 (EventId []) sample_ctx PPublish d = (PCheck, f)"
    by (simp add: Let_def)
  have "life_run sample_add id False sample_ctx (PPublish, d) (PCheck, f)"
    by (rule life_run_waiter [OF life_run.here p])
  with terminal_state_final_without_race [OF sample_daemon_start run this d(2)] d(2) run
  show ?thesis by auto
qed

text \<open>
  C8. With a stop in that window the guarantee the runtime documents fails: \<open>stop\<close> succeeds, the
  client sees the job cancelled, and then the waiter's \<open>finish\<close> overwrites the state; the job
  ends as exited or failed, committed and visible as such. Every job that ends by itself has
  such a run, as long as the time crate can add up from the job's start to the time of the stop.
\<close>

theorem stop_overwritten_by_waiter:
  assumes "life_start c d" and "wc_outcome c = OExited code sig"
    and "map_of (dm_jobs d) (wc_job c) = Some rec"
    and "add_total_until add (jr_started_at rec) (max n1 (jr_started_at rec))"
  shows "\<exists>d1 d2 r d3 rec1 rec2. life_run add dbg True c (PPublish, d) (PFinish, d1) \<and>
     stop add dbg n1 n2 None (wc_job c) peer d1 = (d2, Ok r) \<and>
     life_run add dbg True c (PFinish, d1) (PFinish, d2) \<and>
     job_record_view d2 (wc_job c) = Some rec1 \<and> jr_state rec1 = Cancelled \<and>
     life_run add dbg True c (PFinish, d2) (PDone, d3) \<and>
     job_record_view d3 (wc_job c) = Some rec2 \<and>
     jr_state rec2 = (if code = Some 0 \<and> sig = None then Exited else Failed)"
proof -
  obtain d1 where run1: "life_run add dbg True c (PPublish, d) (PFinish, d1)" and
      live1: "dm_live d1 (wc_job c) \<noteq> None" and led1: "ledger c d1 = Some Running" and jobs: "dm_jobs d1 = dm_jobs d"
    using waiter_reaches_finish [OF assms(1), of add dbg True] by blast
  have live: "is_terminal (dm_jobs d1) (wc_job c) = None" using led1 by (simp add: is_terminal_None flip: ledger_def)
  obtain d2 r rec' where st: "stop add dbg n1 n2 None (wc_job c) peer d1 = (d2, Ok r)"
    and led2: "ledger c d2 = Some Cancelled"
    and rec': "map_of (dm_jobs d2) (wc_job c) = Some rec'" "jr_started_at rec' = jr_started_at rec"
    using stop_cancels [OF live live1 assms(3) [folded jobs] assms(4)] by blast
  have run2: "life_run add dbg True c (PFinish, d1) (PFinish, d2)"
    by (rule life_run.more [OF life_run.here life_sys.stopped [OF st]]) simp
  obtain rec1 where v1: "job_record_view d2 (wc_job c) = Some rec1" "jr_state rec1 = Cancelled"
    using view_cancelled [OF led2] by blast
  have "life_inv c (PFinish, d2)" using life_run_inv [OF run2 life_run_inv [OF run1 life_start_inv [OF assms(1)]]] .
  then obtain d3 where run3: "life_run add dbg True c (PFinish, d2) (PDone, d3)"
    and com: "\<exists>b. dm_live d3 (wc_job c) = Some b \<and> jb_completion_committed b"
    and led3: "ledger c d3 = Some (if code = Some 0 \<and> sig = None then Exited else Failed)"
    using waiter_finishes [OF _ assms(2) rec'(1), of add n1 dbg True] assms(4) unfolding rec'(2) by blast
  obtain rec2 where "job_record_view d3 (wc_job c) = Some rec2"
    "jr_state rec2 = (if code = Some 0 \<and> sig = None then Exited else Failed)"
    using view_committed [OF led3 com] by blast
  with run1 st run2 v1 run3 show ?thesis by blast
qed

theorem stop_overwritten_by_waiter_witness:
  "\<exists>d2 d3 rec1 rec2. life_run sample_add id True sample_ctx (PFinish, d2) (PDone, d3) \<and>
     job_record_view d2 (JobId ''j'') = Some rec1 \<and> jr_state rec1 = Cancelled \<and>
     job_record_view d3 (JobId ''j'') = Some rec2 \<and> jr_state rec2 = Exited"
proof -
  have oc: "wc_outcome sample_ctx = OExited (Some 0) None" "wc_job sample_ctx = JobId ''j''"
    by (simp_all add: sample_ctx_def)
  obtain rec where rec: "map_of (dm_jobs sample_daemon) (wc_job sample_ctx) = Some rec"
    "add_total_until sample_add (jr_started_at rec) (max 5 (jr_started_at rec))" by (rule sample_daemon_rec)
  from stop_overwritten_by_waiter [OF sample_daemon_start oc(1) rec, of id 6 "''peer''"]
  show ?thesis unfolding oc(2) by auto
qed

text \<open>
  C31. A natural completion is shown only when it is complete: whenever the status view says
  exited or failed, the waiter has finished, so the job's fingerprint no longer blocks an
  identical start, and its receipt is in the store unless the store refused it.
\<close>

theorem completion_visible_when_committed:
  assumes "life_start c d0" and "life_run add dbg race c (PPublish, d0) (pc, d)"
    and "job_record_view d (wc_job c) = Some rec" and "jr_state rec \<in> {Exited, Failed}"
  shows "pc = PDone \<and> dm_dedup d (wc_dedup_k c) = None \<and>
    (wc_store_ok c \<longrightarrow> (\<exists>row \<in> set (dm_receipts d). rw_job_id row = wc_job c))"
proof -
  have inv: "life_inv c (pc, d)" using life_run_inv [OF assms(2) life_start_inv [OF assms(1)]] .
  then obtain b where b: "dm_live d (wc_job c) = Some b" "jb_completion_committed b \<longrightarrow> pc = PDone"
    by (auto simp: life_inv_def)
  have "pc = PDone"
    using assms(3,4) b by (auto simp: job_record_view_def split: option.splits if_splits)
  with inv show ?thesis by (simp add: life_inv_def)
qed

theorem completion_visible_when_committed_witness:
  "\<exists>d. life_run sample_add id True sample_ctx (PPublish, sample_daemon) (PDone, d) \<and>
     dm_dedup sample_daemon 7 = Some (JobId ''j'') \<and> dm_dedup d 7 = None"
proof -
  have oc: "wc_outcome sample_ctx = OExited (Some 0) None" "wc_job sample_ctx = JobId ''j''"
    "wc_dedup_k sample_ctx = 7" by (simp_all add: sample_ctx_def)
  obtain rec where rec: "map_of (dm_jobs sample_daemon) (wc_job sample_ctx) = Some rec"
    "add_total_until sample_add (jr_started_at rec) (max 5 (jr_started_at rec))" by (rule sample_daemon_rec)
  obtain d1 where run1: "life_run sample_add id True sample_ctx (PPublish, sample_daemon) (PFinish, d1)"
    and jobs: "dm_jobs d1 = dm_jobs sample_daemon"
    using waiter_reaches_finish [OF sample_daemon_start] by blast
  from life_run_inv [OF run1 life_start_inv [OF sample_daemon_start]]
  obtain d where run2: "life_run sample_add id True sample_ctx (PFinish, d1) (PDone, d)"
    and d: "\<exists>b. dm_live d (wc_job sample_ctx) = Some b \<and> jb_completion_committed b"
    "ledger sample_ctx d = Some Exited"
    using waiter_finishes [OF _ oc(1) rec(1) [folded jobs] rec(2), of id True] by auto
  obtain rec where "job_record_view d (wc_job sample_ctx) = Some rec" "jr_state rec = Exited"
    using view_committed [OF d(2,1)] by blast
  then have "dm_dedup d (wc_dedup_k sample_ctx) = None"
    using completion_visible_when_committed [OF sample_daemon_start life_run_trans [OF run1 run2]] by simp
  moreover have "dm_dedup sample_daemon 7 = Some (JobId ''j'')" by (simp add: sample_daemon_def)
  ultimately show ?thesis using life_run_trans [OF run1 run2] unfolding oc(3) by blast
qed

end
