(* ===== verification/TC_Governor.thy ===== *)
theory TC_Governor
imports TC_Text
begin

text \<open>
  The resource governor policy (\<open>daemon/src/governor.rs\<close>): how a memory value is parsed and resolved
  against the host, how the \<open>[governor]\<close> section becomes the limits of one start, and how the report
  of the enforcer becomes the terminal status of a job. The enforcer itself (job objects, cgroups,
  resource limits) is not modelled: what it reports is an argument. The profile names of
  \<open>daemon/src/policy.rs\<close>, on which the section depends, stand at the front.
\<close>

section \<open>Profiles\<close>

datatype PolicyProfile = DeveloperLocal | RepoOnly | ReadOnlyObserver | AdminDebug | FullAccess

fun profile_str :: "PolicyProfile \<Rightarrow> string" where
  "profile_str DeveloperLocal = ''developer_local''"
| "profile_str RepoOnly = ''repo_only''"
| "profile_str ReadOnlyObserver = ''read_only_observer''"
| "profile_str AdminDebug = ''admin_debug''"
| "profile_str FullAccess = ''full_access''"

section \<open>Memory values\<close>

datatype memory_spec = Bytes nat | Percent nat | Unlimited

text \<open>\<open>str::parse\<close> for an unsigned integer type with the given largest value.\<close>

definition digits_value :: "string \<Rightarrow> nat" where
  "digits_value s = foldl (\<lambda>a c. a * 10 + (byte c - 48)) 0 s"

definition parse_uint :: "nat \<Rightarrow> string \<Rightarrow> nat option" where
  "parse_uint m s =
     (let d = (case s of [] \<Rightarrow> [] | c # t \<Rightarrow> if c = CHR ''+'' then t else s) in
      if d = [] \<or> \<not> list_all is_digit d \<or> m < digits_value d then None else Some (digits_value d))"

definition memory_units :: "(string \<times> nat) list" where
  "memory_units = [(''tib'', 40), (''gib'', 30), (''mib'', 20), (''kib'', 10)]"

text \<open>The digits and the shift of the first unit that ends the text.\<close>

fun strip_unit :: "(string \<times> nat) list \<Rightarrow> string \<Rightarrow> string \<times> nat" where
  "strip_unit [] l = (l, 0)"
| "strip_unit ((unit, shift) # us) l =
     (case strip_suffix unit l of Some d \<Rightarrow> (trim d, shift) | None \<Rightarrow> strip_unit us l)"

definition backquoted :: "string \<Rightarrow> string" where
  "backquoted s = [BTICK] @ s @ [BTICK]"

definition parse_memory :: "string \<Rightarrow> (string, memory_spec) outcome" where
  "parse_memory raw =
     (let s = trim raw in
      if eq_ignore_case s ''none'' then Ok Unlimited
      else case strip_suffix ''%'' s of
        Some pct \<Rightarrow>
          (case parse_uint 255 (trim pct) of
             Some p \<Rightarrow>
               if 1 \<le> p \<and> p \<le> 100 then Ok (Percent p)
               else Err (''memory '' @ backquoted s @ '': a percent must be a whole number from 1% to 100%'')
           | None \<Rightarrow> Err (''memory '' @ backquoted s @ '': a percent must be a whole number from 1% to 100%''))
      | None \<Rightarrow>
          let (digits, shift) = strip_unit memory_units (lower s);
              bytes = (case parse_uint u64_max digits of
                         Some n \<Rightarrow> if n * 2 ^ shift \<le> u64_max then Some (n * 2 ^ shift) else None
                       | None \<Rightarrow> None)
          in case bytes of
               None \<Rightarrow> Err (''memory '' @ backquoted s @ '' is not understood: use a size like 512MiB or 24GiB, a byte '' @
                 ''count, a percent like 40%, or none'')
             | Some b \<Rightarrow>
                 if b = 0 then Err (''memory '' @ backquoted s @ '' must be greater than zero'') else Ok (Bytes b))"

datatype JobPriority = Idle | BelowNormal | Normal

fun priority_rank :: "JobPriority \<Rightarrow> nat" where
  "priority_rank Idle = 0"
| "priority_rank BelowNormal = 1"
| "priority_rank Normal = 2"

instantiation JobPriority :: linorder
begin

definition less_eq_JobPriority :: "JobPriority \<Rightarrow> JobPriority \<Rightarrow> bool" where
  "less_eq_JobPriority a b \<longleftrightarrow> priority_rank a \<le> priority_rank b"

definition less_JobPriority :: "JobPriority \<Rightarrow> JobPriority \<Rightarrow> bool" where
  "less_JobPriority a b \<longleftrightarrow> priority_rank a < priority_rank b"

instance
proof
  fix a b :: JobPriority
  show "a \<le> b \<Longrightarrow> b \<le> a \<Longrightarrow> a = b"
    by (cases a; cases b) (simp_all add: less_eq_JobPriority_def)
qed (auto simp: less_eq_JobPriority_def less_JobPriority_def)

end

definition parse_priority :: "string \<Rightarrow> (string, JobPriority) outcome" where
  "parse_priority raw =
     (let s = trim raw in
      if s = ''idle'' then Ok Idle
      else if s = ''below_normal'' then Ok BelowNormal
      else if s = ''normal'' then Ok Normal
      else Err (''priority '' @ backquoted s @ '' is not one of idle, below_normal, normal''))"

record HostMemory =
  hm_total_bytes :: nat
  hm_commit_limit_bytes :: "nat option"

text \<open>
  A percentage of the host: the product is taken in 128 bits, the quotient saturates at 64.
\<close>

definition resolve_memory :: "memory_spec \<Rightarrow> HostMemory option \<Rightarrow> (string, nat option) outcome" where
  "resolve_memory spec host =
     (case spec of
        Unlimited \<Rightarrow> Ok None
      | Bytes b \<Rightarrow> Ok (Some b)
      | Percent p \<Rightarrow>
          (case host of
             None \<Rightarrow> Err ''a percent memory limit needs host memory, which this platform does not report''
           | Some h \<Rightarrow>
               let base = (case hm_commit_limit_bytes h of Some c \<Rightarrow> c | None \<Rightarrow> hm_total_bytes h)
               in Ok (Some (try_from_or_max u64_max (base * p div 100)))))"

section \<open>The section\<close>

definition DEFAULT_JOB_MEMORY :: string where
  "DEFAULT_JOB_MEMORY = ''60%''"

definition DEFAULT_HOST_CEILING :: string where
  "DEFAULT_HOST_CEILING = ''97%''"

definition DEFAULT_JOB_PRIORITY :: string where
  "DEFAULT_JOB_PRIORITY = ''below_normal''"

record GovernorSection =
  gs_enabled :: bool
  gs_default_job_memory :: string
  gs_default_priority :: string
  gs_llm_can_raise_limits :: "bool option"
  gs_host_ceiling :: string

definition section_warnings :: "GovernorSection \<Rightarrow> string list" where
  "section_warnings sec =
     (case parse_memory (gs_default_job_memory sec) of
        Err why \<Rightarrow> [backquoted ''governor.default_job_memory'' @ '' has no effect ('' @ why @ ''); the built-in '' @
          DEFAULT_JOB_MEMORY @ '' applies'']
      | _ \<Rightarrow> []) @
     (case parse_memory (gs_host_ceiling sec) of
        Err why \<Rightarrow> [backquoted ''governor.host_ceiling'' @ '' has no effect ('' @ why @ ''); the built-in '' @
          DEFAULT_HOST_CEILING @ '' applies'']
      | _ \<Rightarrow> []) @
     (case parse_priority (gs_default_priority sec) of
        Err why \<Rightarrow> [backquoted ''governor.default_priority'' @ '' has no effect ('' @ why @ ''); the built-in '' @
          DEFAULT_JOB_PRIORITY @ '' applies'']
      | _ \<Rightarrow> [])"

datatype GovernorMode = JobObject | Cgroup | Rlimit | GovUnavailable string

record Governor =
  gv_enabled :: bool
  gv_default_memory_bytes :: "nat option"
  gv_default_priority :: JobPriority
  gv_llm_can_raise_limits :: bool
  gv_mode_available :: GovernorMode
  gv_host_ceiling_bytes :: "nat option"
  gv_host_ceiling_mode :: "GovernorMode option"
  gv_host :: "HostMemory option"
  gv_note :: "string option"

definition RLIMIT_DEFAULT_NOTE :: string where
  "RLIMIT_DEFAULT_NOTE = ''default memory limit not applied under rlimit; pass limits.memory to opt in''"

text \<open>The resolved value and the note an unresolvable one leaves.\<close>

definition resolve_or_note :: "HostMemory option \<Rightarrow> string \<Rightarrow> string \<Rightarrow> string \<Rightarrow> nat option \<times> string list" where
  "resolve_or_note host raw builtin what =
     (let spec = (case parse_memory raw of
                    Ok s \<Rightarrow> s
                  | _ \<Rightarrow> (case parse_memory builtin of Ok s \<Rightarrow> s | _ \<Rightarrow> Unlimited))
      in case resolve_memory spec host of
           Ok v \<Rightarrow> (v, [])
         | Err why \<Rightarrow> (None, [why @ ''; '' @ what])
         | Panic \<Rightarrow> (None, []))"

definition resolve_section :: "GovernorSection \<Rightarrow> PolicyProfile \<Rightarrow> HostMemory option \<Rightarrow> GovernorMode \<Rightarrow> Governor" where
  "resolve_section sec profile host mode =
     (let (default_memory, notes1) =
            resolve_or_note host (gs_default_job_memory sec) DEFAULT_JOB_MEMORY ''jobs get no default memory limit'';
          (ceiling, notes2) =
            resolve_or_note host (gs_host_ceiling sec) DEFAULT_HOST_CEILING ''no host ceiling is installed'';
          notes = notes1 @ notes2 @ (if gs_enabled sec \<and> mode = Rlimit then [RLIMIT_DEFAULT_NOTE] else [])
      in \<lparr>gv_enabled = gs_enabled sec,
          gv_default_memory_bytes =
            (case (default_memory, ceiling) of
               (Some d, Some c) \<Rightarrow> Some (min d c)
             | _ \<Rightarrow> default_memory),
          gv_default_priority = (case parse_priority (gs_default_priority sec) of Ok p \<Rightarrow> p | _ \<Rightarrow> BelowNormal),
          gv_llm_can_raise_limits =
            (case gs_llm_can_raise_limits sec of
               Some b \<Rightarrow> b
             | None \<Rightarrow> profile = FullAccess \<or> profile = AdminDebug),
          gv_mode_available = mode,
          gv_host_ceiling_bytes = ceiling,
          gv_host_ceiling_mode = None,
          gv_host = host,
          gv_note = (if notes = [] then None else Some (join ''; '' notes))\<rparr>)"

text \<open>
  The host is asked only when the section is enabled: \<open>mode\<close> is what
  \<open>probe_governor::available_mode\<close> would say.
\<close>

definition from_section :: "GovernorSection \<Rightarrow> PolicyProfile \<Rightarrow> HostMemory option \<Rightarrow> GovernorMode \<Rightarrow> Governor" where
  "from_section sec profile host mode =
     resolve_section sec profile host (if gs_enabled sec then mode else GovUnavailable ''governor disabled'')"

text \<open>
  The boot step. \<open>install\<close> is the answer of the enforcer to the request for a ceiling and
  \<open>installed\<close> the ceiling the process already has.
\<close>

definition install_host_ceiling ::
  "(nat \<Rightarrow> string + GovernorMode) \<Rightarrow> nat option \<Rightarrow> Governor \<Rightarrow> Governor" where
  "install_host_ceiling install installed g =
     (if \<not> gv_enabled g then g
      else case gv_host_ceiling_bytes g of
        None \<Rightarrow> g
      | Some limit \<Rightarrow>
          g\<lparr>gv_host_ceiling_mode := Some
             (case install limit of
                Inr mode \<Rightarrow> mode
              | Inl why \<Rightarrow> if installed = Some limit then gv_mode_available g else GovUnavailable why)\<rparr>)"

section \<open>The limits of one start\<close>

record JobLimitsSpec =
  ls_memory :: "string option"
  ls_priority :: "JobPriority option"

record LimitsApplied =
  la_memory_bytes :: "nat option"
  la_priority :: "JobPriority option"

record JobLimits =
  jl_memory_bytes :: "nat option"
  jl_priority :: "JobPriority option"
  jl_join_host_ceiling :: bool

record ResolvedLimits =
  rl_limits :: JobLimits
  rl_applied :: "LimitsApplied option"
  rl_clamped :: "string list"
  rl_clamp_reasons :: "string list"

definition resolved_default :: ResolvedLimits where
  "resolved_default =
     \<lparr>rl_limits = \<lparr>jl_memory_bytes = None, jl_priority = None, jl_join_host_ceiling = False\<rparr>,
      rl_applied = None, rl_clamped = [], rl_clamp_reasons = []\<rparr>"

definition default_memory_applies :: "Governor \<Rightarrow> bool" where
  "default_memory_applies g \<longleftrightarrow> gv_mode_available g \<noteq> Rlimit"

text \<open>
  The memory axis: the limit, and why a requested value was cut.
\<close>

definition resolve_memory_axis :: "Governor \<Rightarrow> string option \<Rightarrow> (string, nat option \<times> string list) outcome" where
  "resolve_memory_axis g request =
     (case request of
        None \<Rightarrow> Ok (if default_memory_applies g then gv_default_memory_bytes g else None, [])
      | Some raw \<Rightarrow>
          and_then (parse_memory raw) (\<lambda>spec.
          and_then (resolve_memory spec (gv_host g)) (\<lambda>asked.
            let above =
              (case (asked, gv_default_memory_bytes g) of
                 (_, None) \<Rightarrow> False
               | (None, Some _) \<Rightarrow> True
               | (Some a, Some d) \<Rightarrow> d < a)
            in if above \<and> \<not> gv_llm_can_raise_limits g then
                 Ok (gv_default_memory_bytes g,
                   [''memory '' @ backquoted raw @ '' is above the [governor] default and '' @
                    ''llm_can_raise_limits is false''])
               else case (asked, gv_host_ceiling_bytes g) of
                 (Some a, Some c) \<Rightarrow>
                   if c < a then
                     Ok (Some c, [''memory '' @ backquoted raw @ '' is above the host ceiling of '' @ show_nat c @ '' bytes''])
                   else Ok (asked, [])
               | _ \<Rightarrow> Ok (asked, []))))"

definition resolve_priority_axis :: "Governor \<Rightarrow> JobPriority option \<Rightarrow> JobPriority \<times> string list" where
  "resolve_priority_axis g request =
     (case request of
        None \<Rightarrow> (gv_default_priority g, [])
      | Some asked \<Rightarrow>
          if gv_default_priority g < asked \<and> \<not> gv_llm_can_raise_limits g
          then (gv_default_priority g, [''priority is above the [governor] default and llm_can_raise_limits is false''])
          else (asked, []))"

definition resolve :: "Governor \<Rightarrow> JobLimitsSpec option \<Rightarrow> (string, ResolvedLimits) outcome" where
  "resolve g request =
     (if \<not> gv_enabled g then Ok resolved_default
      else
        and_then (resolve_memory_axis g (Option.bind request ls_memory)) (\<lambda>(memory, why_memory).
        let (priority, why_priority) = resolve_priority_axis g (Option.bind request ls_priority) in
        Ok \<lparr>rl_limits = \<lparr>jl_memory_bytes = memory, jl_priority = Some priority, jl_join_host_ceiling = True\<rparr>,
            rl_applied = Some \<lparr>la_memory_bytes = memory, la_priority = Some priority\<rparr>,
            rl_clamped = (if why_memory = [] then [] else [''memory'']) @ (if why_priority = [] then [] else [''priority'']),
            rl_clamp_reasons = why_memory @ why_priority\<rparr>))"

record GovernorStatus =
  st_enabled :: bool
  st_mode_available :: GovernorMode
  st_default_job_memory_bytes :: "nat option"
  st_default_priority :: JobPriority
  st_llm_can_raise_limits :: bool
  st_host_ceiling_bytes :: "nat option"
  st_host_ceiling_mode :: "GovernorMode option"
  st_note :: "string option"

definition governor_status :: "Governor \<Rightarrow> GovernorStatus" where
  "governor_status g =
     \<lparr>st_enabled = gv_enabled g, st_mode_available = gv_mode_available g,
      st_default_job_memory_bytes = gv_default_memory_bytes g, st_default_priority = gv_default_priority g,
      st_llm_can_raise_limits = gv_llm_can_raise_limits g,
      st_host_ceiling_bytes = (if gv_host_ceiling_mode g = None then None else gv_host_ceiling_bytes g),
      st_host_ceiling_mode = gv_host_ceiling_mode g, st_note = gv_note g\<rparr>"

section \<open>What became of a job\<close>

record GovernorReport =
  gr_mode :: "GovernorMode option"
  gr_memory_limit_bytes :: "nat option"
  gr_peak_memory_bytes :: "nat option"
  gr_memory_limit_hit :: bool
  gr_host_ceiling_joined :: bool
  gr_host_ceiling_hit :: bool

definition EXIT_REASON_MEMORY_CEILING :: string where
  "EXIT_REASON_MEMORY_CEILING = ''memory_ceiling''"

definition EXIT_REASON_HOST_CEILING :: string where
  "EXIT_REASON_HOST_CEILING = ''host_ceiling''"

definition HOST_CEILING_JOIN_FAILED :: string where
  "HOST_CEILING_JOIN_FAILED =
     ''host_ceiling_join_failed: the job did not join the daemon-wide host ceiling; only its own limit bounds it''"

record GovernorOutcome =
  go_governor :: "GovernorMode option"
  go_peak_memory_bytes :: "nat option"
  go_exit_reason :: "string option"
  go_memory_limit_bytes :: "nat option"
  go_limits_applied :: "LimitsApplied option"
  go_host_ceiling_joined :: "bool option"

definition outcome_default :: GovernorOutcome where
  "outcome_default =
     \<lparr>go_governor = None, go_peak_memory_bytes = None, go_exit_reason = None, go_memory_limit_bytes = None,
      go_limits_applied = None, go_host_ceiling_joined = None\<rparr>"

definition map_report :: "GovernorReport \<Rightarrow> bool \<Rightarrow> GovernorOutcome" where
  "map_report r ceiling_installed =
     (case gr_mode r of
        None \<Rightarrow> outcome_default
      | Some mode \<Rightarrow>
          \<lparr>go_governor = Some mode, go_peak_memory_bytes = gr_peak_memory_bytes r,
           go_exit_reason =
             (if gr_memory_limit_hit r then Some EXIT_REASON_MEMORY_CEILING
              else if gr_host_ceiling_hit r then Some EXIT_REASON_HOST_CEILING else None),
           go_memory_limit_bytes = gr_memory_limit_bytes r, go_limits_applied = None,
           go_host_ceiling_joined = (if ceiling_installed \<and> \<not> gr_host_ceiling_joined r then Some False else None)\<rparr>)"

definition at_spawn :: "GovernorReport \<Rightarrow> LimitsApplied option \<Rightarrow> bool \<Rightarrow> GovernorOutcome" where
  "at_spawn r limits ceiling_installed =
     (let base = map_report r ceiling_installed in
      base\<lparr>go_peak_memory_bytes := None, go_exit_reason := None,
           go_limits_applied := (if go_governor base = None then None else limits)\<rparr>)"

definition finish_outcome :: "GovernorOutcome \<Rightarrow> GovernorReport \<Rightarrow> bool \<Rightarrow> GovernorOutcome" where
  "finish_outcome self r ceiling_installed =
     (map_report r ceiling_installed)\<lparr>go_limits_applied := go_limits_applied self\<rparr>"

definition unavailable_reason :: "GovernorOutcome \<Rightarrow> string option" where
  "unavailable_reason self =
     (case go_governor self of
        Some (GovUnavailable why) \<Rightarrow> Some (''the job runs ungoverned: '' @ why)
      | _ \<Rightarrow> if go_host_ceiling_joined self = Some False then Some HOST_CEILING_JOIN_FAILED else None)"

definition hit_ceiling :: "GovernorOutcome \<Rightarrow> bool" where
  "hit_ceiling self \<longleftrightarrow> go_exit_reason self \<noteq> None"

definition json_u64 :: "nat option \<Rightarrow> string" where
  "json_u64 v = (case v of None \<Rightarrow> ''null'' | Some n \<Rightarrow> show_nat n)"

text \<open>The audit row: action, subject, decision, reason and metadata; \<open>host_ceiling\<close> is the installed ceiling.\<close>

record ceiling_row =
  cr_action :: string
  cr_subject :: string
  cr_decision :: string
  cr_reason :: string
  cr_metadata_json :: string

definition ceiling_audit :: "GovernorOutcome \<Rightarrow> nat option \<Rightarrow> string \<Rightarrow> ceiling_row option" where
  "ceiling_audit self host_ceiling job =
     (case go_exit_reason self of
        None \<Rightarrow> None
      | Some r \<Rightarrow>
          let (action, reason, limit) =
            (if r = EXIT_REASON_HOST_CEILING
             then (''governor_host_ceiling'', ''the job was stopped by the daemon-wide host ceiling'', host_ceiling)
             else (''governor_memory_ceiling'', ''the job was stopped by its memory ceiling'', go_memory_limit_bytes self))
          in Some \<lparr>cr_action = action, cr_subject = job, cr_decision = ''info'', cr_reason = reason,
               cr_metadata_json = ''{'' @ [DQ] @ ''memory_limit_bytes'' @ [DQ] @ '':'' @ json_u64 limit @ '','' @ [DQ] @
                 ''peak_memory_bytes'' @ [DQ] @ '':'' @ json_u64 (go_peak_memory_bytes self) @ ''}''\<rparr>)"

section \<open>Properties\<close>

text \<open>A memory value that the parser can produce.\<close>

fun spec_ok :: "memory_spec \<Rightarrow> bool" where
  "spec_ok (Bytes b) \<longleftrightarrow> 0 < b \<and> b \<le> u64_max"
| "spec_ok (Percent p) \<longleftrightarrow> 1 \<le> p \<and> p \<le> 100"
| "spec_ok Unlimited \<longleftrightarrow> True"

lemma parse_memory_ok: "parse_memory raw = Ok spec \<Longrightarrow> spec_ok spec"
  by (auto simp: parse_memory_def Let_def split: if_splits option.splits prod.splits)

lemma resolve_memory_u64:
  "spec_ok spec \<Longrightarrow> resolve_memory spec host = Ok (Some m) \<Longrightarrow> m \<le> u64_max"
  by (cases spec) (auto simp: resolve_memory_def Let_def split: option.splits)

lemma resolve_or_note_u64: "fst (resolve_or_note host raw builtin what) = Some m \<Longrightarrow> m \<le> u64_max"
proof -
  assume "fst (resolve_or_note host raw builtin what) = Some m"
  moreover define spec where "spec = (case parse_memory raw of Ok s \<Rightarrow> s
      | _ \<Rightarrow> (case parse_memory builtin of Ok s \<Rightarrow> s | _ \<Rightarrow> Unlimited))"
  ultimately have "resolve_memory spec host = Ok (Some m)"
    by (auto simp: resolve_or_note_def Let_def split: outcome.splits)
  moreover have "spec_ok spec"
    using parse_memory_ok by (auto simp: spec_def split: outcome.splits)
  ultimately show ?thesis using resolve_memory_u64 by blast
qed

lemma resolve_section_simps:
  "gv_enabled (resolve_section sec pr host mode) = gs_enabled sec"
  "gv_mode_available (resolve_section sec pr host mode) = mode"
  "gv_host (resolve_section sec pr host mode) = host"
  by (simp_all add: resolve_section_def Let_def split: prod.splits)

text \<open>What the section's resolution promises about the governor.\<close>

definition governor_ok :: "Governor \<Rightarrow> bool" where
  "governor_ok g \<longleftrightarrow>
     (\<forall>d \<in> set_option (gv_default_memory_bytes g). d \<le> u64_max \<and>
        (\<forall>c \<in> set_option (gv_host_ceiling_bytes g). d \<le> c)) \<and>
     (\<forall>c \<in> set_option (gv_host_ceiling_bytes g). c \<le> u64_max)"

lemma resolve_section_ok: "governor_ok (resolve_section sec pr host mode)"
proof -
  obtain d n1 where d: "resolve_or_note host (gs_default_job_memory sec) DEFAULT_JOB_MEMORY ''jobs get no default memory limit'' = (d, n1)"
    by fastforce
  obtain c n2 where c: "resolve_or_note host (gs_host_ceiling sec) DEFAULT_HOST_CEILING ''no host ceiling is installed'' = (c, n2)"
    by fastforce
  have "\<forall>m \<in> set_option d. m \<le> u64_max" "\<forall>m \<in> set_option c. m \<le> u64_max"
    using resolve_or_note_u64 d c by (metis fst_conv elem_set)+
  then show ?thesis
    by (auto simp: governor_ok_def resolve_section_def d c split: option.splits)
qed

text \<open>The memory axis as a function of the requested bytes.\<close>

definition cut_memory :: "Governor \<Rightarrow> nat option \<Rightarrow> nat option" where
  "cut_memory g asked =
     (case gv_default_memory_bytes g of
        Some d \<Rightarrow>
          if (case asked of None \<Rightarrow> True | Some a \<Rightarrow> d < a) \<and> \<not> gv_llm_can_raise_limits g then Some d
          else map_option (\<lambda>a. case gv_host_ceiling_bytes g of Some c \<Rightarrow> min a c | None \<Rightarrow> a) asked
      | None \<Rightarrow> map_option (\<lambda>a. case gv_host_ceiling_bytes g of Some c \<Rightarrow> min a c | None \<Rightarrow> a) asked)"

lemma memory_axis_Some:
  assumes "resolve_memory_axis g (Some raw) = Ok (memory, why)"
  shows "\<exists>spec asked. parse_memory raw = Ok spec \<and> resolve_memory spec (gv_host g) = Ok asked \<and> memory = cut_memory g asked"
proof -
  from assms obtain spec asked where p: "parse_memory raw = Ok spec" "resolve_memory spec (gv_host g) = Ok asked"
    by (auto simp: resolve_memory_axis_def and_then_Ok_iff)
  with assms have "memory = cut_memory g asked"
    by (cases asked; cases "gv_default_memory_bytes g"; cases "gv_host_ceiling_bytes g")
      (auto simp: resolve_memory_axis_def cut_memory_def Let_def min_def split: if_splits)
  with p show ?thesis by blast
qed

lemma cut_memory_bounded:
  assumes "governor_ok g" and "\<forall>a \<in> set_option asked. a \<le> u64_max"
  shows "\<forall>m \<in> set_option (cut_memory g asked). m \<le> u64_max \<and> (\<forall>c \<in> set_option (gv_host_ceiling_bytes g). m \<le> c)"
    and "\<not> gv_llm_can_raise_limits g \<Longrightarrow> gv_default_memory_bytes g = Some d \<Longrightarrow> \<exists>m \<le> d. cut_memory g asked = Some m"
proof -
  show "\<forall>m \<in> set_option (cut_memory g asked). m \<le> u64_max \<and> (\<forall>c \<in> set_option (gv_host_ceiling_bytes g). m \<le> c)"
    using assms by (cases asked; cases "gv_default_memory_bytes g"; cases "gv_host_ceiling_bytes g")
      (auto simp: cut_memory_def governor_ok_def split: if_splits)
  show "\<exists>m \<le> d. cut_memory g asked = Some m" if "\<not> gv_llm_can_raise_limits g" "gv_default_memory_bytes g = Some d"
    using that by (cases asked; cases "gv_host_ceiling_bytes g") (auto simp: cut_memory_def min.coboundedI1)
qed

lemma memory_axis_bounded:
  assumes "governor_ok g" and "resolve_memory_axis g req = Ok (memory, why)"
  shows "\<forall>m \<in> set_option memory. m \<le> u64_max \<and> (\<forall>c \<in> set_option (gv_host_ceiling_bytes g). m \<le> c)"
    and "\<not> gv_llm_can_raise_limits g \<Longrightarrow> gv_default_memory_bytes g = Some d \<Longrightarrow> default_memory_applies g \<or> req \<noteq> None \<Longrightarrow>
      \<exists>m \<le> d. memory = Some m"
proof -
  have "(\<forall>m \<in> set_option memory. m \<le> u64_max \<and> (\<forall>c \<in> set_option (gv_host_ceiling_bytes g). m \<le> c)) \<and>
    (\<not> gv_llm_can_raise_limits g \<longrightarrow> gv_default_memory_bytes g = Some d \<longrightarrow> default_memory_applies g \<or> req \<noteq> None \<longrightarrow>
      (\<exists>m \<le> d. memory = Some m))"
  proof (cases req)
    case None
    then show ?thesis using assms by (auto simp: resolve_memory_axis_def governor_ok_def split: if_splits)
  next
    case (Some raw)
    with assms(2) memory_axis_Some obtain spec asked
      where a: "parse_memory raw = Ok spec" "resolve_memory spec (gv_host g) = Ok asked" "memory = cut_memory g asked"
      by blast
    then have "\<forall>x \<in> set_option asked. x \<le> u64_max"
      using resolve_memory_u64 [OF parse_memory_ok] by auto
    from cut_memory_bounded(1) [OF assms(1) this] cut_memory_bounded(2) [OF assms(1) this, of d] a(3)
    show ?thesis by simp
  qed
  then show "\<forall>m \<in> set_option memory. m \<le> u64_max \<and> (\<forall>c \<in> set_option (gv_host_ceiling_bytes g). m \<le> c)"
    "\<not> gv_llm_can_raise_limits g \<Longrightarrow> gv_default_memory_bytes g = Some d \<Longrightarrow> default_memory_applies g \<or> req \<noteq> None \<Longrightarrow>
      \<exists>m \<le> d. memory = Some m" by simp_all
qed

text \<open>
  C28. A client cannot exceed the operator's limits: under the governor the daemon builds from any
  section, the memory of an accepted start never exceeds the host ceiling and fits 64 bits; and when
  the client may not raise limits, the priority is at most the default and, wherever a default limit
  applies or a limit is requested, there is a limit and it is at most the default, whatever was
  requested (including \<open>none\<close>).
\<close>

theorem governor_limits_bounded:
  assumes "g = from_section sec profile host mode" and "gs_enabled sec" and "resolve g req = Ok r"
  shows "(\<forall>m \<in> set_option (jl_memory_bytes (rl_limits r)).
            m \<le> u64_max \<and> (\<forall>c \<in> set_option (gv_host_ceiling_bytes g). m \<le> c)) \<and>
    (\<not> gv_llm_can_raise_limits g \<longrightarrow>
       (\<exists>p \<le> gv_default_priority g. jl_priority (rl_limits r) = Some p) \<and>
       (\<forall>d. gv_default_memory_bytes g = Some d \<and> (mode \<noteq> Rlimit \<or> Option.bind req ls_memory \<noteq> None) \<longrightarrow>
          (\<exists>m \<le> d. jl_memory_bytes (rl_limits r) = Some m)))"
proof -
  have ok: "governor_ok g" "gv_enabled g" "gv_mode_available g = mode"
    using assms(1,2) resolve_section_ok by (simp_all add: from_section_def resolve_section_simps)
  from assms(3) ok(2) obtain memory why where m: "resolve_memory_axis g (Option.bind req ls_memory) = Ok (memory, why)"
    and r: "jl_memory_bytes (rl_limits r) = memory"
      "jl_priority (rl_limits r) = Some (fst (resolve_priority_axis g (Option.bind req ls_priority)))"
    by (cases "resolve_priority_axis g (Option.bind req ls_priority)")
      (auto simp: resolve_def and_then_Ok_iff Let_def)
  have "\<not> gv_llm_can_raise_limits g \<Longrightarrow> fst (resolve_priority_axis g (Option.bind req ls_priority)) \<le> gv_default_priority g"
    by (auto simp: resolve_priority_axis_def split: option.splits)
  then show ?thesis
    using memory_axis_bounded [OF ok(1) m] ok(3) r by (auto simp: default_memory_applies_def)
qed

lemma digits_value_snoc: "digits_value (s @ [c]) = digits_value s * 10 + (byte c - 48)"
  by (simp add: digits_value_def)

lemma show_nat_digits: "show_nat n \<noteq> [] \<and> list_all is_digit (show_nat n) \<and> digits_value (show_nat n) = n"
proof (induction n rule: show_nat.induct)
  case (1 n)
  have d: "is_digit (digit_char k) \<and> byte (digit_char k) - 48 = k" if "k < 10" for k
    using that by (simp add: is_digit_def digit_char_def byte_def)
  show ?case
  proof (cases "n < 10")
    case True
    then show ?thesis using d [of n] by (simp add: show_nat.simps digits_value_def)
  next
    case False
    then show ?thesis
      using 1 [OF False] d [of "n mod 10"] by (simp add: show_nat.simps [of n] digits_value_snoc)
  qed
qed

lemma parse_uint_show: "parse_uint m (show_nat n) = (if n \<le> m then Some n else None)"
proof -
  have "\<not> is_digit (CHR ''+'')" by code_simp
  then have "show_nat n \<noteq> CHR ''+'' # t" for t using show_nat_digits [of n] by auto
  then show ?thesis
    using show_nat_digits [of n] by (cases "show_nat n") (auto simp: parse_uint_def)
qed

theorem governor_limits_bounded_witness:
  "\<exists>r. resolve (from_section \<lparr>gs_enabled = True, gs_default_job_memory = ''60%'', gs_default_priority = ''idle'',
        gs_llm_can_raise_limits = None, gs_host_ceiling = ''50%''\<rparr> DeveloperLocal
        (Some \<lparr>hm_total_bytes = 1000, hm_commit_limit_bytes = None\<rparr>) Cgroup)
      (Some \<lparr>ls_memory = Some ''none'', ls_priority = Some Normal\<rparr>) = Ok r \<and>
     (\<exists>m \<le> 500. jl_memory_bytes (rl_limits r) = Some m) \<and> (\<exists>p \<le> Idle. jl_priority (rl_limits r) = Some p)"
proof -
  let ?sec = "\<lparr>gs_enabled = True, gs_default_job_memory = ''60%'', gs_default_priority = ''idle'',
        gs_llm_can_raise_limits = None, gs_host_ceiling = ''50%''\<rparr>"
  let ?g = "from_section ?sec DeveloperLocal (Some \<lparr>hm_total_bytes = 1000, hm_commit_limit_bytes = None\<rparr>) Cgroup"
  let ?req = "Some \<lparr>ls_memory = Some ''none'', ls_priority = Some Normal\<rparr>"
  have p: "parse_memory ''60%'' = Ok (Percent 60)" "parse_memory ''50%'' = Ok (Percent 50)"
    "parse_memory ''none'' = Ok Unlimited" "parse_priority ''idle'' = Ok Idle" by code_simp+
  have g: "gv_enabled ?g" "gv_llm_can_raise_limits ?g = False" "gv_default_priority ?g = Idle"
    "gv_default_memory_bytes ?g = Some 500"
    using p by (simp_all add: from_section_def resolve_section_def resolve_or_note_def resolve_memory_def
        try_from_or_max_def u64_max_def)
  have "resolve_memory Unlimited h = Ok None" for h by (simp add: resolve_memory_def)
  with g p(3) obtain r where r: "resolve ?g ?req = Ok r"
    by (cases "resolve_priority_axis ?g (Some Normal)") (simp add: resolve_def resolve_memory_axis_def)
  then show ?thesis
    using governor_limits_bounded [OF refl _ r] g by simp
qed

definition size_suffixes :: "(string \<times> nat) list" where
  "size_suffixes = [([], 0), (''kib'', 10), (''mib'', 20), (''gib'', 30), (''tib'', 40)]"

lemma digit_facts: "is_digit c \<Longrightarrow> solid c \<and> lower_char c = c \<and> c \<notin> set ''nNbB%''"
  by (auto simp: is_digit_def solid_def lower_char_def is_upper_def byte_def)

lemma ends_with_append: "length p = length u \<Longrightarrow> ends_with p (d @ u) \<longleftrightarrow> p = u"
  by (auto simp: ends_with_def)

lemma ends_with_single: "s \<noteq> [] \<Longrightarrow> ends_with [c] s \<longleftrightarrow> last s = c"
  by (cases s rule: rev_cases) (auto simp: ends_with_def)

lemma not_ends_with_digits: "list_all is_digit d \<Longrightarrow> p \<noteq> [] \<Longrightarrow> \<not> is_digit (last p) \<Longrightarrow> \<not> ends_with p d"
  by (auto simp: ends_with_def list_all_iff) (metis in_set_dropD last_in_set)

lemma strip_unit_suffix:
  assumes "(u, shift) \<in> set size_suffixes" and "list_all is_digit d" "d \<noteq> []"
  shows "strip_unit memory_units (d @ u) = (d, shift)"
proof -
  have d: "trim d = d" using assms(2) digit_facts by (intro trim_solid) (auto simp: list_all_iff)
  have "\<not> is_digit (CHR ''b'')" by code_simp
  then have "\<not> ends_with [x, y, CHR ''b''] d" for x y using not_ends_with_digits [OF assms(2)] by simp
  with assms(1) show ?thesis
    by (auto simp: size_suffixes_def memory_units_def strip_suffix_def ends_with_append d)
qed

text \<open>A letter that lower-casing turns into an ASCII letter is one itself.\<close>

lemma lower_char_solid: "lower_char c \<in> set ''kmgtib'' \<Longrightarrow> solid c \<and> c \<noteq> CHR ''%''"
  by (auto simp: lower_char_def is_upper_def solid_def byte_def split: if_splits)

lemma suffix_solid:
  assumes "(lower unit, shift) \<in> set size_suffixes"
  shows "list_all (\<lambda>c. solid c \<and> c \<noteq> CHR ''%'') unit"
proof -
  have low: "set (lower unit) \<subseteq> set ''kmgtib''" using assms by (auto simp: size_suffixes_def)
  have "solid c \<and> c \<noteq> CHR ''%''" if "c \<in> set unit" for c
  proof (rule lower_char_solid)
    have "lower_char c \<in> set (lower unit)" using that by (simp add: lower_def)
    then show "lower_char c \<in> set ''kmgtib''" using low by blast
  qed
  then show ?thesis unfolding list_all_iff by blast
qed

text \<open>
  C34. Reading a size back: a positive number of units that fits 64 bits, written in decimal and
  followed by \<open>KiB\<close>, \<open>MiB\<close>, \<open>GiB\<close>, \<open>TiB\<close> in any mixture of letter cases, or by no unit, parses to that
  many bytes; one that does not fit is refused instead of wrapping around.
\<close>

theorem parse_memory_roundtrip:
  assumes "(lower unit, shift) \<in> set size_suffixes" and "0 < n"
  shows "parse_memory (show_nat n @ unit) =
    (if n * 2 ^ shift \<le> u64_max then Ok (Bytes (n * 2 ^ shift))
     else Err (''memory '' @ backquoted (show_nat n @ unit) @
       '' is not understood: use a size like 512MiB or 24GiB, a byte count, a percent like 40%, or none''))"
proof -
  let ?d = "show_nat n" and ?s = "show_nat n @ unit"
  note d = show_nat_digits [of n] and u = suffix_solid [OF assms(1)]
  have t: "trim ?s = ?s" using d u digit_facts by (intro trim_solid) (auto simp: list_all_iff)
  obtain c r where c: "?d = c # r" "is_digit c" using d by (cases ?d) auto
  have "lower ''none'' = ''none''" by code_simp
  with c have none: "\<not> eq_ignore_case ?s ''none''"
    using digit_facts [of c] by (simp add: eq_ignore_case_def lower_def)
  have "last ?s \<noteq> CHR ''%''"
    using u d digit_facts [of "last ?d"] last_in_set [of ?d] by (cases "unit = []") (auto simp: list_all_iff)
  then have pct: "strip_suffix ''%'' ?s = None" using d by (simp add: strip_suffix_def ends_with_single)
  have l: "lower ?d = ?d" using d digit_facts by (auto simp: lower_def list_all_iff map_idI)
  have "n * 2 ^ shift \<le> u64_max \<Longrightarrow> n \<le> u64_max" by (rule le_trans [of n "n * 2 ^ shift"]) simp_all
  then show ?thesis
    using assms(2) d
    by (auto simp: parse_memory_def t none pct l strip_unit_suffix [OF assms(1)] Let_def parse_uint_show)
qed

theorem parse_memory_roundtrip_witness:
  "parse_memory (show_nat 24 @ ''gIB'') = Ok (Bytes 25769803776)"
proof -
  have "(lower ''gIB'', 30) \<in> set size_suffixes" by code_simp
  from parse_memory_roundtrip [OF this, of 24] show ?thesis by (simp add: u64_max_def)
qed

end
