(* ===== verification/TC_Shell_Deny.thy ===== *)
theory TC_Shell_Deny
  imports TC_Text
begin

text \<open>
  The shell-interpreter deny of \<^verbatim>\<open>crates/core/src/shell_deny.rs\<close>: which program an argument
  vector really launches, past assignments, wrappers and \<open>env -S\<close> strings, and whether that
  program, or one handed a script further on, is a shell.
\<close>

section \<open>Tables\<close>

definition SHELL_INTERPRETERS_DENY :: "string list" where
  "SHELL_INTERPRETERS_DENY =
     [''sh'', ''bash'', ''rbash'', ''dash'', ''zsh'', ''fish'', ''ksh'', ''mksh'', ''lksh'', ''pdksh'', ''oksh'',
      ''loksh'', ''yash'', ''posh'', ''csh'', ''tcsh'', ''ash'', ''busybox'', ''nu'', ''elvish'', ''xonsh'', ''osh'',
      ''ysh'', ''powershell'', ''powershell.exe'', ''pwsh'', ''pwsh.exe'', ''cmd'', ''cmd.exe'']"

text \<open>A launcher with the short letters and the long names of its options that take a value.\<close>

type_synonym launcher = "string \<times> string \<times> string list"

definition SHELL_ARGV_WRAPPERS :: "launcher list" where
  "SHELL_ARGV_WRAPPERS =
     [(''command'', '''', []),
      (''exec'', ''a'', []),
      (''env'', ''uCSPa'', [''unset'', ''chdir'', ''split-string'', ''argv0'']),
      (''nohup'', '''', []),
      (''time'', ''fo'', [''format'', ''output'']),
      (''nice'', ''n'', [''adjustment'']),
      (''timeout'', ''sk'', [''signal'', ''kill-after'']),
      (''stdbuf'', ''ioe'', [''input'', ''output'', ''error'']),
      (''ionice'', ''cn'', [''class'', ''classdata'']),
      (''chrt'', '''', []),
      (''taskset'', '''', []),
      (''setsid'', '''', []),
      (''unbuffer'', '''', [])]"

definition VALUE_OPERAND_WRAPPERS :: "string list" where
  "VALUE_OPERAND_WRAPPERS = [''timeout'', ''taskset'', ''chrt'']"

definition ENV_SPLIT_STRING_DENY :: string where
  "ENV_SPLIT_STRING_DENY = ''env -S''"

definition REMOTE_CARRIERS :: "string list" where
  "REMOTE_CARRIERS = [''ssh'', ''docker'', ''podman'', ''nerdctl'', ''kubectl'']"

definition SHELL_SCRIPT_FLAGS :: "string list" where
  "SHELL_SCRIPT_FLAGS =
     [''-c'', ''-lc'', ''-ec'', ''-ic'', ''-command'', ''--command'', ''--commands'', ''/c'', ''/k'', ''/r'',
      ''/command'', ''-encodedcommand'', ''/encodedcommand'']"

definition PWSH_VALUE_FLAGS :: "string list" where
  "PWSH_VALUE_FLAGS =
     [''-executionpolicy'', ''-ex'', ''-ep'', ''-windowstyle'', ''-w'', ''-workingdirectory'', ''-wd'',
      ''-configurationname'', ''-config'', ''-configurationfile'', ''-custompipename'', ''-settingsfile'',
      ''-settings'', ''-inputformat'', ''-inp'', ''-if'', ''-outputformat'', ''-o'', ''-of'', ''-version'',
      ''-psconsolefile'']"

definition WIN_EXE_EXTS :: "string list" where
  "WIN_EXE_EXTS = [''exe'', ''com'', ''bat'', ''cmd'']"

definition denied_argv_example :: "string \<Rightarrow> string" where
  "denied_argv_example shell =
     (if shell = ENV_SPLIT_STRING_DENY then
        [CHR ''['', DQ] @ ''env'' @ [DQ, CHR '','', DQ] @ ''-S'' @ [DQ, CHR '','', DQ] @
        ''${SHELL} -c '' @ [SQ] @ ''cargo build'' @ [SQ, DQ, CHR '']'']
      else
        [CHR ''['', DQ] @ shell @ [DQ, CHR '','', DQ] @ ''-c'' @ [DQ, CHR '','', DQ] @ ''cargo build'' @
        [DQ, CHR '']''])"

section \<open>Names\<close>

definition argv_basename :: "string \<Rightarrow> string" where
  "argv_basename token = last_segment token"

definition strip_unnamed_data_stream :: "string \<Rightarrow> string" where
  "strip_unnamed_data_stream name =
     (let mark = ''::$DATA'' in
      if length mark \<le> length name \<and> eq_ignore_case (drop (length name - length mark) name) mark
      then take (length name - length mark) name else name)"

definition normalized_win_basename :: "string \<Rightarrow> string" where
  "normalized_win_basename token =
     (let base = argv_basename token;
          once = strip_unnamed_data_stream (trim_end_matches '' .'' base)
      in trim_end_matches '' .'' (strip_unnamed_data_stream (trim_end_matches '' .'' once)))"

fun strip_exts :: "string list \<Rightarrow> string \<Rightarrow> string" where
  "strip_exts [] s = s"
| "strip_exts (ext # exts) s =
     (if length ext + 1 < length s \<and> s ! (length s - length ext - 1) = CHR ''.'' \<and>
         eq_ignore_case (drop (length s - length ext) s) ext
      then take (length s - length ext - 1) s
      else strip_exts exts s)"

definition strip_win_ext :: "string \<Rightarrow> string" where
  "strip_win_ext s = strip_exts WIN_EXE_EXTS s"

definition is_powershell_short_name :: "string \<Rightarrow> bool" where
  "is_powershell_short_name base \<longleftrightarrow>
     (let stem = strip_win_ext base in
      length stem = 8 \<and> eq_ignore_case (take 7 stem) ''powers~'' \<and>
      49 \<le> byte (stem ! 7) \<and> byte (stem ! 7) \<le> 57)"

definition listed_shell :: "string \<Rightarrow> string option" where
  "listed_shell base =
     (case find (\<lambda>shell. eq_ignore_case base shell) SHELL_INTERPRETERS_DENY of
        Some shell \<Rightarrow> Some shell
      | None \<Rightarrow>
          let stem = strip_win_ext base in
          if length stem = length base then None
          else find (\<lambda>shell. eq_ignore_case stem (strip_win_ext shell)) SHELL_INTERPRETERS_DENY)"

definition shell_interpreter_denied :: "string \<Rightarrow> string option" where
  "shell_interpreter_denied argv0 =
     (let base = normalized_win_basename argv0 in
      if base = [] then None
      else case listed_shell base of
        Some shell \<Rightarrow> Some shell
      | None \<Rightarrow> if is_powershell_short_name base then Some ''powershell'' else None)"

definition is_wsl_carrier :: "string \<Rightarrow> bool" where
  "is_wsl_carrier argv0 \<longleftrightarrow>
     (let base = normalized_win_basename argv0 in
      eq_ignore_case base ''wsl'' \<or> eq_ignore_case base ''wsl.exe'')"

definition shell_wrapper :: "string \<Rightarrow> launcher option" where
  "shell_wrapper token =
     (let stem = strip_win_ext (normalized_win_basename token) in
      find (\<lambda>w. eq_ignore_case stem (fst w)) SHELL_ARGV_WRAPPERS)"

definition is_remote_carrier :: "string \<Rightarrow> bool" where
  "is_remote_carrier token \<longleftrightarrow>
     (let stem = strip_win_ext (normalized_win_basename token) in
      list_ex (\<lambda>carrier. eq_ignore_case stem carrier) REMOTE_CARRIERS)"

definition is_env_assignment :: "string \<Rightarrow> bool" where
  "is_env_assignment word \<longleftrightarrow>
     (case split_once CHR ''='' word of
        None \<Rightarrow> False
      | Some (name, _) \<Rightarrow>
          (case name of
             [] \<Rightarrow> False
           | first # rest \<Rightarrow>
               (first = CHR ''_'' \<or> is_alpha first) \<and>
               list_all (\<lambda>ch. ch = CHR ''_'' \<or> is_alnum ch) rest))"

section \<open>Options\<close>

text \<open>A short cluster: the first letter that takes a value ends it.\<close>

fun short_option :: "string \<Rightarrow> string \<Rightarrow> (string \<times> string option) option" where
  "short_option shorts [] = None"
| "short_option shorts (letter # rest) =
     (if letter \<in> set shorts then Some ([letter], if rest = [] then None else Some rest)
      else short_option shorts rest)"

text \<open>A long name: an exact one, or else the only one it is a prefix of.\<close>

definition long_option :: "string list \<Rightarrow> string \<Rightarrow> (string \<times> string option) option" where
  "long_option longs long =
     (let (name, inline) =
        (case split_once CHR ''='' long of None \<Rightarrow> (long, None) | Some (n, v) \<Rightarrow> (n, Some v));
          unique =
            (case filter (\<lambda>full. name \<noteq> [] \<and> starts_with name full) longs of
               [full] \<Rightarrow> Some full | _ \<Rightarrow> None);
          key = (case find (\<lambda>full. full = name) longs of Some full \<Rightarrow> Some full | None \<Rightarrow> unique)
      in map_option (\<lambda>full. (full, inline)) key)"

definition option_hit :: "string \<Rightarrow> string list \<Rightarrow> string \<Rightarrow> (string \<times> string option) option" where
  "option_hit shorts longs token =
     (case strip_prefix ''--'' token of
        Some long \<Rightarrow> long_option longs long
      | None \<Rightarrow>
          short_option shorts (case strip_prefix ''-'' token of None \<Rightarrow> token | Some body \<Rightarrow> body))"

text \<open>
  \<open>wrapper_option(argv, index, ..)\<close>, called with an index inside \<open>argv\<close>; the next index may lie
  past its end.
\<close>

definition wrapper_option ::
  "string list \<Rightarrow> nat \<Rightarrow> string \<Rightarrow> string list \<Rightarrow> (string \<times> string option) option \<times> nat" where
  "wrapper_option argv index shorts longs =
     (case option_hit shorts longs (argv ! index) of
        Some (key, None) \<Rightarrow>
          (Some (key, if index + 1 < length argv then Some (argv ! (index + 1)) else None), index + 2)
      | Some (key, Some v) \<Rightarrow> (Some (key, Some v), index + 1)
      | None \<Rightarrow> (None, index + 1))"

lemma wrapper_option_next: "index < snd (wrapper_option argv index shorts longs)"
  by (auto simp: wrapper_option_def split: option.splits prod.splits)

section \<open>The string of env -S\<close>

text \<open>
  One pass over the string: the open quote, the word being built, and the words so far. \<open>None\<close>
  where the split is not modelled by the source.
\<close>

definition or_default :: "string option \<Rightarrow> string" where
  "or_default w = (case w of None \<Rightarrow> [] | Some x \<Rightarrow> x)"

definition opt_list :: "'a option \<Rightarrow> 'a list" where
  "opt_list w = (case w of None \<Rightarrow> [] | Some x \<Rightarrow> [x])"

fun split_env :: "char option \<Rightarrow> string option \<Rightarrow> string list \<Rightarrow> string \<Rightarrow> string list option" where
  "split_env q w ws [] = (if q = None then Some (ws @ opt_list w) else None)"
| "split_env q w ws (ch # s) =
     (if q = Some ch then split_env None w ws s
      else if q = Some SQ then
        if ch = BSL then
          (case s of
             [] \<Rightarrow> split_env q (Some (or_default w @ [BSL])) ws []
           | next # s' \<Rightarrow>
               if next = BSL \<or> next = SQ then split_env q (Some (or_default w @ [next])) ws s'
               else split_env q (Some (or_default w @ [BSL])) ws s)
        else split_env q (Some (or_default w @ [ch])) ws s
      else if ch = CHR ''$'' then None
      else if ch = BSL then
        (case s of
           [] \<Rightarrow> None
         | next # s' \<Rightarrow>
             if next \<in> {BSL, SQ, DQ, CHR ''#'', CHR ''$''}
             then split_env q (Some (or_default w @ [next])) ws s' else None)
      else if q = None \<and> (ch = SQ \<or> ch = DQ) then split_env (Some ch) (Some (or_default w)) ws s
      else if q = None \<and> ch \<in> {CHR '' '', TAB, NL, CHR 0x0B, CHR 0x0C, CR} then
        split_env None None (ws @ opt_list w) s
      else if q = None \<and> ch = CHR ''#'' \<and> w = None then Some ws
      else split_env q (Some (or_default w @ [ch])) ws s)"

definition split_env_words :: "string \<Rightarrow> string list option" where
  "split_env_words split = split_env None None [] split"

section \<open>The launched program\<close>

datatype launched_at =
    At nat
  | SplitString "string list"
  | NothingLaunched
  | Unparseable

function launched_from ::
  "string list \<Rightarrow> launcher option \<Rightarrow> bool \<Rightarrow> nat \<Rightarrow> launched_at" where
  "launched_from argv wrapper value_operand index =
     (if length argv \<le> index then NothingLaunched
      else
        let token = argv ! index in
        if is_env_assignment token then launched_from argv wrapper value_operand (index + 1)
        else case shell_wrapper token of
          Some found \<Rightarrow>
            launched_from argv (Some found) (fst found \<in> set VALUE_OPERAND_WRAPPERS) (index + 1)
        | None \<Rightarrow>
            (case wrapper of
               None \<Rightarrow> At index
             | Some (name, shorts, longs) \<Rightarrow>
                 if starts_with ''-'' token then
                   (case wrapper_option argv index shorts longs of
                      (option, next) \<Rightarrow>
                        (case option of
                           Some (key, Some split) \<Rightarrow>
                             if key = ''S'' \<or> key = ''split-string'' then
                               (case split_env_words split of
                                  None \<Rightarrow> Unparseable
                                | Some words \<Rightarrow> SplitString (take index argv @ words @ drop next argv))
                             else launched_from argv wrapper value_operand next
                         | _ \<Rightarrow> launched_from argv wrapper value_operand next))
                 else
                   let numeric = (name \<in> set VALUE_OPERAND_WRAPPERS \<and> is_digit (hd token) \<and>
                         token \<noteq> [] \<and> CHR ''/'' \<notin> set token \<and> BSL \<notin> set token)
                   in if value_operand \<or> numeric then launched_from argv wrapper False (index + 1)
                      else At index))"
  by pat_completeness auto
termination
  using wrapper_option_next
  by (relation "measure (\<lambda>(argv, w, v, index). length argv - index)")
    (auto intro!: diff_less_mono2, (metis snd_conv)+)

declare launched_from.simps [simp del]

definition launched_program :: "string list \<Rightarrow> launched_at" where
  "launched_program argv = launched_from argv None False 0"

subsection \<open>Each expansion of a split string shortens the vector\<close>

definition argv_weight :: "string list \<Rightarrow> nat" where
  "argv_weight argv = sum_list (map (\<lambda>w. length w + 1) argv)"

lemma argv_weight_simps [simp]:
  "argv_weight [] = 0" "argv_weight (w # ws) = length w + 1 + argv_weight ws"
  "argv_weight (a @ b) = argv_weight a + argv_weight b"
  by (simp_all add: argv_weight_def)

lemma split_env_weight:
  "split_env q w ws s = Some r \<Longrightarrow> argv_weight r \<le> argv_weight ws + length (or_default w) + 1 + length s"
proof (induction q w ws s rule: split_env.induct)
  case (1 q w ws)
  then show ?case by (cases w) (auto simp: opt_list_def or_default_def split: if_splits)
next
  case (2 q w ws ch s)
  have push: "length (or_default (Some (or_default w @ [c]))) = length (or_default w) + 1" for c
    by (simp add: or_default_def)
  have flush: "argv_weight (ws @ opt_list w) + length (or_default None) \<le> argv_weight ws + length (or_default w) + 1"
    by (cases w) (simp_all add: opt_list_def or_default_def)
  consider (close) "q = Some ch" | (sq_bsl) "q \<noteq> Some ch" "q = Some SQ" "ch = BSL"
    | (sq) "q \<noteq> Some ch" "q = Some SQ" "ch \<noteq> BSL" | (bsl) "q \<noteq> Some ch" "q \<noteq> Some SQ" "ch = BSL"
    | (rest) "q \<noteq> Some ch" "q \<noteq> Some SQ" "ch \<noteq> BSL" by blast
  then show ?case
  proof cases
    case close
    with 2 show ?thesis by simp
  next
    case sq_bsl
    show ?thesis
    proof (cases s)
      case Nil
      with sq_bsl 2 show ?thesis by simp
    next
      case (Cons a t)
      with sq_bsl 2(3,4) 2(10) push show ?thesis by (auto split: if_splits)
    qed
  next
    case sq
    with 2(5) 2(10) push show ?thesis by simp
  next
    case bsl
    with 2(6) 2(10) push show ?thesis by (auto split: if_splits list.splits)
  next
    case rest
    with 2(7-9) 2(10) push flush show ?thesis by (auto simp: or_default_def split: if_splits)
  qed
qed

lemma split_env_words_weight: "split_env_words s = Some ws \<Longrightarrow> argv_weight ws \<le> length s + 1"
  using split_env_weight [of None None "[]" s ws] by (simp add: split_env_words_def or_default_def)

lemma short_option_weight: "short_option shorts s = Some (k, Some v) \<Longrightarrow> length v + 1 \<le> length s"
  by (induction s) (auto split: if_splits)

lemma long_option_weight: "long_option longs s = Some (k, Some v) \<Longrightarrow> length v + 1 \<le> length s"
  by (auto simp: long_option_def Let_def split: option.splits dest!: split_once_Some)

lemma option_hit_weight:
  "starts_with ''-'' t \<Longrightarrow> option_hit shorts longs t = Some (k, Some v) \<Longrightarrow> length v + 2 \<le> length t"
  by (auto simp: option_hit_def strip_prefix_Some strip_prefix_None starts_with_iff split: option.splits
      dest!: short_option_weight long_option_weight)

lemma weight_at: "i < length argv \<Longrightarrow> argv_weight (drop i argv) = length (argv ! i) + 1 + argv_weight (drop (Suc i) argv)"
  by (simp add: Cons_nth_drop_Suc [symmetric])

lemma weight_split: "argv_weight argv = argv_weight (take i argv) + argv_weight (drop i argv)"
  by (metis append_take_drop_id argv_weight_simps(3))

lemma wrapper_split_weight:
  assumes "i < length argv" and "starts_with ''-'' (argv ! i)"
    and "wrapper_option argv i shorts longs = (Some (k, Some v), next)" and "split_env_words v = Some ws"
  shows "argv_weight (take i argv @ ws @ drop next argv) < argv_weight argv"
proof -
  have ws: "argv_weight ws \<le> length v + 1" by (rule split_env_words_weight [OF assms(4)])
  from assms(3) have "option_hit shorts longs (argv ! i) = Some (k, Some v) \<and> next = Suc i \<or>
      Suc i < length argv \<and> v = argv ! Suc i \<and> next = Suc (Suc i)"
    unfolding wrapper_option_def
    by (simp split: option.split_asm prod.split_asm if_split_asm)
  then consider (inline) "option_hit shorts longs (argv ! i) = Some (k, Some v)" "next = Suc i"
    | (word) "Suc i < length argv" "v = argv ! Suc i" "next = Suc (Suc i)"
    by blast
  then have "argv_weight ws + argv_weight (drop next argv) < argv_weight (drop i argv)"
  proof cases
    case inline
    have "length v + 2 \<le> length (argv ! i)" by (rule option_hit_weight [OF assms(2) inline(1)])
    with ws weight_at [OF assms(1)] show ?thesis unfolding inline(2) by linarith
  next
    case word
    from ws weight_at [OF assms(1)] weight_at [OF word(1)] show ?thesis unfolding word(2,3) by linarith
  qed
  then show ?thesis using weight_split [of argv i] by simp
qed

lemma launched_from_weight:
  "launched_from argv w v i = SplitString ws \<Longrightarrow> argv_weight ws < argv_weight argv"
proof (induction "length argv - i" arbitrary: w v i rule: less_induct)
  case less
  note eq = less.prems [unfolded launched_from.simps [of argv w v i] Let_def]
  have i: "i < length argv" using eq by (auto split: if_splits)
  have IH: "argv_weight ws < argv_weight argv" if "launched_from argv w' v' j = SplitString ws" "i < j" for w' v' j
    using less.hyps [OF _ that(1)] that(2) i by linarith
  have next_gt: "i < j" if "wrapper_option argv i shorts longs = (o', j)" for shorts longs o' j
    using wrapper_option_next [of i argv shorts longs] that by simp
  from eq i show ?case
    by (auto split: if_splits option.splits prod.splits dest: IH next_gt wrapper_split_weight [OF i])
qed

text \<open>\<open>launched\<close>: \<open>None\<close> for a string that \<open>split_env_words\<close> refuses.\<close>

function launched :: "string list \<Rightarrow> string list option" where
  "launched argv =
     (case launched_program argv of
        At index \<Rightarrow> Some (drop index argv)
      | SplitString expanded \<Rightarrow> launched expanded
      | NothingLaunched \<Rightarrow> Some []
      | Unparseable \<Rightarrow> None)"
  by pat_completeness auto
termination
  by (relation "measure argv_weight") (auto simp: launched_program_def dest: launched_from_weight)

declare launched.simps [simp del]

definition launched_argv :: "string list \<Rightarrow> string list" where
  "launched_argv argv = (case launched argv of None \<Rightarrow> [] | Some rest \<Rightarrow> rest)"

section \<open>Script flags\<close>

definition is_listed_script_flag :: "string \<Rightarrow> bool" where
  "is_listed_script_flag token \<longleftrightarrow>
     (let name =
        (if starts_with ''--'' token
         then (case split_once CHR ''='' token of None \<Rightarrow> token | Some (name, _) \<Rightarrow> name)
         else token)
      in list_ex (\<lambda>flag. eq_ignore_case name flag) SHELL_SCRIPT_FLAGS)"

definition is_posix_command_cluster :: "string \<Rightarrow> bool" where
  "is_posix_command_cluster token \<longleftrightarrow>
     (case strip_prefix ''-'' token of
        None \<Rightarrow> False
      | Some body \<Rightarrow> body \<noteq> [] \<and> list_all is_alpha body \<and> list_ex (\<lambda>b. lower_char b = CHR ''c'') body)"

definition is_script_flag :: "string \<Rightarrow> bool" where
  "is_script_flag token \<longleftrightarrow> is_listed_script_flag token \<or> is_posix_command_cluster token"

definition pwsh_name :: "string \<Rightarrow> string option" where
  "pwsh_name arg =
     (case strip_prefix ''--'' arg of
        Some name \<Rightarrow> Some name
      | None \<Rightarrow>
          (case arg of
             [] \<Rightarrow> None
           | c # name \<Rightarrow> if c = CHR ''-'' \<or> c = CHR ''/'' then Some name else None))"

text \<open>\<open>full.get(..name.len())\<close> compared with the name.\<close>

definition prefix_ignore_case :: "string \<Rightarrow> string \<Rightarrow> bool" where
  "prefix_ignore_case name full \<longleftrightarrow> length name \<le> length full \<and> eq_ignore_case (take (length name) full) name"

definition is_pwsh_command_flag :: "string \<Rightarrow> bool" where
  "is_pwsh_command_flag arg \<longleftrightarrow>
     (case pwsh_name arg of
        None \<Rightarrow> False
      | Some name \<Rightarrow>
          eq_ignore_case name ''cwa'' \<or>
          name \<noteq> [] \<and> list_ex (prefix_ignore_case name) [''command'', ''encodedcommand'', ''commandwithargs''])"

definition pwsh_option_takes_value :: "string \<Rightarrow> bool" where
  "pwsh_option_takes_value arg \<longleftrightarrow>
     (case pwsh_name arg of
        None \<Rightarrow> False
      | Some name \<Rightarrow>
          name \<noteq> [] \<and>
          (let names = map (trim_start_matches ''-'') PWSH_VALUE_FLAGS in
           list_ex (\<lambda>full. eq_ignore_case full name) names \<or>
           length (filter (prefix_ignore_case name) names) = 1))"

definition posix_option_value_words :: "string \<Rightarrow> nat" where
  "posix_option_value_words token =
     (case strip_prefix ''--'' token of
        Some long \<Rightarrow> if long = ''rcfile'' \<or> long = ''init-file'' then 1 else 0
      | None \<Rightarrow>
          (case token of
             [] \<Rightarrow> 0
           | c # body \<Rightarrow>
               if c = CHR ''-'' \<or> c = CHR ''+''
               then length (filter (\<lambda>b. b = CHR ''o'' \<or> b = CHR ''O'') body) else 0))"

definition is_extra_shell_command_flag :: "string \<Rightarrow> string \<Rightarrow> bool" where
  "is_extra_shell_command_flag stem arg \<longleftrightarrow>
     (let long =
        map_option (\<lambda>rest. case split_once CHR ''='' rest of None \<Rightarrow> rest | Some (name, _) \<Rightarrow> name)
          (strip_prefix ''--'' arg);
          is_long = (\<lambda>n. case long of None \<Rightarrow> False | Some name \<Rightarrow> eq_ignore_case name n)
      in if stem = ''fish'' then eq_ignore_case arg ''-C'' \<or> is_long ''init-command''
         else if stem = ''nu'' then eq_ignore_case arg ''-e'' \<or> is_long ''execute''
         else False)"

definition is_interpreter_option :: "string \<Rightarrow> bool" where
  "is_interpreter_option arg \<longleftrightarrow>
     (case arg of
        [] \<Rightarrow> False
      | c # rest \<Rightarrow>
          if c = CHR ''-'' \<or> c = CHR ''+'' then rest \<noteq> []
          else if c = CHR ''/'' then
            1 \<le> length rest \<and> length rest \<le> 5 \<and> CHR ''/'' \<notin> set rest \<and> BSL \<notin> set rest
          else False)"

fun cmd_switches :: "string list \<Rightarrow> bool" where
  "cmd_switches [] \<longleftrightarrow> False"
| "cmd_switches (switch # more) \<longleftrightarrow>
     (case switch of
        [] \<Rightarrow> False
      | c # tail \<Rightarrow>
          (let letter = lower_char c in
           if letter \<in> set ''ckr'' then tail \<noteq> [] \<or> more = []
           else if letter \<notin> set ''adefqstuv'' \<or> \<not> (tail = [] \<or> starts_with '':'' tail) then False
           else cmd_switches more))"

definition is_cmd_script_switch :: "string \<Rightarrow> bool" where
  "is_cmd_script_switch arg \<longleftrightarrow>
     (case strip_prefix ''/'' arg of None \<Rightarrow> False | Some body \<Rightarrow> cmd_switches (split_on CHR ''/'' body))"

definition is_interpreter_script_flag :: "string \<Rightarrow> string \<Rightarrow> bool" where
  "is_interpreter_script_flag stem arg \<longleftrightarrow>
     (if stem = ''powershell'' \<or> stem = ''pwsh'' then is_listed_script_flag arg \<or> is_pwsh_command_flag arg
      else if stem = ''cmd'' then is_script_flag arg \<or> is_cmd_script_switch arg
      else is_script_flag arg \<or> is_extra_shell_command_flag stem arg)"

function script_flag_from :: "string \<Rightarrow> string list \<Rightarrow> nat \<Rightarrow> nat option" where
  "script_flag_from stem args index =
     (if length args \<le> index then None
      else
        let arg = args ! index in
        if is_interpreter_script_flag stem arg then Some index
        else if \<not> is_interpreter_option arg then None
        else script_flag_from stem args
          (index + 1 + (if stem = ''powershell'' \<or> stem = ''pwsh''
             then (if pwsh_option_takes_value arg then 1 else 0)
             else posix_option_value_words arg)))"
  by pat_completeness auto
termination
  by (relation "measure (\<lambda>(stem, args, index). length args - index)") auto

declare script_flag_from.simps [simp del]

definition interpreter_script_flag :: "string \<Rightarrow> string list \<Rightarrow> nat option" where
  "interpreter_script_flag shell args = script_flag_from (strip_win_ext shell) args 0"

section \<open>The deny\<close>

fun interpreter_with_script :: "string list \<Rightarrow> string option" where
  "interpreter_with_script [] = None"
| "interpreter_with_script (arg # rest) =
     (case shell_interpreter_denied arg of
        Some shell \<Rightarrow>
          if interpreter_script_flag shell rest \<noteq> None then Some shell else interpreter_with_script rest
      | None \<Rightarrow> interpreter_with_script rest)"

definition shell_argv_denied :: "string list \<Rightarrow> string option" where
  "shell_argv_denied argv =
     (case launched argv of
        None \<Rightarrow> Some ENV_SPLIT_STRING_DENY
      | Some [] \<Rightarrow> None
      | Some (head # rest) \<Rightarrow>
          (case shell_interpreter_denied head of
             Some shell \<Rightarrow> Some shell
           | None \<Rightarrow>
               if is_remote_carrier head then None else interpreter_with_script (head # rest)))"

section \<open>Properties\<close>

text \<open>The launched program is neither an assignment nor a wrapper.\<close>

lemma launched_from_At:
  "launched_from argv w v i = At j \<Longrightarrow>
   j < length argv \<and> \<not> is_env_assignment (argv ! j) \<and> shell_wrapper (argv ! j) = None"
proof (induction "length argv - i" arbitrary: w v i rule: less_induct)
  case less
  note eq = less.prems [unfolded launched_from.simps [of argv w v i] Let_def]
  have i: "i < length argv" using eq by (auto split: if_splits)
  have IH: "j < length argv \<and> \<not> is_env_assignment (argv ! j) \<and> shell_wrapper (argv ! j) = None"
    if "launched_from argv w' v' k = At j" "i < k" for w' v' k
    using less.hyps [OF _ that(1)] that(2) i by linarith
  have next_gt: "i < j" if "wrapper_option argv i shorts longs = (o', j)" for shorts longs o' j
    using wrapper_option_next [of i argv shorts longs] that by simp
  from eq i show ?case
    by (auto split: if_splits option.splits prod.splits dest: IH next_gt)
qed

lemma launched_head:
  "\<not> is_env_assignment x \<Longrightarrow> shell_wrapper x = None \<Longrightarrow> launched (x # xs) = Some (x # xs)"
  by (simp add: launched.simps launched_program_def launched_from.simps)

lemma launched_Nil [simp]: "launched [] = Some []"
  by (simp add: launched.simps launched_program_def launched_from.simps)

lemma launched_result:
  "launched argv = Some (x # xs) \<Longrightarrow> \<not> is_env_assignment x \<and> shell_wrapper x = None"
proof (induction argv rule: launched.induct)
  case (1 argv)
  show ?case
  proof (cases "launched_program argv")
    case (At j)
    with 1(2) have "drop j argv = x # xs" by (simp add: launched.simps [of argv])
    moreover have j: "j < length argv" "\<not> is_env_assignment (argv ! j)" "shell_wrapper (argv ! j) = None"
      using launched_from_At At by (auto simp: launched_program_def)
    ultimately have "x = argv ! j" by (metis hd_drop_conv_nth list.sel(1))
    with j show ?thesis by simp
  qed (use 1 in \<open>auto simp: launched.simps [of argv]\<close>)
qed

definition plain_prefix :: "string \<Rightarrow> bool" where
  "plain_prefix w \<longleftrightarrow> is_env_assignment w \<or>
     (case shell_wrapper w of None \<Rightarrow> False | Some f \<Rightarrow> fst f \<notin> set VALUE_OPERAND_WRAPPERS)"

lemma launched_from_plain:
  assumes "\<forall>k. i \<le> k \<and> k < j \<longrightarrow> plain_prefix (argv ! k)" and "i \<le> j" and "j < length argv"
    and stop: "\<not> is_env_assignment (argv ! j)" "shell_wrapper (argv ! j) = None" "\<not> starts_with ''-'' (argv ! j)"
    and "case w of None \<Rightarrow> True | Some f \<Rightarrow> fst f \<notin> set VALUE_OPERAND_WRAPPERS"
  shows "launched_from argv w False i = At j"
  using assms
proof (induction "j - i" arbitrary: i w)
  case 0
  then show ?case by (subst launched_from.simps) (auto simp: Let_def split: option.splits)
next
  case (Suc n)
  have i: "i < length argv" "plain_prefix (argv ! i)" using Suc.hyps(2) Suc.prems by auto
  have IH: "launched_from argv w' False (i + 1) = At j"
    if "case w' of None \<Rightarrow> True | Some f \<Rightarrow> fst f \<notin> set VALUE_OPERAND_WRAPPERS" for w'
    by (rule Suc.hyps(1)) (use Suc.hyps(2) Suc.prems that in auto)
  show ?case
  proof (cases "is_env_assignment (argv ! i)")
    case True
    with i IH [OF Suc.prems(7)] show ?thesis by (subst launched_from.simps) (simp add: Let_def)
  next
    case False
    with i(2) obtain f where f: "shell_wrapper (argv ! i) = Some f" "fst f \<notin> set VALUE_OPERAND_WRAPPERS"
      by (auto simp: plain_prefix_def split: option.splits)
    with False i IH [of "Some f"] show ?thesis by (subst launched_from.simps) (simp add: Let_def)
  qed
qed

lemma launched_plain:
  assumes "list_all plain_prefix ws" and "\<not> is_env_assignment x" "shell_wrapper x = None" "\<not> starts_with ''-'' x"
  shows "launched (ws @ x # xs) = Some (x # xs)"
proof -
  have "launched_from (ws @ x # xs) None False 0 = At (length ws)"
    by (rule launched_from_plain) (use assms in \<open>auto simp: nth_append list_all_length\<close>)
  then show ?thesis by (simp add: launched.simps launched_program_def)
qed

text \<open>
  Peeling launchers is complete: what \<open>launched\<close> returns starts with neither an assignment nor
  a wrapper, and peeling it again changes nothing.
\<close>

lemma launched_idempotent:
  assumes "launched argv = Some rest"
  shows "launched rest = Some rest \<and>
    (rest \<noteq> [] \<longrightarrow> \<not> is_env_assignment (hd rest) \<and> shell_wrapper (hd rest) = None)"
  using assms launched_result [of argv] launched_head by (cases rest) auto

text \<open>
  Launchers do not hide a shell: an interpreter behind any run of environment assignments
  and wrappers that take the program as their first operand is denied under its own name.
\<close>

lemma wrappers_do_not_hide_shell:
  assumes "list_all plain_prefix ws" and "shell_interpreter_denied sh = Some s"
    and "\<not> is_env_assignment sh" and "shell_wrapper sh = None" and "\<not> starts_with ''-'' sh"
  shows "shell_argv_denied (ws @ sh # rest) = Some s"
  using launched_plain [OF assms(1,3-5)] assms(2) by (simp add: shell_argv_denied_def)

end
