(* ===== verification/TC_Os_Guard.thy ===== *)
theory TC_Os_Guard
  imports TC_Shell_Deny
begin

text \<open>
  The failsafe of \<^verbatim>\<open>crates/core/src/os_guard.rs\<close>: no destructive command on an OS-critical path,
  in any profile. An argument vector is unwrapped down to the command it runs, a shell line is
  split with the grammar of its shell, substitutions and interpreter payloads are read as
  lines of their own, and each path operand is resolved and compared with the protected trees.

  The build modelled is the one for a POSIX host (\<open>cfg(not(windows))\<close>). \<open>sd\<close> is the value of the
  environment variable \<open>SystemDrive\<close>, if it is set.
\<close>

type_synonym 'a run = "(unit, 'a) outcome"

record os_guard_hit =
  og_op :: string
  og_path :: string

definition FAILSAFE_REASON_TAG :: string where
  "FAILSAFE_REASON_TAG = ''TC'' @ [SQ] @ ''s one failsafe''"

definition hit_reason :: "os_guard_hit \<Rightarrow> string" where
  "hit_reason h =
     ''refused: '' @ og_op h @ '' would delete OS-critical infrastructure ('' @ og_path h @ ''); this is '' @
     FAILSAFE_REASON_TAG @ '' and applies in every profile''"

section \<open>Tables\<close>

definition ESCALATORS :: "launcher list" where
  "ESCALATORS =
     [(''sudo'', ''aCcDgpRrTtUu'',
        [''chdir'', ''chroot'', ''close-from'', ''command-timeout'', ''group'', ''host'', ''other-user'', ''prompt'',
         ''role'', ''type'', ''user'']),
      (''doas'', ''Cu'', []),
      (''su'', ''cgGsw'',
        [''command'', ''group'', ''session-command'', ''shell'', ''supp-group'', ''whitelist-environment'']),
      (''pkexec'', '''', [''user'']),
      (''run0'', ''Dgu'',
        [''background'', ''chdir'', ''description'', ''group'', ''machine'', ''nice'', ''property'', ''setenv'', ''slice'',
         ''unit'', ''user'']),
      (''chroot'', '''', [''groups'', ''userspec''])]"

definition DELETE_COMMANDS :: "string list" where
  "DELETE_COMMANDS =
     [''rm'', ''rmdir'', ''unlink'', ''shred'', ''srm'', ''del'', ''erase'', ''rd'', ''remove-item'', ''ri'']"

definition WIPE_COMMANDS :: "string list" where
  "WIPE_COMMANDS = [''wipefs'']"

definition POSIX_RESERVED :: "string list" where
  "POSIX_RESERVED = [''!'', ''{'', ''}'', ''if'', ''then'', ''elif'', ''else'', ''do'', ''while'', ''until'']"

definition WSL_VALUE_OPTS :: "string list" where
  "WSL_VALUE_OPTS =
     [''-d'', ''--distribution'', ''--distribution-id'', ''-u'', ''--user'', ''--cd'', ''--shell-type'']"

definition MAX_NESTING :: nat where
  "MAX_NESTING = 16"

definition UNIX_PROTECTED_TREES :: "string list" where
  "UNIX_PROTECTED_TREES =
     [''/boot'', ''/bin'', ''/sbin'', ''/lib'', ''/lib32'', ''/lib64'', ''/usr/bin'', ''/usr/sbin'', ''/usr/lib'',
      ''/usr/lib32'', ''/usr/lib64'', ''/usr/libexec'', ''/usr/share'', ''/sys'', ''/proc'', ''/etc/systemd'',
      ''/etc/pam.d'', ''/etc/ssh'', ''/etc/sudoers.d'', ''/etc/ld.so.conf.d'', ''/var/lib/dpkg'', ''/var/lib/rpm'',
      ''/var/lib/pacman'', ''/var/lib/systemd'', ''/System'', ''/private/etc'']"

definition UNIX_PROTECTED_ROOTS :: "string list" where
  "UNIX_PROTECTED_ROOTS =
     [''/usr'', ''/usr/local'', ''/etc'', ''/var'', ''/var/lib'', ''/dev'', ''/opt'', ''/home'']"

definition UNIX_CRITICAL_FILES :: "string list" where
  "UNIX_CRITICAL_FILES =
     [''/etc/passwd'', ''/etc/shadow'', ''/etc/group'', ''/etc/gshadow'', ''/etc/sudoers'', ''/etc/fstab'',
      ''/etc/hosts'', ''/etc/hostname'', ''/etc/ld.so.conf'', ''/etc/ld.so.cache'']"

definition WINDOWS_PROTECTED_SUBTREES :: "string list" where
  "WINDOWS_PROTECTED_SUBTREES =
     [''/windows'', ''/boot'', ''/efi'', ''/recovery'', ''/system volume information'', ''/bootmgr'', ''/msdos.sys'',
      ''/io.sys'', ''/ntldr'', ''/pagefile.sys'', ''/hiberfil.sys'', ''/swapfile.sys'']"

definition WINDOWS_PROTECTED_ROOTS :: "string list" where
  "WINDOWS_PROTECTED_ROOTS = [''/program files'', ''/program files (x86)'', ''/users'']"

section \<open>Names\<close>

datatype destructive_kind = PathOperands | DdOutfile | FormatVolume | CipherWipe

definition classify :: "string \<Rightarrow> destructive_kind option" where
  "classify name =
     (if name \<in> set DELETE_COMMANDS \<or> name \<in> set WIPE_COMMANDS \<or> starts_with ''mkfs'' name then Some PathOperands
      else if name = ''dd'' then Some DdOutfile
      else if name = ''format'' then Some FormatVolume
      else if name = ''cipher'' then Some CipherWipe
      else None)"

datatype grammar = Posix | Pwsh | Cmd

fun strip_first_suffix :: "string list \<Rightarrow> string \<Rightarrow> string" where
  "strip_first_suffix [] s = s"
| "strip_first_suffix (e # es) s =
     (case strip_suffix e s of Some stem \<Rightarrow> stem | None \<Rightarrow> strip_first_suffix es s)"

definition command_basename :: "string \<Rightarrow> string" where
  "command_basename token =
     strip_first_suffix [''.exe'', ''.com'', ''.bat'', ''.cmd'']
       (lower (trim_end_matches ''. '' (last_segment token)))"

definition of_shell :: "string \<Rightarrow> grammar" where
  "of_shell shell =
     (let base = command_basename shell in
      if starts_with ''pwsh'' base \<or> starts_with ''powershell'' base then Pwsh
      else if base = ''cmd'' then Cmd
      else Posix)"

section \<open>Paths\<close>

definition is_unresolvable :: "string \<Rightarrow> bool" where
  "is_unresolvable word \<longleftrightarrow> (case word of [] \<Rightarrow> False | c # _ \<Rightarrow> c \<in> {CHR ''$'', CHR ''~'', CHR ''%''})"

definition has_drive :: "string \<Rightarrow> bool" where
  "has_drive path \<longleftrightarrow> 2 \<le> length path \<and> is_alpha (path ! 0) \<and> path ! 1 = CHR '':''"

definition resolve_dir :: "string \<Rightarrow> string option \<Rightarrow> string option" where
  "resolve_dir dir cwd =
     (if is_unresolvable dir then None
      else
        let plain = replace_char BSL CHR ''/'' dir in
        if starts_with ''/'' plain \<or> has_drive plain then Some dir
        else map_option (\<lambda>c. c @ ''/'' @ dir) cwd)"

definition is_disk_device :: "string \<Rightarrow> bool" where
  "is_disk_device raw \<longleftrightarrow>
     (let l = lower (replace_char BSL CHR ''/'' raw) in
      contains ''physicaldrive'' l \<or>
      (case strip_prefix ''/dev/'' l of
         None \<Rightarrow> False
       | Some dev \<Rightarrow>
           list_ex (\<lambda>p. starts_with p dev)
             [''sd'', ''nvme'', ''hd'', ''disk'', ''mmcblk'', ''vd'', ''xvd'', ''dm-'', ''mapper/'', ''md'', ''nbd'',
              ''disk/by-'']))"

text \<open>The first argument says that the output so far ends with a separator.\<close>

fun collapse_from :: "bool \<Rightarrow> string \<Rightarrow> string" where
  "collapse_from after [] = []"
| "collapse_from after (c # s) =
     (if c = CHR ''/'' \<and> after then collapse_from True s else c # collapse_from (c = CHR ''/'') s)"

definition collapse_separators :: "string \<Rightarrow> string" where
  "collapse_separators path = collapse_from False path"

definition plain_path :: "string \<Rightarrow> string option" where
  "plain_path raw =
     (let slashed = replace_char BSL CHR ''/'' (trim raw);
          rest = (case strip_prefix ''//?/'' slashed of Some r \<Rightarrow> Some r | None \<Rightarrow> strip_prefix ''//./'' slashed)
      in map_option collapse_separators
        (case rest of
           None \<Rightarrow> Some slashed
         | Some r \<Rightarrow>
             if has_drive r then Some r
             else if 4 \<le> length r \<and> eq_ignore_case (take 4 r) ''unc/'' then Some (''//'' @ drop 4 r)
             else None))"

fun collapse_parts :: "string list \<Rightarrow> string list \<Rightarrow> string list" where
  "collapse_parts out [] = out"
| "collapse_parts out (p # ps) =
     (if p = ''..'' then collapse_parts (butlast out) ps else collapse_parts (out @ [p]) ps)"

definition collapse :: "string \<Rightarrow> string" where
  "collapse path =
     (let tail = replace_char BSL CHR ''/'' (join ''/'' (collapse_parts [] (path_parts path)));
          joined = (if is_rooted path then ''/'' else []) @ tail;
          trimmed = trim_end_matches ''/'' joined
      in if trimmed = [] then joined else trimmed)"

definition tree_hit :: "string \<Rightarrow> string \<Rightarrow> bool" where
  "tree_hit path root \<longleftrightarrow>
     path = root \<or> starts_with (root @ ''/'') path \<or> starts_with (path @ ''/'') root"

definition root_hit :: "string \<Rightarrow> string \<Rightarrow> bool" where
  "root_hit path root \<longleftrightarrow> path = root \<or> starts_with (path @ ''/'') root"

definition unix_protected :: "string \<Rightarrow> bool" where
  "unix_protected path \<longleftrightarrow>
     (let norm = collapse path in
      norm = ''/'' \<or> list_ex (tree_hit norm) UNIX_PROTECTED_TREES \<or>
      list_ex (root_hit norm) UNIX_PROTECTED_ROOTS \<or> norm \<in> set UNIX_CRITICAL_FILES)"

definition system_drive :: "string option \<Rightarrow> string" where
  "system_drive sd =
     (case sd of
        None \<Rightarrow> ''c:''
      | Some d \<Rightarrow> if length d = 2 \<and> d ! 1 = CHR '':'' \<and> is_alpha (d ! 0) then lower d else ''c:'')"

definition windows_protected :: "string option \<Rightarrow> string \<Rightarrow> bool" where
  "windows_protected sd path \<longleftrightarrow>
     (let l0 = lower path;
          l1 = (if 2 \<le> length l0 \<and> l0 ! 1 = CHR '':'' \<and> (length l0 = 2 \<or> l0 ! 2 \<noteq> CHR ''/'')
                then take 2 l0 @ ''/'' @ drop 2 l0 else l0);
          l2 = join ''/'' (map (trim_end_matches ''. '') (split_on CHR ''/'' l1));
          norm = collapse l2
      in if length norm = 2 \<and> norm ! 1 = CHR '':'' then True
         else if starts_with ''//'' norm then
           length (filter (\<lambda>s. s \<noteq> []) (split_on CHR ''/'' (trim_start_matches ''/'' norm))) \<le> 2
         else case strip_prefix (system_drive sd) norm of
           None \<Rightarrow> False
         | Some after \<Rightarrow>
             let after_drive = trim_end_matches ''.'' after in
             list_ex (tree_hit after_drive) WINDOWS_PROTECTED_SUBTREES \<or>
             list_ex (root_hit after_drive) WINDOWS_PROTECTED_ROOTS)"

definition wsl_mount_to_windows :: "string \<Rightarrow> string option" where
  "wsl_mount_to_windows path =
     (case strip_prefix ''/mnt/'' path of
        None \<Rightarrow> None
      | Some rest \<Rightarrow>
          (case split_once CHR ''/'' rest of
             None \<Rightarrow> if length rest = 1 \<and> is_alpha (rest ! 0) then Some (rest @ '':/'') else None
           | Some (drive, tail) \<Rightarrow>
               if length drive = 1 \<and> is_alpha (drive ! 0) then Some (drive @ '':/'' @ tail) else None))"

definition looks_windows :: "string \<Rightarrow> bool" where
  "looks_windows path \<longleftrightarrow> has_drive path \<or> starts_with ''//'' path"

definition is_os_critical_path :: "string option \<Rightarrow> string \<Rightarrow> bool" where
  "is_os_critical_path sd raw \<longleftrightarrow>
     (let trimmed = trim raw in
      if trimmed = [] then False
      else if is_disk_device trimmed then True
      else case plain_path trimmed of
        None \<Rightarrow> True
      | Some path \<Rightarrow>
          (case wsl_mount_to_windows path of
             Some mapped \<Rightarrow> windows_protected sd mapped
           | None \<Rightarrow> if looks_windows path then windows_protected sd path else unix_protected path))"

text \<open>The part before the first glob character, cut after its last separator.\<close>

definition is_glob_char :: "char \<Rightarrow> bool" where
  "is_glob_char c \<longleftrightarrow> c \<in> {CHR ''*'', CHR ''?'', CHR ''[''}"

definition glob_fixed_prefix :: "string \<Rightarrow> string" where
  "glob_fixed_prefix operand =
     (if \<exists>c \<in> set operand. is_glob_char c then
        rev (dropWhile (\<lambda>c. c \<noteq> CHR ''/'' \<and> c \<noteq> BSL) (rev (takeWhile (\<lambda>c. \<not> is_glob_char c) operand)))
      else operand)"

definition operand_is_protected :: "string option \<Rightarrow> string \<Rightarrow> string option \<Rightarrow> bool" where
  "operand_is_protected sd operand cwd \<longleftrightarrow>
     (case plain_path operand of
        None \<Rightarrow> True
      | Some path \<Rightarrow>
          let fixed = glob_fixed_prefix path in
          if fixed = [] then
            path \<noteq> [] \<and> \<not> is_unresolvable path \<and>
            (case cwd of None \<Rightarrow> False | Some c \<Rightarrow> is_os_critical_path sd c)
          else if is_unresolvable fixed then False
          else if has_drive fixed then is_os_critical_path sd fixed
          else if starts_with ''/'' fixed then
            is_os_critical_path sd fixed \<or>
            \<not> starts_with ''//'' fixed \<and>
            (case map_option trim_start cwd of
               None \<Rightarrow> False
             | Some c \<Rightarrow> has_drive c \<and> is_os_critical_path sd (take 2 c @ fixed))
          else case cwd of
            None \<Rightarrow> is_os_critical_path sd fixed
          | Some c \<Rightarrow> is_os_critical_path sd (trim_end_matches ''/'' c @ ''/'' @ fixed))"

section \<open>Unwrapping\<close>

datatype unwrapped = UArgv "string list" | ULine string

fun chdir_scan :: "string option \<Rightarrow> string list \<Rightarrow> string option \<Rightarrow> string option" where
  "chdir_scan short [] dir = dir"
| "chdir_scan short (tok # rest) dir =
     (case strip_prefix ''--chdir='' tok of
        Some v \<Rightarrow> chdir_scan short rest (Some v)
      | None \<Rightarrow>
          if tok = ''--chdir'' \<or> short = Some tok then
            (case rest of
               [] \<Rightarrow> None
             | d # rest' \<Rightarrow> chdir_scan short rest' (Some d))
          else case short of
            None \<Rightarrow> chdir_scan short rest dir
          | Some s \<Rightarrow>
              (case strip_prefix s tok of
                 Some v \<Rightarrow> chdir_scan short rest (if v \<noteq> [] then Some v else dir)
               | None \<Rightarrow> chdir_scan short rest dir))"

definition launcher_chdir :: "string list \<Rightarrow> string option \<Rightarrow> string option" where
  "launcher_chdir front cwd =
     (let head = (case front of [] \<Rightarrow> [] | t # _ \<Rightarrow> command_basename t) in
      if head = ''chroot'' then
        Option.bind (find (\<lambda>t. \<not> starts_with ''-'' t) (drop 1 front)) (\<lambda>dir. resolve_dir dir cwd)
      else
        let short = (if head = ''sudo'' \<or> head = ''run0'' then Some ''-D''
                     else if head = ''env'' then Some ''-C'' else None)
        in case chdir_scan short (drop 1 front) None of
             None \<Rightarrow> cwd
           | Some dir \<Rightarrow> resolve_dir dir cwd)"

function su_command_from :: "string list \<Rightarrow> string \<Rightarrow> string list \<Rightarrow> nat \<Rightarrow> string option" where
  "su_command_from argv shorts longs i =
     (if length argv \<le> i then None
      else
        let tok = argv ! i in
        if tok = ''--'' then None
        else if \<not> starts_with ''-'' tok then su_command_from argv shorts longs (i + 1)
        else case wrapper_option argv i shorts longs of
          (option, next) \<Rightarrow>
            (case option of
               Some (key, Some line) \<Rightarrow>
                 if key = ''c'' \<or> key = ''command'' \<or> key = ''session-command'' then Some line
                 else su_command_from argv shorts longs next
             | _ \<Rightarrow> su_command_from argv shorts longs next))"
  by pat_completeness auto
termination
  using wrapper_option_next
  by (relation "measure (\<lambda>(argv, s, l, i). length argv - i)")
    (auto intro!: diff_less_mono2, (metis snd_conv)+)

declare su_command_from.simps [simp del]

definition su_command :: "string list \<Rightarrow> string \<Rightarrow> string list \<Rightarrow> string option" where
  "su_command argv shorts longs = su_command_from argv shorts longs 1"

text \<open>The index after the options of an escalator.\<close>

function skip_options :: "string list \<Rightarrow> string \<Rightarrow> string list \<Rightarrow> nat \<Rightarrow> nat" where
  "skip_options argv shorts longs i =
     (if length argv \<le> i then i
      else if argv ! i = ''--'' then i + 1
      else if \<not> starts_with ''-'' (argv ! i) then i
      else skip_options argv shorts longs (snd (wrapper_option argv i shorts longs)))"
  by pat_completeness auto
termination
  using wrapper_option_next
  by (relation "measure (\<lambda>(argv, s, l, i). length argv - i)") (auto intro!: diff_less_mono2)

declare skip_options.simps [simp del]

text \<open>
  What an escalator runs: the words after its options, past the new root of \<open>chroot\<close> and past the
  login name of \<open>su\<close> unless that is itself destructive.
\<close>

definition escalated :: "string \<Rightarrow> string \<Rightarrow> string list \<Rightarrow> string list \<Rightarrow> string list" where
  "escalated name shorts longs argv =
     (let i = skip_options argv shorts longs 1;
          skip_operand =
            (name = ''chroot'' \<or>
             name = ''su'' \<and> i < length argv \<and> classify (command_basename (argv ! i)) = None)
      in drop (if skip_operand then i + 1 else i) argv)"

definition strip_escalator :: "string list \<Rightarrow> unwrapped option" where
  "strip_escalator argv =
     (case argv of
        [] \<Rightarrow> None
      | first # _ \<Rightarrow>
          (case find (\<lambda>e. fst e = command_basename first) ESCALATORS of
             None \<Rightarrow> None
           | Some (name, shorts, longs) \<Rightarrow>
               (case if name = ''su'' then su_command argv shorts longs else None of
                  Some line \<Rightarrow> Some (ULine line)
                | None \<Rightarrow> Some (UArgv (escalated name shorts longs argv)))))"

lemma skip_options_ge: "i \<le> skip_options argv shorts longs i"
proof (induction argv shorts longs i rule: skip_options.induct)
  case (1 argv shorts longs i)
  show ?case
  proof (cases "\<not> length argv \<le> i \<and> argv ! i \<noteq> ''--'' \<and> starts_with ''-'' (argv ! i)")
    case True
    with 1 wrapper_option_next [of i argv shorts longs]
    have "i \<le> skip_options argv shorts longs (snd (wrapper_option argv i shorts longs))" by linarith
    with True show ?thesis by (subst skip_options.simps) simp
  next
    case False
    then show ?thesis by (subst skip_options.simps) auto
  qed
qed

lemma escalated_drops: "\<exists>i \<ge> 1. escalated name shorts longs argv = drop i argv"
  using skip_options_ge [of 1 argv shorts longs] unfolding escalated_def Let_def
  by (intro exI conjI) (rule_tac [2] refl, simp)

lemma strip_escalator_shorter:
  assumes "strip_escalator argv = Some (UArgv rest)"
  shows "argv_weight rest < argv_weight argv"
proof -
  from assms obtain x xs name shorts longs where "argv = x # xs" and "rest = escalated name shorts longs argv"
    by (cases argv) (auto simp: strip_escalator_def split: option.splits)
  moreover from escalated_drops obtain i where "escalated name shorts longs argv = drop (Suc i) argv"
    by (metis One_nat_def Suc_le_D)
  ultimately show ?thesis using weight_split [of xs i] by simp
qed

lemma launched_weight: "launched argv = Some rest \<Longrightarrow> rest = argv \<or> argv_weight rest < argv_weight argv"
proof (induction argv rule: launched.induct)
  case (1 argv)
  show ?case
  proof (cases "launched_program argv")
    case (At i)
    with 1(2) have rest: "rest = drop i argv" by (simp add: launched.simps [of argv])
    show ?thesis
    proof (cases i)
      case (Suc k)
      have "i < length argv" using launched_from_At At by (auto simp: launched_program_def)
      with Suc rest show ?thesis by (cases argv) (use weight_split [of "tl argv" k] in auto)
    qed (simp add: rest)
  next
    case (SplitString e)
    with 1(2) have "launched e = Some rest" by (simp add: launched.simps [of argv])
    moreover have "argv_weight e < argv_weight argv"
      using launched_from_weight SplitString by (auto simp: launched_program_def)
    ultimately show ?thesis using 1(1) [OF SplitString] by auto
  next
    case NothingLaunched
    with 1(2) have "rest = []" by (simp add: launched.simps [of argv])
    then show ?thesis by (cases argv) auto
  qed (use 1(2) in \<open>simp add: launched.simps [of argv]\<close>)
qed

lemma launched_argv_shorter:
  "launched_argv argv \<noteq> [] \<Longrightarrow> launched_argv argv \<noteq> argv \<Longrightarrow> argv_weight (launched_argv argv) < argv_weight argv"
  using launched_weight [of argv] by (auto simp: launched_argv_def split: option.splits)

text \<open>
  \<open>unwrap_launchers\<close>. The slice \<open>real[..real.len() - launched.len()]\<close> panics when the launched
  vector is the longer one, as it is when a split string holds more words than the vector.
\<close>

function unwrap_launchers :: "string list \<Rightarrow> string option \<Rightarrow> (unwrapped \<times> string option) run" where
  "unwrap_launchers real cwd =
     (case strip_escalator real of
        Some (UArgv rest) \<Rightarrow>
          unwrap_launchers rest (launcher_chdir (take (length real - length rest) real) cwd)
      | Some (ULine line) \<Rightarrow> Ok (ULine line, cwd)
      | None \<Rightarrow>
          if 1 < length real \<and> command_basename (real ! 0) = ''busybox'' \<and> \<not> starts_with ''-'' (real ! 1)
          then unwrap_launchers (drop 1 real) cwd
          else
            if launched_argv real = [] \<or> launched_argv real = real then Ok (UArgv real, cwd)
            else if length real < length (launched_argv real) then Panic
            else unwrap_launchers (launched_argv real)
              (launcher_chdir (take (length real - length (launched_argv real)) real) cwd))"
  by pat_completeness auto
termination
proof (relation "measure (\<lambda>(real, cwd). argv_weight real)")
  fix real :: "string list" and cwd :: "string option"
  assume "1 < length real \<and> command_basename (real ! 0) = ''busybox'' \<and> \<not> starts_with ''-'' (real ! 1)"
  then show "((drop 1 real, cwd), real, cwd) \<in> measure (\<lambda>(real, cwd). argv_weight real)"
    by (cases real) auto
qed (auto dest: strip_escalator_shorter launched_argv_shorter)

declare unwrap_launchers.simps [simp del]

section \<open>Lines\<close>

text \<open>The simple command being assembled.\<close>

record words_state =
  wd_current :: "string list"
  wd_word :: string
  wd_has :: bool
  wd_skip :: bool
  wd_level :: nat

definition words_default :: words_state where
  "words_default = \<lparr>wd_current = [], wd_word = [], wd_has = False, wd_skip = False, wd_level = 0\<rparr>"

definition words_push :: "char \<Rightarrow> words_state \<Rightarrow> words_state" where
  "words_push ch w = w\<lparr>wd_word := wd_word w @ [ch], wd_has := True\<rparr>"

definition words_flush :: "words_state \<Rightarrow> words_state" where
  "words_flush w =
     (if \<not> wd_has w then w
      else if wd_skip w then w\<lparr>wd_word := [], wd_has := False, wd_skip := False\<rparr>
      else w\<lparr>wd_word := [], wd_has := False, wd_current := wd_current w @ [wd_word w]\<rparr>)"

type_synonym commands = "(nat \<times> string list) list"

definition end_command :: "words_state \<Rightarrow> commands \<Rightarrow> words_state \<times> commands" where
  "end_command w cmds =
     (let w1 = (words_flush w)\<lparr>wd_skip := False\<rparr> in
      if wd_current w1 = [] then (w1, cmds)
      else (w1\<lparr>wd_current := []\<rparr>, cmds @ [(wd_level w1, wd_current w1)]))"

definition redirect :: "words_state \<Rightarrow> string \<Rightarrow> words_state \<times> string" where
  "redirect w s =
     (let w1 =
        (if list_all (\<lambda>ch. is_digit ch \<or> ch = CHR ''*'' \<or> ch = CHR ''&'') (wd_word w)
         then w\<lparr>wd_word := [], wd_has := False\<rparr> else words_flush w)
      in (w1\<lparr>wd_skip := True\<rparr>, dropWhile (\<lambda>ch. ch \<in> {CHR ''>'', CHR ''<'', CHR ''&'', CHR ''|''}) s))"

text \<open>The body of a substitution and what follows it.\<close>

fun capture_parens :: "nat \<Rightarrow> char option \<Rightarrow> string \<Rightarrow> string \<Rightarrow> string \<times> string" where
  "capture_parens depth quote body [] = (body, [])"
| "capture_parens depth quote body (ch # s) =
     (case quote of
        Some q \<Rightarrow> capture_parens depth (if ch = q then None else quote) (body @ [ch]) s
      | None \<Rightarrow>
          if ch = SQ \<or> ch = DQ then capture_parens depth (Some ch) (body @ [ch]) s
          else if ch = CHR ''('' then capture_parens (depth + 1) None (body @ [ch]) s
          else if ch = CHR '')'' then
            if depth = 0 then (body, s) else capture_parens (depth - 1) None (body @ [ch]) s
          else capture_parens depth None (body @ [ch]) s)"

fun capture_backticks :: "string \<Rightarrow> string \<Rightarrow> string \<times> string" where
  "capture_backticks body [] = (body, [])"
| "capture_backticks body (ch # s) =
     (if ch = BTICK then (body, s)
      else if ch = BSL then
        (case s of [] \<Rightarrow> (body, []) | next # s' \<Rightarrow> capture_backticks (body @ [next]) s')
      else capture_backticks (body @ [ch]) s)"

lemma capture_parens_length: "length (snd (capture_parens d q b s)) \<le> length s"
proof (induction s arbitrary: d q b)
  case (Cons c s)
  show ?case by (cases q) (simp_all add: le_SucI [OF Cons.IH])
qed simp

lemma capture_backticks_length: "length (snd (capture_backticks b s)) \<le> length s"
proof (induction b s rule: capture_backticks.induct)
  case (2 b ch s)
  consider "ch = BTICK" | "ch = BSL" | "ch \<noteq> BTICK" "ch \<noteq> BSL" by blast
  then show ?case
  proof cases
    case 2
    then show ?thesis using "2.IH"(1) by (cases s) (simp_all add: le_SucI)
  next
    case 3
    then show ?thesis using "2.IH"(2) by (simp add: le_SucI)
  qed simp
qed simp

lemma redirect_length: "length (snd (redirect w s)) \<le> length s"
  by (simp add: redirect_def Let_def length_dropWhile_le)

definition escape_char :: "grammar \<Rightarrow> char" where
  "escape_char g = (case g of Posix \<Rightarrow> BSL | Pwsh \<Rightarrow> BTICK | Cmd \<Rightarrow> CHR ''^'')"

text \<open>\<open>next_if_eq\<close>: drop the character if it is next.\<close>

definition drop_if :: "char \<Rightarrow> string \<Rightarrow> string" where
  "drop_if c s = (case s of [] \<Rightarrow> [] | x # s' \<Rightarrow> if x = c then s' else s)"

lemma drop_if_length: "length (drop_if c s) \<le> length s"
  by (simp add: drop_if_def split: list.splits)

function split_go ::
  "grammar \<Rightarrow> char option \<Rightarrow> words_state \<Rightarrow> commands \<Rightarrow> string list \<Rightarrow> string \<Rightarrow> commands \<times> string list" where
  "split_go g quote w cmds nested [] = (snd (end_command w cmds), nested)"
| "split_go g quote w cmds nested (ch # s) =
     (let subst = (g \<noteq> Cmd) in
      if quote = Some SQ then
        if ch \<noteq> SQ then split_go g quote (words_push ch w) cmds nested s
        else if g = Pwsh \<and> starts_with [SQ] s then split_go g quote (words_push SQ w) cmds nested (drop 1 s)
        else split_go g None w cmds nested s
      else if quote = Some DQ then
        if ch = DQ then split_go g None w cmds nested s
        else if ch = CHR ''$'' \<and> subst \<and> starts_with ''('' s then
          split_go g quote (words_push CHR ''$'' w) cmds
            (nested @ [fst (capture_parens 0 None [] (drop 1 s))]) (snd (capture_parens 0 None [] (drop 1 s)))
        else if ch = BTICK \<and> g = Posix then
          split_go g quote (words_push CHR ''$'' w) cmds
            (nested @ [fst (capture_backticks [] s)]) (snd (capture_backticks [] s))
        else if ch = escape_char g \<and> subst \<and> s \<noteq> [] \<and>
           (g = Pwsh \<or> hd s \<in> {CHR ''$'', BTICK, DQ, BSL, NL}) then
          split_go g quote (words_push (hd s) w) cmds nested (drop 1 s)
        else split_go g quote (words_push ch w) cmds nested s
      else if ch = escape_char g then
        split_go g quote (if s \<noteq> [] \<and> hd s \<noteq> NL then words_push (hd s) w else w) cmds nested (drop 1 s)
      else if ch = SQ \<and> subst then split_go g (Some SQ) (w\<lparr>wd_has := True\<rparr>) cmds nested s
      else if ch = DQ then split_go g (Some DQ) (w\<lparr>wd_has := True\<rparr>) cmds nested s
      else if ch = CHR ''$'' \<and> subst \<and> starts_with ''('' s then
        split_go g quote (words_push CHR ''$'' w) cmds
          (nested @ [fst (capture_parens 0 None [] (drop 1 s))]) (snd (capture_parens 0 None [] (drop 1 s)))
      else if ch = BTICK \<and> g = Posix then
        split_go g quote (words_push CHR ''$'' w) cmds
          (nested @ [fst (capture_backticks [] s)]) (snd (capture_backticks [] s))
      else if ch = CHR ''#'' \<and> subst \<and> \<not> wd_has w then
        split_go g quote w cmds nested (dropWhile (\<lambda>c. c \<noteq> NL) s)
      else if ch \<in> {CHR '' '', TAB, CR} then split_go g quote (words_flush w) cmds nested s
      else if ch = CHR ''>'' \<or> ch = CHR ''<'' \<or> ch = CHR ''&'' \<and> subst \<and> starts_with ''>'' s then
        split_go g quote (fst (redirect w s)) cmds nested (snd (redirect w s))
      else if ch \<in> {CHR '';'', NL, CHR ''|'', CHR ''&''} then
        split_go g quote (fst (end_command w cmds)) (snd (end_command w cmds)) nested
          (if ch = CHR ''&'' \<or> ch = CHR ''|'' then drop_if ch s else s)
      else if ch = CHR ''('' then
        split_go g quote ((fst (end_command w cmds))\<lparr>wd_level := wd_level w + 1\<rparr>)
          (snd (end_command w cmds)) nested s
      else if ch = CHR '')'' then
        split_go g quote ((fst (end_command w cmds))\<lparr>wd_level := wd_level w - 1\<rparr>)
          (snd (end_command w cmds)) nested s
      else if (ch = CHR ''{'' \<or> ch = CHR ''}'') \<and> g = Pwsh then
        split_go g quote (fst (end_command w cmds)) (snd (end_command w cmds)) nested s
      else split_go g quote (words_push ch w) cmds nested s)"
  by pat_completeness auto
termination
  by (relation "measure (\<lambda>(g, q, w, c, n, s). length s)")
    (auto simp: less_Suc_eq_le le_trans [OF capture_parens_length] capture_backticks_length redirect_length
       drop_if_length length_dropWhile_le)

declare split_go.simps(2) [simp del]

definition split_line :: "string \<Rightarrow> grammar \<Rightarrow> commands \<times> string list" where
  "split_line line g = split_go g None words_default [] [] line"

section \<open>Interpreter payloads\<close>

definition utf8_encode :: "nat \<Rightarrow> string" where
  "utf8_encode cp =
     map char_of
       (if cp < 128 then [cp]
        else if cp < 2048 then [192 + cp div 64, 128 + cp mod 64]
        else if cp < 65536 then [224 + cp div 4096, 128 + cp div 64 mod 64, 128 + cp mod 64]
        else [240 + cp div 262144, 128 + cp div 4096 mod 64, 128 + cp div 64 mod 64, 128 + cp mod 64])"

text \<open>\<open>String::from_utf16_lossy\<close>: an unpaired surrogate becomes the replacement character.\<close>

fun utf16_code_points :: "nat list \<Rightarrow> nat list" where
  "utf16_code_points [] = []"
| "utf16_code_points (u # us) =
     (if u < 55296 \<or> 57343 < u then u # utf16_code_points us
      else if u < 56320 then
        (case us of
           v # vs \<Rightarrow>
             if 56320 \<le> v \<and> v \<le> 57343
             then (65536 + (u - 55296) * 1024 + (v - 56320)) # utf16_code_points vs
             else 65533 # utf16_code_points us
         | [] \<Rightarrow> [65533])
      else 65533 # utf16_code_points us)"

definition from_utf16_lossy :: "nat list \<Rightarrow> string" where
  "from_utf16_lossy us = concat (map utf8_encode (utf16_code_points us))"

definition base64_value :: "char \<Rightarrow> nat option" where
  "base64_value c =
     (if is_upper c then Some (byte c - 65)
      else if is_alpha c then Some (byte c - 97 + 26)
      else if is_digit c then Some (byte c - 48 + 52)
      else if c = CHR ''+'' then Some 62
      else if c = CHR ''/'' then Some 63
      else None)"

text \<open>The bit buffer is masked to 16 bits after each shift by 6.\<close>

fun base64_bytes :: "nat \<Rightarrow> nat \<Rightarrow> nat list \<Rightarrow> string \<Rightarrow> nat list option" where
  "base64_bytes bits pending out [] = Some out"
| "base64_bytes bits pending out (c # s) =
     (if c = CHR ''='' then Some out
      else case base64_value c of
        None \<Rightarrow> None
      | Some v \<Rightarrow>
          let bits' = (bits * 64 + v) mod 65536 in
          if 8 \<le> pending + 6
          then base64_bytes bits' (pending + 6 - 8) (out @ [bits' div 2 ^ (pending + 6 - 8) mod 256]) s
          else base64_bytes bits' (pending + 6) out s)"

fun le_units :: "nat list \<Rightarrow> nat list" where
  "le_units (a # b # bs) = (a + 256 * b) # le_units bs"
| "le_units _ = []"

definition decode_utf16le_base64 :: "string \<Rightarrow> string option" where
  "decode_utf16le_base64 text = map_option (from_utf16_lossy \<circ> le_units) (base64_bytes 0 0 [] text)"

definition pwsh_payload :: "string \<Rightarrow> string list \<Rightarrow> string option" where
  "pwsh_payload flag rest =
     (let name = lower (trim_start_matches ''-/'' flag);
          first = (case rest of [] \<Rightarrow> None | w # _ \<Rightarrow> Some w)
      in if starts_with ''e'' name then Option.bind first decode_utf16le_base64
         else if name = ''cwa'' \<or> length ''command'' < length name \<and> starts_with name ''commandwithargs'' then first
         else Some (join '' '' rest))"

fun glued_switch :: "char option \<Rightarrow> string \<Rightarrow> string" where
  "glued_switch before [] = []"
| "glued_switch before (c # s) =
     (if lower_char c \<in> set ''ckr'' \<and> before = Some CHR ''/'' then s else glued_switch (Some c) s)"

definition cmd_payload :: "string \<Rightarrow> string list \<Rightarrow> string" where
  "cmd_payload flag rest = join '' '' (filter (\<lambda>w. w \<noteq> []) (glued_switch None flag # rest))"

function posix_operand :: "string list \<Rightarrow> string option" where
  "posix_operand [] = None"
| "posix_operand (word # ws) =
     (if word = ''--'' then (case ws of [] \<Rightarrow> None | w # _ \<Rightarrow> Some w)
      else if 1 < length word \<and> (hd word = CHR ''-'' \<or> hd word = CHR ''+'')
      then posix_operand (drop (posix_option_value_words word) ws)
      else Some word)"
  by pat_completeness auto
termination
  by (relation "measure length") auto

definition posix_payload :: "string \<Rightarrow> string list \<Rightarrow> string option" where
  "posix_payload flag rest =
     (case Option.bind (strip_prefix ''--'' flag) (split_once CHR ''='') of
        Some (_, inline) \<Rightarrow> Some inline
      | None \<Rightarrow> posix_operand (drop (posix_option_value_words flag) rest))"

definition interpreter_payload :: "string \<Rightarrow> string list \<Rightarrow> (grammar \<times> string) option" where
  "interpreter_payload shell args =
     (case interpreter_script_flag shell args of
        None \<Rightarrow> None
      | Some at \<Rightarrow>
          let flag = args ! at; rest = drop (at + 1) args; g = of_shell shell in
          map_option (Pair g)
            (case g of
               Pwsh \<Rightarrow> pwsh_payload flag rest
             | Cmd \<Rightarrow> Some (cmd_payload flag rest)
             | Posix \<Rightarrow> posix_payload flag rest))"

section \<open>The scan\<close>

definition is_flag :: "string \<Rightarrow> bool" where
  "is_flag token \<longleftrightarrow>
     starts_with ''-'' token \<or>
     (case strip_prefix ''/'' token of
        None \<Rightarrow> False
      | Some rest \<Rightarrow>
          let head = takeWhile (\<lambda>c. c \<noteq> CHR '':'') rest in
          rest \<noteq> [] \<and> 1 \<le> length head \<and> length head \<le> 2 \<and> list_all is_alpha head)"

definition unquote :: "string \<Rightarrow> string option" where
  "unquote v =
     (if v \<noteq> [] \<and> (hd v = SQ \<or> hd v = DQ) \<and> tl v \<noteq> [] \<and> (last v = SQ \<or> last v = DQ)
      then Some (butlast (tl v)) else None)"

definition pwsh_flag_value :: "string \<Rightarrow> string option" where
  "pwsh_flag_value token =
     (case Option.bind (strip_prefix ''-'' token) (split_once CHR '':'') of
        None \<Rightarrow> None
      | Some (name, value) \<Rightarrow>
          if name = [] \<or> \<not> list_all is_alpha name then None
          else let v = (case unquote value of None \<Rightarrow> value | Some u \<Rightarrow> u) in
            if v = [] then None else Some v)"

definition operand_candidate :: "string \<Rightarrow> string option" where
  "operand_candidate operand = (if is_flag operand then pwsh_flag_value operand else Some operand)"

text \<open>The operand a destructive command would destroy, if it is protected.\<close>

definition destroyed :: "string option \<Rightarrow> destructive_kind \<Rightarrow> string list \<Rightarrow> string option \<Rightarrow> string option" where
  "destroyed sd kind operands cwd =
     (case kind of
        PathOperands \<Rightarrow>
          find (\<lambda>c. operand_is_protected sd c cwd) (List.map_filter operand_candidate operands)
      | DdOutfile \<Rightarrow>
          find (\<lambda>t. is_disk_device t \<or> is_os_critical_path sd t) (List.map_filter (strip_prefix ''of='') operands)
      | FormatVolume \<Rightarrow> find (\<lambda>o'. \<not> is_flag o' \<and> is_os_critical_path sd o') operands
      | CipherWipe \<Rightarrow>
          find (is_os_critical_path sd)
            (List.map_filter
               (\<lambda>o'. case strip_prefix ''/w:'' o' of Some t \<Rightarrow> Some t | None \<Rightarrow> strip_prefix ''/W:'' o') operands))"

definition changes_dir :: "string \<Rightarrow> grammar \<Rightarrow> bool" where
  "changes_dir head g \<longleftrightarrow>
     head \<in> set (case g of
       Posix \<Rightarrow> [''cd'', ''pushd'']
     | Cmd \<Rightarrow> [''cd'', ''chdir'', ''pushd'']
     | Pwsh \<Rightarrow> [''cd'', ''chdir'', ''sl'', ''set-location'', ''pushd'', ''push-location''])"

fun cd_operand :: "grammar \<Rightarrow> string list \<Rightarrow> string option" where
  "cd_operand g [] = None"
| "cd_operand g (arg # args) =
     (if g = Pwsh \<and> starts_with ''-'' arg then
        if lower arg \<in> {''-path'', ''-literalpath'', ''-lp'', ''-pspath''} then
          (case args of [] \<Rightarrow> None | d # _ \<Rightarrow> Some d)
        else if lower arg = ''-stackname'' then (case args of [] \<Rightarrow> None | _ # rest \<Rightarrow> cd_operand g rest)
        else cd_operand g args
      else if is_flag arg then cd_operand g args
      else Some arg)"

definition cd_target :: "string list \<Rightarrow> grammar \<Rightarrow> string option" where
  "cd_target args g =
     (case cd_operand g args of
        None \<Rightarrow> None
      | Some dir \<Rightarrow> if \<not> is_unresolvable dir \<and> \<not> starts_with ''-'' dir then Some dir else None)"

datatype wsl_launch = WslArgv "string list" "string option" | WslLine string "string option"

definition wsl_quote :: "string \<Rightarrow> string" where
  "wsl_quote word =
     (if word = [] \<or> CHR '' '' \<in> set word \<or> TAB \<in> set word \<or> DQ \<in> set word
      then [DQ] @ concat (map (\<lambda>c. if c = DQ then [BSL, DQ] else [c]) word) @ [DQ] else word)"

definition wsl_line :: "string list \<Rightarrow> string" where
  "wsl_line ws = join '' '' (map wsl_quote ws)"

function wsl_target :: "string list \<Rightarrow> string option \<Rightarrow> wsl_launch" where
  "wsl_target [] cwd = WslLine (wsl_line []) cwd"
| "wsl_target (arg # rest) cwd =
     (if lower arg = ''-e'' \<or> lower arg = ''--exec'' then WslArgv rest cwd
      else if lower arg = ''--'' then WslLine (wsl_line rest) cwd
      else if \<not> starts_with ''-'' arg then WslLine (wsl_line (arg # rest)) cwd
      else if lower arg \<in> set WSL_VALUE_OPTS then
        wsl_target (drop 1 rest)
          (if lower arg = ''--cd'' then (case rest of [] \<Rightarrow> None | d # _ \<Rightarrow> resolve_dir d cwd) else cwd)
      else wsl_target rest cwd)"
  by pat_completeness auto
termination
  by (relation "measure (\<lambda>(args, cwd). length args)") auto

type_synonym scan = "os_guard_hit option run"

text \<open>Look further only if nothing was hit.\<close>

definition or_else :: "scan \<Rightarrow> scan \<Rightarrow> scan" where
  "or_else r next = (case r of Ok None \<Rightarrow> next | _ \<Rightarrow> r)"

text \<open>The directory and the stack of saved ones on entering a subshell level.\<close>

definition enter_level :: "nat \<Rightarrow> string option \<Rightarrow> string option list \<Rightarrow> string option \<times> string option list" where
  "enter_level level cwd saved =
     (if length saved < level then (cwd, replicate (level - length saved) cwd @ saved)
      else if level < length saved then
        (saved ! (length saved - level - 1), drop (length saved - level) saved)
      else (cwd, saved))"

fun scan_commands ::
  "(string \<Rightarrow> string option \<Rightarrow> scan) \<Rightarrow> (string list \<Rightarrow> string option \<Rightarrow> scan) \<Rightarrow> grammar \<Rightarrow>
     string option \<Rightarrow> string option list \<Rightarrow> commands \<Rightarrow> scan" where
  "scan_commands line argv g cwd saved [] = Ok None"
| "scan_commands line argv g cwd saved ((level, command) # rest) =
     (let (cwd1, saved1) = (if g = Posix then enter_level level cwd saved else (cwd, saved));
          command1 = (if g = Posix then dropWhile (\<lambda>w. w \<in> set POSIX_RESERVED) command else command)
      in case command1 of
           [] \<Rightarrow> scan_commands line argv g cwd1 saved1 rest
         | head # args \<Rightarrow>
             let base = command_basename head in
             if g = Posix \<and> base = ''eval'' then
               or_else (line (join '' '' args) cwd1) (scan_commands line argv g cwd1 saved1 rest)
             else if changes_dir base g then
               scan_commands line argv g (Option.bind (cd_target args g) (\<lambda>dir. resolve_dir dir cwd1)) saved1 rest
             else or_else (argv command1 cwd1) (scan_commands line argv g cwd1 saved1 rest))"

text \<open>
  \<open>argv_hit\<close> and \<open>line_hit\<close> at a nesting depth \<open>d\<close> are called here with \<open>MAX_NESTING + 1 - d\<close>, so
  that 0 is the depth at which the source stops looking.
\<close>

fun argv_hit :: "nat \<Rightarrow> string option \<Rightarrow> string list \<Rightarrow> string option \<Rightarrow> scan"
  and line_hit :: "nat \<Rightarrow> string option \<Rightarrow> string \<Rightarrow> grammar \<Rightarrow> string option \<Rightarrow> scan" where
  "argv_hit 0 sd argv cwd = Ok None"
| "argv_hit (Suc n) sd argv cwd =
     and_then (unwrap_launchers argv cwd) (\<lambda>(unwrapped, cwd).
       case unwrapped of
         ULine line \<Rightarrow> line_hit n sd line Posix cwd
       | UArgv [] \<Rightarrow> Ok None
       | UArgv (name_tok # operands) \<Rightarrow>
           (case shell_interpreter_denied name_tok of
              Some shell \<Rightarrow>
                (case interpreter_payload shell operands of
                   None \<Rightarrow> Ok None
                 | Some (g, payload) \<Rightarrow> line_hit n sd payload g cwd)
            | None \<Rightarrow>
                if is_wsl_carrier name_tok then
                  (case wsl_target operands cwd of
                     WslArgv args cwd' \<Rightarrow> argv_hit n sd args cwd'
                   | WslLine line cwd' \<Rightarrow> line_hit n sd line Posix cwd')
                else
                  let name = command_basename name_tok in
                  case classify name of
                    None \<Rightarrow> Ok None
                  | Some kind \<Rightarrow>
                      Ok (map_option (\<lambda>p. \<lparr>og_op = name, og_path = p\<rparr>) (destroyed sd kind operands cwd))))"
| "line_hit 0 sd line g cwd = Ok None"
| "line_hit (Suc n) sd line g cwd =
     (let (commands, nested) = split_line line g in
      or_else (foldr (\<lambda>body later. or_else (line_hit n sd body g cwd) later) nested (Ok None))
        (scan_commands (\<lambda>l c. line_hit n sd l g c) (argv_hit n sd) g cwd [] commands))"

definition argv_deletion_hit :: "string option \<Rightarrow> string list \<Rightarrow> string option \<Rightarrow> scan" where
  "argv_deletion_hit sd argv cwd = argv_hit (MAX_NESTING + 1) sd argv cwd"

definition shell_line_deletion_hit :: "string option \<Rightarrow> string \<Rightarrow> string \<Rightarrow> string option \<Rightarrow> scan" where
  "shell_line_deletion_hit sd line shell cwd = line_hit (MAX_NESTING + 1) sd line (of_shell shell) cwd"

section \<open>Protected paths as lists of components\<close>

text \<open>
  The meaning of the protected sets on the components of a resolved path: a tree protects
  what is below it and what is above it, a root only what is above it.
\<close>

definition protected_parts :: "string list \<Rightarrow> bool" where
  "protected_parts ps \<longleftrightarrow>
     ps = [] \<or>
     (\<exists>t \<in> set UNIX_PROTECTED_TREES. prefix (path_parts t) ps \<or> prefix ps (path_parts t)) \<or>
     (\<exists>r \<in> set UNIX_PROTECTED_ROOTS. prefix ps (path_parts r)) \<or>
     (\<exists>f \<in> set UNIX_CRITICAL_FILES. ps = path_parts f)"

definition resolved_parts :: "string \<Rightarrow> string list" where
  "resolved_parts p = collapse_parts [] (path_parts p)"

text \<open>A component: not empty, without separators of either kind.\<close>

definition part_ok :: "string \<Rightarrow> bool" where
  "part_ok s \<longleftrightarrow> s \<noteq> [] \<and> CHR ''/'' \<notin> set s \<and> BSL \<notin> set s"

lemma collapse_parts_set: "set (collapse_parts out ps) \<subseteq> set out \<union> set ps"
proof (induction out ps rule: collapse_parts.induct)
  case (2 out p ps)
  then show ?case using in_set_butlastD [of _ out] by (cases "p = ''..''") auto
qed simp

lemma path_parts_ok: "BSL \<notin> set p \<Longrightarrow> s \<in> set (path_parts p) \<Longrightarrow> part_ok s"
proof -
  assume a: "BSL \<notin> set p" "s \<in> set (path_parts p)"
  then have s: "s \<in> set (split_on CHR ''/'' p)" "s \<noteq> []" by (auto simp: path_parts_def)
  have "set s \<subseteq> set p" using s(1)
  proof (induction p arbitrary: s)
    case (Cons c p)
    then show ?case by (cases "split_on CHR ''/'' p") (fastforce split: if_splits)+
  qed simp
  with a(1) s show ?thesis using split_on_pieces [OF s(1)] by (auto simp: part_ok_def)
qed

definition abs_path :: "string list \<Rightarrow> string" where
  "abs_path ps = ''/'' @ join ''/'' ps"

lemma join_last: "ps \<noteq> [] \<Longrightarrow> last ps \<noteq> [] \<Longrightarrow> join sep ps \<noteq> [] \<and> last (join sep ps) = last (last ps)"
  by (induction sep ps rule: join.induct) auto

lemma replace_notin: "a \<notin> set s \<Longrightarrow> replace_char a b s = s"
  by (induction s) (auto simp: replace_char_def)

lemma join_set: "x \<in> set (join sep ps) \<Longrightarrow> x \<in> set sep \<or> (\<exists>p \<in> set ps. x \<in> set p)"
  by (induction sep ps rule: join.induct) auto

lemma collapse_rooted:
  assumes "is_rooted p" and "BSL \<notin> set p"
  shows "collapse p = abs_path (resolved_parts p)"
proof -
  let ?ps = "resolved_parts p"
  have ok: "part_ok s" if "s \<in> set ?ps" for s
    using that collapse_parts_set [of "[]" "path_parts p"] path_parts_ok [OF assms(2)]
    by (auto simp: resolved_parts_def)
  have "BSL \<notin> set (join ''/'' ?ps)" using join_set [of BSL "''/''" ?ps] ok by (auto simp: part_ok_def)
  then have joined: "collapse p = (let j = abs_path ?ps; t = trim_end_matches ''/'' j in if t = [] then j else t)"
    using assms(1) by (simp add: collapse_def replace_notin resolved_parts_def abs_path_def Let_def)
  show ?thesis
  proof (cases "?ps = []")
    case True
    then show ?thesis by (simp add: joined abs_path_def trim_end_matches_def)
  next
    case False
    then have "part_ok (last ?ps)" using ok by simp
    with join_last [OF False, of "''/''"] last_in_set [of "last ?ps"]
    have "join ''/'' ?ps \<noteq> []" "last (join ''/'' ?ps) \<noteq> CHR ''/''"
      by (auto simp: part_ok_def) (metis last_in_set)
    then have "trim_end_matches ''/'' (abs_path ?ps) = abs_path ?ps"
      by (intro trim_end_matches_last) (auto simp: abs_path_def)
    then show ?thesis by (simp add: joined abs_path_def Let_def)
  qed
qed

lemma split_join:
  "ps \<noteq> [] \<Longrightarrow> list_all part_ok ps \<Longrightarrow> split_on CHR ''/'' (join ''/'' ps) = ps"
  by (induction "''/''" ps rule: join.induct) (auto simp: part_ok_def split_on_notin split_on_append)

lemma join_append: "ps \<noteq> [] \<Longrightarrow> qs \<noteq> [] \<Longrightarrow> join sep (ps @ qs) = join sep ps @ sep @ join sep qs"
  by (induction sep ps rule: join.induct) (auto simp: join_Cons)

lemma starts_with_join:
  assumes "list_all part_ok ps" "ps \<noteq> []" "list_all part_ok rs" "rs \<noteq> []"
  shows "starts_with (abs_path rs @ ''/'') (abs_path ps) \<longleftrightarrow> strict_prefix rs ps"
proof
  assume "starts_with (abs_path rs @ ''/'') (abs_path ps)"
  then obtain x where "join ''/'' ps = join ''/'' rs @ CHR ''/'' # x"
    by (auto simp: starts_with_iff abs_path_def)
  then have "split_on CHR ''/'' (join ''/'' ps) = split_on CHR ''/'' (join ''/'' rs) @ split_on CHR ''/'' x"
    by (simp add: split_on_sep)
  with split_join assms have "ps = rs @ split_on CHR ''/'' x" by metis
  then show "strict_prefix rs ps" by (simp add: strict_prefix_def prefix_def)
next
  assume "strict_prefix rs ps"
  then obtain t where "ps = rs @ t" "t \<noteq> []" by (auto simp: strict_prefix_def prefix_def)
  with join_append [OF assms(4)] show "starts_with (abs_path rs @ ''/'') (abs_path ps)"
    by (simp add: starts_with_iff abs_path_def)
qed

lemma abs_path_inject:
  assumes "list_all part_ok ps" "ps \<noteq> []" "list_all part_ok rs" "rs \<noteq> []"
  shows "abs_path ps = abs_path rs \<longleftrightarrow> ps = rs"
  using split_join assms by (metis abs_path_def same_append_eq)

lemma tree_hit_parts:
  assumes "list_all part_ok ps" "ps \<noteq> []" "list_all part_ok rs" "rs \<noteq> []"
  shows "tree_hit (abs_path ps) (abs_path rs) \<longleftrightarrow> prefix rs ps \<or> prefix ps rs"
    and "root_hit (abs_path ps) (abs_path rs) \<longleftrightarrow> prefix ps rs"
  using starts_with_join [OF assms] starts_with_join [OF assms(3,4,1,2)] abs_path_inject [OF assms]
  by (auto simp: tree_hit_def root_hit_def strict_prefix_def)

definition table_ok :: "string list \<Rightarrow> bool" where
  "table_ok = list_all (\<lambda>t. abs_path (path_parts t) = t \<and> path_parts t \<noteq> [] \<and> list_all part_ok (path_parts t))"

lemma tables_ok: "table_ok UNIX_PROTECTED_TREES" "table_ok UNIX_PROTECTED_ROOTS" "table_ok UNIX_CRITICAL_FILES"
  by code_simp+

lemma table_path:
  "table_ok T \<Longrightarrow> t \<in> set T \<Longrightarrow> abs_path (path_parts t) = t \<and> path_parts t \<noteq> [] \<and> list_all part_ok (path_parts t)"
  by (simp add: table_ok_def list_all_iff)

lemma unix_protected_parts:
  assumes "is_rooted p" and "BSL \<notin> set p"
  shows "unix_protected p \<longleftrightarrow> protected_parts (resolved_parts p)"
proof -
  let ?ps = "resolved_parts p"
  have ok: "list_all part_ok ?ps"
    using collapse_parts_set [of "[]" "path_parts p"] path_parts_ok [OF assms(2)]
    by (auto simp: resolved_parts_def list_all_iff)
  show ?thesis
  proof (cases "?ps = []")
    case True
    then show ?thesis
      by (simp add: unix_protected_def collapse_rooted [OF assms] protected_parts_def abs_path_def)
  next
    case False
    have "tree_hit (abs_path ?ps) t \<longleftrightarrow> prefix (path_parts t) ?ps \<or> prefix ?ps (path_parts t)"
      if "t \<in> set UNIX_PROTECTED_TREES" for t
      using tree_hit_parts(1) [OF ok False] table_path [OF tables_ok(1) that] by metis
    moreover have "root_hit (abs_path ?ps) t \<longleftrightarrow> prefix ?ps (path_parts t)"
      if "t \<in> set UNIX_PROTECTED_ROOTS" for t
      using tree_hit_parts(2) [OF ok False] table_path [OF tables_ok(2) that] by metis
    moreover have "abs_path ?ps = t \<longleftrightarrow> ?ps = path_parts t" if "t \<in> set UNIX_CRITICAL_FILES" for t
      using abs_path_inject [OF ok False] table_path [OF tables_ok(3) that] by metis
    moreover have "abs_path ?ps \<noteq> ''/''"
      using False ok join_last [OF False, of "''/''"] by (auto simp: abs_path_def list_all_iff part_ok_def)
    ultimately show ?thesis
      by (simp add: unix_protected_def collapse_rooted [OF assms] protected_parts_def Let_def list_ex_iff False)
        (metis (no_types, lifting))
  qed
qed

section \<open>Operands that are POSIX paths\<close>

lemma collapse_from_parts:
  "(\<forall>b. filter (\<lambda>s. s \<noteq> []) (split_on CHR ''/'' (collapse_from b s)) = filter (\<lambda>s. s \<noteq> []) (split_on CHR ''/'' s)) \<and>
   hd (split_on CHR ''/'' (collapse_from False s)) = hd (split_on CHR ''/'' s) \<and>
   filter (\<lambda>s. s \<noteq> []) (tl (split_on CHR ''/'' (collapse_from False s))) = filter (\<lambda>s. s \<noteq> []) (tl (split_on CHR ''/'' s))"
proof (induction s)
  case (Cons c s)
  obtain a as where f: "split_on CHR ''/'' (collapse_from False s) = a # as"
    by (metis split_on_not_Nil neq_Nil_conv)
  obtain b bs where s: "split_on CHR ''/'' s = b # bs" by (metis split_on_not_Nil neq_Nil_conv)
  show ?case using Cons by (cases "c = CHR ''/''") (auto simp: f s)
qed simp

lemma path_parts_collapse: "path_parts (collapse_separators p) = path_parts p"
proof -
  have "path_parts q = filter (\<lambda>s. s \<noteq> ''.'') (filter (\<lambda>s. s \<noteq> []) (split_on CHR ''/'' q))" for q
    unfolding path_parts_def filter_filter by (rule filter_cong) auto
  then show ?thesis using collapse_from_parts [of p] unfolding collapse_separators_def by metis
qed

lemma collapse_from_set: "set (collapse_from b p) \<subseteq> set p"
  by (induction b p rule: collapse_from.induct) auto

lemma collapse_from_True: "\<not> starts_with ''/'' (collapse_from True p)"
  by (induction p) (auto split: if_splits)

lemma collapse_from_no_double: "\<not> starts_with ''//'' (collapse_from b p)"
  by (induction b p rule: collapse_from.induct) (auto split: if_splits simp: collapse_from_True)

lemma collapse_from_idem: "collapse_from b (collapse_from b p) = collapse_from b p"
  by (induction b p rule: collapse_from.induct) auto

text \<open>
  A rooted POSIX spelling: no spaces, no backslash, no glob character, no UNC-like start, and not
  a mount of a Windows drive.
\<close>

definition posix_path :: "string \<Rightarrow> bool" where
  "posix_path p \<longleftrightarrow>
     is_rooted p \<and> \<not> starts_with ''//'' p \<and> wsl_mount_to_windows (collapse_separators p) = None \<and>
     list_all (\<lambda>c. solid c \<and> c \<noteq> BSL \<and> \<not> is_glob_char c) p"

lemma posix_path_plain:
  assumes "posix_path p"
  shows "plain_path p = Some (collapse_separators p)" "is_rooted (collapse_separators p)"
    "list_all (\<lambda>c. solid c \<and> c \<noteq> BSL \<and> \<not> is_glob_char c) (collapse_separators p)"
    "\<not> looks_windows (collapse_separators p)" "collapse_separators p \<noteq> []"
proof -
  obtain q where p: "p = CHR ''/'' # q" "\<not> starts_with ''/'' q"
    using assms by (cases p) (auto simp: posix_path_def is_rooted_def)
  have "trim p = p" "replace_char BSL CHR ''/'' p = p"
    using assms by (auto intro!: trim_solid replace_notin simp: posix_path_def list_all_iff)
  with p show "plain_path p = Some (collapse_separators p)"
    by (cases q) (auto simp: plain_path_def strip_prefix_None split: option.splits)
  show root: "is_rooted (collapse_separators p)" "collapse_separators p \<noteq> []"
    by (simp_all add: p is_rooted_def collapse_separators_def)
  show "list_all (\<lambda>c. solid c \<and> c \<noteq> BSL \<and> \<not> is_glob_char c) (collapse_separators p)"
    using assms collapse_from_set by (fastforce simp: posix_path_def list_all_iff collapse_separators_def)
  have "\<not> is_alpha (CHR ''/'')" by code_simp
  then show "\<not> looks_windows (collapse_separators p)"
    using collapse_from_True by (auto simp: looks_windows_def collapse_separators_def has_drive_def p)
qed

lemma critical_posix:
  assumes "posix_path p"
  shows "is_os_critical_path sd (collapse_separators p) \<longleftrightarrow>
    is_disk_device (collapse_separators p) \<or> protected_parts (resolved_parts p)"
proof -
  let ?q = "collapse_separators p"
  note q = posix_path_plain [OF assms]
  have t: "trim ?q = ?q" and b: "BSL \<notin> set ?q"
    using q(3) by (auto intro!: trim_solid simp: list_all_iff)
  have "posix_path ?q"
    using assms q(2,3) collapse_from_no_double [of False p]
    by (simp add: posix_path_def collapse_separators_def collapse_from_idem)
  then have "plain_path ?q = Some ?q"
    using posix_path_plain(1) by (simp add: collapse_separators_def collapse_from_idem)
  moreover have "unix_protected ?q \<longleftrightarrow> protected_parts (resolved_parts p)"
    using unix_protected_parts [OF q(2) b] by (simp add: resolved_parts_def path_parts_collapse)
  ultimately show ?thesis
    using q t assms by (auto simp: is_os_critical_path_def posix_path_def)
qed

lemma operand_posix:
  assumes "posix_path p" and "case cwd of None \<Rightarrow> True | Some c \<Rightarrow> \<not> has_drive (trim_start c)"
  shows "operand_is_protected sd p cwd \<longleftrightarrow>
    is_disk_device (collapse_separators p) \<or> protected_parts (resolved_parts p)"
proof -
  let ?q = "collapse_separators p"
  note q = posix_path_plain [OF assms(1)]
  have "glob_fixed_prefix ?q = ?q" using q(3) by (auto simp: glob_fixed_prefix_def list_all_iff)
  moreover have "\<not> has_drive ?q" using q(4) by (simp add: looks_windows_def)
  moreover have "\<not> is_unresolvable ?q" "starts_with ''/'' ?q"
    using q(2) by (cases ?q; simp add: is_rooted_def is_unresolvable_def)+
  ultimately show ?thesis
    using q(1,5) assms(2) critical_posix [OF assms(1)]
    by (auto simp: operand_is_protected_def Let_def split: option.splits)
qed

section \<open>Launchers in front of a command\<close>

text \<open>
  A word the guard strips without looking at what follows: a wrapper or an assignment that is not
  read as something else, or an escalator that takes the command as its first operand.
\<close>

definition guard_prefix :: "string \<Rightarrow> bool" where
  "guard_prefix w \<longleftrightarrow>
     \<not> starts_with ''-'' w \<and>
     (if plain_prefix w then command_basename w \<notin> set (''busybox'' # map fst ESCALATORS)
      else command_basename w \<in> {''sudo'', ''doas'', ''pkexec'', ''run0''} \<and> shell_wrapper w = None)"

definition direct_command :: "string \<Rightarrow> bool" where
  "direct_command cmd \<longleftrightarrow>
     \<not> starts_with ''-'' cmd \<and> \<not> is_env_assignment cmd \<and> shell_wrapper cmd = None \<and>
     command_basename cmd \<notin> set (''busybox'' # map fst ESCALATORS)"

lemma chdir_scan_plain:
  "list_all (\<lambda>w. \<not> starts_with ''-'' w) ws \<Longrightarrow> short \<in> {None, Some ''-D'', Some ''-C''} \<Longrightarrow> chdir_scan short ws dir = dir"
proof (induction ws)
  case (Cons w ws)
  then have "strip_prefix ''--chdir='' w = None" "w \<noteq> ''--chdir''" "w \<noteq> ''-D''" "w \<noteq> ''-C''"
    "strip_prefix ''-D'' w = None" "strip_prefix ''-C'' w = None"
    by (cases w; auto simp: strip_prefix_None)+
  with Cons show ?case by auto
qed simp

lemma launcher_chdir_plain:
  assumes "list_all (\<lambda>w. \<not> starts_with ''-'' w) (w # ws)" and "command_basename w \<noteq> ''chroot''"
  shows "launcher_chdir (w # ws) cwd = cwd"
  using assms chdir_scan_plain [of ws] by (simp add: launcher_chdir_def Let_def)

lemma strip_escalator_None:
  "command_basename w \<notin> set (map fst ESCALATORS) \<Longrightarrow> strip_escalator (w # ws) = None"
proof -
  assume "command_basename w \<notin> set (map fst ESCALATORS)"
  then have "find (\<lambda>e. fst e = command_basename w) ESCALATORS = None" unfolding find_None_iff by force
  then show ?thesis by (simp add: strip_escalator_def)
qed

lemma bare_escalators:
  "list_all (\<lambda>n. case find (\<lambda>e. fst e = n) ESCALATORS of None \<Rightarrow> False
     | Some (name, _) \<Rightarrow> name \<noteq> ''su'' \<and> name \<noteq> ''chroot'') [''sudo'', ''doas'', ''pkexec'', ''run0'']"
  by code_simp

lemma strip_escalator_bare:
  assumes "command_basename w \<in> {''sudo'', ''doas'', ''pkexec'', ''run0''}" and "\<not> starts_with ''-'' x"
  shows "strip_escalator (w # x # xs) = Some (UArgv (x # xs))"
proof -
  have "x \<noteq> ''--''" using assms(2) by auto
  then have "escalated name shorts longs (w # x # xs) = x # xs" if "name \<noteq> ''chroot''" "name \<noteq> ''su''" for name shorts longs
    using assms(2) that by (simp add: escalated_def skip_options.simps Let_def)
  moreover from assms(1) bare_escalators obtain name r
    where "find (\<lambda>e. fst e = command_basename w) ESCALATORS = Some (name, r)" "name \<noteq> ''su''" "name \<noteq> ''chroot''"
    unfolding list_all_iff by (fastforce split: option.splits)
  ultimately show ?thesis by (cases r) (simp add: strip_escalator_def)
qed

lemma unwrap_direct:
  assumes "direct_command cmd"
  shows "unwrap_launchers (cmd # ops) cwd = Ok (UArgv (cmd # ops), cwd)"
proof -
  have "launched_argv (cmd # ops) = cmd # ops"
    using assms launched_head by (simp add: direct_command_def launched_argv_def)
  then show ?thesis
    using assms strip_escalator_None [of cmd ops]
    by (subst unwrap_launchers.simps) (auto simp: direct_command_def)
qed

lemma launched_guard_prefix:
  assumes "list_all guard_prefix ws" and "direct_command cmd"
  shows "launched (ws @ cmd # ops) = Some (dropWhile plain_prefix ws @ cmd # ops)"
proof (cases "dropWhile plain_prefix ws")
  case Nil
  then have "list_all plain_prefix ws" by (simp add: list_all_iff)
  with assms(2) launched_plain [of ws cmd ops] Nil show ?thesis by (simp add: direct_command_def)
next
  case (Cons e es)
  have e: "\<not> plain_prefix e" using Cons by (metis hd_dropWhile list.discI list.sel(1))
  moreover have "guard_prefix e"
    using assms(1) Cons by (metis list.set_intros(1) list_all_iff set_dropWhileD)
  ultimately have "shell_wrapper e = None" "\<not> starts_with ''-'' e" "\<not> is_env_assignment e"
    by (auto simp: guard_prefix_def plain_prefix_def)
  moreover have "list_all plain_prefix (takeWhile plain_prefix ws)" by (auto simp: list_all_iff dest: set_takeWhileD)
  ultimately have "launched (takeWhile plain_prefix ws @ e # es @ cmd # ops) = Some (e # es @ cmd # ops)"
    by (intro launched_plain)
  with Cons takeWhile_dropWhile_id [of plain_prefix ws] show ?thesis by (metis append_Cons append_assoc)
qed

lemma unwrap_launched:
  assumes "strip_escalator real = None" "command_basename (real ! 0) \<noteq> ''busybox''" "launched_argv real = rest"
    "rest \<noteq> []" "rest \<noteq> real" "length rest \<le> length real"
  shows "unwrap_launchers real cwd = unwrap_launchers rest (launcher_chdir (take (length real - length rest) real) cwd)"
  using assms by (subst unwrap_launchers.simps) simp

lemma unwrap_guard_prefix:
  assumes "list_all guard_prefix ws" and "direct_command cmd"
  shows "unwrap_launchers (ws @ cmd # ops) cwd = Ok (UArgv (cmd # ops), cwd)"
  using assms(1)
proof (induction "length ws" arbitrary: ws rule: less_induct)
  case less
  show ?case
  proof (cases ws)
    case Nil
    then show ?thesis using unwrap_direct [OF assms(2)] by simp
  next
    case (Cons w us)
    then have w: "guard_prefix w" and us: "list_all guard_prefix us" using less.prems by auto
    have nodash: "list_all (\<lambda>w. \<not> starts_with ''-'' w) ws"
      using less.prems by (auto simp: list_all_iff guard_prefix_def)
    have chdir: "launcher_chdir (take n ws) cwd = cwd" if "0 < n" "command_basename w \<noteq> ''chroot''" for n
      using that Cons launcher_chdir_plain [of w "take (n - 1) us" cwd] nodash
      by (auto simp: take_Cons' list_all_iff dest: in_set_takeD)
    show ?thesis
    proof (cases "plain_prefix w")
      case True
      let ?r = "dropWhile plain_prefix ws"
      have r: "?r = dropWhile plain_prefix us" "length ?r \<le> length us"
        using Cons True length_dropWhile_le [of plain_prefix us] by auto
      have "list_all guard_prefix ?r" using less.prems by (auto simp: list_all_iff dest: set_dropWhileD)
      then have IH: "unwrap_launchers (?r @ cmd # ops) cwd = Ok (UArgv (cmd # ops), cwd)"
        using less.hyps [of ?r] r(2) Cons by simp
      have "command_basename w \<notin> set (''busybox'' # map fst ESCALATORS)"
        using w True by (simp add: guard_prefix_def)
      then have n: "command_basename w \<noteq> ''busybox''" "command_basename w \<noteq> ''chroot''"
        "strip_escalator (ws @ cmd # ops) = None"
        using strip_escalator_None [of w "us @ cmd # ops"] Cons by (auto simp: ESCALATORS_def)
      have "?r \<noteq> ws" "length ?r \<le> length ws" "(ws @ cmd # ops) ! 0 = w"
        using r(2) Cons by (metis impossible_Cons, simp_all)
      then have "unwrap_launchers (ws @ cmd # ops) cwd =
        unwrap_launchers (?r @ cmd # ops) (launcher_chdir (take (length ws - length ?r) ws) cwd)"
        using unwrap_launched [OF n(3), of "?r @ cmd # ops" cwd] n(1)
          launched_guard_prefix [OF less.prems assms(2)] by (simp add: launched_argv_def)
      also have "launcher_chdir (take (length ws - length ?r) ws) cwd = cwd"
        using chdir n(2) r(2) Cons by (metis length_Cons less_Suc_eq_le zero_less_diff)
      finally show ?thesis using IH by simp
    next
      case False
      then have "strip_escalator (ws @ cmd # ops) = Some (UArgv (us @ cmd # ops))"
        using w us assms(2) strip_escalator_bare [of w] Cons
        by (cases us) (auto simp: guard_prefix_def direct_command_def)
      moreover have "launcher_chdir [w] cwd = cwd"
        using chdir [of 1] Cons False w by (auto simp: guard_prefix_def)
      ultimately show ?thesis
        using less.hyps [of us] us Cons by (subst unwrap_launchers.simps) simp
    qed
  qed
qed

section \<open>What the guard refuses\<close>

lemma last_segment_dir:
  assumes "dir = [] \<or> last dir = CHR ''/''" and "CHR ''/'' \<notin> set name" "BSL \<notin> set name"
  shows "last_segment (dir @ name) = name"
proof (cases dir rule: rev_cases)
  case Nil
  then show ?thesis using last_segment_plain assms by simp
next
  case (snoc d c)
  then have "c = CHR ''/''" using assms(1) by simp
  with snoc assms(2,3) show ?thesis
    unfolding last_segment_def by (simp, subst takeWhile_append2) auto
qed

definition dir_prefix :: "string \<Rightarrow> bool" where
  "dir_prefix dir \<longleftrightarrow> (dir = [] \<or> last dir = CHR ''/'') \<and> CHR ''='' \<notin> set dir \<and> \<not> starts_with ''-'' dir"

lemma delete_names:
  "list_all (\<lambda>n. CHR ''/'' \<notin> set n \<and> BSL \<notin> set n \<and> CHR ''='' \<notin> set n \<and> \<not> starts_with ''-'' n \<and>
     direct_command n \<and> command_basename n = n \<and> shell_interpreter_denied n = None \<and> \<not> is_wsl_carrier n)
   DELETE_COMMANDS"
  by code_simp

lemma delete_command_direct:
  assumes "dir_prefix dir" and "name \<in> set DELETE_COMMANDS"
  shows "direct_command (dir @ name)" "command_basename (dir @ name) = name"
    "shell_interpreter_denied (dir @ name) = None" "\<not> is_wsl_carrier (dir @ name)"
proof -
  from delete_names assms(2) have n: "CHR ''/'' \<notin> set name" "BSL \<notin> set name" "CHR ''='' \<notin> set name"
    "\<not> starts_with ''-'' name" "direct_command name" "command_basename name = name"
    "shell_interpreter_denied name = None" "\<not> is_wsl_carrier name"
    by (auto simp: list_all_iff)
  have seg: "last_segment (dir @ name) = last_segment name"
    using last_segment_dir [OF _ n(1,2)] assms(1) by (metis append_Nil dir_prefix_def)
  then have base: "normalized_win_basename (dir @ name) = normalized_win_basename name"
    by (simp add: normalized_win_basename_def argv_basename_def)
  show c: "command_basename (dir @ name) = name"
    using n(6) seg by (simp add: command_basename_def)
  have "\<not> starts_with ''-'' (dir @ name)" using assms(1) n(4) by (cases dir) (auto simp: dir_prefix_def)
  moreover have "\<not> is_env_assignment (dir @ name)"
    using assms(1) n(3) by (simp add: split_once_None [THEN iffD2] is_env_assignment_def dir_prefix_def)
  ultimately show "direct_command (dir @ name)"
    using n(5,6) c base by (simp add: direct_command_def shell_wrapper_def)
  show "shell_interpreter_denied (dir @ name) = None" "\<not> is_wsl_carrier (dir @ name)"
    using n(7,8) base by (simp_all add: shell_interpreter_denied_def is_wsl_carrier_def)
qed

lemma find_some: "x \<in> set xs \<Longrightarrow> P x \<Longrightarrow> \<exists>y. find P xs = Some y"
  by (induction xs) auto

lemma protected_deletion_hit:
  assumes "list_all guard_prefix ws" and "dir_prefix dir" and "name \<in> set DELETE_COMMANDS"
    and "op \<in> set ops" "\<not> is_flag op" "operand_is_protected sd op cwd"
  shows "\<exists>p. argv_hit (Suc n) sd (ws @ (dir @ name) # ops) cwd = Ok (Some \<lparr>og_op = name, og_path = p\<rparr>)"
proof -
  note d = delete_command_direct [OF assms(2,3)]
  have "classify name = Some PathOperands" using assms(3) by (simp add: classify_def)
  moreover have "op \<in> set (List.map_filter operand_candidate ops)"
    using assms(4,5) by (force simp: List.map_filter_def operand_candidate_def)
  then have "\<exists>p. destroyed sd PathOperands ops cwd = Some p"
    using find_some assms(6) by (fastforce simp: destroyed_def)
  ultimately show ?thesis
    using unwrap_guard_prefix [OF assms(1) d(1), of ops cwd] d by (auto simp: Let_def)
qed

text \<open>
  The failsafe is not hidden by launchers: whatever run of environment assignments, wrappers
  and escalators stands in front of a deletion command, under any directory spelling of its name,
  a protected operand makes the guard report a hit for that command.
\<close>

lemma guard_refuses_protected_deletion:
  assumes "list_all guard_prefix ws" and "dir_prefix dir" and "name \<in> set DELETE_COMMANDS"
    and "op \<in> set ops" "\<not> is_flag op" "operand_is_protected sd op cwd"
  shows "\<exists>p. argv_deletion_hit sd (ws @ (dir @ name) # ops) cwd = Ok (Some \<lparr>og_op = name, og_path = p\<rparr>)"
  using protected_deletion_hit [OF assms] by (simp add: argv_deletion_hit_def)

text \<open>
  C11. On rooted POSIX operands the textual checks of the guard decide the intended set: after
  resolving \<open>.\<close>, \<open>..\<close> and repeated separators the path is a disk device, lies in or above a protected
  tree, is or lies above a protected root, or is a critical file.
\<close>

theorem operand_is_protected_posix:
  assumes "posix_path p" and "case cwd of None \<Rightarrow> True | Some c \<Rightarrow> \<not> has_drive (trim_start c)"
  shows "operand_is_protected sd p cwd \<longleftrightarrow>
    is_disk_device (collapse_separators p) \<or> protected_parts (resolved_parts p)"
  by (rule operand_posix [OF assms])

theorem operand_is_protected_posix_witness:
  "operand_is_protected None ''/home/../etc//./passwd'' (Some ''/home/u'') \<and>
   \<not> operand_is_protected None ''/home/u/etc/passwd'' (Some ''/home/u'')"
proof -
  have "posix_path ''/home/../etc//./passwd''" "posix_path ''/home/u/etc/passwd''" by code_simp+
  moreover have "\<not> has_drive (trim_start ''/home/u'')" by code_simp
  moreover have "protected_parts (resolved_parts ''/home/../etc//./passwd'')" by code_simp
  moreover have "\<not> protected_parts (resolved_parts ''/home/u/etc/passwd'')"
    "\<not> is_disk_device (collapse_separators ''/home/u/etc/passwd'')" by code_simp+
  ultimately show ?thesis
    using operand_is_protected_posix [of _ "Some ''/home/u''"] by simp
qed

section \<open>Plain lines\<close>

text \<open>A character that no grammar treats specially.\<close>

definition plain_char :: "char \<Rightarrow> bool" where
  "plain_char c \<longleftrightarrow>
     c \<notin> set ([BSL, BTICK, SQ, DQ, TAB, CR, NL, CHR 0x0B, CHR 0x0C] @ ''^$#><;|&(){} '')"

definition plain_word :: "string \<Rightarrow> bool" where
  "plain_word w \<longleftrightarrow> w \<noteq> [] \<and> list_all plain_char w"

lemma split_go_plain:
  assumes "plain_char c"
  shows "split_go g None w cmds nested (c # s) = split_go g None (words_push c w) cmds nested s"
proof -
  have "c \<noteq> escape_char g" using assms by (cases g) (auto simp: plain_char_def escape_char_def)
  then show ?thesis using assms by (simp add: split_go.simps(2) [of g None w cmds nested c s] plain_char_def)
qed

lemma split_go_word:
  "list_all plain_char t \<Longrightarrow> split_go g None w cmds nested (t @ s) =
   split_go g None (w\<lparr>wd_word := wd_word w @ t, wd_has := wd_has w \<or> t \<noteq> []\<rparr>) cmds nested s"
  by (induction t arbitrary: w) (simp_all add: split_go_plain words_push_def)

lemma split_go_space:
  "split_go g None w cmds nested (CHR '' '' # s) = split_go g None (words_flush w) cmds nested s"
  by (cases g) (simp_all add: split_go.simps(2) [of _ None w cmds nested "CHR '' ''" s] escape_char_def)

lemma split_go_semi:
  "split_go g None w cmds nested (CHR '';'' # s) =
   split_go g None (fst (end_command w cmds)) (snd (end_command w cmds)) nested s"
  by (cases g) (simp_all add: split_go.simps(2) [of _ None w cmds nested "CHR '';''" s] escape_char_def)

text \<open>A command line: words separated by spaces, commands by semicolons.\<close>

definition render_line :: "string list list \<Rightarrow> string" where
  "render_line cmds = join ''; '' (map (join '' '') cmds)"

lemma split_go_words:
  assumes "ws \<noteq> []" "list_all plain_word ws"
  shows "split_go g None \<lparr>wd_current = cur, wd_word = [], wd_has = False, wd_skip = False, wd_level = 0\<rparr> cmds nested
      (join '' '' ws @ s) =
    split_go g None
      \<lparr>wd_current = cur @ butlast ws, wd_word = last ws, wd_has = True, wd_skip = False, wd_level = 0\<rparr> cmds nested s"
  using assms
proof (induction ws arbitrary: cur)
  case (Cons w ws)
  have w: "w \<noteq> []" "list_all plain_char w" using Cons.prems by (auto simp: plain_word_def)
  show ?case
  proof (cases "ws = []")
    case True
    then show ?thesis using w by (simp add: split_go_word)
  next
    case False
    then show ?thesis
      using w Cons.IH [OF False, of "cur @ [w]"] Cons.prems(2)
      by (simp add: join_Cons split_go_word split_go_space words_flush_def)
  qed
qed simp

lemma split_go_line:
  assumes "list_all (\<lambda>ws. ws \<noteq> [] \<and> list_all plain_word ws) cs"
  shows "split_go g None words_default cmds nested (render_line cs) = (cmds @ map (Pair 0) cs, nested)"
  using assms
proof (induction cs arbitrary: cmds)
  case Nil
  then show ?case by (simp add: render_line_def words_default_def end_command_def words_flush_def)
next
  case (Cons c cs)
  have c: "c \<noteq> []" "list_all plain_word c" using Cons.prems by auto
  have e: "end_command \<lparr>wd_current = butlast c, wd_word = last c, wd_has = True, wd_skip = False, wd_level = 0\<rparr> cmds =
    (words_default, cmds @ [(0, c)])"
    using c(1) by (simp add: end_command_def words_flush_def words_default_def)
  show ?case
  proof (cases "cs = []")
    case True
    then show ?thesis
      using split_go_words [OF c, of g "[]" cmds nested "[]"] e
      by (simp add: render_line_def words_default_def)
  next
    case False
    then have r: "render_line (c # cs) = join '' '' c @ CHR '';'' # CHR '' '' # render_line cs"
      by (simp add: render_line_def join_Cons)
    have f: "words_flush words_default = words_default" by (simp add: words_flush_def words_default_def)
    have "split_go g None words_default cmds nested (render_line (c # cs)) =
      split_go g None words_default (cmds @ [(0, c)]) nested (render_line cs)"
      using split_go_words [OF c, of g "[]" cmds nested] e f
      by (simp add: r split_go_semi split_go_space words_default_def)
    with Cons show ?thesis by simp
  qed
qed

text \<open>
  Reading a line back: the words of any sequence of plain commands, written with spaces between
  words and semicolons between commands, are what the line splitter finds, in every grammar.
\<close>

lemma split_line_roundtrip:
  assumes "list_all (\<lambda>ws. ws \<noteq> [] \<and> list_all plain_word ws) cs"
  shows "split_line (render_line cs) g = (map (Pair 0) cs, [])"
  using split_go_line [OF assms, of g "[]" "[]"] by (simp add: split_line_def)

section \<open>Split strings\<close>

lemma split_env_plain:
  "plain_char c \<Longrightarrow> split_env None w ws (c # s) = split_env None (Some (or_default w @ [c])) ws s"
  by (auto simp: plain_char_def)

lemma split_env_word:
  "list_all plain_char t \<Longrightarrow> split_env None (Some u) ws (t @ s) = split_env None (Some (u @ t)) ws s"
  by (induction t arbitrary: u) (simp_all add: split_env_plain or_default_def del: split_env.simps)

lemma split_env_join:
  assumes "list_all plain_word us" "us \<noteq> []"
  shows "split_env None None ws (join '' '' us) = Some (ws @ us)"
  using assms
proof (induction us arbitrary: ws)
  case (Cons u us)
  obtain c t where u: "u = c # t" "plain_char c" "list_all plain_char t"
    using Cons.prems by (cases u) (auto simp: plain_word_def)
  have word: "split_env None None ws (u @ s) = split_env None (Some u) ws s" for s
    using split_env_plain [OF u(2), of None ws "t @ s"] split_env_word [OF u(3), of "[c]" ws s] u(1)
    by (simp add: or_default_def del: split_env.simps)
  show ?case
  proof (cases "us = []")
    case True
    then show ?thesis using word [of "[]"] by (simp add: opt_list_def)
  next
    case False
    then show ?thesis
      using word [of "CHR '' '' # join '' '' us"] Cons.IH [of "ws @ [u]"] Cons.prems
      by (simp add: join_Cons opt_list_def)
  qed
qed simp

lemma split_env_words_join:
  assumes "list_all plain_word ws"
  shows "split_env_words (join '' '' ws) = Some ws"
  using split_env_join [OF assms, of "[]"] by (cases "ws = []") (simp_all add: split_env_words_def opt_list_def)

lemma env_split_string:
  assumes "list_all plain_word ws"
  shows "launched_program [''env'', ''-S'', join '' '' ws] = SplitString (''env'' # ws)"
proof -
  have e: "shell_wrapper ''env'' = Some (''env'', ''uCSPa'', [''unset'', ''chdir'', ''split-string'', ''argv0''])"
    "\<not> is_env_assignment ''env''" "shell_wrapper ''-S'' = None" "\<not> is_env_assignment ''-S''" by code_simp+
  have "option_hit ''uCSPa'' [''unset'', ''chdir'', ''split-string'', ''argv0''] ''-S'' = Some (''S'', None)" by code_simp
  then have "wrapper_option [''env'', ''-S'', join '' '' ws] 1 ''uCSPa'' [''unset'', ''chdir'', ''split-string'', ''argv0''] =
    (Some (''S'', Some (join '' '' ws)), 3)" by (simp add: wrapper_option_def)
  then show ?thesis
    using split_env_words_join [OF assms] e
    by (simp add: launched_program_def launched_from.simps [of _ _ _ 0] launched_from.simps [of _ _ _ 1]
        launched_from.simps [of _ _ _ "Suc 0"])
qed

text \<open>
  C35. A split string with more words than the argument vector stops the guard with a panic instead
  of a decision: \<open>env -S\<close> followed by four or more plain words, the first of which is a direct
  command, makes the slice \<open>real[..real.len() - launched.len()]\<close> underflow.
\<close>

theorem env_split_string_panics:
  assumes "list_all plain_word (cmd # ops)" and "direct_command cmd" and "3 \<le> length ops"
  shows "argv_deletion_hit sd [''env'', ''-S'', join '' '' (cmd # ops)] cwd = Panic"
proof -
  let ?real = "[''env'', ''-S'', join '' '' (cmd # ops)]"
  have "plain_prefix ''env''" by code_simp
  then have "launched (''env'' # cmd # ops) = Some (cmd # ops)"
    using launched_plain [of "[''env'']" cmd ops] assms(2) by (simp add: direct_command_def)
  then have l: "launched_argv ?real = cmd # ops"
    using env_split_string [OF assms(1)] by (simp add: launched_argv_def launched.simps [of ?real])
  have "command_basename ''env'' \<notin> set (''busybox'' # map fst ESCALATORS)" by code_simp
  then have "strip_escalator ?real = None" "command_basename ''env'' \<noteq> ''busybox''"
    using strip_escalator_None by auto
  moreover have more: "length ?real < length (cmd # ops)" using assms(3) by simp
  moreover have "cmd # ops \<noteq> ?real" using more by (metis less_irrefl)
  ultimately have "unwrap_launchers ?real cwd = Panic"
    using l by (subst unwrap_launchers.simps) simp
  then show ?thesis by (simp add: argv_deletion_hit_def)
qed

theorem env_split_string_panics_witness:
  "argv_deletion_hit None [''env'', ''-S'', ''ls a b c''] None = Panic"
proof -
  have "list_all plain_word [''ls'', ''a'', ''b'', ''c'']" by code_simp
  moreover have "direct_command ''ls''" by code_simp
  ultimately show ?thesis
    using env_split_string_panics [of "''ls''" "[''a'', ''b'', ''c'']" None None] by simp
qed

section \<open>Deletions inside a line\<close>

text \<open>A command that the line scan hands to the argument-vector guard as it stands.\<close>

definition scanned_as_is :: "string list \<Rightarrow> bool" where
  "scanned_as_is c \<longleftrightarrow>
     c \<noteq> [] \<and> list_all plain_word c \<and> hd c \<notin> set POSIX_RESERVED \<and>
     command_basename (hd c) \<notin> {''eval'', ''cd'', ''pushd''}"

lemma scan_plain_commands:
  "list_all scanned_as_is cs \<Longrightarrow>
   scan_commands line argv Posix cwd [] (map (Pair 0) cs) = foldr (\<lambda>c later. or_else (argv c cwd) later) cs (Ok None)"
proof (induction cs)
  case (Cons c cs)
  then obtain h t where c: "c = h # t" "h \<notin> set POSIX_RESERVED" "command_basename h \<notin> {''eval'', ''cd'', ''pushd''}"
    by (cases c) (auto simp: scanned_as_is_def)
  then have "\<not> changes_dir (command_basename h) Posix" by (simp add: changes_dir_def)
  with c Cons show ?case by (simp add: enter_level_def Let_def)
qed simp

lemma foldr_or_else_hit:
  assumes "\<forall>c \<in> set pre. \<exists>r. f c = Ok r" and "f c = Ok (Some h)"
  shows "\<exists>h. foldr (\<lambda>c later. or_else (f c) later) (pre @ c # post) (Ok None) = Ok (Some h)"
  using assms(1)
proof (induction pre)
  case Nil
  then show ?case using assms(2) by (simp add: or_else_def)
next
  case (Cons d pre)
  obtain h where h: "foldr (\<lambda>c later. or_else (f c) later) (pre @ c # post) (Ok None) = Ok (Some h)" using Cons by auto
  obtain r where "f d = Ok r" using Cons.prems by auto
  with h show ?case by (cases r) (auto simp: or_else_def)
qed

text \<open>A line of such commands is scanned command by command, in every POSIX shell.\<close>

lemma scan_plain_line:
  assumes "list_all scanned_as_is cs" and "of_shell shell = Posix"
  shows "shell_line_deletion_hit sd (render_line cs) shell cwd =
    foldr (\<lambda>c later. or_else (argv_hit MAX_NESTING sd c cwd) later) cs (Ok None)"
proof -
  have "list_all (\<lambda>ws. ws \<noteq> [] \<and> list_all plain_word ws) cs"
    using assms(1) unfolding list_all_iff scanned_as_is_def by blast
  from split_line_roundtrip [OF this, of Posix] scan_plain_commands [OF assms(1)] assms(2) show ?thesis
    by (simp add: shell_line_deletion_hit_def or_else_def)
qed

lemma line_deletion_hit:
  assumes "list_all scanned_as_is (pre @ (ws @ (dir @ name) # ops) # post)" and "of_shell shell = Posix"
    and "list_all guard_prefix ws" and "dir_prefix dir" and "name \<in> set DELETE_COMMANDS"
    and "op \<in> set ops" "\<not> is_flag op" "operand_is_protected sd op cwd"
    and "\<forall>c \<in> set pre. \<exists>r. argv_hit MAX_NESTING sd c cwd = Ok r"
  shows "\<exists>h. shell_line_deletion_hit sd (render_line (pre @ (ws @ (dir @ name) # ops) # post)) shell cwd = Ok (Some h)"
proof -
  obtain p where "argv_hit MAX_NESTING sd (ws @ (dir @ name) # ops) cwd = Ok (Some \<lparr>og_op = name, og_path = p\<rparr>)"
    using protected_deletion_hit [OF assms(3-8), of 15] by (auto simp: MAX_NESTING_def)
  with foldr_or_else_hit [of pre "\<lambda>c. argv_hit MAX_NESTING sd c cwd" "ws @ (dir @ name) # ops"] assms(9)
  show ?thesis unfolding scan_plain_line [OF assms(1,2)] by blast
qed

text \<open>
  C10. A deletion among other commands of a plain POSIX shell line is found. The line is made of
  commands of plain words separated by semicolons, none of them a reserved word, \<open>eval\<close> or a change of
  directory. One of them is a deletion command, behind launchers that take no options and whose
  names the guard does not mistake for something else, with a protected operand. Then the line guard
  reports a hit, whatever the other commands are, as long as it does not panic on an earlier one.
\<close>

theorem line_guard_refuses_protected_deletion:
  assumes "list_all scanned_as_is (pre @ (ws @ (dir @ name) # ops) # post)" and "of_shell shell = Posix"
    and "list_all guard_prefix ws" and "dir_prefix dir" and "name \<in> set DELETE_COMMANDS"
    and "op \<in> set ops" "\<not> is_flag op" "operand_is_protected sd op cwd"
    and "\<forall>c \<in> set pre. \<exists>r. argv_hit MAX_NESTING sd c cwd = Ok r"
  shows "\<exists>h. shell_line_deletion_hit sd (render_line (pre @ (ws @ (dir @ name) # ops) # post)) shell cwd = Ok (Some h)"
  by (rule line_deletion_hit [OF assms])

theorem line_guard_refuses_protected_deletion_witness:
  "\<exists>h. shell_line_deletion_hit None ''ls /tmp; sudo rm -rf /etc/passwd; id'' ''bash'' None = Ok (Some h)"
proof -
  have "list_all scanned_as_is [[''ls'', ''/tmp''], [''sudo'', ''rm'', ''-rf'', ''/etc/passwd''], [''id'']]" by code_simp
  moreover have "list_all guard_prefix [''sudo'']" "dir_prefix []" "''rm'' \<in> set DELETE_COMMANDS"
    "of_shell ''bash'' = Posix" by code_simp+
  moreover have "\<not> is_flag ''/etc/passwd''" "operand_is_protected None ''/etc/passwd'' None" by code_simp+
  moreover have "direct_command ''ls''" "shell_interpreter_denied ''ls'' = None" "\<not> is_wsl_carrier ''ls''"
    "classify (command_basename ''ls'') = None" by code_simp+
  then have "argv_hit MAX_NESTING None [''ls'', ''/tmp''] None = Ok None"
    using unwrap_direct [of "''ls''" "[''/tmp'']" None] by (simp add: MAX_NESTING_def numeral_eq_Suc Let_def)
  ultimately show ?thesis
    using line_guard_refuses_protected_deletion [of "[[''ls'', ''/tmp'']]" "[''sudo'']" "[]" "''rm''"
        "[''-rf'', ''/etc/passwd'']" "[[''id'']]" "''bash''" "''/etc/passwd''" None None] by (simp add: render_line_def)
qed

lemma render_single: "render_line [c] = join '' '' c"
  by (simp add: render_line_def)

section \<open>The verdict on plain lines\<close>

text \<open>
  A command by its parts: the launchers in front, the program and its operands. The program is run
  as it is, and is no interpreter whose own command line would be scanned.
\<close>

type_synonym command_parts = "string list \<times> string \<times> string list"

fun command_words :: "command_parts \<Rightarrow> string list" where
  "command_words (ws, cmd, ops) = ws @ cmd # ops"

fun runs_directly :: "command_parts \<Rightarrow> bool" where
  "runs_directly (ws, cmd, ops) \<longleftrightarrow>
     scanned_as_is (ws @ cmd # ops) \<and> list_all guard_prefix ws \<and> direct_command cmd \<and>
     shell_interpreter_denied cmd = None \<and> \<not> is_wsl_carrier cmd"

text \<open>What the line destroys: the first destructive command with a protected target, and that target.\<close>

fun first_destroyed :: "string option \<Rightarrow> string option \<Rightarrow> command_parts list \<Rightarrow> os_guard_hit option" where
  "first_destroyed sd cwd [] = None"
| "first_destroyed sd cwd ((ws, cmd, ops) # cs) =
     (case Option.bind (classify (command_basename cmd)) (\<lambda>kind. destroyed sd kind ops cwd) of
        Some p \<Rightarrow> Some \<lparr>og_op = command_basename cmd, og_path = p\<rparr>
      | None \<Rightarrow> first_destroyed sd cwd cs)"

lemma argv_hit_direct:
  assumes "runs_directly (ws, cmd, ops)"
  shows "argv_hit (Suc n) sd (ws @ cmd # ops) cwd =
    Ok (map_option (\<lambda>p. \<lparr>og_op = command_basename cmd, og_path = p\<rparr>)
      (Option.bind (classify (command_basename cmd)) (\<lambda>kind. destroyed sd kind ops cwd)))"
  using assms unwrap_guard_prefix [of ws cmd ops cwd] by (cases "classify (command_basename cmd)") (simp_all add: Let_def)

text \<open>
  C12. On lines of plain commands that run directly the guard is exact: it reports the first
  destructive command of the line whose target is protected, with that target, and nothing when
  there is none. So every refusal of such a line names a command of the line and one of its operands, and
  none is missed.
\<close>

theorem plain_line_verdict:
  assumes "list_all runs_directly cs" and "of_shell shell = Posix"
  shows "shell_line_deletion_hit sd (render_line (map command_words cs)) shell cwd = Ok (first_destroyed sd cwd cs)"
proof -
  have "list_all scanned_as_is (map command_words cs)" using assms(1) by (induction cs) auto
  note scan = scan_plain_line [OF this assms(2)]
  have n: "MAX_NESTING = Suc 15" by (simp add: MAX_NESTING_def)
  have "foldr (\<lambda>c later. or_else (argv_hit MAX_NESTING sd c cwd) later) (map command_words cs) (Ok None) =
      Ok (first_destroyed sd cwd cs)"
    using assms(1)
  proof (induction cs)
    case (Cons c cs)
    obtain ws cmd ops where c: "c = (ws, cmd, ops)" by (cases c) auto
    with Cons argv_hit_direct [of ws cmd ops 15 sd cwd] show ?case
      by (cases "Option.bind (classify (command_basename cmd)) (\<lambda>kind. destroyed sd kind ops cwd)")
        (simp_all add: or_else_def n del: argv_hit.simps)
  qed simp
  with scan show ?thesis by simp
qed

theorem plain_line_verdict_witness:
  "shell_line_deletion_hit None ''ls /etc; rm -r /tmp/x; sudo dd of=/dev/sda if=x; rm /usr'' ''sh'' None =
     Ok (Some \<lparr>og_op = ''dd'', og_path = ''/dev/sda''\<rparr>) \<and>
   shell_line_deletion_hit None ''ls /etc; rm -r /tmp/x'' ''sh'' None = Ok None"
proof -
  let ?a = "[([], ''ls'', [''/etc'']), ([], ''rm'', [''-r'', ''/tmp/x''])]"
  let ?b = "?a @ [([''sudo''], ''dd'', [''of=/dev/sda'', ''if=x'']), ([], ''rm'', [''/usr''])]"
  have "list_all runs_directly ?b" "of_shell ''sh'' = Posix" by code_simp+
  moreover have "first_destroyed None None ?b = Some \<lparr>og_op = ''dd'', og_path = ''/dev/sda''\<rparr>"
    "first_destroyed None None ?a = None" by code_simp+
  ultimately show ?thesis
    using plain_line_verdict [of ?b "''sh''" None None] plain_line_verdict [of ?a "''sh''" None None]
    by (simp add: render_line_def)
qed

section \<open>Two ways past the guard\<close>

lemma strip_escalator_chroot:
  assumes "command_basename w = ''chroot''" and "\<not> starts_with ''-'' x"
  shows "strip_escalator (w # x # xs) = Some (UArgv xs)"
proof -
  have "case find (\<lambda>e. fst e = ''chroot'') ESCALATORS of None \<Rightarrow> False | Some (name, _) \<Rightarrow> name = ''chroot''" by code_simp
  then obtain shorts longs where f: "find (\<lambda>e. fst e = ''chroot'') ESCALATORS = Some (''chroot'', shorts, longs)"
    by (auto split: option.splits)
  have "x \<noteq> ''--''" using assms(2) by auto
  then have "escalated ''chroot'' shorts longs (w # x # xs) = xs"
    using assms(2) by (simp add: escalated_def skip_options.simps Let_def)
  with f assms(1) show ?thesis by (simp add: strip_escalator_def)
qed

text \<open>
  C36. An environment assignment whose value ends in \<open>/chroot\<close> is taken for the escalator of that
  name: the deletion command that follows is dropped as its new root and the deletion is not
  reported, for any deletion command, any first operand that is not itself the name of a launcher,
  an interpreter or a destructive command, and any further words. Without the assignment, a
  protected first operand is reported.
\<close>

theorem chroot_assignment_hides_deletion:
  assumes "is_env_assignment w" and "command_basename w = ''chroot''"
    and "dir_prefix dir" and "name \<in> set DELETE_COMMANDS"
    and "scanned_as_is (w # (dir @ name) # op # ops)" and "scanned_as_is ((dir @ name) # op # ops)"
    and "direct_command op" and "classify (command_basename op) = None"
    and "shell_interpreter_denied op = None" and "\<not> is_wsl_carrier op" and "of_shell shell = Posix"
  shows "shell_line_deletion_hit sd (join '' '' (w # (dir @ name) # op # ops)) shell cwd = Ok None \<and>
    (\<not> is_flag op \<and> operand_is_protected sd op cwd \<longrightarrow>
      (\<exists>h. shell_line_deletion_hit sd (join '' '' ((dir @ name) # op # ops)) shell cwd = Ok (Some h)))"
proof (intro conjI impI)
  have "\<not> starts_with ''-'' (dir @ name)"
    using delete_command_direct(1) [OF assms(3,4)] by (simp add: direct_command_def)
  from strip_escalator_chroot [OF assms(2) this, of "op # ops"]
  obtain cwd' where "unwrap_launchers (w # (dir @ name) # op # ops) cwd = Ok (UArgv (op # ops), cwd')"
    using unwrap_direct [OF assms(7), of ops] by (simp add: unwrap_launchers.simps [of "w # _"])
  then have "argv_hit MAX_NESTING sd (w # (dir @ name) # op # ops) cwd = Ok None"
    using assms(8-10) by (simp add: MAX_NESTING_def numeral_eq_Suc Let_def)
  with scan_plain_line [of "[w # (dir @ name) # op # ops]", unfolded render_single] assms(5,11)
  show "shell_line_deletion_hit sd (join '' '' (w # (dir @ name) # op # ops)) shell cwd = Ok None"
    by (simp add: or_else_def del: join.simps)
next
  assume "\<not> is_flag op \<and> operand_is_protected sd op cwd"
  with line_deletion_hit [of "[]" "[]" dir name "op # ops" "[]" shell op sd cwd, unfolded append_Nil render_single]
    assms(3,4,6,11)
  show "\<exists>h. shell_line_deletion_hit sd (join '' '' ((dir @ name) # op # ops)) shell cwd = Ok (Some h)"
    by (simp del: join.simps)
qed

theorem chroot_assignment_hides_deletion_witness:
  "shell_line_deletion_hit None ''A=/srv/chroot rm /etc/passwd'' ''sh'' None = Ok None \<and>
   (\<exists>h. shell_line_deletion_hit None ''rm /etc/passwd'' ''sh'' None = Ok (Some h))"
proof -
  have "is_env_assignment ''A=/srv/chroot''" "command_basename ''A=/srv/chroot'' = ''chroot''" "dir_prefix []"
    "''rm'' \<in> set DELETE_COMMANDS" "scanned_as_is [''A=/srv/chroot'', ''rm'', ''/etc/passwd'']"
    "scanned_as_is [''rm'', ''/etc/passwd'']" "direct_command ''/etc/passwd''"
    "classify (command_basename ''/etc/passwd'') = None" "shell_interpreter_denied ''/etc/passwd'' = None"
    "\<not> is_wsl_carrier ''/etc/passwd''" "of_shell ''sh'' = Posix" "\<not> is_flag ''/etc/passwd''"
    "operand_is_protected None ''/etc/passwd'' None" by code_simp+
  then show ?thesis
    using chroot_assignment_hides_deletion [of "''A=/srv/chroot''" "[]" "''rm''" "''/etc/passwd''" "[]" "''sh''" None None]
    by simp
qed

text \<open>
  Parent components are not resolved on Windows spellings: trimming trailing dots of every
  component turns \<open>..\<close> into an empty one, so that a path through a sibling directory escapes the
  protected set, while the direct spelling does not.
\<close>

lemma windows_parent_not_resolved:
  "is_os_critical_path None ''C:/Windows/System32'' \<and> \<not> is_os_critical_path None ''C:/Users/../Windows/System32'' \<and>
   \<not> is_os_critical_path None ''/mnt/c/x/../windows/system32''"
  by code_simp

end
