(* ===== verification/TC_Policy.thy ===== *)
theory TC_Policy
imports TC_Governor TC_Os_Guard
begin

text \<open>
  The policy engine (\<open>daemon/src/policy.rs\<close>, POSIX build): the profiles and capabilities, the deny
  tables, the scan of a shell line for denied commands, the path globs and their translation to
  regular expressions, the lexical canonicalisation of a path, the engine with its constructors and
  \<open>evaluate\<close>. Three things outside the sources are arguments: \<open>canon\<close>, the file system's
  \<open>canonicalize\<close>; \<open>rx\<close>, the regex crate; and \<open>sd\<close>, the \<open>SystemDrive\<close> variable of the OS guard.
\<close>

section \<open>Decisions, actions, capabilities\<close>

datatype PolicyDecision = Allow | Deny | AllowWithAudit | DecisionError

definition policy_config :: string where
  "policy_config =
     ''the daemon config (the '' @ backquoted ''--config'' @ '' file, else terminal-commander.toml in the data dir)''"

definition profile_change_hint :: "PolicyProfile \<Rightarrow> string" where
  "profile_change_hint profile =
     (if profile = FullAccess then
        ''This daemon runs the '' @ backquoted ''full_access'' @ '' profile (the default, which allows everything), so a '' @
        backquoted ''[policy.caps]'' @ '' false override in '' @ policy_config @ '' denies this; remove it.''
      else
        ''This daemon runs the '' @ backquoted (profile_str profile) @
        '' profile (default is full_access, which allows everything); to change it set '' @
        backquoted (''[policy] profile = '' @ [DQ] @ ''full_access'' @ [DQ]) @ '' (and drop any '' @
        backquoted ''[policy.caps]'' @ '' false override) in '' @ policy_config @ ''.'')"

datatype PolicyAction =
    CommandStart "string list" string
  | CommandShellStart string string string
  | SessionStart string string
  | CommandStdin
  | CommandSignal
  | FileRead string
  | FileWatch string
  | FileWrite string
  | ProbeCreate string
  | RegistryCreate
  | RegistryActivate
  | BucketWait
  | BucketRead
  | EventContext

record PolicyVerdict =
  pv_decision :: PolicyDecision
  pv_reason :: string

definition deny :: "string \<Rightarrow> PolicyVerdict" where
  "deny reason = \<lparr>pv_decision = Deny, pv_reason = reason\<rparr>"

definition SHELL_WITHHELD_BY_ALLOW_ROOTS :: string where
  "SHELL_WITHHELD_BY_ALLOW_ROOTS =
     ''allow_shell is off because [policy.commands] allow_roots confines commands; set [policy.caps] '' @
     ''allow_shell = true explicitly to enable shell_exec''"

record PolicyCaps =
  cap_shell :: bool
  cap_session :: bool
  cap_privileged :: bool
  cap_remote :: bool

definition no_caps :: PolicyCaps where
  "no_caps = \<lparr>cap_shell = False, cap_session = False, cap_privileged = False, cap_remote = False\<rparr>"

definition default_for_profile :: "PolicyProfile \<Rightarrow> PolicyCaps" where
  "default_for_profile profile =
     (case profile of
        FullAccess \<Rightarrow> \<lparr>cap_shell = True, cap_session = True, cap_privileged = True, cap_remote = True\<rparr>
      | DeveloperLocal \<Rightarrow> \<lparr>cap_shell = True, cap_session = False, cap_privileged = False, cap_remote = False\<rparr>
      | _ \<Rightarrow> no_caps)"

definition COMMANDS_DENY :: "string list" where
  "COMMANDS_DENY = [''sudo'', ''doas'', ''su'', ''pkexec'', ''kexec'', ''polkit-agent'', ''polkit-auth-agent-1'']"

section \<open>Denied commands in a shell line\<close>

definition SHELL_COMMAND_PREFIX_WORDS :: "string list" where
  "SHELL_COMMAND_PREFIX_WORDS = [''command'', ''exec'', ''env'', ''nohup'', ''time'']"

definition denied_command_basename :: "string \<Rightarrow> string option" where
  "denied_command_basename command =
     (let base = (if last_segment command = [] then command else last_segment command)
      in find (\<lambda>denied. denied = base) COMMANDS_DENY)"

definition shell_word_is_assignment :: "string \<Rightarrow> bool" where
  "shell_word_is_assignment word \<longleftrightarrow>
     (case split_once CHR ''='' word of
        None \<Rightarrow> False
      | Some (name, _) \<Rightarrow>
          (case name of
             [] \<Rightarrow> False
           | first # rest \<Rightarrow>
               (first = CHR ''_'' \<or> is_alpha first) \<and> list_all (\<lambda>ch. ch = CHR ''_'' \<or> is_alnum ch) rest))"

record shell_scan =
  ss_word :: string
  ss_expect_command :: bool
  ss_prefix_active :: bool
  ss_skip_redirect :: bool

definition finish_shell_word :: "shell_scan \<Rightarrow> shell_scan \<times> string option" where
  "finish_shell_word st =
     (if ss_word st = [] then (st, None)
      else
        let current = ss_word st; st1 = st\<lparr>ss_word := []\<rparr> in
        if ss_skip_redirect st then (st1\<lparr>ss_skip_redirect := False\<rparr>, None)
        else if \<not> ss_expect_command st then (st1, None)
        else if shell_word_is_assignment current then (st1, None)
        else case denied_command_basename current of
          Some denied \<Rightarrow> (st1, Some denied)
        | None \<Rightarrow>
            if current \<in> set SHELL_COMMAND_PREFIX_WORDS then (st1\<lparr>ss_prefix_active := True\<rparr>, None)
            else if ss_prefix_active st \<and> starts_with ''-'' current then (st1, None)
            else (st1\<lparr>ss_expect_command := False, ss_prefix_active := False\<rparr>, None))"

definition next_command :: "shell_scan \<Rightarrow> shell_scan" where
  "next_command st = st\<lparr>ss_expect_command := True, ss_prefix_active := False\<rparr>"

definition push_word :: "string \<Rightarrow> shell_scan \<Rightarrow> shell_scan" where
  "push_word ch st = st\<lparr>ss_word := ss_word st @ ch\<rparr>"

text \<open>Drop the next character if it is one of the given ones.\<close>

definition skip_char :: "string list \<Rightarrow> string list \<Rightarrow> string list" where
  "skip_char cs s = (case s of [] \<Rightarrow> [] | c # s' \<Rightarrow> if c \<in> set cs then s' else s)"

lemma skip_char_length: "length (skip_char cs s) \<le> length s"
  by (simp add: skip_char_def split: list.splits)

lemma skip_chars_length: "length (skip_char cs (skip_char ds s)) < Suc (length s)"
  "length (skip_char cs (drop 1 s)) < Suc (length s)" "length (drop 1 (dropWhile P s)) < Suc (length s)"
  using skip_char_length [of cs "skip_char ds s"] skip_char_length [of ds s] skip_char_length [of cs "drop 1 s"]
    length_dropWhile_le [of P s] by simp_all

text \<open>The scan goes over the characters of the line: the two quote flags, the word state, the rest.\<close>

function scan_shell_line :: "bool \<Rightarrow> bool \<Rightarrow> shell_scan \<Rightarrow> string list \<Rightarrow> string option" where
  "scan_shell_line single dbl st [] = snd (finish_shell_word st)"
| "scan_shell_line single dbl st (ch # cs) =
     (if single then
        if ch = [SQ] then scan_shell_line False dbl st cs else scan_shell_line True dbl (push_word ch st) cs
      else if dbl then
        if ch = [DQ] then scan_shell_line single False st cs
        else if ch = [BSL] then
          scan_shell_line single True (if cs = [] then st else push_word (hd cs) st) (drop 1 cs)
        else if ch = ''$'' \<and> cs \<noteq> [] \<and> hd cs = ''('' then
          (case finish_shell_word st of
             (_, Some denied) \<Rightarrow> Some denied
           | (st', None) \<Rightarrow> scan_shell_line single True (next_command st') (drop 1 cs))
        else scan_shell_line single True (push_word ch st) cs
      else if ch = [SQ] then scan_shell_line True False st cs
      else if ch = [DQ] then scan_shell_line False True st cs
      else if ch = [BSL] then
        scan_shell_line False False (if cs = [] then st else push_word (hd cs) st) (drop 1 cs)
      else if ch = ''#'' \<and> ss_word st = [] then
        (let rest = dropWhile (\<lambda>c. c \<noteq> [NL]) cs in
         scan_shell_line False False (if rest = [] then st else next_command st) (drop 1 rest))
      else if ch \<in> {[NL], '';'', ''|'', ''&'', ''('', '')''} then
        (case finish_shell_word st of
           (_, Some denied) \<Rightarrow> Some denied
         | (st', None) \<Rightarrow> scan_shell_line False False (next_command st') cs)
      else if ch = ''<'' \<or> ch = ''>'' then
        (case finish_shell_word st of
           (_, Some denied) \<Rightarrow> Some denied
         | (st', None) \<Rightarrow>
             scan_shell_line False False (st'\<lparr>ss_skip_redirect := True\<rparr>) (skip_char [''&''] (skip_char [''<'', ''>''] cs)))
      else if length ch = 1 \<and> is_digit (hd ch) \<and> ss_word st = [] \<and> cs \<noteq> [] \<and> hd cs \<in> {''<'', ''>''} then
        scan_shell_line False False (st\<lparr>ss_skip_redirect := True\<rparr>) (skip_char [''&''] (drop 1 cs))
      else if ch = ''$'' \<and> cs \<noteq> [] \<and> hd cs = ''('' then
        (case finish_shell_word st of
           (_, Some denied) \<Rightarrow> Some denied
         | (st', None) \<Rightarrow> scan_shell_line False False (next_command st') (drop 1 cs))
      else if is_whitespace ch then
        (case finish_shell_word st of
           (_, Some denied) \<Rightarrow> Some denied
         | (st', None) \<Rightarrow> scan_shell_line False False st' cs)
      else scan_shell_line False False (push_word ch st) cs)"
  by pat_completeness auto

termination
  by (relation "measure (\<lambda>(a, b, st, s). length s)") (auto simp: skip_chars_length [simplified])

declare scan_shell_line.simps(2) [simp del]

definition denied_command_in_shell_line :: "string \<Rightarrow> string option" where
  "denied_command_in_shell_line line =
     scan_shell_line False False
       \<lparr>ss_word = [], ss_expect_command = True, ss_prefix_active = False, ss_skip_redirect = False\<rparr> (chars line)"

section \<open>Paths\<close>

definition DEFAULT_DENY_PATH_SUFFIXES :: "string list" where
  "DEFAULT_DENY_PATH_SUFFIXES =
     [''.ssh/id_rsa'', ''.ssh/id_ed25519'', ''.ssh/id_ecdsa'', ''/etc/shadow'', ''/etc/sudoers'', ''.pgpass'', ''.netrc'',
      ''.aws/credentials'', ''.aws/config'', ''.kube/config'', ''.docker/config.json'', ''.npmrc'', ''.pypirc'',
      ''.vault-token'']"

definition DEFAULT_DENY_PATH_TREES :: "string list" where
  "DEFAULT_DENY_PATH_TREES =
     [''/.ssh/'', ''/.gnupg/'', ''/.config/gcloud/'', ''/etc/sudoers.d/'', ''/etc/ssl/private/'', ''/.mozilla/'',
      ''/.config/google-chrome/'', ''/.config/chromium/'', ''/.config/op/'', ''/.config/bw/'']"

definition DEFAULT_DENY_PATH_PREFIXES :: "string list" where
  "DEFAULT_DENY_PATH_PREFIXES = [''/etc/ssh/ssh_host_'']"

definition normalize_policy_text :: "string \<Rightarrow> string" where
  "normalize_policy_text input = input"

definition path_default_denied :: "string \<Rightarrow> bool" where
  "path_default_denied path \<longleftrightarrow>
     (let normalized = normalize_policy_text path in
      list_ex (\<lambda>suffix. ends_with suffix normalized) DEFAULT_DENY_PATH_SUFFIXES \<or>
      list_ex (\<lambda>tree. contains tree normalized \<or> ends_with (trim_end_matches ''/'' tree) normalized)
        DEFAULT_DENY_PATH_TREES \<or>
      list_ex (\<lambda>pre. contains pre normalized) DEFAULT_DENY_PATH_PREFIXES)"

text \<open>
  The components of a POSIX path: its lead (the root, a leading \<open>.\<close>, or nothing) and the named
  parts. \<open>spell\<close> is the path with these components.
\<close>

datatype path_lead = Rooted | Dotted | Bare

definition lead_of :: "string \<Rightarrow> path_lead" where
  "lead_of p =
     (if is_rooted p then Rooted
      else if hd (split_on CHR ''/'' p) = ''.'' then Dotted
      else Bare)"

definition spell :: "path_lead \<Rightarrow> string list \<Rightarrow> string" where
  "spell lead parts =
     (case lead of
        Rooted \<Rightarrow> ''/'' @ join ''/'' parts
      | Dotted \<Rightarrow> join ''/'' (''.'' # parts)
      | Bare \<Rightarrow> join ''/'' parts)"

definition path_components :: "string \<Rightarrow> string list" where
  "path_components p =
     (case lead_of p of Rooted \<Rightarrow> [''/''] | Dotted \<Rightarrow> [''.''] | Bare \<Rightarrow> []) @ path_parts p"

definition path_starts_with :: "string \<Rightarrow> string \<Rightarrow> bool" where
  "path_starts_with p base \<longleftrightarrow> prefix (path_components base) (path_components p)"

text \<open>\<open>PathBuf::push\<close> of a relative name.\<close>

definition path_push :: "string \<Rightarrow> string \<Rightarrow> string" where
  "path_push base name = (if base = [] \<or> last base = CHR ''/'' then base @ name else base @ ''/'' @ name)"

text \<open>
  The walk of \<open>canonicalize_lexical\<close> towards the root, with the parts still to be dropped last first
  and the names already dropped. \<open>file_name\<close> is \<open>None\<close> on \<open>..\<close>, so such a part leaves no name. The
  file system is asked about the ancestor in its normalised spelling.
\<close>

fun canon_walk :: "(string \<Rightarrow> string option) \<Rightarrow> path_lead \<Rightarrow> string list \<Rightarrow> string list \<Rightarrow> string option" where
  "canon_walk canon lead [] tail =
     (if lead = Dotted then map_option (\<lambda>base. foldl path_push base tail) (canon []) else None)"
| "canon_walk canon lead (x # xs) tail =
     (let tail' = (if x = ''..'' then tail else x # tail) in
      case canon (spell lead (rev xs)) of
        Some base \<Rightarrow> Some (foldl path_push base tail')
      | None \<Rightarrow> canon_walk canon lead xs tail')"

definition canonicalize_lexical :: "(string \<Rightarrow> string option) \<Rightarrow> string \<Rightarrow> string" where
  "canonicalize_lexical canon candidate =
     (case canon candidate of
        Some c \<Rightarrow> c
      | None \<Rightarrow>
          (case canon_walk canon (lead_of candidate) (rev (path_parts candidate)) [] of
             Some out \<Rightarrow> out
           | None \<Rightarrow> candidate))"

section \<open>Globs\<close>

text \<open>The interface of the regex crate: \<open>Regex::new\<close>, \<open>is_match\<close> and \<open>escape\<close>.\<close>

record 'r regex_crate =
  rx_new :: "string \<Rightarrow> 'r option"
  rx_is_match :: "'r \<Rightarrow> string \<Rightarrow> bool"
  rx_escape :: "string \<Rightarrow> string"

text \<open>The loop of \<open>glob_to_regex_src\<close> over the characters of the glob.\<close>

fun glob_body :: "(string \<Rightarrow> string) \<Rightarrow> string list \<Rightarrow> string" where
  "glob_body escape [] = []"
| "glob_body escape (ch # cs) =
     (if ch = ''*'' then
        (case cs of
           [] \<Rightarrow> ''[^/]*''
         | c # cs' \<Rightarrow> if c = ''*'' then ''.*'' @ glob_body escape cs' else ''[^/]*'' @ glob_body escape cs)
      else if ch = ''?'' then ''[^/]'' @ glob_body escape cs
      else escape ch @ glob_body escape cs)"

definition glob_to_regex_src :: "(string \<Rightarrow> string) \<Rightarrow> string \<Rightarrow> string" where
  "glob_to_regex_src escape glob = ''^'' @ glob_body escape (chars glob) @ ''$''"

record 'r GlobList =
  gl_configured :: nat
  gl_regexes :: "'r list"
  gl_had_compile_error :: bool

definition glob_default :: "'r GlobList" where
  "glob_default = \<lparr>gl_configured = 0, gl_regexes = [], gl_had_compile_error = False\<rparr>"

definition compile :: "'r regex_crate \<Rightarrow> string list \<Rightarrow> 'r GlobList" where
  "compile rx globs =
     (let compiled = map (\<lambda>g. rx_new rx (glob_to_regex_src (rx_escape rx) (normalize_policy_text g))) globs
      in \<lparr>gl_configured = length globs, gl_regexes = List.map_filter id compiled,
          gl_had_compile_error = (None \<in> set compiled)\<rparr>)"

definition is_configured :: "'r GlobList \<Rightarrow> bool" where
  "is_configured l \<longleftrightarrow> 0 < gl_configured l"

definition matches :: "'r regex_crate \<Rightarrow> 'r GlobList \<Rightarrow> string \<Rightarrow> bool" where
  "matches rx l path \<longleftrightarrow> list_ex (\<lambda>re. rx_is_match rx re (normalize_policy_text path)) (gl_regexes l)"

definition allows :: "'r regex_crate \<Rightarrow> 'r GlobList \<Rightarrow> string \<Rightarrow> bool" where
  "allows rx l path \<longleftrightarrow> (if \<not> is_configured l then True else matches rx l path)"

section \<open>The engine\<close>

record 'r PolicyEngine =
  pe_profile :: PolicyProfile
  pe_repo_root :: "string option"
  pe_command_allow_roots :: "string list option"
  pe_read_allow :: "'r GlobList"
  pe_watch_allow :: "'r GlobList"
  pe_write_allow :: "'r GlobList"
  pe_deny_extra :: "'r GlobList"
  pe_caps :: PolicyCaps
  pe_probe_allow_kinds :: "string list"
  pe_probe_deny_kinds :: "string list"
  pe_llm_can_activate_recipes :: "bool option"
  pe_shell_withheld_by_allow_roots :: bool
  pe_governor :: "Governor option"

definition new_engine :: "PolicyProfile \<Rightarrow> 'r PolicyEngine" where
  "new_engine profile =
     \<lparr>pe_profile = profile, pe_repo_root = None, pe_command_allow_roots = None, pe_read_allow = glob_default,
      pe_watch_allow = glob_default, pe_write_allow = glob_default, pe_deny_extra = glob_default,
      pe_caps = default_for_profile profile, pe_probe_allow_kinds = [], pe_probe_deny_kinds = [],
      pe_llm_can_activate_recipes = None, pe_shell_withheld_by_allow_roots = False, pe_governor = None\<rparr>"

definition canonical_or_raw :: "(string \<Rightarrow> string option) \<Rightarrow> string \<Rightarrow> string" where
  "canonical_or_raw canon p = (case canon p of Some c \<Rightarrow> c | None \<Rightarrow> p)"

definition with_repo_root :: "(string \<Rightarrow> string option) \<Rightarrow> PolicyProfile \<Rightarrow> string \<Rightarrow> 'r PolicyEngine" where
  "with_repo_root canon profile repo_root =
     (new_engine profile)\<lparr>pe_repo_root := Some (canonical_or_raw canon repo_root), pe_caps := no_caps\<rparr>"

definition with_config ::
  "(string \<Rightarrow> string option) \<Rightarrow> PolicyProfile \<Rightarrow> string option \<Rightarrow> string list option \<Rightarrow> 'r PolicyEngine" where
  "with_config canon profile repo_root command_allow_roots =
     (new_engine profile)
       \<lparr>pe_repo_root := map_option (canonical_or_raw canon) repo_root,
        pe_command_allow_roots := (if command_allow_roots = Some [] then None else command_allow_roots)\<rparr>"

definition with_paths ::
  "'r regex_crate \<Rightarrow> string list \<Rightarrow> string list \<Rightarrow> string list \<Rightarrow> string list \<Rightarrow> 'r PolicyEngine \<Rightarrow> 'r PolicyEngine" where
  "with_paths rx read_allow watch_allow write_allow deny_extra e =
     e\<lparr>pe_read_allow := compile rx read_allow, pe_watch_allow := compile rx watch_allow,
       pe_write_allow := compile rx write_allow, pe_deny_extra := compile rx deny_extra\<rparr>"

definition with_probe_kinds :: "string list \<Rightarrow> string list \<Rightarrow> 'r PolicyEngine \<Rightarrow> 'r PolicyEngine" where
  "with_probe_kinds allow deny_kinds e = e\<lparr>pe_probe_allow_kinds := allow, pe_probe_deny_kinds := deny_kinds\<rparr>"

definition with_llm_can_activate_recipes :: "bool option \<Rightarrow> 'r PolicyEngine \<Rightarrow> 'r PolicyEngine" where
  "with_llm_can_activate_recipes enabled e = e\<lparr>pe_llm_can_activate_recipes := enabled\<rparr>"

definition with_shell_withheld_by_allow_roots :: "bool \<Rightarrow> 'r PolicyEngine \<Rightarrow> 'r PolicyEngine" where
  "with_shell_withheld_by_allow_roots withheld e = e\<lparr>pe_shell_withheld_by_allow_roots := withheld\<rparr>"

definition with_governor :: "Governor \<Rightarrow> 'r PolicyEngine \<Rightarrow> 'r PolicyEngine" where
  "with_governor g e = e\<lparr>pe_governor := Some g\<rparr>"

definition with_config_caps ::
  "(string \<Rightarrow> string option) \<Rightarrow> PolicyProfile \<Rightarrow> string option \<Rightarrow> string list option \<Rightarrow> PolicyCaps \<Rightarrow> 'r PolicyEngine" where
  "with_config_caps canon profile repo_root command_allow_roots caps =
     (with_config canon profile repo_root command_allow_roots)\<lparr>pe_caps := caps\<rparr>"

definition resolve_limits :: "'r PolicyEngine \<Rightarrow> JobLimitsSpec option \<Rightarrow> (string, ResolvedLimits) outcome" where
  "resolve_limits e request =
     (case pe_governor e of None \<Rightarrow> Ok resolved_default | Some g \<Rightarrow> resolve g request)"

definition engine_governor_status :: "'r PolicyEngine \<Rightarrow> GovernorStatus option" where
  "engine_governor_status e = map_option governor_status (pe_governor e)"

definition llm_can_activate_recipes :: "'r PolicyEngine \<Rightarrow> bool" where
  "llm_can_activate_recipes e \<longleftrightarrow>
     (case pe_llm_can_activate_recipes e of Some explicit \<Rightarrow> explicit | None \<Rightarrow> pe_profile e = FullAccess)"

definition environment_discovery_cwd :: "'r PolicyEngine \<Rightarrow> string option" where
  "environment_discovery_cwd e = (if pe_profile e = RepoOnly then pe_repo_root e else Some ''.'')"

section \<open>Evaluation\<close>

fun profile_debug :: "PolicyProfile \<Rightarrow> string" where
  "profile_debug DeveloperLocal = ''DeveloperLocal''"
| "profile_debug RepoOnly = ''RepoOnly''"
| "profile_debug ReadOnlyObserver = ''ReadOnlyObserver''"
| "profile_debug AdminDebug = ''AdminDebug''"
| "profile_debug FullAccess = ''FullAccess''"

definition command_name :: "string \<Rightarrow> string" where
  "command_name arg0 = (case file_name arg0 of Some n \<Rightarrow> n | None \<Rightarrow> arg0)"

definition command_allowed :: "'r PolicyEngine \<Rightarrow> string \<Rightarrow> bool" where
  "command_allowed e basename \<longleftrightarrow>
     (case pe_command_allow_roots e of None \<Rightarrow> True | Some roots \<Rightarrow> basename \<in> set roots)"

definition repo_root_contains :: "(string \<Rightarrow> string option) \<Rightarrow> 'r PolicyEngine \<Rightarrow> string \<Rightarrow> bool" where
  "repo_root_contains canon e candidate \<longleftrightarrow>
     (case pe_repo_root e of
        None \<Rightarrow> False
      | Some root \<Rightarrow> path_starts_with (canonicalize_lexical canon candidate) root)"

fun action_path_subject :: "PolicyAction \<Rightarrow> string option" where
  "action_path_subject (CommandStart argv cwd) = Some cwd"
| "action_path_subject (FileRead path) = Some path"
| "action_path_subject (FileWatch path) = Some path"
| "action_path_subject (FileWrite path) = Some path"
| "action_path_subject _ = None"

definition os_guard_scan :: "string option \<Rightarrow> PolicyAction \<Rightarrow> scan" where
  "os_guard_scan sd action =
     (case action of
        CommandStart argv cwd \<Rightarrow> argv_deletion_hit sd argv (Some cwd)
      | CommandShellStart line cwd shell \<Rightarrow> shell_line_deletion_hit sd line shell (Some cwd)
      | _ \<Rightarrow> Ok None)"

definition structural :: "'r PolicyEngine \<Rightarrow> bool" where
  "structural e \<longleftrightarrow> pe_profile e \<noteq> FullAccess"

definition command_gate :: "'r PolicyEngine \<Rightarrow> PolicyAction \<Rightarrow> PolicyVerdict option" where
  "command_gate e action =
     (case action of
        CommandStart (arg0 # _) _ \<Rightarrow>
          if structural e \<and> command_name arg0 \<in> set COMMANDS_DENY then
            Some (deny (''command '' @ [SQ] @ command_name arg0 @ [SQ] @
              '' is in the closed deny set (sudo/doas/su/pkexec/kexec). '' @ profile_change_hint (pe_profile e)))
          else None
      | _ \<Rightarrow> None)"

definition path_gate ::
  "(string \<Rightarrow> string option) \<Rightarrow> 'r regex_crate \<Rightarrow> 'r PolicyEngine \<Rightarrow> string \<Rightarrow> 'r GlobList \<Rightarrow> PolicyVerdict option" where
  "path_gate canon rx e path allow =
     (let canonical = canonicalize_lexical canon path in
      if structural e \<and> path_default_denied canonical then
        Some (deny (''path '' @ [SQ] @ path @ [SQ] @ '' matches a default-deny sensitive suffix (SECURITY.md '' @
          [CHR 0xC2, CHR 0xA7] @ ''5). '' @ profile_change_hint (pe_profile e)))
      else if matches rx (pe_deny_extra e) canonical then
        Some (deny (''path '' @ [SQ] @ path @ [SQ] @
          '' matches a [policy.paths] deny_extra rule (default_deny_match)''))
      else if \<not> allows rx allow canonical then
        Some (deny (''path '' @ [SQ] @ path @ [SQ] @ '' is not in the [policy.paths] allow-list (no_allow_rule)''))
      else None)"

definition file_gate ::
  "(string \<Rightarrow> string option) \<Rightarrow> 'r regex_crate \<Rightarrow> 'r PolicyEngine \<Rightarrow> PolicyAction \<Rightarrow> PolicyVerdict option" where
  "file_gate canon rx e action =
     (case action of
        FileRead path \<Rightarrow> path_gate canon rx e path (pe_read_allow e)
      | FileWatch path \<Rightarrow> path_gate canon rx e path (pe_watch_allow e)
      | FileWrite path \<Rightarrow> path_gate canon rx e path (pe_write_allow e)
      | _ \<Rightarrow> None)"

definition exec_profile :: "PolicyProfile \<Rightarrow> bool" where
  "exec_profile profile \<longleftrightarrow> profile \<in> {DeveloperLocal, AdminDebug, FullAccess}"

definition shell_gate :: "'r PolicyEngine \<Rightarrow> string \<Rightarrow> PolicyVerdict" where
  "shell_gate e line =
     (case if structural e then denied_command_in_shell_line line else None of
        Some denied \<Rightarrow>
          deny (''command '' @ [SQ] @ denied @ [SQ] @
            '' is in the closed deny set (sudo/doas/su/pkexec/kexec) inside shell_line. '' @
            profile_change_hint (pe_profile e))
      | None \<Rightarrow>
          if exec_profile (pe_profile e) \<and> cap_shell (pe_caps e) then
            \<lparr>pv_decision = AllowWithAudit,
             pv_reason = ''shell execution allowed by allow_shell capability (audited)''\<rparr>
          else if exec_profile (pe_profile e) \<and> pe_shell_withheld_by_allow_roots e then
            deny (''shell execution denied: '' @ SHELL_WITHHELD_BY_ALLOW_ROOTS)
          else
            deny (''shell execution denied: allow_shell capability is off or profile forbids shell. '' @
              profile_change_hint (pe_profile e)))"

definition session_gate :: "'r PolicyEngine \<Rightarrow> PolicyVerdict" where
  "session_gate e =
     (if exec_profile (pe_profile e) \<and> cap_session (pe_caps e) then
        \<lparr>pv_decision = AllowWithAudit,
         pv_reason = ''shell_session_start allowed by allow_session capability (audited)''\<rparr>
      else
        deny (''shell_session_start denied: allow_session capability is off or profile forbids sessions. '' @
          profile_change_hint (pe_profile e)))"

definition probe_gate :: "'r PolicyEngine \<Rightarrow> string \<Rightarrow> PolicyVerdict" where
  "probe_gate e kind =
     (if kind \<in> set (pe_probe_deny_kinds e) then
        deny (''probe kind '' @ [SQ] @ kind @ [SQ] @ '' is denied by [policy.probes] deny_kinds (probe_kind_denied)'')
      else if pe_probe_allow_kinds e \<noteq> [] \<and> kind \<notin> set (pe_probe_allow_kinds e) then
        deny (''probe kind '' @ [SQ] @ kind @ [SQ] @ '' is not in the [policy.probes] allow_kinds (no_allow_rule)'')
      else \<lparr>pv_decision = Allow, pv_reason = ''probe kind '' @ [SQ] @ kind @ [SQ] @ '' permitted''\<rparr>)"

definition dev_local_repo_only_verdict :: "'r PolicyEngine \<Rightarrow> PolicyAction \<Rightarrow> PolicyVerdict" where
  "dev_local_repo_only_verdict e action =
     (let blocked =
        (case action of
           CommandStart argv _ \<Rightarrow>
             let basename = (case argv of [] \<Rightarrow> [] | a0 # _ \<Rightarrow> command_name a0) in
             if command_allowed e basename then None else Some basename
         | _ \<Rightarrow> None)
      in case blocked of
           Some basename \<Rightarrow>
             deny (''command '' @ [SQ] @ basename @ [SQ] @ '' is not in the '' @ profile_debug (pe_profile e) @
               '' allow-list (no_allow_rule)'')
         | None \<Rightarrow>
             if action = RegistryActivate then
               \<lparr>pv_decision = AllowWithAudit, pv_reason = ''registry activate requires audit emission''\<rparr>
             else \<lparr>pv_decision = Allow, pv_reason = profile_debug (pe_profile e) @ '' allows the action''\<rparr>)"

definition containment_reason :: "'r PolicyEngine \<Rightarrow> string \<Rightarrow> string" where
  "containment_reason e subject =
     (case pe_repo_root e of
        None \<Rightarrow>
          ''repo_only has no configured $REPO_ROOT; '' @ [SQ] @ subject @ [SQ] @
          '' cannot be confirmed inside the repo (fail-safe deny)''
      | Some root \<Rightarrow>
          ''repo_only confines to $REPO_ROOT '' @ [SQ] @ root @ [SQ] @ ''; '' @ [SQ] @ subject @ [SQ] @ '' is outside it'')"

fun is_observer_mutation :: "PolicyAction \<Rightarrow> bool" where
  "is_observer_mutation (CommandStart _ _) = True"
| "is_observer_mutation CommandStdin = True"
| "is_observer_mutation CommandSignal = True"
| "is_observer_mutation RegistryCreate = True"
| "is_observer_mutation RegistryActivate = True"
| "is_observer_mutation (FileWrite _) = True"
| "is_observer_mutation _ = False"

definition profile_gate :: "(string \<Rightarrow> string option) \<Rightarrow> 'r PolicyEngine \<Rightarrow> PolicyAction \<Rightarrow> PolicyVerdict" where
  "profile_gate canon e action =
     (case pe_profile e of
        ReadOnlyObserver \<Rightarrow>
          if is_observer_mutation action then
            deny (''read_only_observer denies command_*, registry_*, and file_write mutations. '' @
              profile_change_hint (pe_profile e))
          else \<lparr>pv_decision = Allow, pv_reason = ''read-only operation allowed''\<rparr>
      | AdminDebug \<Rightarrow>
          if action = RegistryCreate \<or> action = RegistryActivate then
            deny (''admin_debug is inspect-only; registry mutations denied. '' @ profile_change_hint (pe_profile e))
          else \<lparr>pv_decision = Allow, pv_reason = ''admin_debug allowed''\<rparr>
      | RepoOnly \<Rightarrow>
          (case action_path_subject action of
             Some subject \<Rightarrow>
               if \<not> repo_root_contains canon e subject then
                 deny (containment_reason e subject @ ''. '' @ profile_change_hint (pe_profile e))
               else dev_local_repo_only_verdict e action
           | None \<Rightarrow> dev_local_repo_only_verdict e action)
      | _ \<Rightarrow> dev_local_repo_only_verdict e action)"

text \<open>The decision after the failsafe.\<close>

definition decide ::
  "(string \<Rightarrow> string option) \<Rightarrow> 'r regex_crate \<Rightarrow> 'r PolicyEngine \<Rightarrow> PolicyAction \<Rightarrow> PolicyVerdict" where
  "decide canon rx e action =
     (case command_gate e action of
        Some v \<Rightarrow> v
      | None \<Rightarrow>
          (case file_gate canon rx e action of
             Some v \<Rightarrow> v
           | None \<Rightarrow>
               (case action of
                  CommandShellStart line _ _ \<Rightarrow> shell_gate e line
                | SessionStart _ _ \<Rightarrow> session_gate e
                | ProbeCreate kind \<Rightarrow> probe_gate e kind
                | _ \<Rightarrow> profile_gate canon e action)))"

definition evaluate ::
  "string option \<Rightarrow> (string \<Rightarrow> string option) \<Rightarrow> 'r regex_crate \<Rightarrow> 'r PolicyEngine \<Rightarrow> PolicyAction \<Rightarrow>
     PolicyVerdict run" where
  "evaluate sd canon rx e action =
     and_then (os_guard_scan sd action) (\<lambda>hit.
       case hit of
         Some h \<Rightarrow> Ok (deny (hit_reason h))
       | None \<Rightarrow> Ok (decide canon rx e action))"

section \<open>The policy as a specification\<close>

text \<open>
  What the engine is to permit under each profile, capability set and configured list, one clause per
  action and without the order in which the engine asks. Three clauses are the ones of the source and
  not the ones of \<^verbatim>\<open>POLICY.md\<close>: the admin_debug profile is free of the command list,
  a shell line is scanned for denied programs, and the observer may create any kind of probe. The
  documented policy is the predicate \<open>documented\<close> below.
\<close>

definition file_permitted ::
  "(string \<Rightarrow> string option) \<Rightarrow> 'r regex_crate \<Rightarrow> 'r PolicyEngine \<Rightarrow> 'r GlobList \<Rightarrow> string \<Rightarrow> bool" where
  "file_permitted canon rx e allow path \<longleftrightarrow>
     (pe_profile e = FullAccess \<or> \<not> path_default_denied (canonicalize_lexical canon path)) \<and>
     \<not> matches rx (pe_deny_extra e) (canonicalize_lexical canon path) \<and>
     allows rx allow (canonicalize_lexical canon path) \<and>
     (pe_profile e = RepoOnly \<longrightarrow> repo_root_contains canon e path)"

definition permitted ::
  "(string \<Rightarrow> string option) \<Rightarrow> 'r regex_crate \<Rightarrow> 'r PolicyEngine \<Rightarrow> PolicyAction \<Rightarrow> bool" where
  "permitted canon rx e action \<longleftrightarrow>
     (case action of
        CommandStart argv cwd \<Rightarrow>
          let name = (case argv of [] \<Rightarrow> [] | a0 # _ \<Rightarrow> command_name a0) in
          pe_profile e \<noteq> ReadOnlyObserver \<and>
          (pe_profile e = FullAccess \<or> argv = [] \<or> name \<notin> set COMMANDS_DENY) \<and>
          (pe_profile e = AdminDebug \<or> command_allowed e name) \<and>
          (pe_profile e = RepoOnly \<longrightarrow> repo_root_contains canon e cwd)
      | CommandShellStart line _ _ \<Rightarrow>
          exec_profile (pe_profile e) \<and> cap_shell (pe_caps e) \<and>
          (pe_profile e = FullAccess \<or> denied_command_in_shell_line line = None)
      | SessionStart _ _ \<Rightarrow> exec_profile (pe_profile e) \<and> cap_session (pe_caps e)
      | FileRead path \<Rightarrow> file_permitted canon rx e (pe_read_allow e) path
      | FileWatch path \<Rightarrow> file_permitted canon rx e (pe_watch_allow e) path
      | FileWrite path \<Rightarrow>
          file_permitted canon rx e (pe_write_allow e) path \<and> pe_profile e \<noteq> ReadOnlyObserver
      | ProbeCreate kind \<Rightarrow>
          kind \<notin> set (pe_probe_deny_kinds e) \<and>
          (pe_probe_allow_kinds e = [] \<or> kind \<in> set (pe_probe_allow_kinds e))
      | CommandStdin \<Rightarrow> pe_profile e \<noteq> ReadOnlyObserver
      | CommandSignal \<Rightarrow> pe_profile e \<noteq> ReadOnlyObserver
      | RegistryCreate \<Rightarrow> pe_profile e \<notin> {ReadOnlyObserver, AdminDebug}
      | RegistryActivate \<Rightarrow> pe_profile e \<notin> {ReadOnlyObserver, AdminDebug}
      | _ \<Rightarrow> True)"






fun audited :: "PolicyAction \<Rightarrow> bool" where
  "audited (CommandShellStart _ _ _) = True"
| "audited (SessionStart _ _) = True"
| "audited RegistryActivate = True"
| "audited _ = False"

definition policy_spec ::
  "(string \<Rightarrow> string option) \<Rightarrow> 'r regex_crate \<Rightarrow> 'r PolicyEngine \<Rightarrow> PolicyAction \<Rightarrow> PolicyDecision" where
  "policy_spec canon rx e action =
     (if \<not> permitted canon rx e action then Deny else if audited action then AllowWithAudit else Allow)"

lemma pv_deny [simp]: "pv_decision (deny r) = Deny"
  by (simp add: deny_def)

lemma path_gate_None:
  "path_gate canon rx e path allow = None \<longleftrightarrow>
   (pe_profile e = FullAccess \<or> \<not> path_default_denied (canonicalize_lexical canon path)) \<and>
   \<not> matches rx (pe_deny_extra e) (canonicalize_lexical canon path) \<and>
   allows rx allow (canonicalize_lexical canon path)"
  by (simp add: path_gate_def structural_def Let_def)

lemma path_gate_Some: "path_gate canon rx e path allow = Some v \<Longrightarrow> pv_decision v = Deny"
  by (auto simp: path_gate_def Let_def split: if_splits)

lemma dev_verdict_other:
  "\<forall>argv cwd. action \<noteq> CommandStart argv cwd \<Longrightarrow>
   pv_decision (dev_local_repo_only_verdict e action) = (if action = RegistryActivate then AllowWithAudit else Allow)"
  by (cases action) (simp_all add: dev_local_repo_only_verdict_def)

lemma profile_gate_file:
  assumes "action \<in> {FileRead p, FileWatch p, FileWrite p}"
  shows "pv_decision (profile_gate canon e action) =
    (if (pe_profile e = RepoOnly \<longrightarrow> repo_root_contains canon e p) \<and> (pe_profile e = ReadOnlyObserver \<longrightarrow> action \<noteq> FileWrite p)
     then Allow else Deny)"
  using assms by (cases "pe_profile e") (auto simp: profile_gate_def dev_verdict_other)

lemma decide_file:
  assumes "action \<in> {FileRead p, FileWatch p, FileWrite p}" and "file_gate canon rx e action = path_gate canon rx e p allow"
  shows "pv_decision (decide canon rx e action) =
    (if file_permitted canon rx e allow p \<and> (pe_profile e = ReadOnlyObserver \<longrightarrow> action \<noteq> FileWrite p) then Allow else Deny)"
proof (cases "path_gate canon rx e p allow")
  case None
  have "decide canon rx e action = profile_gate canon e action"
    using assms None by (auto simp: decide_def command_gate_def)
  then show ?thesis
    using profile_gate_file [OF assms(1), of canon e] None [unfolded path_gate_None] by (simp add: file_permitted_def)
next
  case (Some v)
  then have "\<not> file_permitted canon rx e allow p" using path_gate_None [of canon rx e p allow] by (auto simp: file_permitted_def)
  moreover have "decide canon rx e action = v" using assms Some by (auto simp: decide_def command_gate_def)
  ultimately show ?thesis using path_gate_Some [OF Some] by simp
qed

lemma decide_command:
  "pv_decision (decide canon rx e (CommandStart argv cwd)) =
   (if permitted canon rx e (CommandStart argv cwd) then Allow else Deny)"
  by (cases argv; cases "pe_profile e")
    (auto simp: decide_def command_gate_def file_gate_def profile_gate_def dev_local_repo_only_verdict_def
      permitted_def structural_def Let_def)

lemma decide_spec: "pv_decision (decide canon rx e action) = policy_spec canon rx e action"
proof (cases action)
  case (CommandStart argv cwd)
  then show ?thesis by (simp add: policy_spec_def decide_command)
next
  case (FileRead p)
  then show ?thesis using decide_file [of action p canon rx e "pe_read_allow e"]
    by (simp add: policy_spec_def permitted_def file_gate_def)
next
  case (FileWatch p)
  then show ?thesis using decide_file [of action p canon rx e "pe_watch_allow e"]
    by (simp add: policy_spec_def permitted_def file_gate_def)
next
  case (FileWrite p)
  then show ?thesis using decide_file [of action p canon rx e "pe_write_allow e"]
    by (auto simp: policy_spec_def permitted_def file_gate_def)
next
  case (CommandShellStart line cwd shell)
  then show ?thesis
    by (auto simp: decide_def command_gate_def file_gate_def shell_gate_def policy_spec_def permitted_def structural_def
        split: option.split)
next
  case (SessionStart shell cwd)
  then show ?thesis
    by (simp add: decide_def command_gate_def file_gate_def session_gate_def policy_spec_def permitted_def)
next
  case (ProbeCreate kind)
  then show ?thesis
    by (simp add: decide_def command_gate_def file_gate_def probe_gate_def policy_spec_def permitted_def)
qed (cases "pe_profile e"; simp add: decide_def command_gate_def file_gate_def profile_gate_def dev_verdict_other
    policy_spec_def permitted_def)+



lemma permitted_narrows:
  assumes "permitted canon rx
     (with_probe_kinds ak dk (with_paths rx ra wa wr de (with_config_caps canon profile root roots caps))) action"
  shows "permitted canon rx (with_config_caps canon profile root None caps) action"
  using assms
  by (cases action)
    (auto simp: permitted_def file_permitted_def with_probe_kinds_def with_paths_def with_config_caps_def with_config_def
      new_engine_def matches_def allows_def is_configured_def glob_default_def command_allowed_def repo_root_contains_def
      Let_def)

text \<open>
  C25. Configured lists only narrow: an action that the engine with command, path and probe-kind
  lists lets through gets the same decision from the same engine without any of them, whatever the
  lists, the file system and the regex engine are.
\<close>

theorem configured_lists_only_narrow:
  assumes "evaluate sd canon rx
      (with_probe_kinds ak dk (with_paths rx ra wa wr de (with_config_caps canon profile root roots caps))) action = Ok v"
    and "pv_decision v \<noteq> Deny"
  shows "\<exists>v'. evaluate sd canon rx (with_config_caps canon profile root None caps) action = Ok v' \<and>
    pv_decision v' = pv_decision v"
proof -
  let ?e = "with_probe_kinds ak dk (with_paths rx ra wa wr de (with_config_caps canon profile root roots caps))"
  let ?f = "with_config_caps canon profile root None caps"
  from assms(1) obtain hit where hit: "os_guard_scan sd action = Ok hit" by (auto simp: evaluate_def and_then_Ok_iff)
  with assms have "hit = None" by (cases hit) (auto simp: evaluate_def)
  with hit assms(1) have scan: "os_guard_scan sd action = Ok None" and v: "v = decide canon rx ?e action"
    by (simp_all add: evaluate_def)
  have "permitted canon rx ?e action" using assms(2) v decide_spec [of canon rx ?e action] by (simp add: policy_spec_def split: if_splits)
  from permitted_narrows [OF this] this
  have "pv_decision (decide canon rx ?f action) = pv_decision v"
    using v by (simp add: decide_spec policy_spec_def)
  with scan show ?thesis by (simp add: evaluate_def)
qed

theorem configured_lists_only_narrow_witness:
  "\<exists>v. evaluate None Some \<lparr>rx_new = (\<lambda>s. Some ()), rx_is_match = (\<lambda>r s. True), rx_escape = id\<rparr>
     (with_config_caps Some FullAccess None None no_caps) (FileRead ''/srv/x'') = Ok v \<and> pv_decision v = Allow"
proof -
  let ?rx = "\<lparr>rx_new = (\<lambda>s. Some ()), rx_is_match = (\<lambda>r s. True), rx_escape = id\<rparr>"
  let ?e = "with_probe_kinds [''pty''] [] (with_paths ?rx [''/srv/**''] [] [] [] (with_config_caps Some FullAccess None None no_caps))"
  have "permitted Some ?rx ?e (FileRead ''/srv/x'')"
    by (simp add: permitted_def file_permitted_def with_probe_kinds_def with_paths_def with_config_caps_def with_config_def
      new_engine_def matches_def allows_def is_configured_def compile_def canonicalize_lexical_def List.map_filter_def
      repo_root_contains_def)
  then have "pv_decision (decide Some ?rx ?e (FileRead ''/srv/x'')) = Allow" by (simp add: decide_spec policy_spec_def)
  moreover have "evaluate None Some ?rx ?e (FileRead ''/srv/x'') = Ok (decide Some ?rx ?e (FileRead ''/srv/x''))"
    by (simp add: evaluate_def os_guard_scan_def)
  ultimately show ?thesis
    using configured_lists_only_narrow [of None Some ?rx "[''pty'']" "[]" "[''/srv/**'']" "[]" "[]" "[]" FullAccess None None no_caps
        "FileRead ''/srv/x''" "decide Some ?rx ?e (FileRead ''/srv/x'')"] by simp
qed

section \<open>The failsafe through the engine\<close>

text \<open>
  C2. No profile, capability or list lets a plain deletion of OS infrastructure through. For every
  engine, a command start whose argument vector is a deletion command with a protected operand,
  directly or behind launchers that take no options, is denied with the failsafe's reason; and so is
  the start of a shell line of plain commands that has such a deletion among them, when the guard
  does not panic on an earlier command.
\<close>

theorem failsafe_in_every_profile:
  assumes "list_all guard_prefix ws" and "dir_prefix dir" and "name \<in> set DELETE_COMMANDS"
    and "op \<in> set ops" "\<not> is_flag op" "operand_is_protected sd op (Some cwd)"
  shows "(\<exists>p. evaluate sd canon rx e (CommandStart (ws @ (dir @ name) # ops) cwd) =
      Ok (deny (''refused: '' @ name @ '' would delete OS-critical infrastructure ('' @ p @ ''); this is '' @
        FAILSAFE_REASON_TAG @ '' and applies in every profile''))) \<and>
    (of_shell shell = Posix \<and> list_all scanned_as_is (pre @ (ws @ (dir @ name) # ops) # post) \<and>
     (\<forall>c \<in> set pre. \<exists>r. argv_hit MAX_NESTING sd c (Some cwd) = Ok r) \<longrightarrow>
     (\<exists>h. evaluate sd canon rx e
         (CommandShellStart (render_line (pre @ (ws @ (dir @ name) # ops) # post)) cwd shell) =
       Ok (deny (hit_reason h))))"
proof (intro conjI impI)
  show "\<exists>p. evaluate sd canon rx e (CommandStart (ws @ (dir @ name) # ops) cwd) =
      Ok (deny (''refused: '' @ name @ '' would delete OS-critical infrastructure ('' @ p @ ''); this is '' @
        FAILSAFE_REASON_TAG @ '' and applies in every profile''))"
    using protected_deletion_hit [OF assms, of MAX_NESTING]
    by (auto simp: evaluate_def os_guard_scan_def argv_deletion_hit_def hit_reason_def)
next
  assume "of_shell shell = Posix \<and> list_all scanned_as_is (pre @ (ws @ (dir @ name) # ops) # post) \<and>
     (\<forall>c \<in> set pre. \<exists>r. argv_hit MAX_NESTING sd c (Some cwd) = Ok r)"
  with line_deletion_hit [OF _ _ assms] obtain h where
    "shell_line_deletion_hit sd (render_line (pre @ (ws @ (dir @ name) # ops) # post)) shell (Some cwd) = Ok (Some h)"
    by blast
  then show "\<exists>h. evaluate sd canon rx e
      (CommandShellStart (render_line (pre @ (ws @ (dir @ name) # ops) # post)) cwd shell) = Ok (deny (hit_reason h))"
    by (auto simp: evaluate_def os_guard_scan_def)
qed

theorem failsafe_in_every_profile_witness:
  "(\<exists>p. evaluate None Some \<lparr>rx_new = (\<lambda>s. Some ()), rx_is_match = (\<lambda>r s. True), rx_escape = id\<rparr>
    (new_engine FullAccess) (CommandStart [''sudo'', ''/bin/rm'', ''-rf'', ''/usr''] ''/root'') =
    Ok (deny (''refused: '' @ ''rm'' @ '' would delete OS-critical infrastructure ('' @ p @ ''); this is '' @
      FAILSAFE_REASON_TAG @ '' and applies in every profile''))) \<and>
   (\<exists>h. evaluate None Some \<lparr>rx_new = (\<lambda>s. Some ()), rx_is_match = (\<lambda>r s. True), rx_escape = id\<rparr>
    (new_engine FullAccess) (CommandShellStart ''sudo /bin/rm -rf /usr; id'' ''/root'' ''sh'') = Ok (deny (hit_reason h)))"
proof -
  have "list_all guard_prefix [''sudo'']" "dir_prefix ''/bin/''" "''rm'' \<in> set DELETE_COMMANDS" by code_simp+
  moreover have "\<not> is_flag ''/usr''" "operand_is_protected None ''/usr'' (Some ''/root'')" by code_simp+
  moreover have "of_shell ''sh'' = Posix" "list_all scanned_as_is [[''sudo'', ''/bin/rm'', ''-rf'', ''/usr''], [''id'']]"
    by code_simp+
  ultimately show ?thesis
    using failsafe_in_every_profile [of "[''sudo'']" "''/bin/''" "''rm''" "''/usr''" "[''-rf'', ''/usr'']" None "''/root''"
        Some "\<lparr>rx_new = (\<lambda>s. Some ()), rx_is_match = (\<lambda>r s. True), rx_escape = id\<rparr>" "new_engine FullAccess"
        "''sh''" "[]" "[[''id'']]"] by (simp add: render_line_def)
qed

section \<open>The shell-line scan on plain lines\<close>

text \<open>
  The denied program of one command by its words: assignments and prefix words are passed over, and
  after a prefix word its options.
\<close>

fun denied_head :: "bool \<Rightarrow> string list \<Rightarrow> string option" where
  "denied_head active [] = None"
| "denied_head active (w # ws) =
     (if shell_word_is_assignment w then denied_head active ws
      else case denied_command_basename w of
        Some d \<Rightarrow> Some d
      | None \<Rightarrow>
          if w \<in> set SHELL_COMMAND_PREFIX_WORDS then denied_head True ws
          else if active \<and> starts_with ''-'' w then denied_head active ws
          else None)"

fun first_denied :: "string list list \<Rightarrow> string option" where
  "first_denied [] = None"
| "first_denied (c # cs) = (case denied_head False c of Some d \<Rightarrow> Some d | None \<Rightarrow> first_denied cs)"

definition ascii_word :: "string \<Rightarrow> bool" where
  "ascii_word w \<longleftrightarrow> plain_word w \<and> list_all solid w"

lemma scan_char:
  assumes "plain_char c" "solid c" and "cs = [] \<or> hd cs \<notin> {''<'', ''>''}"
  shows "scan_shell_line False False st ([c] # cs) = scan_shell_line False False (push_word [c] st) cs"
proof -
  have "\<not> is_whitespace [c]" using solid_not_ws [OF assms(2)] .
  then show ?thesis
    using assms(1,3) by (auto simp: scan_shell_line.simps(2) [of False False st "[c]" cs] plain_char_def)
qed

abbreviation at_word :: "bool \<Rightarrow> bool \<Rightarrow> string \<Rightarrow> shell_scan" where
  "at_word expect active w \<equiv>
     \<lparr>ss_word = w, ss_expect_command = expect, ss_prefix_active = active, ss_skip_redirect = False\<rparr>"

definition after_word :: "bool \<Rightarrow> bool \<Rightarrow> string \<Rightarrow> bool \<times> bool" where
  "after_word expect active w =
     (if \<not> expect \<or> shell_word_is_assignment w then (expect, active)
      else if w \<in> set SHELL_COMMAND_PREFIX_WORDS then (expect, True)
      else if active \<and> starts_with ''-'' w then (expect, active)
      else (False, False))"

lemma finish_word:
  assumes "w \<noteq> []"
  shows "finish_shell_word (at_word expect active w) =
    (if expect \<and> \<not> shell_word_is_assignment w \<and> denied_command_basename w \<noteq> None
     then (at_word expect active [], denied_command_basename w)
     else (at_word (fst (after_word expect active w)) (snd (after_word expect active w)) [], None))"
  using assms by (auto simp: finish_shell_word_def after_word_def Let_def)

definition word_chars :: "string \<Rightarrow> string list" where
  "word_chars w = map (\<lambda>c. [c]) w"

lemma scan_word:
  assumes "list_all plain_char t" "list_all solid t" and "cs = [] \<or> hd cs \<notin> {''<'', ''>''}"
  shows "scan_shell_line False False (at_word e a w) (word_chars t @ cs) = scan_shell_line False False (at_word e a (w @ t)) cs"
  using assms
proof (induction t arbitrary: w)
  case (Cons c t)
  have "word_chars t @ cs = [] \<or> hd (word_chars t @ cs) \<notin> {''<'', ''>''}"
    using Cons.prems by (cases t) (auto simp: word_chars_def plain_char_def)
  with Cons scan_char [of c "word_chars t @ cs" "at_word e a w"] show ?case
    by (simp add: word_chars_def push_word_def)
qed (simp add: word_chars_def)

lemma scan_space:
  "scan_shell_line False False st ('' '' # cs) =
   (case finish_shell_word st of (_, Some d) \<Rightarrow> Some d | (st', None) \<Rightarrow> scan_shell_line False False st' cs)"
  by (simp add: scan_shell_line.simps(2) [of False False st "'' ''" cs] is_digit_def byte_def is_whitespace_def)

lemma scan_semi:
  "scan_shell_line False False st ('';'' # cs) =
   (case finish_shell_word st of (_, Some d) \<Rightarrow> Some d | (st', None) \<Rightarrow> scan_shell_line False False (next_command st') cs)"
  by (simp add: scan_shell_line.simps(2) [of False False st "'';''" cs])

text \<open>What follows a command: the end of the line, or a semicolon and more.\<close>

fun after_command :: "string list \<Rightarrow> string option" where
  "after_command [] = None"
| "after_command (_ # cs) = scan_shell_line False False (at_word True False []) cs"

lemma scan_words:
  assumes "ws \<noteq> []" "list_all ascii_word ws" and "rest = [] \<or> hd rest = '';''"
  shows "scan_shell_line False False (at_word e a []) (word_chars (join '' '' ws) @ rest) =
    (case if e then denied_head a ws else None of Some d \<Rightarrow> Some d | None \<Rightarrow> after_command rest)"
  using assms(1,2)
proof (induction ws arbitrary: e a)
  case (Cons w ws)
  have w: "w \<noteq> []" "list_all plain_char w" "list_all solid w"
    using Cons.prems by (auto simp: ascii_word_def plain_word_def)
  have n: "next_command (at_word x y []) = at_word True False []" for x y by (simp add: next_command_def)
  show ?case
  proof (cases "ws = []")
    case True
    then show ?thesis
      using scan_word [OF w(2,3), where cs = rest and e = e and a = a and w = "[]"] assms(3) finish_word [OF w(1), of e a]
      by (cases rest) (auto simp: scan_semi n after_word_def)
  next
    case False
    let ?more = "word_chars (join '' '' ws) @ rest"
    have "word_chars (join '' '' (w # ws)) @ rest = word_chars w @ '' '' # ?more"
      using False by (simp add: join_Cons word_chars_def)
    then have "scan_shell_line False False (at_word e a []) (word_chars (join '' '' (w # ws)) @ rest) =
      scan_shell_line False False (at_word e a w) ('' '' # ?more)"
      using scan_word [OF w(2,3), where cs = "'' '' # ?more" and e = e and a = a and w = "[]"] by simp
    also have "\<dots> = (case if e then denied_head a (w # ws) else None of Some d \<Rightarrow> Some d | None \<Rightarrow> after_command rest)"
      using finish_word [OF w(1), of e a] Cons.IH [OF False] Cons.prems(2)
      by (cases "e \<and> \<not> shell_word_is_assignment w \<and> denied_command_basename w \<noteq> None")
        (auto simp: scan_space after_word_def)
    finally show ?thesis .
  qed
qed simp

lemma scan_line:
  assumes "list_all (\<lambda>c. c \<noteq> [] \<and> list_all ascii_word c) cs"
  shows "scan_shell_line False False (at_word True False []) (word_chars (render_line cs)) = first_denied cs"
  using assms
proof (induction cs)
  case Nil
  then show ?case by (simp add: render_line_def word_chars_def finish_shell_word_def)
next
  case (Cons c cs)
  have c: "c \<noteq> []" "list_all ascii_word c" using Cons.prems by auto
  have sp: "scan_shell_line False False (at_word True False []) ('' '' # x) = scan_shell_line False False (at_word True False []) x"
    for x by (simp add: scan_space finish_shell_word_def)
  show ?case
  proof (cases "cs = []")
    case True
    then show ?thesis using scan_words [OF c, where rest = "[]" and e = True and a = False] by (simp add: render_line_def split: option.split)
  next
    case False
    then have "word_chars (render_line (c # cs)) = word_chars (join '' '' c) @ '';'' # '' '' # word_chars (render_line cs)"
      by (simp add: render_line_def join_Cons word_chars_def)
    then show ?thesis
      using scan_words [OF c, where rest = "'';'' # '' '' # word_chars (render_line cs)" and e = True and a = False] Cons sp
      by (simp split: option.split)
  qed
qed

lemma render_line_ascii:
  assumes "list_all (\<lambda>c. c \<noteq> [] \<and> list_all ascii_word c) cs"
  shows "chars (render_line cs) = word_chars (render_line cs)"
proof -
  have "byte x < 128" if "x \<in> set (render_line cs)" for x
  proof -
    from that join_set [of x "''; ''" "map (join '' '') cs"]
    consider "x \<in> set ''; ''" | c where "c \<in> set cs" "x \<in> set (join '' '' c)"
      by (auto simp: render_line_def)
    then show ?thesis
    proof cases
      case 2
      with join_set [of x "'' ''" c] assms show ?thesis
        by (fastforce simp: list_all_iff ascii_word_def solid_def byte_def)
    qed (auto simp: byte_def)
  qed
  then show ?thesis using chars_all_ascii by (simp add: word_chars_def)
qed

text \<open>
  C27. The textual scan of a shell line finds the denied programs by command: on any line of plain
  ASCII commands it returns the first denied program that stands at the head of a command, behind
  assignments, prefix words and the options of prefix words, and nothing when there is none.
  Section 4.1 of \<^verbatim>\<open>POLICY.md\<close> and \<^verbatim>\<open>docs/runtime/SHELL_RUNTIME.md\<close> say that a shell line is not scanned;
  the property describes the scan the engine makes under every profile but full_access.
\<close>

theorem shell_line_scan_plain:
  assumes "list_all (\<lambda>c. c \<noteq> [] \<and> list_all ascii_word c) cs"
  shows "denied_command_in_shell_line (render_line cs) = first_denied cs"
  using scan_line [OF assms] render_line_ascii [OF assms] by (simp add: denied_command_in_shell_line_def)

theorem shell_line_scan_plain_witness:
  "denied_command_in_shell_line ''ls -l; A=1 env -i /usr/bin/sudo id'' = Some ''sudo'' \<and>
   denied_command_in_shell_line ''echo sudo; ls'' = None"
proof -
  have "list_all (\<lambda>c. c \<noteq> [] \<and> list_all ascii_word c)
      [[''ls'', ''-l''], [''A=1'', ''env'', ''-i'', ''/usr/bin/sudo'', ''id'']]"
    "list_all (\<lambda>c. c \<noteq> [] \<and> list_all ascii_word c) [[''echo'', ''sudo''], [''ls'']]" by code_simp+
  moreover have "first_denied [[''ls'', ''-l''], [''A=1'', ''env'', ''-i'', ''/usr/bin/sudo'', ''id'']] = Some ''sudo''"
    "first_denied [[''echo'', ''sudo''], [''ls'']] = None" by code_simp+
  ultimately show ?thesis
    using shell_line_scan_plain [of "[[''ls'', ''-l''], [''A=1'', ''env'', ''-i'', ''/usr/bin/sudo'', ''id'']]"]
      shell_line_scan_plain [of "[[''echo'', ''sudo''], [''ls'']]"] by (simp add: render_line_def)
qed

section \<open>Globs against their grammar\<close>

text \<open>
  The regular expressions a glob turns into, and what the regex crate documents for them: a literal
  matches itself, \<open>[^/]\<close> any character but the separator, \<open>.\<close> any character but the line feed, and the
  anchors make the whole text match.
\<close>

datatype rx_atom = ALit string | ANotSlash | AStarNotSlash | AStarAny

fun atoms_match :: "rx_atom list \<Rightarrow> string list \<Rightarrow> bool" where
  "atoms_match [] cs \<longleftrightarrow> cs = []"
| "atoms_match (ALit l # as) [] \<longleftrightarrow> False"
| "atoms_match (ALit l # as) (c # cs) \<longleftrightarrow> c = l \<and> atoms_match as cs"
| "atoms_match (ANotSlash # as) [] \<longleftrightarrow> False"
| "atoms_match (ANotSlash # as) (c # cs) \<longleftrightarrow> c \<noteq> ''/'' \<and> atoms_match as cs"
| "atoms_match (AStarNotSlash # as) [] \<longleftrightarrow> atoms_match as []"
| "atoms_match (AStarNotSlash # as) (c # cs) \<longleftrightarrow>
     atoms_match as (c # cs) \<or> c \<noteq> ''/'' \<and> atoms_match (AStarNotSlash # as) cs"
| "atoms_match (AStarAny # as) [] \<longleftrightarrow> atoms_match as []"
| "atoms_match (AStarAny # as) (c # cs) \<longleftrightarrow>
     atoms_match as (c # cs) \<or> c \<noteq> [NL] \<and> atoms_match (AStarAny # as) cs"

fun atom_src :: "(string \<Rightarrow> string) \<Rightarrow> rx_atom \<Rightarrow> string" where
  "atom_src escape (ALit l) = escape l"
| "atom_src escape ANotSlash = ''[^/]''"
| "atom_src escape AStarNotSlash = ''[^/]*''"
| "atom_src escape AStarAny = ''.*''"

definition whole_char :: "string \<Rightarrow> bool" where
  "whole_char l \<longleftrightarrow> l \<noteq> [] \<and> length l = Suc (utf8_len (hd l) - 1)"

fun atom_ok :: "rx_atom \<Rightarrow> bool" where
  "atom_ok (ALit l) \<longleftrightarrow> whole_char l"
| "atom_ok _ \<longleftrightarrow> True"

definition regex_documented :: "'r regex_crate \<Rightarrow> bool" where
  "regex_documented rx \<longleftrightarrow>
     (\<forall>as r. list_all atom_ok as \<longrightarrow> rx_new rx (''^'' @ concat (map (atom_src (rx_escape rx)) as) @ ''$'') = Some r \<longrightarrow>
        (\<forall>s. rx_is_match rx r s \<longleftrightarrow> atoms_match as (chars s)))"

text \<open>
  The grammar of the documentation: \<open>**\<close> any run of characters, \<open>*\<close> any run without a separator, \<open>?\<close>
  one character that is not a separator, any other character itself.
\<close>

fun glob_match :: "string list \<Rightarrow> string list \<Rightarrow> bool" where
  "glob_match [] cs \<longleftrightarrow> cs = []"
| "glob_match (g # gs) cs \<longleftrightarrow>
     (if g = ''*'' then
        if gs \<noteq> [] \<and> hd gs = ''*'' then \<exists>n \<in> set [0..<Suc (length cs)]. glob_match (tl gs) (drop n cs)
        else \<exists>n \<in> set [0..<Suc (length cs)]. ''/'' \<notin> set (take n cs) \<and> glob_match gs (drop n cs)
      else if g = ''?'' then cs \<noteq> [] \<and> hd cs \<noteq> ''/'' \<and> glob_match gs (tl cs)
      else cs \<noteq> [] \<and> hd cs = g \<and> glob_match gs (tl cs))"

fun glob_atoms :: "string list \<Rightarrow> rx_atom list" where
  "glob_atoms [] = []"
| "glob_atoms (g # gs) =
     (if g = ''*'' then
        (case gs of
           [] \<Rightarrow> [AStarNotSlash]
         | h # hs \<Rightarrow> if h = ''*'' then AStarAny # glob_atoms hs else AStarNotSlash # glob_atoms gs)
      else if g = ''?'' then ANotSlash # glob_atoms gs
      else ALit g # glob_atoms gs)"

lemma glob_body_atoms: "glob_body escape cs = concat (map (atom_src escape) (glob_atoms cs))"
  by (induction escape cs rule: glob_body.induct) (auto split: list.splits)

lemma ex_le_Suc: "(\<exists>n \<le> Suc k. P n) \<longleftrightarrow> P 0 \<or> (\<exists>n \<le> k. P (Suc n))"
  by (metis Suc_le_mono le0 not0_implies_Suc)

lemma match_star_not_slash:
  "atoms_match (AStarNotSlash # as) cs \<longleftrightarrow> (\<exists>n \<le> length cs. ''/'' \<notin> set (take n cs) \<and> atoms_match as (drop n cs))"
  by (induction cs) (auto simp: ex_le_Suc)

lemma match_star_any:
  "[NL] \<notin> set cs \<Longrightarrow> atoms_match (AStarAny # as) cs \<longleftrightarrow> (\<exists>n \<le> length cs. atoms_match as (drop n cs))"
  by (induction cs) (auto simp: ex_le_Suc)

lemma match_ANotSlash: "atoms_match (ANotSlash # as) cs \<longleftrightarrow> cs \<noteq> [] \<and> hd cs \<noteq> ''/'' \<and> atoms_match as (tl cs)"
  by (cases cs) auto

lemma match_ALit: "atoms_match (ALit l # as) cs \<longleftrightarrow> cs \<noteq> [] \<and> hd cs = l \<and> atoms_match as (tl cs)"
  by (cases cs) auto

lemma glob_atoms_match: "[NL] \<notin> set cs \<Longrightarrow> atoms_match (glob_atoms gs) cs \<longleftrightarrow> glob_match gs cs"
proof (induction gs arbitrary: cs rule: glob_atoms.induct)
  case (2 g gs)
  have nl: "[NL] \<notin> set (drop n cs)" "[NL] \<notin> set (tl cs)" for n
    using "2.prems" by (auto dest: in_set_dropD list.set_sel(2) [rotated], cases cs, auto)
  consider (any) hs where "g = ''*''" "gs = ''*'' # hs" | (star) "g = ''*''" "gs = [] \<or> hd gs \<noteq> ''*''"
    | (one) "g = ''?''" | (lit) "g \<noteq> ''*''" "g \<noteq> ''?''"
    by (cases gs) auto
  then show ?case
  proof cases
    case any
    then show ?thesis using "2.IH"(1) nl(1) match_star_any [OF "2.prems"]
      by (auto simp: less_Suc_eq_le simp del: upt_Suc)
  next
    case star
    then show ?thesis using "2.IH"(2) nl(1) match_star_not_slash
      by (cases gs) (auto simp: less_Suc_eq_le simp del: upt_Suc)
  next
    case one
    then show ?thesis using "2.IH"(3) nl(2) by (simp add: match_ANotSlash)
  next
    case lit
    then show ?thesis using "2.IH"(4) nl(2) by (simp add: match_ALit)
  qed
qed simp

lemma chars_whole: "utf8_ok s \<Longrightarrow> l \<in> set (chars s) \<Longrightarrow> whole_char l"
proof (induction s rule: chars.induct)
  case (2 c s)
  then have "utf8_len c - 1 \<le> length s" "utf8_ok (drop (utf8_len c - 1) s)" by (auto simp: utf8_ok_Cons_iff)
  with 2 show ?case by (auto simp: chars.simps(2) Let_def whole_char_def)
qed simp

lemma glob_atoms_ok: "list_all whole_char gs \<Longrightarrow> list_all atom_ok (glob_atoms gs)"
  by (induction gs rule: glob_atoms.induct) (auto split: list.splits)

lemma map_filter_id: "x \<in> set (List.map_filter id xs) \<longleftrightarrow> Some x \<in> set xs"
  by (force simp: List.map_filter_def)

lemma matches_compile:
  assumes "regex_documented rx" and "list_all utf8_ok globs" and "[NL] \<notin> set (chars path)"
  shows "matches rx (compile rx globs) path \<longleftrightarrow>
    (\<exists>g \<in> set globs. rx_new rx (glob_to_regex_src (rx_escape rx) g) \<noteq> None \<and> glob_match (chars g) (chars path))"
proof -
  have one: "rx_is_match rx r path \<longleftrightarrow> glob_match (chars g) (chars path)"
    if "g \<in> set globs" "rx_new rx (glob_to_regex_src (rx_escape rx) g) = Some r" for g r
  proof -
    have "utf8_ok g" using assms(2) that(1) by (simp add: list_all_iff)
    then have "list_all atom_ok (glob_atoms (chars g))" using chars_whole by (intro glob_atoms_ok) (auto simp: list_all_iff)
    with assms(1) that(2) have "rx_is_match rx r path \<longleftrightarrow> atoms_match (glob_atoms (chars g)) (chars path)"
      unfolding regex_documented_def glob_to_regex_src_def glob_body_atoms by blast
    with glob_atoms_match [OF assms(3)] show ?thesis by simp
  qed
  have "matches rx (compile rx globs) path \<longleftrightarrow>
    (\<exists>r. Some r \<in> (\<lambda>g. rx_new rx (glob_to_regex_src (rx_escape rx) g)) ` set globs \<and> rx_is_match rx r path)"
    by (auto simp: matches_def compile_def list_ex_iff map_filter_id normalize_policy_text_def Let_def)
  also have "\<dots> \<longleftrightarrow> (\<exists>g \<in> set globs. \<exists>r. rx_new rx (glob_to_regex_src (rx_escape rx) g) = Some r \<and> rx_is_match rx r path)"
    unfolding image_iff by metis
  finally show ?thesis using one by (simp add: not_None_eq) blast
qed

text \<open>
  C26. Path lists mean what the glob grammar says: given the documented behaviour of the regex crate
  and globs that all compile, a configured list matches exactly the paths that one of its globs
  matches by the grammar, for every path without a line feed.
\<close>

theorem glob_list_matches_grammar:
  assumes "regex_documented rx" and "list_all utf8_ok globs" and "[NL] \<notin> set (chars path)"
    and "\<not> gl_had_compile_error (compile rx globs)"
  shows "matches rx (compile rx globs) path \<longleftrightarrow> (\<exists>g \<in> set globs. glob_match (chars g) (chars path))"
proof -
  have "rx_new rx (glob_to_regex_src (rx_escape rx) g) \<noteq> None" if "g \<in> set globs" for g
    using assms(4) that by (force simp: compile_def Let_def normalize_policy_text_def)
  then show ?thesis using matches_compile [OF assms(1-3)] by blast
qed

text \<open>A regex crate that has this behaviour: it parses the four kinds of atoms.\<close>

definition rx_meta :: "string list" where
  "rx_meta = map (\<lambda>c. [c]) ([BSL] @ ''.+*?()|[]{}^$#&-~'')"

definition escape_model :: "string \<Rightarrow> string" where
  "escape_model l = (if l \<in> set rx_meta then BSL # l else l)"

function parse_atoms :: "string list \<Rightarrow> rx_atom list option" where
  "parse_atoms [] = None"
| "parse_atoms (c # cs) =
     (if c = ''$'' \<and> cs = [] then Some []
      else if c = [BSL] then
        (if cs = [] then None else map_option (Cons (ALit (hd cs))) (parse_atoms (tl cs)))
      else if c = ''.'' then (if cs \<noteq> [] \<and> hd cs = ''*'' then map_option (Cons AStarAny) (parse_atoms (tl cs)) else None)
      else if c = ''['' then
        (if take 4 cs = [''^'', ''/'', '']'', ''*''] then map_option (Cons AStarNotSlash) (parse_atoms (drop 4 cs))
         else if take 3 cs = [''^'', ''/'', '']''] then map_option (Cons ANotSlash) (parse_atoms (drop 3 cs))
         else None)
      else map_option (Cons (ALit c)) (parse_atoms cs))"
  by pat_completeness auto
termination
  by (relation "measure length") auto

declare parse_atoms.simps(2) [simp del]

definition rx_model :: "rx_atom list regex_crate" where
  "rx_model =
     \<lparr>rx_new = (\<lambda>src. case chars src of c # cs \<Rightarrow> if c = ''^'' then parse_atoms cs else None | [] \<Rightarrow> None),
      rx_is_match = (\<lambda>as s. atoms_match as (chars s)), rx_escape = escape_model\<rparr>"

lemma chars_append: "whole_char l \<Longrightarrow> chars (l @ s) = l # chars s"
  by (cases l) (auto simp: whole_char_def chars.simps(2) Let_def)

lemma chars_byte: "byte c < 128 \<Longrightarrow> chars ((c # t) @ s) = [c] # chars (t @ s)"
  by simp

lemma src_not_star:
  "list_all atom_ok as \<Longrightarrow> hd (chars (concat (map (atom_src escape_model) as) @ ''$'')) \<noteq> ''*''"
proof (cases as)
  case (Cons x as')
  assume ok: "list_all atom_ok as"
  show ?thesis
  proof (cases x)
    case (ALit l)
    then have l: "whole_char l" using ok Cons by simp
    have "''*'' \<in> set rx_meta" by code_simp
    then have "escape_model l = BSL # l \<or> escape_model l = l \<and> l \<noteq> ''*''" by (auto simp: escape_model_def)
    then show ?thesis using ALit Cons chars_append [OF l] by (auto simp: byte_def)
  qed (simp_all add: Cons byte_def)
qed (simp add: byte_def)

lemma parse_atoms_src:
  "list_all atom_ok as \<Longrightarrow> parse_atoms (chars (concat (map (atom_src escape_model) as) @ ''$'')) = Some as"
proof (induction as)
  case Nil
  then show ?case by (simp add: byte_def parse_atoms.simps(2))
next
  case (Cons x as)
  let ?s = "concat (map (atom_src escape_model) as) @ ''$''"
  have IH: "parse_atoms (chars ?s) = Some as" using Cons by simp
  have star: "hd (chars ?s) \<noteq> ''*''" using src_not_star [of as] Cons.prems by simp
  show ?case
  proof (cases x)
    case (ALit l)
    then have l: "whole_char l" using Cons.prems by simp
    show ?thesis
    proof (cases "l \<in> set rx_meta")
      case True
      then have "escape_model l = BSL # l" by (simp add: escape_model_def)
      then show ?thesis using ALit l IH chars_append [OF l, of ?s] by (simp add: byte_def parse_atoms.simps(2))
    next
      case False
      then have "l \<noteq> ''$''" "l \<noteq> [BSL]" "l \<noteq> ''.''" "l \<noteq> ''[''" by (auto simp: rx_meta_def)
      moreover have "escape_model l = l" using False by (simp add: escape_model_def)
      ultimately show ?thesis using ALit l IH chars_append [OF l, of ?s] by (simp add: parse_atoms.simps(2))
    qed
  next
    case ANotSlash
    then show ?thesis using IH star by (cases "chars ?s") (auto simp: byte_def parse_atoms.simps(2))
  qed (use IH in \<open>simp_all add: byte_def parse_atoms.simps(2)\<close>)
qed

lemma rx_model_documented: "regex_documented rx_model"
  unfolding regex_documented_def
  using parse_atoms_src by (auto simp: rx_model_def byte_def)

lemma rx_model_compiles: "list_all utf8_ok globs \<Longrightarrow> \<not> gl_had_compile_error (compile rx_model globs)"
proof -
  assume "list_all utf8_ok globs"
  then have "rx_new rx_model (glob_to_regex_src (rx_escape rx_model) g) \<noteq> None" if "g \<in> set globs" for g
    using that parse_atoms_src [OF glob_atoms_ok, of "chars g"] chars_whole
    by (auto simp: rx_model_def glob_to_regex_src_def glob_body_atoms byte_def list_all_iff)
  then show ?thesis by (force simp: compile_def normalize_policy_text_def)
qed

text \<open>
  The grammar's \<open>**\<close> covers every character, the expression it becomes does not: a path with a
  line feed below \<open>/proj\<close> is not matched by \<open>/proj/**\<close>, so a deny rule misses it.
\<close>

lemma glob_misses_line_feed:
  assumes "regex_documented rx"
  shows "\<not> matches rx (compile rx [''/proj/**'']) (''/proj/a'' @ [NL] @ ''b'') \<and>
    glob_match (chars ''/proj/**'') (chars (''/proj/a'' @ [NL] @ ''b''))"
proof -
  define q where "q = ''/proj/a'' @ [NL] @ ''b''"
  have atoms: "glob_atoms (chars ''/proj/**'') = map (\<lambda>c. ALit [c]) ''/proj/'' @ [AStarAny]" by code_simp
  have "\<not> atoms_match (map (\<lambda>c. ALit [c]) ''/proj/'' @ [AStarAny]) (chars q)" unfolding q_def by code_simp
  moreover have "list_all atom_ok (map (\<lambda>c. ALit [c]) ''/proj/'' @ [AStarAny])" by code_simp
  ultimately have "\<not> rx_is_match rx r q"
    if "rx_new rx (glob_to_regex_src (rx_escape rx) ''/proj/**'') = Some r" for r
    using assms that unfolding regex_documented_def glob_to_regex_src_def glob_body_atoms atoms by blast
  then have "\<not> matches rx (compile rx [''/proj/**'']) q"
    by (auto simp: matches_def compile_def normalize_policy_text_def List.map_filter_def split: option.splits)
  moreover have "glob_match (chars ''/proj/**'') (chars q)" unfolding q_def by code_simp
  ultimately show ?thesis unfolding q_def by blast
qed

theorem glob_list_matches_grammar_witness:
  "matches rx_model (compile rx_model [''/h/*x'', ''/proj/**'']) ''/proj/a/b'' \<and>
   \<not> matches rx_model (compile rx_model [''/h/*x'', ''/proj/**'']) ''/h/u/x''"
proof -
  let ?gs = "[''/h/*x'', ''/proj/**'']"
  have "list_all utf8_ok ?gs" "[NL] \<notin> set (chars ''/proj/a/b'')" "[NL] \<notin> set (chars ''/h/u/x'')" by code_simp+
  moreover have "glob_match (chars ''/proj/**'') (chars ''/proj/a/b'')"
    "\<not> glob_match (chars ''/proj/**'') (chars ''/h/u/x'')"
    "\<not> glob_match (chars ''/h/*x'') (chars ''/h/u/x'')" by code_simp+
  ultimately show ?thesis
    using glob_list_matches_grammar [OF rx_model_documented, of ?gs] rx_model_compiles [of ?gs]
    by (simp del: glob_match.simps chars_ascii)
qed

section \<open>Paths that do not exist yet\<close>

lemma canon_walk_missing:
  assumes "canon (spell lead bs) = Some base" and "ms \<noteq> []"
    and "\<forall>k. 0 < k \<and> k < length ms \<longrightarrow> canon (spell lead (bs @ take k ms)) = None"
  shows "canon_walk canon lead (rev (bs @ ms)) tail = Some (foldl path_push base (filter (\<lambda>m. m \<noteq> ''..'') ms @ tail))"
  using assms(2,3)
proof (induction ms arbitrary: tail rule: rev_induct)
  case (snoc m ms)
  show ?case
  proof (cases "ms = []")
    case True
    then show ?thesis using assms(1) by simp
  next
    case False
    have "canon (spell lead (bs @ ms)) = None" using snoc.prems(2) False by (auto dest: spec [of _ "length ms"])
    moreover have "\<forall>k. 0 < k \<and> k < length ms \<longrightarrow> canon (spell lead (bs @ take k ms)) = None"
      using snoc.prems(2) by auto
    ultimately show ?thesis using snoc.IH [OF False] by simp
  qed
qed simp

text \<open>
  The comparison form of a path whose tail does not exist: the canonical form of the nearest
  existing ancestor followed by the names of the tail in order. Parent components inside the tail
  leave no trace: they are dropped, not resolved.
\<close>

lemma canonicalize_missing_tail:
  assumes "path_parts p = bs @ ms" and "ms \<noteq> []" and "canon p = None"
    and "canon (spell (lead_of p) bs) = Some base"
    and "\<forall>k. 0 < k \<and> k < length ms \<longrightarrow> canon (spell (lead_of p) (bs @ take k ms)) = None"
  shows "canonicalize_lexical canon p = foldl path_push base (filter (\<lambda>m. m \<noteq> ''..'') ms)"
  using canon_walk_missing [OF assms(4,2,5), of "[]"] assms(1,3) by (simp add: canonicalize_lexical_def)

end
