(* ===== verification/TC_Subscription.thy ===== *)
theory TC_Subscription
  imports TC_Router "HOL-Library.List_Lexorder" "HOL-Library.Char_ord"
begin

text \<open>
  Predicate-routed subscriptions: \<^verbatim>\<open>daemon/src/subscriptions\<close> (\<open>model\<close>, \<open>source\<close>, \<open>registry\<close>, \<open>pull\<close>)
  and the handlers of \<^verbatim>\<open>daemon/src/ipc/handlers/subscription.rs\<close>. A subscription keeps one cursor
  per bucket; a pull reads the buckets in its scope in turn, within a cap. The bucket reads are those
  of the bucket manager, so a pull also evicts expired events. One pass over the buckets is one
  function of the manager and of one reading of the clock; what happens between the passes of a
  waiting pull (other appends, a seek) is left to the order in which the operations are applied.
  The source has \<open>map_bucket_error\<close> of \<^verbatim>\<open>TC_Router\<close> twice, here under the name
  \<open>map_bucket\<close>, with the same branches; the model uses the one definition.
\<close>

section \<open>Sources and predicates\<close>

datatype probe_kind = PkCommand | PkFileWatch | PkPty

record bucket_source =
  so_kind :: probe_kind
  so_job_id :: "job_id option"
  so_probe_id :: "probe_id option"
  so_path :: "string option"
  so_tag :: "string option"

text \<open>The table and its epoch, a wrapping 64-bit counter.\<close>

record source_table =
  tb_map :: "(bucket_id \<times> bucket_source) list"
  tb_dirty :: nat

definition source_table_new :: source_table where
  "source_table_new = \<lparr>tb_map = [], tb_dirty = 0\<rparr>"

definition source_record :: "source_table \<Rightarrow> bucket_id \<Rightarrow> bucket_source \<Rightarrow> source_table" where
  "source_record t b s = \<lparr>tb_map = AList.update b s (tb_map t), tb_dirty = (tb_dirty t + 1) mod 2 ^ 64\<rparr>"

definition source_get :: "source_table \<Rightarrow> bucket_id \<Rightarrow> bucket_source option" where
  "source_get t b = map_of (tb_map t) b"

definition source_snapshot :: "source_table \<Rightarrow> (bucket_id \<times> bucket_source) list" where
  "source_snapshot t = tb_map t"

datatype source_sel =
    AllSources
  | JobSources "job_id list"
  | BucketSources "bucket_id list"
  | ProbeSources "probe_id list"

record predicate =
  pr_severity_min :: "severity option"
  pr_kind :: "string list option"
  pr_sources :: source_sel
  pr_tag :: "string option"

text \<open>
  What \<open>normalized_hash\<close> feeds to the hasher, item by item. The hash is a function of this list.
\<close>

datatype hash_item = HU8 nat | HLen nat | HStr string

definition hash_sorted_ids :: "('a \<Rightarrow> string) \<Rightarrow> 'a list \<Rightarrow> hash_item list" where
  "hash_sorted_ids wire v = (let ids = sort (map wire v) in HLen (length ids) # map HStr ids)"

fun sel_feed :: "source_sel \<Rightarrow> hash_item list" where
  "sel_feed AllSources = [HU8 0]"
| "sel_feed (JobSources v) = HU8 1 # hash_sorted_ids job_wire v"
| "sel_feed (BucketSources v) = HU8 2 # hash_sorted_ids bucket_wire v"
| "sel_feed (ProbeSources v) = HU8 3 # hash_sorted_ids probe_wire v"

definition normalized_feed :: "predicate \<Rightarrow> hash_item list" where
  "normalized_feed p =
     (case pr_severity_min p of Some s \<Rightarrow> [HU8 1, HU8 (rank s)] | None \<Rightarrow> [HU8 0]) @
     (case pr_kind p of
        Some kinds \<Rightarrow> let norm = remdups_adj (sort kinds) in HU8 1 # HLen (length norm) # map HStr norm
      | None \<Rightarrow> [HU8 0]) @
     (case pr_tag p of Some t \<Rightarrow> [HU8 1, HStr t] | None \<Rightarrow> [HU8 0]) @
     sel_feed (pr_sources p)"

definition bucket_in_scope :: "predicate \<Rightarrow> bucket_id \<Rightarrow> bucket_source \<Rightarrow> bool" where
  "bucket_in_scope p b src \<longleftrightarrow>
     (case pr_tag p of None \<Rightarrow> True | Some want \<Rightarrow> so_tag src = Some want) \<and>
     (case pr_sources p of
        AllSources \<Rightarrow> True
      | BucketSources ids \<Rightarrow> b \<in> set ids
      | JobSources jobs \<Rightarrow> (case so_job_id src of None \<Rightarrow> False | Some j \<Rightarrow> j \<in> set jobs)
      | ProbeSources probes \<Rightarrow> (case so_probe_id src of None \<Rightarrow> False | Some p' \<Rightarrow> p' \<in> set probes))"

section \<open>Subscriptions\<close>

definition MAX_SUBSCRIPTIONS :: nat where
  "MAX_SUBSCRIPTIONS = 64"

definition MAX_BUCKETS_PER_SUBSCRIPTION :: nat where
  "MAX_BUCKETS_PER_SUBSCRIPTION = 200"

definition MAX_PULL_EVENTS :: nat where
  "MAX_PULL_EVENTS = 50"

definition DEFAULT_PULL_MAX :: nat where
  "DEFAULT_PULL_MAX = 50"

definition MAX_PULL_MAX :: nat where
  "MAX_PULL_MAX = 50"

definition DEFAULT_PULL_TIMEOUT_MS :: nat where
  "DEFAULT_PULL_TIMEOUT_MS = 5000"

definition MAX_PULL_TIMEOUT_MS :: nat where
  "MAX_PULL_TIMEOUT_MS = 8000"

record cached_scope =
  cs_dirty_epoch :: nat
  cs_buckets :: "bucket_id list"
  cs_truncated :: bool

type_synonym offsets = "(bucket_id \<times> nat) list"

record subscription =
  su_predicate :: predicate
  su_predicate_hash :: nat
  su_offsets :: offsets
  su_created_at :: timestamp
  su_last_pull_at :: "timestamp option"
  su_rr_start :: nat
  su_cached_scope :: "cached_scope option"
  su_last_liveness :: "(bucket_id \<times> liveness) list"

definition subscription_new :: "(hash_item list \<Rightarrow> nat) \<Rightarrow> timestamp \<Rightarrow> predicate \<Rightarrow> offsets \<Rightarrow> subscription" where
  "subscription_new hash now p offs =
     \<lparr>su_predicate = p, su_predicate_hash = hash (normalized_feed p), su_offsets = offs, su_created_at = now,
      su_last_pull_at = None, su_rr_start = 0, su_cached_scope = None, su_last_liveness = []\<rparr>"

type_synonym registry = "(uuid \<times> subscription) list"

text \<open>A fresh identifier is an argument of \<open>open\<close>.\<close>

definition registry_open ::
  "(hash_item list \<Rightarrow> nat) \<Rightarrow> timestamp \<Rightarrow> uuid \<Rightarrow> registry \<Rightarrow> predicate \<Rightarrow> offsets \<Rightarrow> (ipc_error, registry) outcome" where
  "registry_open hash now fresh r p offs =
     (if MAX_SUBSCRIPTIONS \<le> length r then
        Err (IpcError SubscriptionLimitExceededCode
          (''subscription registry full ('' @ show_nat MAX_SUBSCRIPTIONS @ '' open); close one and retry''))
      else Ok (AList.update fresh (subscription_new hash now p offs) r))"

definition registry_close :: "registry \<Rightarrow> uuid \<Rightarrow> registry \<times> bool" where
  "registry_close r u = (AList.delete u r, map_of r u \<noteq> None)"

record subscription_summary =
  sb_sub_id :: uuid
  sb_predicate_hash :: nat
  sb_predicate :: predicate
  sb_source_count :: nat
  sb_created_at :: timestamp
  sb_last_pull_at :: "timestamp option"

definition registry_list :: "registry \<Rightarrow> subscription_summary list" where
  "registry_list r =
     map (\<lambda>(u, s). \<lparr>sb_sub_id = u, sb_predicate_hash = su_predicate_hash s, sb_predicate = su_predicate s,
                     sb_source_count = length (su_offsets s), sb_created_at = su_created_at s,
                     sb_last_pull_at = su_last_pull_at s\<rparr>) r"

definition unknown_subscription :: "string \<Rightarrow> ipc_error" where
  "unknown_subscription u = IpcError UnknownSubscriptionCode (''unknown subscription: '' @ u)"

definition with_sub :: "registry \<Rightarrow> uuid \<Rightarrow> (ipc_error, subscription) outcome" where
  "with_sub r u = (case map_of r u of Some s \<Rightarrow> Ok s | None \<Rightarrow> Err (unknown_subscription u))"

definition with_sub_mut ::
  "registry \<Rightarrow> uuid \<Rightarrow> (subscription \<Rightarrow> subscription) \<Rightarrow> (ipc_error, registry) outcome" where
  "with_sub_mut r u f =
     (case map_of r u of Some s \<Rightarrow> Ok (AList.update u (f s) r) | None \<Rightarrow> Err (unknown_subscription u))"

section \<open>One pass over the buckets\<close>

record event_origin =
  eo_bucket_id :: bucket_id
  eo_job_id :: "job_id option"
  eo_seq :: nat

type_synonym sub_event = "event_origin \<times> signal_event"

type_synonym scoped = "(bucket_id \<times> bucket_source) list"

record scope =
  sc_buckets :: scoped
  sc_offsets :: offsets
  sc_rr_start :: nat
  sc_truncated :: bool

text \<open>The part of the daemon a subscription works on.\<close>

record sub_state =
  ds_buckets :: bucket_manager
  ds_sources :: source_table
  ds_subs :: registry

text \<open>The rebuild: the buckets in scope in table order, up to the cap, and whether one was left out.\<close>

fun scan_scope :: "source_table \<Rightarrow> predicate \<Rightarrow> bucket_id list \<Rightarrow> scoped \<Rightarrow> scoped \<times> bool" where
  "scan_scope t p [] acc = (acc, False)"
| "scan_scope t p (b # bs) acc =
     (case source_get t b of
        None \<Rightarrow> scan_scope t p bs acc
      | Some src \<Rightarrow>
          if bucket_in_scope p b src then
            if MAX_BUCKETS_PER_SUBSCRIPTION \<le> length acc then (acc, True)
            else scan_scope t p bs (acc @ [(b, src)])
          else scan_scope t p bs acc)"

definition resolve_cached :: "source_table \<Rightarrow> bucket_id list \<Rightarrow> scoped" where
  "resolve_cached t ids = List.map_filter (\<lambda>b. map_option (Pair b) (source_get t b)) ids"

definition scope_snapshot :: "sub_state \<Rightarrow> uuid \<Rightarrow> (ipc_error, sub_state \<times> scope) outcome" where
  "scope_snapshot d u =
     and_then (with_sub (ds_subs d) u) (\<lambda>s.
       let epoch = tb_dirty (ds_sources d);
           mk = (\<lambda>bs tr. \<lparr>sc_buckets = bs, sc_offsets = su_offsets s, sc_rr_start = su_rr_start s, sc_truncated = tr\<rparr>);
           rebuilt =
             (let (found, truncated) = scan_scope (ds_sources d) (su_predicate s) (list_bucket_ids (ds_buckets d)) [];
                  buckets = sort_key (\<lambda>x. bucket_wire (fst x)) found;
                  cached = \<lparr>cs_dirty_epoch = epoch, cs_buckets = map fst buckets, cs_truncated = truncated\<rparr>
              in Ok (d\<lparr>ds_subs := AList.update u (s\<lparr>su_cached_scope := Some cached\<rparr>) (ds_subs d)\<rparr>, mk buckets truncated))
       in case su_cached_scope s of
            Some c \<Rightarrow>
              if cs_dirty_epoch c = epoch
              then Ok (d, mk (resolve_cached (ds_sources d) (cs_buckets c)) (cs_truncated c))
              else rebuilt
          | None \<Rightarrow> rebuilt)"

definition kind_filter_for :: "predicate \<Rightarrow> string option \<times> string list option" where
  "kind_filter_for p =
     (case pr_kind p of
        None \<Rightarrow> (None, None)
      | Some kinds \<Rightarrow> if length kinds = 1 then (Some (kinds ! 0), None) else (None, Some kinds))"

definition offset_of :: "offsets \<Rightarrow> bucket_id \<Rightarrow> nat" where
  "offset_of offs b = (case map_of offs b of None \<Rightarrow> 0 | Some n \<Rightarrow> n)"

definition backlog_of :: "bucket_state \<Rightarrow> nat \<Rightarrow> nat" where
  "backlog_of st off = bs_tail_seq st - max off (bs_head_seq st - 1)"

fun backlogs :: "bucket_manager \<Rightarrow> scoped \<Rightarrow> offsets \<Rightarrow> (ipc_error, nat list) outcome" where
  "backlogs m [] offs = Ok []"
| "backlogs m ((b, src) # bs) offs =
     and_then (map_err map_bucket_error (state_of m b)) (\<lambda>st.
     and_then (backlogs m bs offs) (\<lambda>rest. Ok (backlog_of st (offset_of offs b) # rest)))"

text \<open>The sum is taken in 64 bits.\<close>

definition shares_of :: "nat list \<Rightarrow> nat \<Rightarrow> nat list" where
  "shares_of backlog cap =
     (let total = sum_list backlog mod 2 ^ 64 in
      if total = 0 then replicate (length backlog) (max (cap div length backlog) 1)
      else map (\<lambda>b. max (cap * b div total) 1) backlog)"

definition lag_weighted_shares :: "bucket_manager \<Rightarrow> scoped \<Rightarrow> offsets \<Rightarrow> nat \<Rightarrow> (ipc_error, nat list) outcome" where
  "lag_weighted_shares m bs offs cap = and_then (backlogs m bs offs) (\<lambda>b. Ok (shares_of b cap))"

record drain =
  dr_manager :: bucket_manager
  dr_offsets :: offsets
  dr_events :: "sub_event list"
  dr_lagged :: bool

text \<open>Handing over what was read: events off the allowlist are skipped; a full answer stops.\<close>

fun hand_over ::
  "nat \<Rightarrow> string list option \<Rightarrow> (signal_event \<Rightarrow> sub_event) \<Rightarrow> signal_event list \<Rightarrow> sub_event list \<Rightarrow>
     sub_event list \<times> bool" where
  "hand_over cap allow tag [] out = (out, False)"
| "hand_over cap allow tag (ev # evs) out =
     (if (case allow of None \<Rightarrow> False | Some ks \<Rightarrow> ev_kind ev \<notin> set ks) then hand_over cap allow tag evs out
      else if cap \<le> length out then (out, True)
      else hand_over cap allow tag evs (out @ [tag ev]))"

text \<open>The visit to one bucket; the flag says that the pass is over.\<close>

definition visit ::
  "dt_sub \<Rightarrow> timestamp \<Rightarrow> predicate \<Rightarrow> nat \<Rightarrow> nat \<Rightarrow> bucket_id \<times> bucket_source \<Rightarrow> drain \<Rightarrow>
     (ipc_error, drain \<times> bool) outcome" where
  "visit sub now p cap per scoped d =
     (let b = fst scoped; (native, allow) = kind_filter_for p in
      and_then (map_err map_bucket_error (state_of (dr_manager d) b)) (\<lambda>st.
        let off0 = offset_of (dr_offsets d) b;
            floor = bs_head_seq st - 1;
            off = (if off0 < floor then floor else off0);
            lagged = (dr_lagged d \<or> off0 < floor \<or> 0 < bs_dropped_count st);
            want = min per (cap - length (dr_events d));
            d1 = d\<lparr>dr_offsets := AList.update b off (dr_offsets d), dr_lagged := lagged\<rparr>
        in if want = 0 then Ok (d1, False)
           else
             and_then (map_err map_bucket_error (events_since sub now (dr_manager d) b
                 \<lparr>rq_cursor = off, rq_severity_min = pr_severity_min p, rq_kind_filter = native, rq_limit = Some want\<rparr>))
               (\<lambda>(m, resp).
                 let off' = (if off < rp_next_cursor resp then rp_next_cursor resp else off);
                     tag = (\<lambda>ev. (\<lparr>eo_bucket_id = b, eo_job_id = so_job_id (snd scoped), eo_seq = ev_seq ev\<rparr>, ev));
                     (out, stop) = hand_over cap allow tag (rp_events resp) (dr_events d)
                 in Ok (\<lparr>dr_manager = m, dr_offsets = AList.update b off' (dr_offsets d1), dr_events = out,
                         dr_lagged = lagged\<rparr>, stop))))"

text \<open>One round over the buckets in visiting order, each with its share.\<close>

fun drain_round ::
  "dt_sub \<Rightarrow> timestamp \<Rightarrow> predicate \<Rightarrow> nat \<Rightarrow> (nat \<times> bucket_id \<times> bucket_source) list \<Rightarrow> drain \<Rightarrow>
     (ipc_error, drain \<times> bool) outcome" where
  "drain_round sub now p cap [] d = Ok (d, False)"
| "drain_round sub now p cap ((per, scoped) # rest) d =
     (if cap \<le> length (dr_events d) then Ok (d, True)
      else and_then (visit sub now p cap per scoped d) (\<lambda>(d', stop).
        if stop then Ok (d', True) else drain_round sub now p cap rest d'))"

text \<open>
  Rounds until one makes no progress. A round has progressed when it handed over an event, that is
  when the answer has grown.
\<close>

function drain_loop ::
  "dt_sub \<Rightarrow> timestamp \<Rightarrow> predicate \<Rightarrow> nat \<Rightarrow> (nat \<times> bucket_id \<times> bucket_source) list \<Rightarrow> drain \<Rightarrow>
     (ipc_error, drain) outcome" where
  "drain_loop sub now p cap order d =
     (case drain_round sub now p cap order d of
        Err e \<Rightarrow> Err e
      | Panic \<Rightarrow> Panic
      | Ok (d', stop) \<Rightarrow>
          if stop \<or> \<not> length (dr_events d) < length (dr_events d') then Ok d'
          else drain_loop sub now p cap order d')"
  by pat_completeness auto
termination
proof (relation "measure (\<lambda>(sub, now, p, cap, order, d). cap - length (dr_events d))", simp)
  fix sub now p cap order d r d' stop
  assume round: "drain_round sub now p cap order d = Ok r" "(d', stop) = r"
    and go: "\<not> (stop \<or> \<not> length (dr_events d) < length (dr_events d'))"
  have "length (dr_events d) < cap"
    using round go by (cases order) (auto split: if_splits)
  with go show "((sub, now, p, cap, order, d'), sub, now, p, cap, order, d)
      \<in> measure (\<lambda>(sub, now, p, cap, order, d). cap - length (dr_events d))" by (simp add: diff_less_mono2)
qed

declare drain_loop.simps [simp del]

definition rotate_from :: "nat \<Rightarrow> 'a list \<Rightarrow> 'a list" where
  "rotate_from k xs = map (\<lambda>i. xs ! ((k + i) mod length xs)) [0..<length xs]"

record drained =
  dn_events :: "sub_event list"
  dn_lagged :: bool
  dn_next_rr :: nat

text \<open>The result carries the manager after the reads and the advanced cursors.\<close>

definition drain_fair ::
  "dt_sub \<Rightarrow> timestamp \<Rightarrow> bucket_manager \<Rightarrow> scope \<Rightarrow> offsets \<Rightarrow> predicate \<Rightarrow> nat \<Rightarrow>
     (ipc_error, bucket_manager \<times> offsets \<times> drained) outcome" where
  "drain_fair sub now m sc offs p cap =
     (let n = length (sc_buckets sc) in
      if n = 0 \<or> cap = 0 then Ok (m, offs, \<lparr>dn_events = [], dn_lagged = False, dn_next_rr = 0\<rparr>)
      else
        and_then (lag_weighted_shares m (sc_buckets sc) offs cap) (\<lambda>per.
        and_then (drain_loop sub now p cap (rotate_from (sc_rr_start sc) (zip per (sc_buckets sc)))
            \<lparr>dr_manager = m, dr_offsets = offs, dr_events = [], dr_lagged = False\<rparr>) (\<lambda>d.
          Ok (dr_manager d, dr_offsets d,
            \<lparr>dn_events = dr_events d, dn_lagged = dr_lagged d, dn_next_rr = (sc_rr_start sc + 1) mod n\<rparr>))))"

section \<open>Liveness of the sources\<close>

record source_liveness =
  sl_bucket_id :: bucket_id
  sl_job_id :: "job_id option"
  sl_probe_id :: "probe_id option"
  sl_liveness :: liveness

text \<open>What the three runtimes answer about a job.\<close>

record live_view =
  lv_command :: "job_id \<Rightarrow> (job_state \<times> int option \<times> string option) option"
  lv_watch :: "job_id \<Rightarrow> bool"
  lv_pty :: "job_id \<Rightarrow> liveness"

definition source_liveness_of :: "live_view \<Rightarrow> bucket_source \<Rightarrow> liveness" where
  "source_liveness_of lv src =
     (case so_job_id src of
        None \<Rightarrow> LStopped
      | Some j \<Rightarrow>
          (case so_kind src of
             PkCommand \<Rightarrow>
               (case lv_command lv j of
                  None \<Rightarrow> LStopped
                | Some (state, code, sig) \<Rightarrow> command_liveness state code sig)
           | PkFileWatch \<Rightarrow> if lv_watch lv j then LRunning else LStopped
           | PkPty \<Rightarrow> lv_pty lv j))"

definition liveness_for :: "live_view \<Rightarrow> scope \<Rightarrow> source_liveness list" where
  "liveness_for lv sc =
     map (\<lambda>(b, src). \<lparr>sl_bucket_id = b, sl_job_id = so_job_id src, sl_probe_id = so_probe_id src,
                       sl_liveness = source_liveness_of lv src\<rparr>) (sc_buckets sc)"

definition changed_liveness :: "(bucket_id \<times> liveness) list \<Rightarrow> source_liveness list \<Rightarrow> source_liveness list" where
  "changed_liveness shown full =
     filter (\<lambda>e. shown = [] \<or> map_of shown (sl_bucket_id e) \<noteq> Some (sl_liveness e)) full"

definition resolve_liveness_delta ::
  "registry \<Rightarrow> uuid \<Rightarrow> source_liveness list \<Rightarrow> bool \<Rightarrow> registry \<times> source_liveness list" where
  "resolve_liveness_delta r u full delta =
     (if \<not> delta then (r, full)
      else case map_of r u of
        None \<Rightarrow> (r, full)
      | Some s \<Rightarrow>
          (AList.update u (s\<lparr>su_last_liveness := map (\<lambda>e. (sl_bucket_id e, sl_liveness e)) full\<rparr>) r,
           changed_liveness (su_last_liveness s) full))"

section \<open>Pull\<close>

definition commit :: "timestamp \<Rightarrow> registry \<Rightarrow> uuid \<Rightarrow> offsets \<Rightarrow> nat \<Rightarrow> registry" where
  "commit now r u offs next_rr =
     (case map_of r u of
        None \<Rightarrow> r
      | Some s \<Rightarrow>
          AList.update u
            (s\<lparr>su_offsets := fold (\<lambda>(b, n) acc. AList.update b n acc) offs (su_offsets s),
               su_rr_start := next_rr, su_last_pull_at := Some now\<rparr>) r)"

definition mark_pulled :: "timestamp \<Rightarrow> registry \<Rightarrow> uuid \<Rightarrow> registry" where
  "mark_pulled now r u =
     (case map_of r u of None \<Rightarrow> r | Some s \<Rightarrow> AList.update u (s\<lparr>su_last_pull_at := Some now\<rparr>) r)"

record pull_outcome =
  po_events :: "sub_event list"
  po_liveness :: "source_liveness list"
  po_lagged :: bool
  po_truncated :: bool

text \<open>
  One iteration of the loop of \<open>pull\<close>: an answer, or what the waiting pull holds on to: its scope,
  its working cursors and whether it has seen a lag.
\<close>

datatype pull_step =
    PullDone pull_outcome
  | PullEmpty bool
  | PullWait scope offsets bool

definition pull_cap :: "nat \<Rightarrow> nat" where
  "pull_cap mx = (if mx = 0 then DEFAULT_PULL_MAX else min mx MAX_PULL_MAX)"

definition pull_pass ::
  "dt_sub \<Rightarrow> timestamp \<Rightarrow> live_view \<Rightarrow> sub_state \<Rightarrow> uuid \<Rightarrow> nat \<Rightarrow> bool \<Rightarrow> (ipc_error, sub_state \<times> pull_step) outcome" where
  "pull_pass sub now lv d u mx delta =
     and_then (scope_snapshot d u) (\<lambda>(d1, sc0).
     and_then (with_sub (ds_subs d1) u) (\<lambda>s.
       let sc = sc0\<lparr>sc_buckets := filter (\<lambda>x. has_bucket (ds_buckets d1) (fst x)) (sc_buckets sc0)\<rparr> in
       if sc_buckets sc = [] then Ok (d1, PullEmpty (sc_truncated sc))
       else
         and_then (drain_fair sub now (ds_buckets d1) sc (sc_offsets sc) (su_predicate s) (pull_cap mx)) (\<lambda>(m, offs, dn).
           if dn_events dn = [] then Ok (d1\<lparr>ds_buckets := m\<rparr>, PullWait sc offs (dn_lagged dn))
           else
             let (r, live) = resolve_liveness_delta (ds_subs d1) u (liveness_for lv sc) delta in
             Ok (d1\<lparr>ds_buckets := m, ds_subs := commit now r u offs (dn_next_rr dn)\<rparr>,
                 PullDone \<lparr>po_events = dn_events dn, po_liveness = live, po_lagged = dn_lagged dn,
                           po_truncated = sc_truncated sc\<rparr>))))"

text \<open>The end of a pull at its deadline.\<close>

definition pull_timeout ::
  "timestamp \<Rightarrow> live_view \<Rightarrow> sub_state \<Rightarrow> uuid \<Rightarrow> bool \<Rightarrow> pull_step \<Rightarrow> sub_state \<times> pull_outcome" where
  "pull_timeout now lv d u delta st =
     (case st of
        PullDone out \<Rightarrow> (d, out)
      | PullEmpty truncated \<Rightarrow>
          (let (r, live) = resolve_liveness_delta (ds_subs d) u [] delta in
           (d\<lparr>ds_subs := mark_pulled now r u\<rparr>,
            \<lparr>po_events = [], po_liveness = live, po_lagged = False, po_truncated = truncated\<rparr>))
      | PullWait sc offs lagged \<Rightarrow>
          (let (r, live) = resolve_liveness_delta (ds_subs d) u (liveness_for lv sc) delta in
           (d\<lparr>ds_subs := mark_pulled now (commit now r u offs (sc_rr_start sc)) u\<rparr>,
            \<lparr>po_events = [], po_liveness = live, po_lagged = lagged, po_truncated = sc_truncated sc\<rparr>)))"

section \<open>Handlers\<close>

fun add_tail :: "sub_state \<Rightarrow> predicate \<Rightarrow> bucket_id \<Rightarrow> offsets \<Rightarrow> offsets" where
  "add_tail d p b offs =
     (case source_get (ds_sources d) b of
        None \<Rightarrow> offs
      | Some src \<Rightarrow>
          if bucket_in_scope p b src then
            AList.update b (case state_of (ds_buckets d) b of Ok st \<Rightarrow> bs_tail_seq st | _ \<Rightarrow> 0) offs
          else offs)"

definition initial_offsets :: "sub_state \<Rightarrow> predicate \<Rightarrow> offsets \<times> nat" where
  "initial_offsets d p =
     (let offs = fold (add_tail d p) (list_bucket_ids (ds_buckets d)) [] in
      (offs, try_from_or_max u32_max (length offs)))"

record open_response =
  or_sub_id :: string
  or_boot_id :: string
  or_predicate_hash :: string
  or_created_at_ms :: nat
  or_matched_sources :: nat

text \<open>Milliseconds since the epoch from a timestamp in nanoseconds; a time before it is 0.\<close>

definition system_time_ms :: "timestamp \<Rightarrow> nat" where
  "system_time_ms t = (if t < 0 then 0 else try_from_or_max u64_max (nat t div 1000000))"

definition handle_subscription_open ::
  "(hash_item list \<Rightarrow> nat) \<Rightarrow> timestamp \<Rightarrow> uuid \<Rightarrow> uuid \<Rightarrow> sub_state \<Rightarrow> predicate \<Rightarrow>
     (ipc_error, sub_state \<times> open_response) outcome" where
  "handle_subscription_open hash now boot fresh d p =
     (let (offs, matched) = initial_offsets d p in
      and_then (registry_open hash now fresh (ds_subs d) p offs) (\<lambda>r.
        Ok (d\<lparr>ds_subs := r\<rparr>,
            \<lparr>or_sub_id = fresh, or_boot_id = boot, or_predicate_hash = show_nat (hash (normalized_feed p)),
             or_created_at_ms = system_time_ms now, or_matched_sources = matched\<rparr>)))"

text \<open>\<open>Uuid::parse_str\<close> is an argument.\<close>

definition parse_sub_id :: "(string \<Rightarrow> uuid option) \<Rightarrow> string \<Rightarrow> (ipc_error, uuid) outcome" where
  "parse_sub_id parse s = (case parse s of Some u \<Rightarrow> Ok u | None \<Rightarrow> Err (unknown_subscription s))"

definition pull_max :: "nat option \<Rightarrow> nat" where
  "pull_max mx = min (case mx of None \<Rightarrow> MAX_PULL_EVENTS | Some n \<Rightarrow> n) MAX_PULL_EVENTS"

definition pull_timeout_ms :: "nat option \<Rightarrow> nat" where
  "pull_timeout_ms t = clamp 1 MAX_PULL_TIMEOUT_MS (case t of None \<Rightarrow> DEFAULT_PULL_TIMEOUT_MS | Some n \<Rightarrow> n)"

definition handle_subscription_close ::
  "(string \<Rightarrow> uuid option) \<Rightarrow> sub_state \<Rightarrow> string \<Rightarrow> sub_state \<times> bool" where
  "handle_subscription_close parse d s =
     (case parse s of
        None \<Rightarrow> (d, False)
      | Some u \<Rightarrow> (case registry_close (ds_subs d) u of (r, closed) \<Rightarrow> (d\<lparr>ds_subs := r\<rparr>, closed)))"

definition handle_subscription_list :: "sub_state \<Rightarrow> nat option \<Rightarrow> subscription_summary list \<times> bool" where
  "handle_subscription_list d limit =
     (let k = min (case limit of None \<Rightarrow> MAX_SUBSCRIPTIONS | Some n \<Rightarrow> n) MAX_SUBSCRIPTIONS;
          rows = sort_key sb_sub_id (registry_list (ds_subs d))
      in (take k rows, k < length rows))"

definition handle_subscription_seek ::
  "(string \<Rightarrow> uuid option) \<Rightarrow> sub_state \<Rightarrow> string \<Rightarrow> bucket_id \<Rightarrow> nat \<Rightarrow> (ipc_error, sub_state \<times> nat \<times> bool) outcome" where
  "handle_subscription_seek parse d s b seq =
     and_then (parse_sub_id parse s) (\<lambda>u.
     and_then (map_err map_bucket_error (state_of (ds_buckets d) b)) (\<lambda>st.
       let floor = bs_head_seq st - 1;
           lagged = (seq < floor);
           clamped = clamp floor (bs_tail_seq st) seq;
           source = source_get (ds_sources d) b
       in and_then (with_sub_mut (ds_subs d) u (\<lambda>x.
            let y = x\<lparr>su_last_liveness := []\<rparr> in
            if (case source of None \<Rightarrow> False | Some src \<Rightarrow> bucket_in_scope (su_predicate x) b src) \<or>
               map_of (su_offsets x) b \<noteq> None
            then y\<lparr>su_offsets := AList.update b clamped (su_offsets x)\<rparr> else y)) (\<lambda>r.
          Ok (d\<lparr>ds_subs := r\<rparr>, clamped, lagged))))"

end
