(* ===== verification/TC_Pull.thy ===== *)
theory TC_Pull
  imports TC_Subscription "HOL-Library.Multiset"
begin

text \<open>
  The properties of subscriptions: what a pass of \<open>pull\<close> hands over and skips, when it waits, that it
  returns, how the rotation serves the buckets, what a seek against a waiting pull loses, and which
  predicates share a hash.
\<close>

section \<open>A pass hands over exactly what it moves the cursors past\<close>

text \<open>The events a read of a bucket can see: those that are not expired.\<close>

definition visible :: "dt_sub \<Rightarrow> timestamp \<Rightarrow> bucket_manager \<Rightarrow> bucket_id \<Rightarrow> signal_event list" where
  "visible sub now m b =
     (case map_of m b of
        None \<Rightarrow> []
      | Some bi \<Rightarrow> (case evict_expired sub now bi of None \<Rightarrow> [] | Some bi' \<Rightarrow> bi_events bi'))"

lemma evict_expired_again:
  assumes "evict_expired sub now bi = Some bi'"
  shows "\<exists>bi''. evict_expired sub now bi' = Some bi'' \<and> bi_events bi'' = bi_events bi'"
proof -
  obtain cutoff where c: "sub now (try_from_or_max i64_max (as_secs (ttl (bi_config bi)))) = Some cutoff"
    "bi' = refresh_state (pop_front_n (length (takeWhile (\<lambda>e. ev_timestamp e < cutoff) (bi_events bi))) bi)"
    using assms by (rule evict_expired_Some)
  then have e: "bi_events bi' = dropWhile (\<lambda>e. ev_timestamp e < cutoff) (bi_events bi)"
    by (simp add: dropWhile_eq_drop)
  have "takeWhile (\<lambda>e. ev_timestamp e < cutoff) (bi_events bi') = []"
    unfolding e by (metis hd_dropWhile takeWhile_eq_Nil_iff)
  moreover have "bi_config bi' = bi_config bi" using evict_expired_frame [OF assms] by simp
  ultimately show ?thesis
    using c(1) by (simp add: evict_expired_def Let_def evict_expired_loop_pop)
qed

lemma visible_evicted:
  assumes "map_of m b = Some bi" and "evict_expired sub now bi = Some bi'"
  shows "visible sub now (AList.update b bi' m) c = visible sub now m c"
  using assms evict_expired_again [OF assms(2)]
  by (cases "c = b") (auto simp: visible_def update_conv')

lemma visible_sorted:
  assumes "manager_inv m"
  shows "sorted_wrt (<) (map ev_seq (visible sub now m b))"
proof (cases "map_of m b")
  case (Some bi)
  show ?thesis
  proof (cases "evict_expired sub now bi")
    case (Some bi')
    then have "bucket_inv bi'" using manager_invD(1) [OF assms \<open>map_of m b = Some bi\<close>] evict_expired_inv by blast
    with Some \<open>map_of m b = Some bi\<close> show ?thesis by (simp add: visible_def bucket_inv_defs)
  qed (simp add: visible_def Some)
qed (simp add: visible_def)

lemma visible_after_head:
  assumes "manager_inv m" and "map_of m b = Some bi" and "e \<in> set (visible sub now m b)"
  shows "bs_head_seq (bi_state bi) \<le> ev_seq e"
proof -
  have inv: "bucket_inv bi" using manager_invD(1) [OF assms(1,2)] .
  from assms(2,3) obtain bi' where "evict_expired sub now bi = Some bi'" "e \<in> set (bi_events bi')"
    by (cases "evict_expired sub now bi") (auto simp: visible_def)
  then have e: "e \<in> set (bi_events bi)" by (auto elim!: evict_expired_Some dest: in_set_dropD)
  then obtain f es where es: "bi_events bi = f # es" by (cases "bi_events bi") auto
  have "bs_head_seq (bi_state bi) = ev_seq f" using inv es by (simp add: bucket_inv_def state_ok_def Let_def)
  moreover have "sorted_wrt (<) (map ev_seq (f # es))" using inv es by (simp add: bucket_inv_defs)
  ultimately show ?thesis using e es by (auto simp: less_imp_le)
qed

lemma page_range:
  fixes f :: "'e \<Rightarrow> nat"
  assumes "sorted_wrt (<) (map f xs)"
    and page: "page = take k (filter (\<lambda>e. c < f e \<and> p e) xs)" and c': "c' = (if page = [] then c else f (last page))"
  shows "page = filter (\<lambda>e. c < f e \<and> f e \<le> c' \<and> p e) xs" and "c \<le> c'"
proof -
  let ?ms = "filter (\<lambda>e. c < f e \<and> p e) xs"
  have sorted: "sorted_wrt (\<lambda>a b. f a < f b) ?ms" using assms(1) by (simp add: sorted_wrt_map sorted_wrt_filter)
  have split: "sorted_wrt (\<lambda>a b. f a < f b) (page @ drop k ?ms)" using sorted page by simp
  show "c \<le> c'"
    using c' page in_set_takeD [of "last page" k ?ms] by (cases "page = []") (auto dest: last_in_set)
  have "filter (\<lambda>e. c < f e \<and> f e \<le> c' \<and> p e) xs = filter (\<lambda>e. f e \<le> c') ?ms"
    unfolding filter_filter by (rule filter_cong) auto
  also have "\<dots> = filter (\<lambda>e. f e \<le> c') page @ filter (\<lambda>e. f e \<le> c') (drop k ?ms)"
    using page by (metis append_take_drop_id filter_append)
  also have "filter (\<lambda>e. f e \<le> c') page = page"
    using split sorted_key_le_last [of f page] c' by (auto simp: sorted_wrt_append filter_id_conv)
  also have "filter (\<lambda>e. f e \<le> c') (drop k ?ms) = []"
  proof (cases "page = []")
    case True
    then show ?thesis using page c' by (auto simp: filter_empty_conv dest: in_set_dropD)
  next
    case False
    then have "c' < f e" if "e \<in> set (drop k ?ms)" for e
      using split c' last_in_set [OF False] that by (simp add: sorted_wrt_append)
    then show ?thesis by (force simp: filter_empty_conv)
  qed
  finally show "page = filter (\<lambda>e. c < f e \<and> f e \<le> c' \<and> p e) xs" by simp
qed

lemma filter_ranges:
  fixes f :: "'e \<Rightarrow> nat"
  shows "sorted_wrt (<) (map f xs) \<Longrightarrow> a \<le> b \<Longrightarrow> b \<le> c \<Longrightarrow>
   filter (\<lambda>e. a < f e \<and> f e \<le> c \<and> p e) xs =
   filter (\<lambda>e. a < f e \<and> f e \<le> b \<and> p e) xs @ filter (\<lambda>e. b < f e \<and> f e \<le> c \<and> p e) xs"
proof (induction xs)
  case (Cons x xs)
  show ?case
  proof (cases "f x \<le> b")
    case False
    then have "filter (\<lambda>e. a < f e \<and> f e \<le> b \<and> p e) xs = []" using Cons.prems by (force simp: filter_empty_conv)
    with False Cons show ?thesis by auto
  qed (use Cons in auto)
qed simp

text \<open>What the predicate asks of an event.\<close>

definition event_matches :: "predicate \<Rightarrow> signal_event \<Rightarrow> bool" where
  "event_matches p e \<longleftrightarrow>
     (case pr_severity_min p of None \<Rightarrow> True | Some mn \<Rightarrow> mn \<le> ev_severity e) \<and>
     (case pr_kind p of None \<Rightarrow> True | Some ks \<Rightarrow> ev_kind e \<in> set ks)"

definition allowed :: "string list option \<Rightarrow> signal_event \<Rightarrow> bool" where
  "allowed allow e \<longleftrightarrow> (case allow of None \<Rightarrow> True | Some ks \<Rightarrow> ev_kind e \<in> set ks)"

lemma kind_filter_matches:
  "kind_filter_for p = (native, allow) \<Longrightarrow>
   event_matches p e \<longleftrightarrow> field_ok (pr_severity_min p, native) e \<and> allowed allow e"
  by (cases "pr_kind p")
    (auto simp: kind_filter_for_def event_matches_def field_ok_def allowed_def length_Suc_conv split: if_splits option.splits)

lemma hand_over_fits:
  "length out + length evs \<le> cap \<Longrightarrow>
   hand_over cap allow tag evs out = (out @ map tag (filter (allowed allow) evs), False)"
  by (induction evs arbitrary: out) (auto simp: allowed_def split: option.splits)

lemma map_err_Ok: "map_err f r = Ok x \<longleftrightarrow> r = Ok x"
  by (cases r) (auto simp: map_err_def)

lemma state_of_Ok: "state_of m b = Ok st \<longleftrightarrow> (\<exists>bi. map_of m b = Some bi \<and> st = bi_state bi)"
  by (auto simp: state_of_def and_then_Ok_iff bucket_Ok_iff)

lemma offset_update: "offset_of (AList.update b n offs) c = (if c = b then n else offset_of offs c)"
  by (simp add: offset_of_def update_conv')

definition delivered :: "bucket_id \<Rightarrow> sub_event list \<Rightarrow> signal_event list" where
  "delivered b evs = map snd (filter (\<lambda>x. eo_bucket_id (fst x) = b) evs)"

lemma delivered_append: "delivered b (xs @ ys) = delivered b xs @ delivered b ys"
  by (simp add: delivered_def)

text \<open>
  One stretch of a pass: the cursors only move forward, and for every bucket the events added to the
  answer are the matching ones its cursor moved past.
\<close>

definition hands_over :: "dt_sub \<Rightarrow> timestamp \<Rightarrow> predicate \<Rightarrow> nat \<Rightarrow> drain \<Rightarrow> drain \<Rightarrow> bool" where
  "hands_over sub now p cap d d' \<longleftrightarrow>
     manager_inv (dr_manager d') \<and> length (dr_events d') \<le> cap \<and>
     visible sub now (dr_manager d') = visible sub now (dr_manager d) \<and>
     (\<forall>c. offset_of (dr_offsets d) c \<le> offset_of (dr_offsets d') c) \<and>
     (\<exists>new. dr_events d' = dr_events d @ new \<and> (\<forall>x \<in> set new. eo_seq (fst x) = ev_seq (snd x)) \<and>
       (\<forall>c. delivered c new =
          filter (\<lambda>e. offset_of (dr_offsets d) c < ev_seq e \<and> ev_seq e \<le> offset_of (dr_offsets d') c \<and> event_matches p e)
            (visible sub now (dr_manager d) c)))"

lemma filter_no_range: "filter (\<lambda>e. a < f e \<and> f e \<le> (a :: nat) \<and> P e) xs = []"
  by (auto simp: filter_empty_conv)

lemma hands_over_refl: "manager_inv (dr_manager d) \<Longrightarrow> length (dr_events d) \<le> cap \<Longrightarrow> hands_over sub now p cap d d"
  by (auto simp: hands_over_def delivered_def filter_no_range)

lemma hands_over_trans:
  assumes inv: "manager_inv (dr_manager d)" and "hands_over sub now p cap d e" and "hands_over sub now p cap e f"
  shows "hands_over sub now p cap d f"
proof -
  let ?V = "visible sub now (dr_manager d)" and ?D = "offset_of (dr_offsets d)" and ?E = "offset_of (dr_offsets e)"
    and ?F = "offset_of (dr_offsets f)"
  have vis: "visible sub now (dr_manager e) = ?V" using assms(2) by (simp add: hands_over_def)
  from assms(2) obtain n1 where n1: "dr_events e = dr_events d @ n1" "\<forall>x \<in> set n1. eo_seq (fst x) = ev_seq (snd x)"
      "\<And>c. delivered c n1 = filter (\<lambda>x. ?D c < ev_seq x \<and> ev_seq x \<le> ?E c \<and> event_matches p x) (?V c)"
    unfolding hands_over_def by blast
  from assms(3) obtain n2 where n2: "dr_events f = dr_events e @ n2" "\<forall>x \<in> set n2. eo_seq (fst x) = ev_seq (snd x)"
      "\<And>c. delivered c n2 = filter (\<lambda>x. ?E c < ev_seq x \<and> ev_seq x \<le> ?F c \<and> event_matches p x) (?V c)"
    unfolding hands_over_def vis by blast
  have le: "?D c \<le> ?E c" "?E c \<le> ?F c" for c using assms(2,3) by (simp_all add: hands_over_def)
  have "delivered c (n1 @ n2) = filter (\<lambda>x. ?D c < ev_seq x \<and> ev_seq x \<le> ?F c \<and> event_matches p x) (?V c)" for c
    using filter_ranges [OF visible_sorted [OF inv, of sub now c] le] n1(3) n2(3) by (simp add: delivered_append)
  moreover have "dr_events f = dr_events d @ (n1 @ n2)" "\<forall>x \<in> set (n1 @ n2). eo_seq (fst x) = ev_seq (snd x)"
    using n1(1,2) n2(1,2) by auto
  ultimately have "\<exists>new. dr_events f = dr_events d @ new \<and> (\<forall>x \<in> set new. eo_seq (fst x) = ev_seq (snd x)) \<and>
       (\<forall>c. delivered c new = filter (\<lambda>x. ?D c < ev_seq x \<and> ev_seq x \<le> ?F c \<and> event_matches p x) (?V c))" by blast
  moreover have "visible sub now (dr_manager f) = ?V" "manager_inv (dr_manager f)" "length (dr_events f) \<le> cap"
    using assms(2,3) by (simp_all add: hands_over_def)
  ultimately show ?thesis unfolding hands_over_def using le le_trans by blast
qed

text \<open>The cursor after the clamp, and the page a visit reads.\<close>

definition clamped_off :: "bucket_state \<Rightarrow> nat \<Rightarrow> nat" where
  "clamped_off st off = (if off < bs_head_seq st - 1 then bs_head_seq st - 1 else off)"

definition visit_request :: "predicate \<Rightarrow> nat \<Rightarrow> nat \<Rightarrow> bucket_read_request" where
  "visit_request p off want =
     \<lparr>rq_cursor = off, rq_severity_min = pr_severity_min p, rq_kind_filter = fst (kind_filter_for p), rq_limit = Some want\<rparr>"

definition tag_event :: "bucket_id \<Rightarrow> bucket_source \<Rightarrow> signal_event \<Rightarrow> sub_event" where
  "tag_event b src ev = (\<lparr>eo_bucket_id = b, eo_job_id = so_job_id src, eo_seq = ev_seq ev\<rparr>, ev)"

definition visit_lag :: "drain \<Rightarrow> bucket_state \<Rightarrow> bucket_id \<Rightarrow> bool" where
  "visit_lag d st b \<longleftrightarrow> dr_lagged d \<or> offset_of (dr_offsets d) b < bs_head_seq st - 1 \<or> 0 < bs_dropped_count st"

lemma visit_eq:
  assumes bi: "map_of (dr_manager d) b = Some bi" and off: "off = clamped_off (bi_state bi) (offset_of (dr_offsets d) b)"
    and want: "want = min per (cap - length (dr_events d))"
  shows "visit sub now p cap per (b, src) d =
    (let d1 = d\<lparr>dr_offsets := AList.update b off (dr_offsets d), dr_lagged := visit_lag d (bi_state bi) b\<rparr> in
     if want = 0 then Ok (d1, False)
     else and_then (map_err map_bucket_error (events_since sub now (dr_manager d) b (visit_request p off want))) (\<lambda>(m, resp).
       case hand_over cap (snd (kind_filter_for p)) (tag_event b src) (rp_events resp) (dr_events d) of (out, stop) \<Rightarrow>
         Ok (\<lparr>dr_manager = m, dr_offsets = AList.update b (if off < rp_next_cursor resp then rp_next_cursor resp else off) (dr_offsets d1),
              dr_events = out, dr_lagged = visit_lag d (bi_state bi) b\<rparr>, stop)))"
proof -
  obtain native allow where k: "kind_filter_for p = (native, allow)" by fastforce
  have st: "state_of (dr_manager d) b = Ok (bi_state bi)" using bi by (simp add: state_of_Ok)
  have tag: "tag_event b src = (\<lambda>ev. (\<lparr>eo_bucket_id = b, eo_job_id = so_job_id src, eo_seq = ev_seq ev\<rparr>, ev))"
    by (simp add: fun_eq_iff tag_event_def)
  show ?thesis
    unfolding tag off clamped_off_def want visit_lag_def
    by (simp only: visit_def visit_request_def Let_def k st map_err_def and_then.simps outcome.case prod.case fst_conv snd_conv)
qed

lemma visit_Ok:
  assumes ok: "visit sub now p cap per (b, src) d = Ok (d', stop)"
  obtains bi off want where "map_of (dr_manager d) b = Some bi"
    "off = clamped_off (bi_state bi) (offset_of (dr_offsets d) b)" "want = min per (cap - length (dr_events d))"
    "(want = 0 \<and> \<not> stop \<and> dr_manager d' = dr_manager d \<and> dr_offsets d' = AList.update b off (dr_offsets d) \<and>
        dr_events d' = dr_events d) \<or>
     (want \<noteq> 0 \<and> (\<exists>bi'. evict_expired sub now bi = Some bi' \<and>
        (let resp = read_inner b (visit_request p off want) bi' in
         dr_manager d' = AList.update b bi' (dr_manager d) \<and>
         dr_offsets d' = AList.update b (max off (rp_next_cursor resp)) (AList.update b off (dr_offsets d)) \<and>
         (dr_events d', stop) = hand_over cap (snd (kind_filter_for p)) (tag_event b src) (rp_events resp) (dr_events d))))"
proof -
  from ok obtain bi where bi: "map_of (dr_manager d) b = Some bi"
    by (auto simp: visit_def Let_def and_then_Ok_iff map_err_Ok state_of_Ok split: prod.splits)
  define off where "off = clamped_off (bi_state bi) (offset_of (dr_offsets d) b)"
  define want where "want = min per (cap - length (dr_events d))"
  note v = visit_eq [OF bi off_def want_def, of sub now p src, unfolded Let_def]
  show thesis
  proof (cases "want = 0")
    case True
    with ok have "\<not> stop \<and> dr_manager d' = dr_manager d \<and> dr_offsets d' = AList.update b off (dr_offsets d) \<and>
        dr_events d' = dr_events d" by (auto simp: v)
    with True bi that off_def want_def show thesis by blast
  next
    case False
    with ok obtain m resp where e: "events_since sub now (dr_manager d) b (visit_request p off want) = Ok (m, resp)"
      by (auto simp: v and_then_Ok_iff map_err_Ok)
    obtain out stop' where h: "hand_over cap (snd (kind_filter_for p)) (tag_event b src) (rp_events resp) (dr_events d) = (out, stop')"
      by fastforce
    from False ok have d': "dr_manager d' = m"
        "dr_offsets d' = AList.update b (max off (rp_next_cursor resp)) (AList.update b off (dr_offsets d))"
        "(dr_events d', stop) = hand_over cap (snd (kind_filter_for p)) (tag_event b src) (rp_events resp) (dr_events d)"
      by (auto simp: v map_err_def e h max_def)
    from e obtain bi' where "evict_expired sub now bi = Some bi'" "m = AList.update b bi' (dr_manager d)"
      "resp = read_inner b (visit_request p off want) bi'"
      using bi by (auto elim!: events_since_Ok)
    with False bi that [OF bi off_def want_def] d' show thesis by (simp add: Let_def)
  qed
qed

lemma clamped_off_keeps:
  assumes "bs_head_seq st \<le> n"
  shows "off < n \<longleftrightarrow> clamped_off st off < n"
  using assms by (cases "bs_head_seq st = 0") (auto simp: clamped_off_def)

lemma clamped_off_ge: "off \<le> clamped_off st off"
  by (simp add: clamped_off_def)

lemma delivered_tagged: "delivered c (map (tag_event b src) evs) = (if c = b then evs else [])"
  by (induction evs) (auto simp: delivered_def tag_event_def)

lemma read_limit_visit: "0 < want \<Longrightarrow> read_limit (visit_request p off want) \<le> want"
  by (simp add: read_limit_def visit_request_def clamp_def)

text \<open>What one visit reads: the range of visible events between the clamped cursor and the next one.\<close>

lemma visit_page:
  assumes inv: "manager_inv m" and bi: "map_of m b = Some bi" "evict_expired sub now bi = Some bi'"
    and off: "off = clamped_off (bi_state bi) off0" and resp: "resp = read_inner b (visit_request p off want) bi'"
  shows "filter (allowed (snd (kind_filter_for p))) (rp_events resp) =
      filter (\<lambda>e. off0 < ev_seq e \<and> ev_seq e \<le> rp_next_cursor resp \<and> event_matches p e) (visible sub now m b)"
    and "off \<le> rp_next_cursor resp"
proof -
  obtain native allow where k: "kind_filter_for p = (native, allow)" by fastforce
  have V: "visible sub now m b = bi_events bi'" using bi by (simp add: visible_def)
  have ps: "passes (visit_request p off want) e \<longleftrightarrow> off < ev_seq e \<and> field_ok (pr_severity_min p, native) e" for e
    by (simp add: passes_field_ok visit_request_def k)
  have page: "rp_events resp =
      take (read_limit (visit_request p off want)) (filter (\<lambda>e. off < ev_seq e \<and> field_ok (pr_severity_min p, native) e) (bi_events bi'))"
    by (simp add: resp read_inner_events ps cong: filter_cong)
  have nxt: "rp_next_cursor resp = (if rp_events resp = [] then off else ev_seq (last (rp_events resp)))"
    unfolding resp by (subst read_inner_next) (simp add: visit_request_def)
  have sorted: "sorted_wrt (<) (map ev_seq (bi_events bi'))" using visible_sorted [OF inv, of sub now b] by (simp add: V)
  note range = page_range [OF sorted page nxt]
  have in_range: "off0 < ev_seq e \<longleftrightarrow> off < ev_seq e" if "e \<in> set (bi_events bi')" for e
    using clamped_off_keeps [OF visible_after_head [OF inv bi(1)], of e sub now off0] that by (simp add: V off)
  have "filter (allowed allow) (rp_events resp) =
      filter (\<lambda>e. off < ev_seq e \<and> ev_seq e \<le> rp_next_cursor resp \<and> event_matches p e) (bi_events bi')"
    by (subst range(1)) (auto simp: kind_filter_matches [OF k] intro!: filter_cong)
  also have "\<dots> = filter (\<lambda>e. off0 < ev_seq e \<and> ev_seq e \<le> rp_next_cursor resp \<and> event_matches p e) (bi_events bi')"
    using in_range by (intro filter_cong) auto
  finally show "filter (allowed (snd (kind_filter_for p))) (rp_events resp) =
      filter (\<lambda>e. off0 < ev_seq e \<and> ev_seq e \<le> rp_next_cursor resp \<and> event_matches p e) (visible sub now m b)"
    by (simp add: k V)
  show "off \<le> rp_next_cursor resp" by (rule range(2))
qed

lemma visit_hands_over:
  assumes inv: "manager_inv (dr_manager d)" and len: "length (dr_events d) \<le> cap"
    and ok: "visit sub now p cap per (b, src) d = Ok (d', stop)"
  shows "\<not> stop \<and> hands_over sub now p cap d d'"
  using ok
proof (rule visit_Ok)
  fix bi off want
  assume bi: "map_of (dr_manager d) b = Some bi" and off: "off = clamped_off (bi_state bi) (offset_of (dr_offsets d) b)"
    and want: "want = min per (cap - length (dr_events d))"
    and cases: "(want = 0 \<and> \<not> stop \<and> dr_manager d' = dr_manager d \<and> dr_offsets d' = AList.update b off (dr_offsets d) \<and>
        dr_events d' = dr_events d) \<or>
     (want \<noteq> 0 \<and> (\<exists>bi'. evict_expired sub now bi = Some bi' \<and>
        (let resp = read_inner b (visit_request p off want) bi' in
         dr_manager d' = AList.update b bi' (dr_manager d) \<and>
         dr_offsets d' = AList.update b (max off (rp_next_cursor resp)) (AList.update b off (dr_offsets d)) \<and>
         (dr_events d', stop) = hand_over cap (snd (kind_filter_for p)) (tag_event b src) (rp_events resp) (dr_events d))))"
  let ?V = "visible sub now (dr_manager d)" and ?off = "offset_of (dr_offsets d)"
  from cases show ?thesis
  proof (elim disjE conjE exE)
    assume d': "\<not> stop" "dr_manager d' = dr_manager d" "dr_offsets d' = AList.update b off (dr_offsets d)" "dr_events d' = dr_events d"
    have "filter (\<lambda>e. ?off b < ev_seq e \<and> ev_seq e \<le> off \<and> event_matches p e) (?V b) = []"
    proof -
      have "?off b < ev_seq e \<Longrightarrow> \<not> ev_seq e \<le> off" if "e \<in> set (?V b)" for e
        using clamped_off_keeps [OF visible_after_head [OF inv bi that], of "?off b"] by (simp add: off)
      then show ?thesis by (auto simp: filter_empty_conv)
    qed
    then show ?thesis
      using d' inv len clamped_off_ge [of "?off b" "bi_state bi"]
      by (simp add: hands_over_def offset_update off delivered_def filter_no_range)
  next
    fix bi'
    assume "want \<noteq> 0" and ev: "evict_expired sub now bi = Some bi'"
      and "let resp = read_inner b (visit_request p off want) bi' in
         dr_manager d' = AList.update b bi' (dr_manager d) \<and>
         dr_offsets d' = AList.update b (max off (rp_next_cursor resp)) (AList.update b off (dr_offsets d)) \<and>
         (dr_events d', stop) = hand_over cap (snd (kind_filter_for p)) (tag_event b src) (rp_events resp) (dr_events d)"
    then obtain resp where resp: "resp = read_inner b (visit_request p off want) bi'"
      and m': "dr_manager d' = AList.update b bi' (dr_manager d)"
      and offs': "dr_offsets d' = AList.update b (max off (rp_next_cursor resp)) (AList.update b off (dr_offsets d))"
      and out: "(dr_events d', stop) = hand_over cap (snd (kind_filter_for p)) (tag_event b src) (rp_events resp) (dr_events d)"
      by (auto simp: Let_def)
    note page = visit_page [OF inv bi ev off resp]
    define new where "new = map (tag_event b src) (filter (allowed (snd (kind_filter_for p))) (rp_events resp))"
    have "length (rp_events resp) \<le> want"
      using read_limit_visit [of want p off] \<open>want \<noteq> 0\<close> by (simp add: resp read_inner_events)
    then have fits: "length (dr_events d) + length (rp_events resp) \<le> cap" using want len by auto
    have evs: "dr_events d' = dr_events d @ new" "\<not> stop"
      using out hand_over_fits [OF fits, of "snd (kind_filter_for p)" "tag_event b src"] by (simp_all add: new_def)
    have "length new \<le> length (rp_events resp)" by (simp add: new_def)
    then have "length (dr_events d') \<le> cap" using fits evs by simp
    moreover have o': "offset_of (dr_offsets d') c = (if c = b then rp_next_cursor resp else ?off c)" for c
      using page(2) by (simp add: offs' offset_update)
    moreover have "visible sub now (dr_manager d') = ?V"
      using visible_evicted [OF bi ev] by (simp add: m' fun_eq_iff)
    moreover have "manager_inv (dr_manager d')" using evict_update_inv [OF inv bi ev] by (simp add: m')
    moreover have "?off b \<le> rp_next_cursor resp" using page(2) clamped_off_ge [of "?off b" "bi_state bi"] off by simp
    moreover have "delivered c new = filter (\<lambda>e. ?off c < ev_seq e \<and> ev_seq e \<le> offset_of (dr_offsets d') c \<and> event_matches p e) (?V c)" for c
      unfolding new_def delivered_tagged o' using page(1) by (simp add: filter_no_range)
    moreover have "\<forall>x \<in> set new. eo_seq (fst x) = ev_seq (snd x)" by (auto simp: new_def tag_event_def)
    ultimately show ?thesis using evs unfolding hands_over_def by auto
  qed
qed

lemma drain_round_hands_over:
  "manager_inv (dr_manager d) \<Longrightarrow> length (dr_events d) \<le> cap \<Longrightarrow>
   drain_round sub now p cap order d = Ok (d', stop) \<Longrightarrow> hands_over sub now p cap d d'"
proof (induction order arbitrary: d)
  case (Cons x order)
  obtain per b src where x: "x = (per, b, src)" by (cases x)
  show ?case
  proof (cases "cap \<le> length (dr_events d)")
    case True
    with Cons.prems x show ?thesis by (simp add: hands_over_refl)
  next
    case False
    with Cons.prems(3) x obtain e st where v: "visit sub now p cap per (b, src) d = Ok (e, st)"
      and r: "(if st then Ok (e, True) else drain_round sub now p cap order e) = Ok (d', stop)"
      by (auto simp: and_then_Ok_iff)
    note e = visit_hands_over [OF Cons.prems(1,2) v]
    with r have r: "drain_round sub now p cap order e = Ok (d', stop)" by simp
    have "manager_inv (dr_manager e)" "length (dr_events e) \<le> cap" using e by (simp_all add: hands_over_def)
    from hands_over_trans [OF Cons.prems(1) conjunct2 [OF e] Cons.IH [OF this r]] show ?thesis .
  qed
qed (simp add: hands_over_refl)

lemma drain_loop_hands_over:
  "manager_inv (dr_manager d) \<Longrightarrow> length (dr_events d) \<le> cap \<Longrightarrow>
   drain_loop sub now p cap order d = Ok d' \<Longrightarrow> hands_over sub now p cap d d'"
proof (induction sub now p cap order d rule: drain_loop.induct)
  case (1 sub now p cap order d)
  obtain e stop where r: "drain_round sub now p cap order d = Ok (e, stop)"
    using "1.prems"(3) by (subst (asm) drain_loop.simps) (auto split: outcome.splits)
  note e = drain_round_hands_over [OF "1.prems"(1,2) r]
  show ?case
  proof (cases "stop \<or> \<not> length (dr_events d) < length (dr_events e)")
    case True
    then show ?thesis using "1.prems"(3) r e by (subst (asm) drain_loop.simps) simp
  next
    case False
    then have "drain_loop sub now p cap order e = Ok d'"
      using "1.prems"(3) r by (subst (asm) drain_loop.simps) simp
    with "1.IH" [OF r refl False] e have "hands_over sub now p cap e d'" by (simp add: hands_over_def)
    with hands_over_trans [OF "1.prems"(1) e] show ?thesis .
  qed
qed

lemma drain_fair_Ok:
  assumes "drain_fair sub now m sc offs p cap = Ok (m', offs', dn)"
  obtains "sc_buckets sc = [] \<or> cap = 0" "m' = m" "offs' = offs" "dn_events dn = []"
  | per d where "sc_buckets sc \<noteq> []" "0 < cap" "lag_weighted_shares m (sc_buckets sc) offs cap = Ok per"
    "drain_loop sub now p cap (rotate_from (sc_rr_start sc) (zip per (sc_buckets sc)))
       \<lparr>dr_manager = m, dr_offsets = offs, dr_events = [], dr_lagged = False\<rparr> = Ok d"
    "m' = dr_manager d" "offs' = dr_offsets d" "dn_events dn = dr_events d"
    "dn_next_rr dn = (sc_rr_start sc + 1) mod length (sc_buckets sc)"
  using assms by (auto simp: drain_fair_def Let_def and_then_Ok_iff split: if_splits)

text \<open>
  C3. A pass of a pull is lossless: whatever the share and order of the buckets, the answer stays
  within the cap, every cursor only moves forward, and for every bucket the answer holds exactly the
  unexpired events that match the predicate between the old and the new cursor, in order.
\<close>

theorem drain_fair_lossless:
  assumes "manager_inv m" and "drain_fair sub now m sc offs p cap = Ok (m', offs', dn)"
  shows "manager_inv m' \<and> length (dn_events dn) \<le> cap \<and>
    (\<forall>b. offset_of offs b \<le> offset_of offs' b \<and>
      delivered b (dn_events dn) =
        filter (\<lambda>e. offset_of offs b < ev_seq e \<and> ev_seq e \<le> offset_of offs' b \<and> event_matches p e)
          (visible sub now m b))"
  using assms(2)
proof (cases rule: drain_fair_Ok)
  case 1
  then show ?thesis using assms(1) by (simp add: delivered_def filter_no_range)
next
  case (2 per d)
  from drain_loop_hands_over [OF _ _ 2(4)] assms(1)
  have "hands_over sub now p cap \<lparr>dr_manager = m, dr_offsets = offs, dr_events = [], dr_lagged = False\<rparr> d" by simp
  then show ?thesis using 2(5-7) by (auto simp: hands_over_def)
qed

section \<open>A pull waits only for what is not there\<close>

text \<open>No event of the bucket past the cursor matches.\<close>

definition nothing_pending :: "dt_sub \<Rightarrow> timestamp \<Rightarrow> predicate \<Rightarrow> bucket_manager \<Rightarrow> offsets \<Rightarrow> bucket_id \<Rightarrow> bool" where
  "nothing_pending sub now p m offs b \<longleftrightarrow>
     filter (\<lambda>e. offset_of offs b < ev_seq e \<and> event_matches p e) (visible sub now m b) = []"

text \<open>The predicates whose kind filter the bucket applies itself.\<close>

definition native_kind :: "predicate \<Rightarrow> bool" where
  "native_kind p \<longleftrightarrow> (case pr_kind p of None \<Rightarrow> True | Some ks \<Rightarrow> length ks = 1)"

lemma native_kind_allows: "native_kind p \<Longrightarrow> snd (kind_filter_for p) = None"
  by (auto simp: native_kind_def kind_filter_for_def split: option.splits)

lemma read_limit_pos: "0 < read_limit rq"
  by (simp add: read_limit_def clamp_def MAX_READ_LIMIT_def)

lemma visit_empty:
  assumes inv: "manager_inv (dr_manager d)" and "dr_events d = []" and "0 < cap" and "0 < per" and "native_kind p"
    and ok: "visit sub now p cap per (b, src) d = Ok (d', stop)" and "dr_events d' = []"
  shows "nothing_pending sub now p (dr_manager d) (dr_offsets d) b"
  using ok
proof (rule visit_Ok)
  fix bi off want
  assume bi: "map_of (dr_manager d) b = Some bi" and off: "off = clamped_off (bi_state bi) (offset_of (dr_offsets d) b)"
    and want: "want = min per (cap - length (dr_events d))"
    and cases: "(want = 0 \<and> \<not> stop \<and> dr_manager d' = dr_manager d \<and> dr_offsets d' = AList.update b off (dr_offsets d) \<and>
        dr_events d' = dr_events d) \<or>
     (want \<noteq> 0 \<and> (\<exists>bi'. evict_expired sub now bi = Some bi' \<and>
        (let resp = read_inner b (visit_request p off want) bi' in
         dr_manager d' = AList.update b bi' (dr_manager d) \<and>
         dr_offsets d' = AList.update b (max off (rp_next_cursor resp)) (AList.update b off (dr_offsets d)) \<and>
         (dr_events d', stop) = hand_over cap (snd (kind_filter_for p)) (tag_event b src) (rp_events resp) (dr_events d))))"
  have "want \<noteq> 0" using assms(2-4) want by simp
  with cases obtain bi' resp where ev: "evict_expired sub now bi = Some bi'"
    and resp: "resp = read_inner b (visit_request p off want) bi'"
    and out: "(dr_events d', stop) = hand_over cap None (tag_event b src) (rp_events resp) []"
    using native_kind_allows [OF assms(5)] assms(2) by (auto simp: Let_def)
  have "rp_events resp = []"
  proof -
    have "length (rp_events resp) \<le> want"
      using read_limit_visit [of want p off] \<open>want \<noteq> 0\<close> by (simp add: resp read_inner_events)
    then have "length (rp_events resp) \<le> cap" using want assms(2) by auto
    with hand_over_fits [of "[]" "rp_events resp" cap None "tag_event b src"] out assms(7) show ?thesis
      by (simp add: allowed_def)
  qed
  then have none: "filter (passes (visit_request p off want)) (bi_events bi') = []"
    using read_limit_pos [of "visit_request p off want"] by (auto simp: resp read_inner_events)
  obtain native where k: "kind_filter_for p = (native, None)" using native_kind_allows [OF assms(5)] by (metis surj_pair snd_conv)
  have "\<not> (offset_of (dr_offsets d) b < ev_seq e \<and> event_matches p e)" if "e \<in> set (bi_events bi')" for e
  proof -
    have "bs_head_seq (bi_state bi) \<le> ev_seq e"
      using visible_after_head [OF inv bi, of e sub now] that bi ev by (simp add: visible_def)
    moreover have "\<not> passes (visit_request p off want) e" using none that by (auto simp: filter_empty_conv)
    ultimately show ?thesis
      using clamped_off_keeps [of "bi_state bi" "ev_seq e" "offset_of (dr_offsets d) b"] kind_filter_matches [OF k, of e]
      by (simp add: passes_field_ok visit_request_def k off allowed_def)
  qed
  then show ?thesis using bi ev by (simp add: nothing_pending_def visible_def filter_empty_conv)
qed

lemma hands_over_pending:
  assumes "hands_over sub now p cap d e" and "dr_events e = dr_events d"
    and "nothing_pending sub now p (dr_manager e) (dr_offsets e) b"
  shows "nothing_pending sub now p (dr_manager d) (dr_offsets d) b"
proof -
  from assms(1,2) have "delivered b [] = filter (\<lambda>x. offset_of (dr_offsets d) b < ev_seq x \<and>
      ev_seq x \<le> offset_of (dr_offsets e) b \<and> event_matches p x) (visible sub now (dr_manager d) b)"
    unfolding hands_over_def by auto
  moreover have "visible sub now (dr_manager e) = visible sub now (dr_manager d)" using assms(1) by (simp add: hands_over_def)
  ultimately show ?thesis
    using assms(3) by (auto simp: nothing_pending_def delivered_def filter_empty_conv not_le eq_commute [of "[]"])
qed

lemma drain_round_empty:
  assumes "0 < cap" and "native_kind p"
  shows "manager_inv (dr_manager d) \<Longrightarrow> dr_events d = [] \<Longrightarrow> \<forall>x \<in> set order. 0 < fst x \<Longrightarrow>
   drain_round sub now p cap order d = Ok (d', stop) \<Longrightarrow> dr_events d' = [] \<Longrightarrow>
   \<forall>x \<in> set order. nothing_pending sub now p (dr_manager d) (dr_offsets d) (fst (snd x))"
proof (induction order arbitrary: d)
  case (Cons x order)
  obtain per b src where x: "x = (per, b, src)" by (cases x)
  from Cons.prems(2,4) assms(1) x obtain e st where v: "visit sub now p cap per (b, src) d = Ok (e, st)"
    and r: "(if st then Ok (e, True) else drain_round sub now p cap order e) = Ok (d', stop)"
    by (auto simp: and_then_Ok_iff)
  note e = visit_hands_over [OF Cons.prems(1) _ v] and inv = Cons.prems(1)
  from e Cons.prems(2) r have ho: "hands_over sub now p cap d e" and r: "drain_round sub now p cap order e = Ok (d', stop)" by auto
  then have e_inv: "manager_inv (dr_manager e)" "length (dr_events e) \<le> cap" by (simp_all add: hands_over_def)
  from drain_round_hands_over [OF e_inv r] obtain new where "dr_events d' = dr_events e @ new"
    unfolding hands_over_def by blast
  with Cons.prems(5) have e_events: "dr_events e = []" by simp
  have here: "nothing_pending sub now p (dr_manager d) (dr_offsets d) b"
    using visit_empty [OF inv Cons.prems(2) assms(1) _ assms(2) v e_events] Cons.prems(3) x by simp
  from Cons.IH [OF e_inv(1) e_events _ r Cons.prems(5)] Cons.prems(3)
  have "\<forall>y \<in> set order. nothing_pending sub now p (dr_manager e) (dr_offsets e) (fst (snd y))" by simp
  then have "\<forall>y \<in> set order. nothing_pending sub now p (dr_manager d) (dr_offsets d) (fst (snd y))"
    using hands_over_pending [OF ho] e_events Cons.prems(2) by simp
  with here x show ?case by simp
qed simp

lemma backlogs_length: "backlogs m bs offs = Ok b \<Longrightarrow> length b = length bs"
  by (induction bs arbitrary: b) (auto simp: and_then_Ok_iff)

lemma shares_positive: "x \<in> set (shares_of b cap) \<Longrightarrow> 0 < x"
  by (auto simp: shares_of_def Let_def split: if_splits)

lemma lag_weighted_shares_Ok:
  assumes "lag_weighted_shares m bs offs cap = Ok per"
  shows "length per = length bs" "\<forall>x \<in> set per. 0 < x"
proof -
  from assms obtain b where b: "backlogs m bs offs = Ok b" "per = shares_of b cap"
    by (auto simp: lag_weighted_shares_def and_then_Ok_iff)
  show "length per = length bs" using backlogs_length [OF b(1)] by (simp add: b(2) shares_of_def Let_def)
  show "\<forall>x \<in> set per. 0 < x" using shares_positive by (auto simp: b(2))
qed

lemma set_rotate_from: "set (rotate_from k xs) = set xs"
proof (cases "xs = []")
  case False
  have "\<exists>i < length xs. j = (k + i) mod length xs" if "j < length xs" for j
  proof (rule exI [of _ "(j + (length xs - k mod length xs)) mod length xs"], intro conjI)
    have "k mod length xs < length xs" using False by simp
    then have "(k mod length xs + (j + (length xs - k mod length xs))) mod length xs = j"
      using that by (simp add: add.left_commute [of "k mod length xs"])
    then show "j = (k + (j + (length xs - k mod length xs)) mod length xs) mod length xs" by (simp add: mod_simps)
  qed (use False in simp)
  then have "(\<lambda>i. (k + i) mod length xs) ` {0..<length xs} = {0..<length xs}" using False by force
  moreover have "(\<lambda>i. xs ! ((k + i) mod length xs)) ` {0..<length xs} =
      nth xs ` (\<lambda>i. (k + i) mod length xs) ` {0..<length xs}" by (simp add: image_image)
  ultimately have "(\<lambda>i. xs ! ((k + i) mod length xs)) ` {0..<length xs} = nth xs ` {0..<length xs}" by simp
  also have "\<dots> = set xs" by (metis list.set_map map_nth set_upt)
  finally show ?thesis by (simp add: rotate_from_def)
qed (simp add: rotate_from_def)

lemma drain_fair_empty:
  assumes "manager_inv m" and "native_kind p" and "0 < cap"
    and "drain_fair sub now m sc offs p cap = Ok (m', offs', dn)" and "dn_events dn = []"
  shows "\<forall>(b, src) \<in> set (sc_buckets sc). nothing_pending sub now p m offs b"
  using assms(4)
proof (cases rule: drain_fair_Ok)
  case 1
  then show ?thesis using assms(3) by simp
next
  case (2 per d)
  let ?d = "\<lparr>dr_manager = m, dr_offsets = offs, dr_events = [], dr_lagged = False\<rparr>"
  let ?order = "rotate_from (sc_rr_start sc) (zip per (sc_buckets sc))"
  obtain e stop where r: "drain_round sub now p cap ?order ?d = Ok (e, stop)"
    using 2(4) by (subst (asm) drain_loop.simps) (auto split: outcome.splits)
  have e: "dr_events e = []"
  proof (rule ccontr)
    assume ne: "dr_events e \<noteq> []"
    have ho: "hands_over sub now p cap ?d e" using drain_round_hands_over [OF _ _ r] assms(1) by simp
    then have e_inv: "manager_inv (dr_manager e)" "length (dr_events e) \<le> cap" by (simp_all add: hands_over_def)
    have "drain_loop sub now p cap ?order e = Ok d \<or> d = e"
      using 2(4) r ne by (subst (asm) drain_loop.simps) (auto split: if_splits)
    then have "hands_over sub now p cap e d"
    proof
      assume "drain_loop sub now p cap ?order e = Ok d"
      with drain_loop_hands_over [OF e_inv] show ?thesis .
    qed (simp add: hands_over_refl e_inv)
    then obtain new where "dr_events d = dr_events e @ new" unfolding hands_over_def by blast
    then show False using ne 2(7) assms(5) by simp
  qed
  note shares = lag_weighted_shares_Ok [OF 2(3)]
  have "\<forall>x \<in> set ?order. 0 < fst x" using shares(2) by (auto simp: set_rotate_from dest: set_zip_leftD)
  from drain_round_empty [OF assms(3,2) _ _ this r e] assms(1)
  have pend: "\<forall>x \<in> set (zip per (sc_buckets sc)). nothing_pending sub now p m offs (fst (snd x))" by (simp add: set_rotate_from)
  show ?thesis
  proof (clarify)
    fix b src assume "(b, src) \<in> set (sc_buckets sc)"
    then have "(b, src) \<in> set (map snd (zip per (sc_buckets sc)))" using shares(1) by simp
    then obtain n where "(n, b, src) \<in> set (zip per (sc_buckets sc))" by auto
    with pend show "nothing_pending sub now p m offs b" by fastforce
  qed
qed

lemma scope_snapshot_Ok:
  assumes "scope_snapshot d u = Ok (d1, sc)"
  obtains s c where "map_of (ds_subs d) u = Some s" "map_of (ds_subs d1) u = Some (s\<lparr>su_cached_scope := c\<rparr>)"
    "sc_offsets sc = su_offsets s" "sc_rr_start sc = su_rr_start s" "ds_buckets d1 = ds_buckets d" "ds_sources d1 = ds_sources d"
proof -
  from assms obtain s where s: "map_of (ds_subs d) u = Some s"
    by (auto simp: scope_snapshot_def with_sub_def split: option.splits)
  obtain found truncated where f: "scan_scope (ds_sources d) (su_predicate s) (list_bucket_ids (ds_buckets d)) [] = (found, truncated)"
    by fastforce
  have *: "map_of (ds_subs d1) u = Some (s\<lparr>su_cached_scope := su_cached_scope s\<rparr>) \<or>
      (\<exists>c. map_of (ds_subs d1) u = Some (s\<lparr>su_cached_scope := Some c\<rparr>))"
    "sc_offsets sc = su_offsets s" "sc_rr_start sc = su_rr_start s" "ds_buckets d1 = ds_buckets d" "ds_sources d1 = ds_sources d"
    using assms s f by (auto simp: scope_snapshot_def with_sub_def Let_def update_conv' split: option.splits if_splits)
  then show thesis using that [OF s] by blast
qed

lemma pull_cap_pos: "0 < pull_cap mx"
  by (simp add: pull_cap_def DEFAULT_PULL_MAX_def MAX_PULL_MAX_def)

lemma pull_pass_Ok:
  assumes "pull_pass sub now lv d u mx delta = Ok (d', st)"
  obtains s d1 sc where "map_of (ds_subs d) u = Some s" "ds_buckets d1 = ds_buckets d"
    "\<exists>c. map_of (ds_subs d1) u = Some (s\<lparr>su_cached_scope := c\<rparr>)" "sc_offsets sc = su_offsets s" "sc_rr_start sc = su_rr_start s"
    "(sc_buckets sc = [] \<and> d' = d1 \<and> st = PullEmpty (sc_truncated sc)) \<or>
     (sc_buckets sc \<noteq> [] \<and> (\<exists>m offs dn.
        drain_fair sub now (ds_buckets d) sc (su_offsets s) (su_predicate s) (pull_cap mx) = Ok (m, offs, dn) \<and>
        (if dn_events dn = [] then d' = d1\<lparr>ds_buckets := m\<rparr> \<and> st = PullWait sc offs (dn_lagged dn)
         else \<exists>r live. resolve_liveness_delta (ds_subs d1) u (liveness_for lv sc) delta = (r, live) \<and>
             d' = d1\<lparr>ds_buckets := m, ds_subs := commit now r u offs (dn_next_rr dn)\<rparr> \<and>
             st = PullDone \<lparr>po_events = dn_events dn, po_liveness = live, po_lagged = dn_lagged dn,
                           po_truncated = sc_truncated sc\<rparr>)))"
proof -
  from assms obtain d1 sc0 where snap: "scope_snapshot d u = Ok (d1, sc0)" by (auto simp: pull_pass_def and_then_Ok_iff)
  then obtain s c where s: "map_of (ds_subs d) u = Some s" "map_of (ds_subs d1) u = Some (s\<lparr>su_cached_scope := c\<rparr>)"
    and f: "sc_offsets sc0 = su_offsets s" "sc_rr_start sc0 = su_rr_start s" "ds_buckets d1 = ds_buckets d"
    by (auto elim!: scope_snapshot_Ok)
  define sc where "sc = sc0\<lparr>sc_buckets := filter (\<lambda>x. has_bucket (ds_buckets d1) (fst x)) (sc_buckets sc0)\<rparr>"
  have sc: "sc_offsets sc = su_offsets s" "sc_rr_start sc = su_rr_start s" by (simp_all add: sc_def f)
  have w: "with_sub (ds_subs d1) u = Ok (s\<lparr>su_cached_scope := c\<rparr>)" by (simp add: with_sub_def s)
  obtain r live where rl: "resolve_liveness_delta (ds_subs d1) u (liveness_for lv sc) delta = (r, live)" by fastforce
  have pp: "pull_pass sub now lv d u mx delta =
      (if sc_buckets sc = [] then Ok (d1, PullEmpty (sc_truncated sc))
       else and_then (drain_fair sub now (ds_buckets d) sc (su_offsets s) (su_predicate s) (pull_cap mx)) (\<lambda>(m, offs, dn).
           if dn_events dn = [] then Ok (d1\<lparr>ds_buckets := m\<rparr>, PullWait sc offs (dn_lagged dn))
           else Ok (d1\<lparr>ds_buckets := m, ds_subs := commit now r u offs (dn_next_rr dn)\<rparr>,
                 PullDone \<lparr>po_events = dn_events dn, po_liveness = live, po_lagged = dn_lagged dn,
                           po_truncated = sc_truncated sc\<rparr>)))"
    using rl f(3) sc(1) unfolding pull_pass_def snap and_then.simps prod.case w Let_def sc_def [symmetric] by (simp cong: if_cong)
  show thesis
  proof (rule that [of s d1 sc, OF s(1) f(3) _ sc])
    show "\<exists>c. map_of (ds_subs d1) u = Some (s\<lparr>su_cached_scope := c\<rparr>)" using s(2) by blast
  qed (use assms pp rl in \<open>auto simp: and_then_Ok_iff split: if_splits\<close>)
qed

text \<open>
  C22. A pull goes to sleep only when nothing is there for it: when the predicate names no kind or one,
  and a pass of \<open>pull\<close> finds nothing to answer, then no bucket of its scope holds an unexpired event
  past the subscription's cursor that matches the predicate.
\<close>

theorem pull_waits_only_when_drained:
  assumes "manager_inv (ds_buckets d)" and "map_of (ds_subs d) u = Some s" and "native_kind (su_predicate s)"
    and "pull_pass sub now lv d u mx delta = Ok (d', PullWait sc offs lagged)"
  shows "\<forall>(b, src) \<in> set (sc_buckets sc). nothing_pending sub now (su_predicate s) (ds_buckets d) (su_offsets s) b"
  using assms(4)
proof (cases rule: pull_pass_Ok)
  case (1 s' d1 sc')
  with assms(2) obtain m dn where
    "drain_fair sub now (ds_buckets d) sc (su_offsets s) (su_predicate s) (pull_cap mx) = Ok (m, offs, dn)" "dn_events dn = []"
    by (auto split: if_splits)
  with drain_fair_empty [OF assms(1,3) pull_cap_pos] show ?thesis by blast
qed

section \<open>A pass returns\<close>

definition readable :: "dt_sub \<Rightarrow> timestamp \<Rightarrow> bucket_manager \<Rightarrow> bucket_id \<Rightarrow> bool" where
  "readable sub now m b \<longleftrightarrow>
     (case map_of m b of None \<Rightarrow> False | Some bi \<Rightarrow> evict_expired sub now bi \<noteq> None)"

lemma readable_evicted:
  assumes "map_of m b = Some bi" and "evict_expired sub now bi = Some bi'" and "readable sub now m c"
  shows "readable sub now (AList.update b bi' m) c"
  using assms evict_expired_again [OF assms(2)] by (auto simp: readable_def update_conv' split: option.splits)

lemma visit_total:
  assumes "readable sub now (dr_manager d) b"
  obtains d' stop where "visit sub now p cap per (b, src) d = Ok (d', stop)"
    "\<And>c. readable sub now (dr_manager d) c \<Longrightarrow> readable sub now (dr_manager d') c"
proof -
  from assms obtain bi bi' where bi: "map_of (dr_manager d) b = Some bi" and ev: "evict_expired sub now bi = Some bi'"
    by (auto simp: readable_def split: option.splits)
  define off where "off = clamped_off (bi_state bi) (offset_of (dr_offsets d) b)"
  define want where "want = min per (cap - length (dr_events d))"
  note v = visit_eq [OF bi off_def want_def, of sub now p src, unfolded Let_def]
  show thesis
  proof (cases "want = 0")
    case True
    then have "visit sub now p cap per (b, src) d =
        Ok (d\<lparr>dr_offsets := AList.update b off (dr_offsets d), dr_lagged := visit_lag d (bi_state bi) b\<rparr>, False)"
      by (simp add: v)
    then show thesis by (rule that) simp
  next
    case False
    obtain m resp where e: "events_since sub now (dr_manager d) b (visit_request p off want) = Ok (m, resp)"
      "m = AList.update b bi' (dr_manager d)" by (simp add: events_since_def bucket_def bi ev)
    obtain out stop where h: "hand_over cap (snd (kind_filter_for p)) (tag_event b src) (rp_events resp) (dr_events d) = (out, stop)"
      by fastforce
    show thesis
    proof (rule that)
      show "visit sub now p cap per (b, src) d = Ok
        (\<lparr>dr_manager = m, dr_offsets = AList.update b (if off < rp_next_cursor resp then rp_next_cursor resp else off)
            (AList.update b off (dr_offsets d)), dr_events = out, dr_lagged = visit_lag d (bi_state bi) b\<rparr>, stop)"
        using False by (simp add: v e(1) h map_err_def)
    qed (use readable_evicted [OF bi ev] e(2) in simp)
  qed
qed

lemma drain_round_total:
  "\<forall>x \<in> set order. readable sub now (dr_manager d) (fst (snd x)) \<Longrightarrow>
   \<exists>d' stop. drain_round sub now p cap order d = Ok (d', stop) \<and>
     (\<forall>c. readable sub now (dr_manager d) c \<longrightarrow> readable sub now (dr_manager d') c)"
proof (induction order arbitrary: d)
  case (Cons x order)
  obtain per b src where x: "x = (per, b, src)" by (cases x)
  show ?case
  proof (cases "cap \<le> length (dr_events d)")
    case False
    from Cons.prems x have "readable sub now (dr_manager d) b" by simp
    then obtain e st where v: "visit sub now p cap per (b, src) d = Ok (e, st)"
      and k: "\<And>c. readable sub now (dr_manager d) c \<Longrightarrow> readable sub now (dr_manager e) c"
      using visit_total [where p = p and cap = cap and per = per and src = src] by metis
    show ?thesis
    proof (cases st)
      case False
      from Cons.prems k have "\<forall>y \<in> set order. readable sub now (dr_manager e) (fst (snd y))" by simp
      from Cons.IH [OF this] k v x \<open>\<not> cap \<le> length (dr_events d)\<close> False show ?thesis by auto
    qed (use v k x \<open>\<not> cap \<le> length (dr_events d)\<close> in auto)
  qed (use x in \<open>intro exI [of _ d] exI [of _ True], simp\<close>)
qed auto

lemma drain_loop_total:
  "\<forall>x \<in> set order. readable sub now (dr_manager d) (fst (snd x)) \<Longrightarrow>
   \<exists>d'. drain_loop sub now p cap order d = Ok d'"
proof (induction sub now p cap order d rule: drain_loop.induct)
  case (1 sub now p cap order d)
  from drain_round_total [OF "1.prems"] obtain e stop where r: "drain_round sub now p cap order d = Ok (e, stop)"
    and k: "\<forall>c. readable sub now (dr_manager d) c \<longrightarrow> readable sub now (dr_manager e) c" by blast
  show ?case
  proof (cases "stop \<or> \<not> length (dr_events d) < length (dr_events e)")
    case True
    then show ?thesis using r by (subst drain_loop.simps) simp
  next
    case False
    from k "1.prems" have "\<forall>x \<in> set order. readable sub now (dr_manager e) (fst (snd x))" by blast
    from "1.IH" [OF r refl False this] r False show ?thesis by (subst drain_loop.simps) simp
  qed
qed

lemma backlogs_total:
  "\<forall>x \<in> set bs. readable sub now m (fst x) \<Longrightarrow> \<exists>b. backlogs m bs offs = Ok b"
proof (induction bs)
  case (Cons x bs)
  obtain b src where x: "x = (b, src)" by (cases x)
  from Cons obtain l where "backlogs m bs offs = Ok l" by auto
  moreover from Cons.prems x obtain st where "state_of m b = Ok st"
    by (auto simp: readable_def state_of_Ok split: option.splits)
  ultimately show ?case by (simp add: x map_err_def)
qed simp

lemma drain_fair_total:
  assumes "\<forall>x \<in> set (sc_buckets sc). readable sub now m (fst x)"
  shows "\<exists>m' offs' dn. drain_fair sub now m sc offs p cap = Ok (m', offs', dn)"
proof (cases "length (sc_buckets sc) = 0 \<or> cap = 0")
  case False
  from backlogs_total [OF assms] obtain l where "backlogs m (sc_buckets sc) offs = Ok l" by blast
  then have per: "lag_weighted_shares m (sc_buckets sc) offs cap = Ok (shares_of l cap)" by (simp add: lag_weighted_shares_def)
  let ?order = "rotate_from (sc_rr_start sc) (zip (shares_of l cap) (sc_buckets sc))"
  have "\<forall>x \<in> set ?order. readable sub now m (fst (snd x))"
    using assms by (force simp: set_rotate_from dest: set_zip_rightD)
  then obtain d where "drain_loop sub now p cap ?order \<lparr>dr_manager = m, dr_offsets = offs, dr_events = [], dr_lagged = False\<rparr> = Ok d"
    using drain_loop_total [of ?order sub now "\<lparr>dr_manager = m, dr_offsets = offs, dr_events = [], dr_lagged = False\<rparr>" p cap]
    by auto
  with per False show ?thesis by (simp add: drain_fair_def)
qed (simp add: drain_fair_def)

text \<open>
  C23. One pass of \<open>pull\<close> ends, whatever the clock reads: for an open subscription and buckets whose
  age limit the time library can subtract, the rounds over the buckets come to a stop and the pass
  answers or goes to wait; the only error is an unknown subscription.
\<close>

theorem pull_pass_returns:
  assumes "\<And>b. map_of (ds_buckets d) b \<noteq> None \<Longrightarrow> readable sub now (ds_buckets d) b"
  shows "if map_of (ds_subs d) u = None then pull_pass sub now lv d u mx delta = Err (unknown_subscription u)
    else \<exists>d' st. pull_pass sub now lv d u mx delta = Ok (d', st)"
proof (cases "map_of (ds_subs d) u")
  case None
  then show ?thesis by (simp add: pull_pass_def scope_snapshot_def with_sub_def)
next
  case (Some s)
  have "\<exists>r. scope_snapshot d u = Ok r"
    using Some by (auto simp: scope_snapshot_def with_sub_def Let_def split: option.splits prod.splits)
  then obtain d1 sc0 where snap: "scope_snapshot d u = Ok (d1, sc0)" by auto
  then obtain s' c where f: "map_of (ds_subs d1) u = Some (s'\<lparr>su_cached_scope := c\<rparr>)" "ds_buckets d1 = ds_buckets d"
    by (rule scope_snapshot_Ok) auto
  define sc where "sc = sc0\<lparr>sc_buckets := filter (\<lambda>x. has_bucket (ds_buckets d1) (fst x)) (sc_buckets sc0)\<rparr>"
  have "\<forall>x \<in> set (sc_buckets sc). readable sub now (ds_buckets d1) (fst x)"
    using assms by (auto simp: sc_def has_bucket_def f(2))
  from drain_fair_total [OF this]
  obtain m offs dn where dr: "drain_fair sub now (ds_buckets d1) sc (sc_offsets sc) (su_predicate s') (pull_cap mx) = Ok (m, offs, dn)"
    by blast
  obtain r live where rl: "resolve_liveness_delta (ds_subs d1) u (liveness_for lv sc) delta = (r, live)" by fastforce
  have "\<exists>d' st. pull_pass sub now lv d u mx delta = Ok (d', st)"
    unfolding pull_pass_def snap and_then.simps prod.case Let_def sc_def [symmetric]
    by (simp add: with_sub_def f(1) dr rl)
  with Some show ?thesis by simp
qed

section \<open>What the waiting pull gets wrong\<close>

text \<open>A pass over one bucket that reads only kinds off the list ends without an answer.\<close>

lemma drain_loop_no_progress:
  assumes "drain_round sub now p cap order d = Ok (d', stop)" and "length (dr_events d') \<le> length (dr_events d)"
  shows "drain_loop sub now p cap order d = Ok d'"
  using assms by (subst drain_loop.simps) simp

lemma visit_off_list:
  assumes "manager_inv (dr_manager d)" and bi: "map_of (dr_manager d) b = Some bi" and ev: "evict_expired sub now bi = Some bi'"
    and off: "off = clamped_off (bi_state bi) (offset_of (dr_offsets d) b)" and want: "want = min per (cap - length (dr_events d))" "want \<noteq> 0"
    and none: "filter (allowed (snd (kind_filter_for p))) (rp_events (read_inner b (visit_request p off want) bi')) = []"
  shows "\<exists>d'. visit sub now p cap per (b, src) d = Ok (d', False) \<and> dr_events d' = dr_events d"
proof -
  define resp where "resp = read_inner b (visit_request p off want) bi'"
  have es: "events_since sub now (dr_manager d) b (visit_request p off want) = Ok (AList.update b bi' (dr_manager d), resp)"
    by (simp add: events_since_def bucket_def bi ev resp_def)
  have "length (rp_events resp) \<le> want" using read_limit_visit [of want p off] want(2) by (simp add: resp_def read_inner_events)
  then have "length (dr_events d) + length (rp_events resp) \<le> cap" using want by auto
  from hand_over_fits [OF this, of "snd (kind_filter_for p)" "tag_event b src"] none want es
  show ?thesis
    unfolding visit_eq [OF bi off want(1), of sub now p src, unfolded Let_def] by (simp add: map_err_def resp_def)
qed

definition wit_alarm :: signal_event where
  "wit_alarm = (sample_event wit_b 0)\<lparr>ev_kind := ''alarm''\<rparr>"

definition wit_bi2 :: bucket_inner where
  "wit_bi2 = push_event (wit_alarm\<lparr>ev_seq := 2\<rparr>) (push_event ((sample_event wit_b 0)\<lparr>ev_seq := 1\<rparr>)
     (bucket_inner_new 0 wit_b bucket_config_default))"

definition wit_m2 :: bucket_manager where
  "wit_m2 = AList.update wit_b wit_bi2 wit_m1"

lemma wit_bi1_state:
  "bs_tail_seq (bi_state (push_event ((sample_event wit_b 0)\<lparr>ev_seq := 1\<rparr>) (bucket_inner_new 0 wit_b bucket_config_default))) = 1"
  by (simp add: push_event_def evict_for_capacity_def evict_for_capacity_loop.simps refresh_state_def
        count_event_def bucket_inner_new_def bucket_config_default_def DEFAULT_MAX_EVENTS_def)

lemma wit_m2_append: "append_event wit_m1 wit_b wit_alarm = Ok (wit_m2, 2)"
proof -
  have "validate_event wit_alarm = Ok ()" "ev_bucket_id wit_alarm = wit_b"
    by (simp_all add: wit_alarm_def sample_event_def validate_event_def severity_order)
  moreover have "assign_seq wit_b wit_alarm (push_event ((sample_event wit_b 0)\<lparr>ev_seq := 1\<rparr>)
      (bucket_inner_new 0 wit_b bucket_config_default)) = Ok 2"
    by (simp add: assign_seq_def Let_def wit_bi1_state checked_add_def u64_max_def wit_alarm_def)
  ultimately show ?thesis
    by (simp add: append_event_def bucket_def wit_m1_lookup append_inner_def wit_m2_def wit_bi2_def)
qed

lemma wit_m2_inv: "manager_inv wit_m2"
  using mgr_reach_inv [OF mgr_reach.step [OF wit_m1_reach mgr_step.append [OF _ wit_m2_append]]]
  by (simp add: wit_alarm_def)

lemma wit_m1_single: "wit_m1 = [(wit_b, push_event ((sample_event wit_b 0)\<lparr>ev_seq := 1\<rparr>) (bucket_inner_new 0 wit_b bucket_config_default))]"
  by (simp add: wit_m1_def the_ok_def append_event_def bucket_def wit_m0_def append_inner_def
      assign_seq_def checked_add_def u64_max_def) (simp add: bucket_inner_new_def)

lemma wit_m2_lookup: "map_of wit_m2 wit_b = Some wit_bi2" "list_bucket_ids wit_m2 = [wit_b]"
  by (simp_all add: wit_m2_def wit_m1_single list_bucket_ids_def)

lemma wit_bi2_events: "bi_events wit_bi2 = [(sample_event wit_b 0)\<lparr>ev_seq := 1\<rparr>, wit_alarm\<lparr>ev_seq := 2\<rparr>]"
  by (simp add: wit_bi2_def bucket_inner_new_def bucket_config_default_def DEFAULT_MAX_EVENTS_def)

lemma wit_bi2_state: "bs_head_seq (bi_state wit_bi2) = 1" "bs_tail_seq (bi_state wit_bi2) = 2"
  using manager_invD(1) [OF wit_m2_inv wit_m2_lookup(1)] wit_bi2_events
  by (simp_all add: bucket_inv_def state_ok_def Let_def)

lemma wit_bi2_evict: "\<exists>bi'. evict_expired sample_sub 1 wit_bi2 = Some bi' \<and> bi_events bi' = bi_events wit_bi2"
proof -
  have "evict_expired_loop c wit_bi2 = wit_bi2" if "c \<le> 0" for c
    by (subst evict_expired_loop.simps, subst wit_bi2_events) (use that in \<open>simp add: wit_bi2_events\<close>)
  then have "evict_expired sample_sub 1 wit_bi2 = Some (refresh_state wit_bi2)"
    by (simp add: evict_expired_def sample_sub_def try_from_or_max_def as_secs_def i64_max_def)
      (simp add: wit_bi2_def bucket_inner_new_def bucket_config_default_def DEFAULT_TTL_def)
  then show ?thesis by simp
qed

definition wit_src :: bucket_source where
  "wit_src = \<lparr>so_kind = PkCommand, so_job_id = Some (JobId ''j''), so_probe_id = None, so_path = None, so_tag = None\<rparr>"

definition wit_pred :: "string list option \<Rightarrow> predicate" where
  "wit_pred kinds = \<lparr>pr_severity_min = None, pr_kind = kinds, pr_sources = AllSources, pr_tag = None\<rparr>"

definition wit_sub :: "string list option \<Rightarrow> subscription" where
  "wit_sub kinds = subscription_new (\<lambda>_. 0) 0 (wit_pred kinds) []"

definition wit_state :: "bucket_manager \<Rightarrow> string list option \<Rightarrow> sub_state" where
  "wit_state m kinds = \<lparr>ds_buckets = m, ds_sources = \<lparr>tb_map = [(wit_b, wit_src)], tb_dirty = 1\<rparr>,
     ds_subs = [(''u'', wit_sub kinds)]\<rparr>"

definition wit_scope :: scope where
  "wit_scope = \<lparr>sc_buckets = [(wit_b, wit_src)], sc_offsets = [], sc_rr_start = 0, sc_truncated = False\<rparr>"

lemma wit_snapshot:
  assumes "list_bucket_ids m = [wit_b]"
  shows "\<exists>c. scope_snapshot (wit_state m kinds) ''u'' =
    Ok ((wit_state m kinds)\<lparr>ds_subs := [(''u'', (wit_sub kinds)\<lparr>su_cached_scope := c\<rparr>)]\<rparr>, wit_scope)"
  using assms by (simp add: scope_snapshot_def with_sub_def wit_state_def wit_sub_def subscription_new_def Let_def
      source_get_def bucket_in_scope_def wit_pred_def wit_scope_def MAX_BUCKETS_PER_SUBSCRIPTION_def)

lemma wit_pull_pass:
  assumes "list_bucket_ids m = [wit_b]" and "has_bucket m wit_b"
    and "drain_fair sub now m wit_scope [] (wit_pred kinds) (pull_cap mx) = Ok (m', offs, dn)" and "dn_events dn = []"
  shows "\<exists>d'. pull_pass sub now lv (wit_state m kinds) ''u'' mx delta = Ok (d', PullWait wit_scope offs (dn_lagged dn))"
proof -
  from wit_snapshot [OF assms(1), of kinds] obtain c where c: "scope_snapshot (wit_state m kinds) ''u'' =
    Ok ((wit_state m kinds)\<lparr>ds_subs := [(''u'', (wit_sub kinds)\<lparr>su_cached_scope := c\<rparr>)]\<rparr>, wit_scope)" by blast
  have f: "wit_scope\<lparr>sc_buckets := filter (\<lambda>x. has_bucket m (fst x)) (sc_buckets wit_scope)\<rparr> = wit_scope"
    using assms(2) by (simp add: wit_scope_def)
  have o: "sc_offsets wit_scope = []" "sc_buckets wit_scope \<noteq> []" by (simp_all add: wit_scope_def)
  have p: "su_predicate (wit_sub kinds) = wit_pred kinds" by (simp add: wit_sub_def subscription_new_def)
  have m: "ds_buckets (wit_state m kinds) = m" by (simp add: wit_state_def)
  show ?thesis
    unfolding pull_pass_def c and_then.simps prod.case Let_def using assms(3,4)
    by (simp add: with_sub_def f o p m)
qed

lemma wit_off_list: "\<exists>m' offs dn.
    drain_fair sample_sub 1 wit_m2 wit_scope [] (wit_pred (Some [''alarm'', ''panic''])) 1 = Ok (m', offs, dn) \<and> dn_events dn = []"
proof -
  let ?p = "wit_pred (Some [''alarm'', ''panic''])"
  let ?d = "\<lparr>dr_manager = wit_m2, dr_offsets = [], dr_events = [], dr_lagged = False\<rparr>"
  obtain bi' where ev: "evict_expired sample_sub 1 wit_bi2 = Some bi'" "bi_events bi' = bi_events wit_bi2" using wit_bi2_evict by blast
  have off: "clamped_off (bi_state wit_bi2) (offset_of (dr_offsets ?d) wit_b) = 0"
    by (simp add: clamped_off_def wit_bi2_state offset_of_def)
  have "filter (allowed (snd (kind_filter_for ?p))) (rp_events (read_inner wit_b (visit_request ?p 0 1) bi')) = []"
    by (simp add: read_inner_events ev(2) wit_bi2_events passes_field_ok visit_request_def kind_filter_for_def wit_pred_def
        field_ok_def read_limit_def clamp_def MAX_READ_LIMIT_def allowed_def wit_alarm_def)
  from visit_off_list [of ?d, OF _ _ ev(1) off [symmetric] _ _ this, of 1 1 wit_src]
  obtain d' where v: "visit sample_sub 1 ?p 1 1 (wit_b, wit_src) ?d = Ok (d', False)" "dr_events d' = []"
    using wit_m2_inv wit_m2_lookup by auto
  then have "drain_loop sample_sub 1 ?p 1 [(1, wit_b, wit_src)] ?d = Ok d'"
    by (intro drain_loop_no_progress [where stop = False]) simp_all
  moreover have "lag_weighted_shares wit_m2 [(wit_b, wit_src)] [] 1 = Ok [1]"
    by (simp add: lag_weighted_shares_def state_of_def bucket_def wit_m2_lookup map_err_def shares_of_def backlog_of_def
        wit_bi2_state offset_of_def)
  ultimately show ?thesis
    using v(2) by (simp add: drain_fair_def wit_scope_def rotate_from_def)
qed

text \<open>
  C24. With an allowlist of several kinds a pull can sleep on a matching event. The bucket is read
  without the list, so a page may hold only events off it; such a round counts as no progress and the
  pass ends, although the next event of the bucket matches. (A bucket with a \<open>note\<close> and then an
  \<open>alarm\<close>, a subscription to \<open>alarm\<close> and \<open>panic\<close>, and a pull of one event.)
\<close>

theorem multi_kind_pull_stalls:
  "\<exists>d s d' sc offs lagged b src. manager_inv (ds_buckets d) \<and> map_of (ds_subs d) ''u'' = Some s \<and>
     pull_pass sample_sub 1 lv d ''u'' 1 delta = Ok (d', PullWait sc offs lagged) \<and> (b, src) \<in> set (sc_buckets sc) \<and>
     \<not> nothing_pending sample_sub 1 (su_predicate s) (ds_buckets d) (su_offsets s) b"
proof -
  let ?k = "Some [''alarm'', ''panic'']"
  let ?d = "wit_state wit_m2 ?k"
  from wit_off_list obtain m' offs dn where
    "drain_fair sample_sub 1 wit_m2 wit_scope [] (wit_pred ?k) (pull_cap 1) = Ok (m', offs, dn)" "dn_events dn = []"
    by (auto simp: pull_cap_def MAX_PULL_MAX_def)
  from wit_pull_pass [OF wit_m2_lookup(2) _ this]
  obtain d' where "pull_pass sample_sub 1 lv ?d ''u'' 1 delta = Ok (d', PullWait wit_scope offs (dn_lagged dn))"
    by (auto simp: has_bucket_def wit_m2_lookup)
  moreover obtain bi' where "evict_expired sample_sub 1 wit_bi2 = Some bi'" "bi_events bi' = bi_events wit_bi2"
    using wit_bi2_evict by blast
  then have "\<not> nothing_pending sample_sub 1 (su_predicate (wit_sub ?k)) (ds_buckets ?d) (su_offsets (wit_sub ?k)) wit_b"
    by (simp add: nothing_pending_def wit_state_def wit_sub_def subscription_new_def wit_pred_def visible_def wit_m2_lookup
        wit_bi2_events event_matches_def offset_of_def wit_alarm_def)
  moreover have "manager_inv (ds_buckets ?d)" "map_of (ds_subs ?d) ''u'' = Some (wit_sub ?k)"
    by (simp_all add: wit_state_def wit_m2_inv)
  moreover have "(wit_b, wit_src) \<in> set (sc_buckets wit_scope)" by (simp add: wit_scope_def)
  ultimately show ?thesis by blast
qed

lemma wit_m2_readable: "map_of wit_m2 b \<noteq> None \<Longrightarrow> readable sample_sub 1 wit_m2 b"
  using wit_bi2_evict by (auto simp: readable_def wit_m2_def wit_m1_single split: if_splits)

lemma wit_scope_readable: "\<forall>x \<in> set (sc_buckets wit_scope). readable sample_sub 1 wit_m2 (fst x)"
  using wit_m2_readable wit_m2_lookup by (simp add: wit_scope_def)

lemma delivered_all_empty: "(\<And>c. delivered c evs = []) \<Longrightarrow> evs = []"
proof (cases evs)
  case (Cons x xs)
  assume "\<And>c. delivered c evs = []"
  from this [of "eo_bucket_id (fst x)"] Cons show ?thesis by (simp add: delivered_def)
qed simp

theorem drain_fair_lossless_witness:
  "\<exists>m' offs' dn. drain_fair sample_sub 1 wit_m2 wit_scope [] (wit_pred None) 50 = Ok (m', offs', dn) \<and>
     manager_inv m' \<and> length (dn_events dn) \<le> 50 \<and> dn_events dn \<noteq> []"
proof -
  from drain_fair_total [OF wit_scope_readable] obtain m' offs' dn
    where d: "drain_fair sample_sub 1 wit_m2 wit_scope [] (wit_pred None) 50 = Ok (m', offs', dn)" by blast
  from wit_bi2_evict have "\<not> nothing_pending sample_sub 1 (wit_pred None) wit_m2 [] wit_b"
    by (auto simp: nothing_pending_def wit_pred_def visible_def wit_m2_lookup wit_bi2_events event_matches_def offset_of_def)
  with drain_fair_empty [OF wit_m2_inv _ _ d] have "dn_events dn \<noteq> []" by (auto simp: native_kind_def wit_pred_def wit_scope_def)
  with drain_fair_lossless [OF wit_m2_inv d] d show ?thesis by blast
qed

definition wit_lv :: live_view where
  "wit_lv = \<lparr>lv_command = Map.empty, lv_watch = (\<lambda>_. False), lv_pty = (\<lambda>_. LStopped)\<rparr>"

theorem pull_waits_only_when_drained_witness:
  "\<exists>d d' sc offs lagged. pull_pass sample_sub 1 wit_lv d ''u'' 7 False = Ok (d', PullWait sc offs lagged) \<and>
     (wit_b, wit_src) \<in> set (sc_buckets sc) \<and> nothing_pending sample_sub 1 (wit_pred (Some [''panic''])) wit_m2 [] wit_b"
proof -
  let ?p = "wit_pred (Some [''panic''])" and ?d = "wit_state wit_m2 (Some [''panic''])"
  from drain_fair_total [OF wit_scope_readable] obtain m' offs dn
    where d: "drain_fair sample_sub 1 wit_m2 wit_scope [] ?p (pull_cap 7) = Ok (m', offs, dn)" by blast
  have no: "filter (\<lambda>e. P e \<and> Q e \<and> event_matches ?p e) (visible sample_sub 1 wit_m2 c) = []" for c P Q
    using wit_bi2_evict
    by (auto simp: visible_def wit_m2_def wit_m1_single wit_bi2_events event_matches_def wit_pred_def wit_alarm_def)
  have "dn_events dn = []"
    by (rule delivered_all_empty) (use drain_fair_lossless [OF wit_m2_inv d] no in simp)
  from wit_pull_pass [OF wit_m2_lookup(2) _ d this] obtain d'
    where p: "pull_pass sample_sub 1 wit_lv ?d ''u'' 7 False = Ok (d', PullWait wit_scope offs (dn_lagged dn))"
    by (auto simp: has_bucket_def wit_m2_lookup)
  have "manager_inv (ds_buckets ?d)" "map_of (ds_subs ?d) ''u'' = Some (wit_sub (Some [''panic'']))"
    "native_kind (su_predicate (wit_sub (Some [''panic''])))"
    by (simp_all add: wit_state_def wit_m2_inv wit_sub_def subscription_new_def wit_pred_def native_kind_def)
  from pull_waits_only_when_drained [OF this p]
  have "nothing_pending sample_sub 1 ?p wit_m2 [] wit_b"
    by (simp add: wit_scope_def wit_state_def wit_sub_def subscription_new_def)
  moreover have "(wit_b, wit_src) \<in> set (sc_buckets wit_scope)" by (simp add: wit_scope_def)
  ultimately show ?thesis using p by blast
qed

theorem pull_pass_returns_witness:
  "readable sample_sub 1 wit_m2 wit_b \<and>
   (\<exists>d' st. pull_pass sample_sub 1 wit_lv (wit_state wit_m2 None) ''u'' 3 True = Ok (d', st))"
  using pull_pass_returns [of "wit_state wit_m2 None" sample_sub 1 "''u''"] wit_m2_readable wit_m2_lookup
  by (simp add: wit_state_def)

section \<open>Fairness of the rotation\<close>

lemma rotate_from_Cons: "xs \<noteq> [] \<Longrightarrow> \<exists>rest. rotate_from k xs = xs ! (k mod length xs) # rest"
  by (simp add: rotate_from_def upt_conv_Cons)

lemma hands_over_delivers:
  assumes "hands_over sub now p cap d d'" and "delivered b (dr_events d) \<noteq> []"
  shows "delivered b (dr_events d') \<noteq> []"
proof -
  from assms(1) obtain new where "dr_events d' = dr_events d @ new" unfolding hands_over_def by blast
  with assms(2) show ?thesis by (simp add: delivered_append)
qed

lemma visit_serves:
  assumes "manager_inv (dr_manager d)" and "dr_events d = []" and "0 < cap" and "0 < per" and "native_kind p"
    and ok: "visit sub now p cap per (b, src) d = Ok (d', stop)"
    and "\<not> nothing_pending sub now p (dr_manager d) (dr_offsets d) b"
  shows "delivered b (dr_events d') \<noteq> []"
proof -
  have ne: "dr_events d' \<noteq> []" using visit_empty [OF assms(1-5) ok] assms(7) by blast
  from visit_hands_over [OF assms(1) _ ok] assms(2) have "hands_over sub now p cap d d'" by simp
  with assms(2) have "delivered c (dr_events d') =
      filter (\<lambda>e. offset_of (dr_offsets d) c < ev_seq e \<and> ev_seq e \<le> offset_of (dr_offsets d') c \<and> event_matches p e)
        (visible sub now (dr_manager d) c)" for c
    unfolding hands_over_def by auto
  moreover have "offset_of (dr_offsets d') c = offset_of (dr_offsets d) c" if "c \<noteq> b" for c
    using ok by (rule visit_Ok) (use that in \<open>auto simp: Let_def offset_update\<close>)
  ultimately have "delivered c (dr_events d') = []" if "c \<noteq> b" for c
    using that by (simp add: filter_no_range)
  then show ?thesis using delivered_all_empty ne by metis
qed

text \<open>
  No bucket is starved: the bucket at the rotation cursor is served first, so when it holds a
  matching event (and the predicate names at most one kind) the answer holds one of its events,
  however full the other buckets are; and the cursor moves to the next bucket for the next pull.
\<close>

lemma rotation_serves_first:
  assumes "manager_inv m" and "native_kind p" and "0 < cap" and "sc_buckets sc \<noteq> []"
    and "sc_buckets sc ! (sc_rr_start sc mod length (sc_buckets sc)) = (b, src)"
    and "\<not> nothing_pending sub now p m offs b"
    and "drain_fair sub now m sc offs p cap = Ok (m', offs', dn)"
  shows "delivered b (dn_events dn) \<noteq> [] \<and> dn_next_rr dn = (sc_rr_start sc + 1) mod length (sc_buckets sc)"
  using assms(7)
proof (cases rule: drain_fair_Ok)
  case 1
  then show ?thesis using assms(3,4) by simp
next
  case (2 per d)
  let ?d = "\<lparr>dr_manager = m, dr_offsets = offs, dr_events = [], dr_lagged = False\<rparr>"
  let ?zs = "zip per (sc_buckets sc)"
  note shares = lag_weighted_shares_Ok [OF 2(3)]
  have len: "length ?zs = length (sc_buckets sc)" using shares(1) by simp
  define k where "k = sc_rr_start sc mod length (sc_buckets sc)"
  have k: "k < length (sc_buckets sc)" using assms(4) by (simp add: k_def)
  then have "?zs ! k = (per ! k, b, src)" using shares(1) assms(5) by (simp add: k_def)
  moreover have "0 < per ! k" using shares k by simp
  ultimately obtain rest where order: "rotate_from (sc_rr_start sc) ?zs = (per ! k, b, src) # rest" and pos: "0 < per ! k"
    using rotate_from_Cons [of ?zs "sc_rr_start sc"] assms(4) len by (metis k_def length_0_conv)
  from 2(4) obtain e stop where r: "drain_round sub now p cap ((per ! k, b, src) # rest) ?d = Ok (e, stop)"
    unfolding order by (subst (asm) drain_loop.simps) (auto split: outcome.splits)
  then obtain d1 st where v: "visit sub now p cap (per ! k) (b, src) ?d = Ok (d1, st)"
    and r1: "(if st then Ok (d1, True) else drain_round sub now p cap rest d1) = Ok (e, stop)"
    using assms(3) by (auto simp: and_then_Ok_iff)
  have "delivered b (dr_events d1) \<noteq> []" using visit_serves [OF _ _ assms(3) pos assms(2) v] assms(1,6) by simp
  moreover have d1: "manager_inv (dr_manager d1)" "length (dr_events d1) \<le> cap" "\<not> st"
    using visit_hands_over [OF _ _ v] assms(1) by (simp_all add: hands_over_def)
  moreover from r1 d1(3) have r2: "drain_round sub now p cap rest d1 = Ok (e, stop)" by simp
  ultimately have e: "delivered b (dr_events e) \<noteq> []"
    using hands_over_delivers [OF drain_round_hands_over [OF d1(1,2) r2]] by simp
  have e_inv: "manager_inv (dr_manager e)" "length (dr_events e) \<le> cap"
    using drain_round_hands_over [OF _ _ r] assms(1) by (simp_all add: hands_over_def)
  have "drain_loop sub now p cap ((per ! k, b, src) # rest) e = Ok d \<or> d = e"
    using 2(4) r unfolding order by (subst (asm) drain_loop.simps) (auto split: if_splits)
  then have "delivered b (dr_events d) \<noteq> []"
    using drain_loop_hands_over [OF e_inv] hands_over_delivers [OF _ e] e by blast
  with 2(7,8) show ?thesis by simp
qed

section \<open>A seek against a waiting pull\<close>

lemma map_of_fold_update:
  "distinct (map fst offs) \<Longrightarrow>
   map_of (fold (\<lambda>(b, n) acc. AList.update b n acc) offs acc) k =
     (case map_of offs k of Some n \<Rightarrow> Some n | None \<Rightarrow> map_of acc k)"
proof (induction offs arbitrary: acc)
  case (Cons x offs)
  obtain b n where x: "x = (b, n)" by (cases x)
  with Cons.prems have "map_of offs b = None" by (simp add: map_of_eq_None_iff)
  with Cons x show ?case by (auto simp: update_conv' split: option.splits)
qed simp

lemma commit_offset:
  assumes "map_of r u = Some s" and "distinct (map fst offs)" and "map_of offs b = Some n"
  shows "\<exists>s'. map_of (commit now r u offs rr) u = Some s' \<and> offset_of (su_offsets s') b = n"
  using assms by (simp add: commit_def update_conv' offset_of_def map_of_fold_update)

text \<open>
  A seek that comes while a pull of the same subscription waits is undone when the pull times out:
  the seek is acknowledged and stored, and at its deadline the pull writes back the cursor it read
  before it went to sleep.
\<close>

lemma seek_lost_to_waiting_pull:
  assumes "parse i = Some u" and "map_of (ds_subs d) u = Some s"
    and "source_get (ds_sources d) b = Some src" and "bucket_in_scope (su_predicate s) b src"
    and "handle_subscription_seek parse d i b seq = Ok (d', clamped, lagged)"
    and "distinct (map fst offs)" and "map_of offs b = Some n"
  shows "\<exists>s1 s2. map_of (ds_subs d') u = Some s1 \<and> offset_of (su_offsets s1) b = clamped \<and>
    map_of (ds_subs (fst (pull_timeout now lv d' u delta (PullWait sc offs lag)))) u = Some s2 \<and>
    offset_of (su_offsets s2) b = n"
proof -
  from assms obtain s1 where s1: "map_of (ds_subs d') u = Some s1" "offset_of (su_offsets s1) b = clamped"
    by (auto simp: handle_subscription_seek_def parse_sub_id_def and_then_Ok_iff with_sub_mut_def Let_def update_conv' offset_of_def)
  obtain r live where rl: "resolve_liveness_delta (ds_subs d') u (liveness_for lv sc) delta = (r, live)" by fastforce
  then obtain s' where "map_of r u = Some s'"
    using s1(1) by (auto simp: resolve_liveness_delta_def update_conv' split: if_splits)
  from commit_offset [OF this assms(6,7)] obtain s2 where
    "map_of (commit now r u offs (sc_rr_start sc)) u = Some s2" "offset_of (su_offsets s2) b = n" by blast
  then have "map_of (mark_pulled now (commit now r u offs (sc_rr_start sc)) u) u = Some (s2\<lparr>su_last_pull_at := Some now\<rparr>)"
    by (simp add: mark_pulled_def update_conv')
  with s1 rl \<open>offset_of (su_offsets s2) b = n\<close> show ?thesis by (simp add: pull_timeout_def)
qed

section \<open>What equal predicate hashes mean\<close>

lemma wire_inject [simp]:
  "job_wire i = job_wire j \<longleftrightarrow> i = j" "bucket_wire b = bucket_wire c \<longleftrightarrow> b = c" "probe_wire p = probe_wire q \<longleftrightarrow> p = q"
  by (cases i; cases j; simp add: to_wire_string_def) (cases b; cases c; cases p; cases q; simp add: to_wire_string_def)+

lemma sort_eq_iff: "sort xs = sort ys \<longleftrightarrow> mset xs = mset ys"
  by (metis mset_sort properties_for_sort sorted_sort)

lemma hash_sorted_ids_eq:
  assumes "\<And>x y. wire x = wire y \<longleftrightarrow> x = y"
  shows "hash_sorted_ids wire v = hash_sorted_ids wire w \<longleftrightarrow> mset v = mset w"
proof -
  have "inj wire" using assms by (simp add: inj_def)
  then have "mset (map wire v) = mset (map wire w) \<longleftrightarrow> mset v = mset w" using inj_eq [OF multiset.inj_map] by simp
  then show ?thesis
    by (auto simp: hash_sorted_ids_def Let_def sort_eq_iff inj_map_eq_map inj_def dest: mset_eq_length)
qed

text \<open>The same selector, up to the order of its identifiers.\<close>

fun same_sel :: "source_sel \<Rightarrow> source_sel \<Rightarrow> bool" where
  "same_sel AllSources AllSources \<longleftrightarrow> True"
| "same_sel (JobSources v) (JobSources w) \<longleftrightarrow> mset v = mset w"
| "same_sel (BucketSources v) (BucketSources w) \<longleftrightarrow> mset v = mset w"
| "same_sel (ProbeSources v) (ProbeSources w) \<longleftrightarrow> mset v = mset w"
| "same_sel _ _ \<longleftrightarrow> False"

lemma sel_feed_eq: "sel_feed a = sel_feed b \<longleftrightarrow> same_sel a b"
  by (cases a; cases b) (simp_all add: hash_sorted_ids_eq)

lemma distinct_remdups_adj_sorted: "sorted xs \<Longrightarrow> distinct (remdups_adj xs)" for xs :: "'a :: linorder list"
  by (induction xs rule: remdups_adj.induct) auto

lemma remdups_sort_eq: "remdups_adj (sort xs) = remdups_adj (sort ys) \<longleftrightarrow> set xs = set ys" for xs :: "'a :: linorder list"
proof
  assume "remdups_adj (sort xs) = remdups_adj (sort ys)"
  then have "set (remdups_adj (sort xs)) = set (remdups_adj (sort ys))" by simp
  then show "set xs = set ys" by simp
next
  assume eq: "set xs = set ys"
  have "sorted (remdups_adj (sort zs))" "distinct (remdups_adj (sort zs))" for zs :: "'a list"
    by (simp_all add: sorted_remdups_adj distinct_remdups_adj_sorted)
  with eq show "remdups_adj (sort xs) = remdups_adj (sort ys)" by (intro sorted_distinct_set_unique) simp_all
qed

text \<open>
  The normalized form of a predicate, which is all its hash depends on, identifies exactly the
  predicates that ask the same: it is equal for two predicates if and only if they have the same
  severity floor, the same set of kinds (in any order, with any repetition), the same tag and the same
  selector up to the order of its identifiers.
\<close>

lemma normalized_feed_eq:
  "normalized_feed p = normalized_feed q \<longleftrightarrow>
     pr_severity_min p = pr_severity_min q \<and> map_option set (pr_kind p) = map_option set (pr_kind q) \<and>
     pr_tag p = pr_tag q \<and> same_sel (pr_sources p) (pr_sources q)"
proof -
  define kp where "kp k = (case k of
        Some kinds \<Rightarrow> (let norm = remdups_adj (sort kinds) in HU8 1 # HLen (length norm) # map HStr norm)
      | None \<Rightarrow> [HU8 0])" for k :: "string list option"
  have kp: "kp a @ s = kp b @ t \<longleftrightarrow> map_option set a = map_option set b \<and> s = t" for a b s t
  proof (cases a; cases b)
    fix k l assume ab: "a = Some k" "b = Some l"
    have inj: "map HStr v = map HStr w \<longleftrightarrow> v = w" for v w by (simp add: inj_map_eq_map inj_def)
    show ?thesis
      using append_eq_append_conv [of "map HStr (remdups_adj (sort k))" "map HStr (remdups_adj (sort l))" s t] remdups_sort_eq [of k l]
      by (auto simp: ab kp_def Let_def inj)
  qed (simp_all add: kp_def Let_def)
  have "normalized_feed p = normalized_feed q \<longleftrightarrow>
     pr_severity_min p = pr_severity_min q \<and>
     kp (pr_kind p) @ (case pr_tag p of Some t \<Rightarrow> [HU8 1, HStr t] | None \<Rightarrow> [HU8 0]) @ sel_feed (pr_sources p) =
     kp (pr_kind q) @ (case pr_tag q of Some t \<Rightarrow> [HU8 1, HStr t] | None \<Rightarrow> [HU8 0]) @ sel_feed (pr_sources q)"
    by (cases "pr_severity_min p"; cases "pr_severity_min q") (simp_all add: normalized_feed_def kp_def rank_inject)
  also have "\<dots> \<longleftrightarrow> pr_severity_min p = pr_severity_min q \<and> map_option set (pr_kind p) = map_option set (pr_kind q) \<and>
     pr_tag p = pr_tag q \<and> sel_feed (pr_sources p) = sel_feed (pr_sources q)"
    unfolding kp by (cases "pr_tag p"; cases "pr_tag q") auto
  finally show ?thesis by (simp add: sel_feed_eq)
qed

end
