(* ===== verification/TC_Rule.thy ===== *)
theory TC_Rule
  imports TC_Event TC_Text
begin

text \<open>
  Rule definitions of \<^verbatim>\<open>crates/core/src/rule.rs\<close>: their data, their validation on every error
  path, and the rendering of summary templates.

  The regex compiler (crate \<^verbatim>\<open>regex\<close>) is the parameter \<open>build\<close>, which takes the size limit, the
  DFA size limit and the pattern and answers with a compiled expression or the text of its
  error. \<open>str::to_lowercase\<close> on non-ASCII text is decided by the Unicode tables, so the whole
  function is the parameter \<open>to_lowercase\<close>.
\<close>

section \<open>Bounds\<close>

definition MAX_PATTERN_BYTES :: nat where
  "MAX_PATTERN_BYTES = 4096"

definition REGEX_SIZE_LIMIT :: nat where
  "REGEX_SIZE_LIMIT = 65536"

definition REGEX_DFA_SIZE_LIMIT :: nat where
  "REGEX_DFA_SIZE_LIMIT = 65536"

definition REGEX_SET_PER_RULE_LIMIT :: nat where
  "REGEX_SET_PER_RULE_LIMIT = 65536"

definition REGEX_SET_TOTAL_CEILING :: nat where
  "REGEX_SET_TOTAL_CEILING = 16 * 1024 * 1024"

definition MAX_TAG_BYTES :: nat where
  "MAX_TAG_BYTES = 64"

definition MAX_TAGS :: nat where
  "MAX_TAGS = 16"

definition MAX_EXAMPLES :: nat where
  "MAX_EXAMPLES = 16"

definition MAX_RULE_ID_BYTES :: nat where
  "MAX_RULE_ID_BYTES = 128"

definition MAX_TEMPLATE_BYTES :: nat where
  "MAX_TEMPLATE_BYTES = 512"

definition MAX_CONTEXT_LINES :: nat where
  "MAX_CONTEXT_LINES = 1024"

definition RESERVED_MATCH_KEYS :: "string list" where
  "RESERVED_MATCH_KEYS = [''line'', ''match'', ''0'']"

definition CANONICAL_MATCH_KEY :: string where
  "CANONICAL_MATCH_KEY = ''match''"

definition MAX_FULL_MATCH_SUMMARY_BYTES :: nat where
  "MAX_FULL_MATCH_SUMMARY_BYTES = 256"

definition is_reserved_match_key :: "string \<Rightarrow> bool" where
  "is_reserved_match_key name \<longleftrightarrow> name \<in> set RESERVED_MATCH_KEYS"

definition clamp_full_match :: "string \<Rightarrow> string" where
  "clamp_full_match text =
     (if length text \<le> MAX_FULL_MATCH_SUMMARY_BYTES then text
      else take (floor_boundary text MAX_FULL_MATCH_SUMMARY_BYTES) text)"

section \<open>Compiling patterns under a budget\<close>

type_synonym 'r rx_build = "nat \<Rightarrow> nat \<Rightarrow> string \<Rightarrow> (string, 'r) outcome"
type_synonym 'q set_build = "nat \<Rightarrow> nat \<Rightarrow> string list \<Rightarrow> (string, 'q) outcome"

definition compile_bounded_regex :: "'r rx_build \<Rightarrow> string \<Rightarrow> (string, 'r) outcome" where
  "compile_bounded_regex build pat = build REGEX_SIZE_LIMIT REGEX_DFA_SIZE_LIMIT pat"

definition compile_bounded_regex_set :: "'q set_build \<Rightarrow> string list \<Rightarrow> (string, 'q) outcome" where
  "compile_bounded_regex_set build pats =
     (let scaled = min (min (length pats * REGEX_SET_PER_RULE_LIMIT) usize_max) REGEX_SET_TOTAL_CEILING;
          combined_limit = max scaled REGEX_SIZE_LIMIT
      in build combined_limit combined_limit pats)"

section \<open>Rule data\<close>

datatype rule_type =
    Keyword | Regex | Prompt | ExitCode | StreamMarker | ProgressCollapse
  | DedupeRule | Threshold | Sequence | Anchor | Custom

fun is_mvp_live :: "rule_type \<Rightarrow> bool" where
  "is_mvp_live Keyword = True"
| "is_mvp_live Regex = True"
| "is_mvp_live _ = False"

datatype rule_status = Draft | Active | Disabled | Deprecated | Tombstoned

fun is_runtime_eligible :: "rule_status \<Rightarrow> bool" where
  "is_runtime_eligible Active = True"
| "is_runtime_eligible _ = False"

text \<open>The derived \<open>Debug\<close> names, which error messages print.\<close>

fun rule_type_debug :: "rule_type \<Rightarrow> string" where
  "rule_type_debug Keyword = ''Keyword''"
| "rule_type_debug Regex = ''Regex''"
| "rule_type_debug Prompt = ''Prompt''"
| "rule_type_debug ExitCode = ''ExitCode''"
| "rule_type_debug StreamMarker = ''StreamMarker''"
| "rule_type_debug ProgressCollapse = ''ProgressCollapse''"
| "rule_type_debug DedupeRule = ''Dedupe''"
| "rule_type_debug Threshold = ''Threshold''"
| "rule_type_debug Sequence = ''Sequence''"
| "rule_type_debug Anchor = ''Anchor''"
| "rule_type_debug Custom = ''Custom''"

fun rule_status_debug :: "rule_status \<Rightarrow> string" where
  "rule_status_debug Draft = ''Draft''"
| "rule_status_debug Active = ''Active''"
| "rule_status_debug Disabled = ''Disabled''"
| "rule_status_debug Deprecated = ''Deprecated''"
| "rule_status_debug Tombstoned = ''Tombstoned''"

record context_hint =
  ch_before_lines :: nat
  ch_after_lines :: nat

datatype example_expect =
    ExpectMatch "string option" captures
  | ExpectNoMatch bool

text \<open>
  The hand-written \<open>Deserialize\<close> of \<open>RuleExampleExpect\<close>, from the three optional fields of its
  raw form.
\<close>

definition expect_of_raw ::
  "bool option \<Rightarrow> string option \<Rightarrow> captures option \<Rightarrow> example_expect option" where
  "expect_of_raw matched kind caps =
     (case (matched, kind, caps) of
        (Some False, None, None) \<Rightarrow> Some (ExpectNoMatch False)
      | _ \<Rightarrow> (if matched = Some True \<or> matched = None
              then Some (ExpectMatch kind (case caps of Some c \<Rightarrow> c | None \<Rightarrow> []))
              else None))"

record rule_example =
  re_stream :: "source_stream option"
  re_input :: string
  re_expect :: example_expect

record rule_definition =
  r_id :: string
  r_version :: nat
  r_kind :: rule_type
  r_status :: rule_status
  r_severity :: severity
  r_event_kind :: string
  r_stream :: "source_stream option"
  r_description :: "string option"
  r_pattern :: "string option"
  r_keywords :: "string list option"
  r_captures :: "string list"
  r_summary_template :: string
  r_tags :: "string list"
  r_rate_limit_per_min :: "nat option"
  r_redact :: "string list"
  r_context_hint :: context_hint
  r_examples :: "rule_example list"

datatype rule_error =
    EmptyRuleId
  | RuleIdTooLong string
  | InvalidVersion nat
  | EmptyEventKind string
  | MissingPattern string rule_type
  | MissingKeywords string rule_type
  | PatternTooLong string
  | ForbiddenPatternFeature string string string
  | PatternCompileFailed string string
  | EmptySummaryTemplate string
  | SummaryTemplateTooLong string
  | SummaryTemplateUnknownCapture string string
  | UnbalancedTemplate string nat
  | TooManyTags string
  | InvalidTag string string
  | TooManyExamples string
  | ContextHintTooLarge string nat nat
  | ReservedKindNotDraft string rule_type rule_status

text \<open>The \<open>Display\<close> texts, which the sifter forwards in its own error.\<close>

fun rule_error_text :: "rule_error \<Rightarrow> string" where
  "rule_error_text EmptyRuleId = ''rule id is empty''"
| "rule_error_text (RuleIdTooLong i) =
     ''rule id '' @ quoted i @ '' exceeds the '' @ show_nat MAX_RULE_ID_BYTES @ ''-byte limit''"
| "rule_error_text (InvalidVersion v) = ''rule version must be >= 1, got '' @ show_nat v"
| "rule_error_text (EmptyEventKind i) = ''rule '' @ quoted i @ '' has empty event_kind''"
| "rule_error_text (MissingPattern i k) =
     ''rule '' @ quoted i @ '' kind='' @ rule_type_debug k @ '' requires a non-empty pattern''"
| "rule_error_text (MissingKeywords i k) =
     ''rule '' @ quoted i @ '' kind='' @ rule_type_debug k @ '' requires a non-empty keywords list''"
| "rule_error_text (PatternTooLong i) =
     ''rule '' @ quoted i @ '' pattern exceeds the '' @ show_nat MAX_PATTERN_BYTES @ ''-byte limit''"
| "rule_error_text (ForbiddenPatternFeature i f d) =
     ''rule '' @ quoted i @ '' pattern contains forbidden construct '' @ f @ '': '' @ d"
| "rule_error_text (PatternCompileFailed i r) =
     ''rule '' @ quoted i @ '' pattern failed to compile: '' @ r"
| "rule_error_text (EmptySummaryTemplate i) = ''rule '' @ quoted i @ '' has empty summary_template''"
| "rule_error_text (SummaryTemplateTooLong i) =
     ''rule '' @ quoted i @ '' summary_template exceeds the '' @ show_nat MAX_TEMPLATE_BYTES @
     ''-byte limit''"
| "rule_error_text (SummaryTemplateUnknownCapture i n) =
     ''rule '' @ quoted i @ '' summary_template references capture '' @ quoted n @
     '' that is not in '' @ [BTICK] @ ''captures'' @ [BTICK] @ '' list''"
| "rule_error_text (UnbalancedTemplate i off) =
     ''rule '' @ quoted i @ '' has unbalanced template placeholder near offset '' @ show_nat off"
| "rule_error_text (TooManyTags i) =
     ''rule '' @ quoted i @ '' carries more than '' @ show_nat MAX_TAGS @ '' tags''"
| "rule_error_text (InvalidTag i t) =
     ''rule '' @ quoted i @ '' tag '' @ quoted t @ '' is empty or exceeds '' @
     show_nat MAX_TAG_BYTES @ '' bytes or is not lowercase''"
| "rule_error_text (TooManyExamples i) =
     ''rule '' @ quoted i @ '' carries more than '' @ show_nat MAX_EXAMPLES @ '' examples''"
| "rule_error_text (ContextHintTooLarge i b a) =
     ''rule '' @ quoted i @ '' context_hint exceeds the '' @ show_nat MAX_CONTEXT_LINES @
     ''-line cap (before='' @ show_nat b @ '', after='' @ show_nat a @ '')''"
| "rule_error_text (ReservedKindNotDraft i k s) =
     ''rule '' @ quoted i @ '' kind='' @ rule_type_debug k @
     '' is reserved-not-implemented at MVP; status must remain Draft, got '' @ rule_status_debug s"

datatype render_error = MissingCapture string | Unbalanced nat

section \<open>Forbidden regex constructs\<close>

definition lookarounds :: "string list" where
  "lookarounds = [''(?='', ''(?!'', ''(?<='', ''(?<!'']"

text \<open>The scan for an unescaped back-reference: the digit of the first one.\<close>

fun find_backref :: "string \<Rightarrow> char option" where
  "find_backref (c # n # s) =
     (if c = BSL then (if is_digit n \<and> n \<noteq> CHR ''0'' then Some n else find_backref s)
      else find_backref (n # s))"
| "find_backref _ = None"

definition check_forbidden_regex_constructs :: "string \<Rightarrow> string \<Rightarrow> (rule_error, unit) outcome" where
  "check_forbidden_regex_constructs i pat =
     (case find (\<lambda>la. contains la pat) lookarounds of
        Some la \<Rightarrow> Err (ForbiddenPatternFeature i ''lookaround'' (''pattern contains '' @ quoted la))
      | None \<Rightarrow>
          (case find_backref pat of
             Some n \<Rightarrow>
               Err (ForbiddenPatternFeature i ''backreference'' (''pattern contains '' @ quoted [BSL, n]))
           | None \<Rightarrow> Ok ()))"

section \<open>Summary templates\<close>

text \<open>
  Both loops walk the template from the byte offset \<open>off\<close>; \<open>find('}')\<close> and the slices around it
  are \<open>split_once\<close> on what remains.
\<close>

definition opens_placeholder :: "string \<Rightarrow> bool" where
  "opens_placeholder s \<longleftrightarrow> (case s of c # d # _ \<Rightarrow> c = CHR ''$'' \<and> d = CHR ''{'' | _ \<Rightarrow> False)"

function validate_template ::
  "string \<Rightarrow> string list \<Rightarrow> nat \<Rightarrow> string \<Rightarrow> (rule_error, unit) outcome" where
  "validate_template i caps off s =
     (if s = [] then Ok ()
      else if opens_placeholder s then
        (case split_once (CHR ''}'') (drop 2 s) of
           None \<Rightarrow> Err (UnbalancedTemplate i off)
         | Some (name, rest) \<Rightarrow>
             if \<not> is_reserved_match_key name \<and> name \<notin> set caps
             then Err (SummaryTemplateUnknownCapture i name)
             else validate_template i caps (off + 2 + length name + 1) rest)
      else validate_template i caps (off + 1) (tl s))"
  by pat_completeness auto
termination
  by (relation "measure (\<lambda>(i, caps, off, s). length s)")
     (auto dest!: split_once_Some arg_cong [of _ _ length])

declare validate_template.simps [simp del]

definition validate_template_against_captures ::
  "string \<Rightarrow> string \<Rightarrow> string list \<Rightarrow> (rule_error, unit) outcome" where
  "validate_template_against_captures i template caps = validate_template i caps 0 template"

text \<open>Length of the character that starts a string; \<open>map_or(1, char::len_utf8)\<close>.\<close>

definition ch_len :: "string \<Rightarrow> nat" where
  "ch_len s = (case s of [] \<Rightarrow> 1 | c # _ \<Rightarrow> max 1 (utf8_len c))"

function render_from :: "captures \<Rightarrow> nat \<Rightarrow> string \<Rightarrow> string \<Rightarrow> (render_error, string) outcome" where
  "render_from caps off s out =
     (if s = [] then Ok out
      else if opens_placeholder s then
        (case split_once (CHR ''}'') (drop 2 s) of
           None \<Rightarrow> Err (Unbalanced off)
         | Some (name, rest) \<Rightarrow>
             (case map_of caps name of
                None \<Rightarrow> Err (MissingCapture name)
              | Some v \<Rightarrow> render_from caps (off + 2 + length name + 1) rest (out @ v)))
      else render_from caps (off + ch_len s) (drop (ch_len s) s) (out @ take (ch_len s) s))"
  by pat_completeness auto
termination
  by (relation "measure (\<lambda>(caps, off, s, out). length s)")
     (auto simp: ch_len_def split: list.splits dest!: split_once_Some arg_cong [of _ _ length])

declare render_from.simps [simp del]

definition render_template :: "string \<Rightarrow> captures \<Rightarrow> (render_error, string) outcome" where
  "render_template template caps = render_from caps 0 template []"

definition render_summary :: "rule_definition \<Rightarrow> captures \<Rightarrow> (render_error, string) outcome" where
  "render_summary r caps = render_template (r_summary_template r) caps"

section \<open>Validation\<close>

definition tag_ok :: "(string \<Rightarrow> string) \<Rightarrow> string \<Rightarrow> bool" where
  "tag_ok to_lowercase tag \<longleftrightarrow>
     \<not> (tag = [] \<or> MAX_TAG_BYTES < length tag \<or> tag \<noteq> to_lowercase tag)"

definition validate_body :: "'r rx_build \<Rightarrow> rule_definition \<Rightarrow> (rule_error, unit) outcome" where
  "validate_body build r =
     (case r_kind r of
        Regex \<Rightarrow>
          (let pat = (case r_pattern r of Some p \<Rightarrow> p | None \<Rightarrow> []) in
           if pat = [] then Err (MissingPattern (r_id r) (r_kind r))
           else if MAX_PATTERN_BYTES < length pat then Err (PatternTooLong (r_id r))
           else and_then (check_forbidden_regex_constructs (r_id r) pat) (\<lambda>_.
             (case compile_bounded_regex build pat of
                Ok _ \<Rightarrow> Ok ()
              | Err e \<Rightarrow> Err (PatternCompileFailed (r_id r) e)
              | Panic \<Rightarrow> Panic)))
      | Keyword \<Rightarrow>
          (let kws = (case r_keywords r of Some k \<Rightarrow> k | None \<Rightarrow> []) in
           if kws = [] \<or> [] \<in> set kws then Err (MissingKeywords (r_id r) (r_kind r)) else Ok ())
      | _ \<Rightarrow> Ok ())"

definition validate_tail :: "(string \<Rightarrow> string) \<Rightarrow> rule_definition \<Rightarrow> (rule_error, unit) outcome" where
  "validate_tail to_lowercase r =
     (if MAX_TAGS < length (r_tags r) then Err (TooManyTags (r_id r))
      else case find (\<lambda>t. \<not> tag_ok to_lowercase t) (r_tags r) of
        Some tag \<Rightarrow> Err (InvalidTag (r_id r) tag)
      | None \<Rightarrow>
          if MAX_EXAMPLES < length (r_examples r) then Err (TooManyExamples (r_id r))
          else if MAX_CONTEXT_LINES < ch_before_lines (r_context_hint r) \<or>
                  MAX_CONTEXT_LINES < ch_after_lines (r_context_hint r)
          then Err (ContextHintTooLarge (r_id r) (ch_before_lines (r_context_hint r))
                     (ch_after_lines (r_context_hint r)))
          else Ok ())"

definition validate_rule ::
  "'r rx_build \<Rightarrow> (string \<Rightarrow> string) \<Rightarrow> rule_definition \<Rightarrow> (rule_error, unit) outcome" where
  "validate_rule build to_lowercase r =
     (if r_id r = [] then Err EmptyRuleId
      else if MAX_RULE_ID_BYTES < length (r_id r) then Err (RuleIdTooLong (r_id r))
      else if r_version r = 0 then Err (InvalidVersion (r_version r))
      else if r_event_kind r = [] then Err (EmptyEventKind (r_id r))
      else and_then (validate_body build r) (\<lambda>_.
        if \<not> is_mvp_live (r_kind r) \<and> r_status r \<noteq> Draft
        then Err (ReservedKindNotDraft (r_id r) (r_kind r) (r_status r))
        else if r_summary_template r = [] then Err (EmptySummaryTemplate (r_id r))
        else if MAX_TEMPLATE_BYTES < length (r_summary_template r)
        then Err (SummaryTemplateTooLong (r_id r))
        else and_then
          (validate_template_against_captures (r_id r) (r_summary_template r) (r_captures r))
          (\<lambda>_. validate_tail to_lowercase r)))"

section \<open>The template grammar\<close>

text \<open>
  The names a template refers to, in order, or nothing when a placeholder is never closed:
  what the two loops agree on.
\<close>

function template_names :: "string \<Rightarrow> string list option" where
  "template_names s =
     (if s = [] then Some []
      else if opens_placeholder s then
        (case split_once (CHR ''}'') (drop 2 s) of
           None \<Rightarrow> None
         | Some (name, rest) \<Rightarrow> map_option ((#) name) (template_names rest))
      else template_names (tl s))"
  by pat_completeness auto
termination
  by (relation "measure length") (auto dest!: split_once_Some arg_cong [of _ _ length])

declare template_names.simps [simp del]

lemma validate_template_Ok_iff:
  "validate_template i caps off s = Ok () \<longleftrightarrow>
     (\<exists>ns. template_names s = Some ns \<and> (\<forall>n \<in> set ns. is_reserved_match_key n \<or> n \<in> set caps))"
proof (induction i caps off s rule: validate_template.induct)
  case (1 i caps off s)
  note eqs = validate_template.simps [of i caps off s] template_names.simps [of s]
  show ?case
  proof (cases "s = []")
    case True
    then show ?thesis by (simp add: validate_template.simps template_names.simps)
  next
    case ne: False
    show ?thesis
    proof (cases "opens_placeholder s")
      case True
      show ?thesis
      proof (cases "split_once CHR ''}'' (drop 2 s)")
        case None
        with ne True show ?thesis by (simp add: eqs)
      next
        case (Some p)
        obtain name rest where p: "p = (name, rest)" by fastforce
        show ?thesis
        proof (cases "\<not> is_reserved_match_key name \<and> name \<notin> set caps")
          case bad: True
          with ne True Some p show ?thesis by (auto simp: eqs)
        next
          case good: False
          show ?thesis
            using ne True Some p good "1.IH"(1) [OF ne True Some p [symmetric] good] by (auto simp: eqs)
        qed
      qed
    next
      case False
      with ne "1.IH"(2) [OF ne False] show ?thesis by (simp add: eqs)
    qed
  qed
qed

lemma template_names_skip:
  assumes "list_all is_cont p"
  shows "template_names (p @ s) = template_names s"
  using assms
proof (induction p)
  case (Cons c p)
  then have "\<not> opens_placeholder (c # p @ s)"
    by (auto simp: opens_placeholder_def is_cont_def byte_def split: list.splits)
  with Cons show ?case by (simp add: template_names.simps [of "c # p @ s"])
qed simp

lemma template_names_char:
  assumes ok: "utf8_ok s" and s: "s \<noteq> []" "\<not> opens_placeholder s"
  shows "template_names (drop (ch_len s) s) = template_names s" "utf8_ok (drop (ch_len s) s)"
proof -
  obtain c r where cr: "s = c # r" using s(1) by (cases s) auto
  let ?n = "utf8_len c"
  from ok cr have n: "?n \<noteq> 0" "list_all is_cont (take (?n - 1) r)" "utf8_ok (drop (?n - 1) r)"
    by (auto simp: utf8_ok_Cons_iff)
  have d: "drop (ch_len s) s = drop (?n - 1) r"
    using n(1) cr by (simp add: ch_len_def max_def drop_Cons')
  have "template_names s = template_names r"
    using s cr by (simp add: template_names.simps [of "c # r"])
  also have "\<dots> = template_names (take (?n - 1) r @ drop (?n - 1) r)" by simp
  also have "\<dots> = template_names (drop (?n - 1) r)" by (rule template_names_skip [OF n(2)])
  finally show "template_names (drop (ch_len s) s) = template_names s" by (simp add: d)
  show "utf8_ok (drop (ch_len s) s)" using n(3) d by simp
qed

lemma utf8_ok_after_name:
  assumes ok: "utf8_ok s" and p: "opens_placeholder s"
    and sp: "split_once CHR ''}'' (drop 2 s) = Some (name, rest)"
  shows "utf8_ok rest"
proof -
  from split_once_Some [OF sp] have d: "drop 2 s = name @ CHR ''}'' # rest" by simp
  let ?i = "2 + length name + 1"
  have len: "length s = 2 + length name + Suc (length rest)"
    using d p by (auto simp: opens_placeholder_def split: list.splits)
  have "is_char_boundary s (2 + length name)"
  proof -
    have "s ! (2 + length name) = CHR ''}''"
      using d by (metis add.commute le_add2 len nth_append_length nth_drop trans_le_add1)
    then show ?thesis using len by (simp add: is_char_boundary_def is_cont_def byte_def)
  qed
  from utf8_ok_take_drop [OF ok this] have "utf8_ok (drop (2 + length name) s)" by simp
  moreover have "drop (2 + length name) s = CHR ''}'' # rest"
    using d by (metis add.commute append_eq_conv_conj drop_drop)
  ultimately show ?thesis by (simp add: utf8_ok_Cons_iff utf8_len_def byte_def)
qed

lemma render_from_Ok_iff:
  assumes "utf8_ok s"
  shows "(\<exists>t. render_from caps off s out = Ok t) \<longleftrightarrow>
     (\<exists>ns. template_names s = Some ns \<and> (\<forall>n \<in> set ns. map_of caps n \<noteq> None))"
  using assms
proof (induction caps off s out rule: render_from.induct)
  case (1 caps off s out)
  show ?case
  proof (cases "s = []")
    case True
    then show ?thesis by (simp add: render_from.simps template_names.simps)
  next
    case ne: False
    show ?thesis
    proof (cases "opens_placeholder s")
      case True
      show ?thesis
      proof (cases "split_once CHR ''}'' (drop 2 s)")
        case None
        with ne True show ?thesis
          by (simp add: render_from.simps [of caps off s out] template_names.simps [of s])
      next
        case (Some p)
        obtain name rest where p: "p = (name, rest)" by fastforce
        note ok = utf8_ok_after_name [OF "1.prems" True Some [unfolded p]]
        show ?thesis
        proof (cases "map_of caps name")
          case None
          with ne True Some p show ?thesis
            by (auto simp: render_from.simps [of caps off s out] template_names.simps [of s])
        next
          case v: (Some v)
          show ?thesis
            using ne True Some p v "1.IH"(1) [OF ne True Some p [symmetric] v ok]
            by (auto simp: render_from.simps [of caps off s out] template_names.simps [of s])
        qed
      qed
    next
      case False
      note step = template_names_char [OF "1.prems" ne False]
      show ?thesis
        using ne False "1.IH"(2) [OF ne False step(2)] step(1)
        by (simp add: render_from.simps [of caps off s out])
    qed
  qed
qed

lemma render_from_no_panic: "render_from caps off s out \<noteq> Panic"
proof (induction caps off s out rule: render_from.induct)
  case (1 caps off s out)
  then show ?case
    by (subst render_from.simps) (auto split: option.splits)
qed

end
