(* ===== verification/TC_Sifter.thy ===== *)
theory TC_Sifter
  imports TC_Rule TC_Context "HOL-Library.Multiset" "HOL-Library.List_Lexorder" "HOL-Library.Char_ord"
begin

text \<open>
  The sifter runtime of \<^verbatim>\<open>crates/sifters/src/lib.rs\<close>: building a rule set, hot-swapping it, and
  evaluating it on a frame (a keyword pass, then a regex pass), down to the event drafts it
  hands to the probes.

  The two scanners are external crates, collected in the record \<open>engine\<close>: \<^verbatim>\<open>regex\<close> (one pattern,
  its captures, and the combined pattern set) and \<^verbatim>\<open>aho_corasick\<close> (the non-overlapping matches of
  a set of keywords). What their documentation promises and the sifter relies on is
  \<open>set_contract\<close> and \<open>find_contract\<close>. The record also holds the name-based UUID of the \<^verbatim>\<open>uuid\<close>
  crate and the Unicode lower-casing. The clock read for the \<open>k\<close>-th draft of a frame is
  \<open>clk k\<close>. Indexing outside a vector is a panic.
\<close>

section \<open>The external scanners\<close>

record ('r, 'a, 'q) engine =
  eng_regex :: "'r rx_build"
  eng_captures :: "'r \<Rightarrow> string \<Rightarrow> (string \<Rightarrow> string option) option"
  eng_capture_names :: "'r \<Rightarrow> string list"
  eng_regex_set :: "'q set_build"
  eng_set_matches :: "'q \<Rightarrow> string \<Rightarrow> nat list"
  eng_aho :: "string list \<Rightarrow> (string, 'a) outcome"
  eng_find_iter :: "'a \<Rightarrow> string \<Rightarrow> (nat \<times> nat \<times> nat) list"
  eng_uuid_v5 :: "uuid \<Rightarrow> string \<Rightarrow> uuid"
  eng_lowercase :: "string \<Rightarrow> string"

text \<open>
  \<open>RegexSet::matches\<close> yields, in ascending order, the patterns that match the text; a pattern
  matches exactly when \<open>Regex::captures\<close> of the same pattern finds captures.
\<close>

definition set_contract :: "('r, 'a, 'q) engine \<Rightarrow> bool" where
  "set_contract e \<longleftrightarrow>
     (\<forall>lim dlim pats q rs text.
        eng_regex_set e lim dlim pats = Ok q \<and>
        list_all2 (\<lambda>p r. compile_bounded_regex (eng_regex e) p = Ok r) pats rs \<longrightarrow>
        eng_set_matches e q text =
          filter (\<lambda>i. eng_captures e (rs ! i) text \<noteq> None) [0 ..< length pats])"

text \<open>\<open>occurs_at p s text\<close>: the pattern \<open>p\<close> stands at offset \<open>s\<close> of the text.\<close>

definition occurs_at :: "string \<Rightarrow> nat \<Rightarrow> string \<Rightarrow> bool" where
  "occurs_at p s text \<longleftrightarrow> s + length p \<le> length text \<and> take (length p) (drop s text) = p"

text \<open>
  \<open>AhoCorasick::find_iter\<close> with the default match kind: successive matches do not overlap and
  are reported as soon as they are seen, that is, the next match is one that ends first among
  the occurrences that start at or after the end of the previous match.
\<close>

fun successive :: "string list \<Rightarrow> string \<Rightarrow> nat \<Rightarrow> (nat \<times> nat \<times> nat) list \<Rightarrow> bool" where
  "successive pats text from [] \<longleftrightarrow>
     (\<forall>j < length pats. \<forall>s. from \<le> s \<longrightarrow> \<not> occurs_at (pats ! j) s text)"
| "successive pats text from ((i, s, e) # ms) \<longleftrightarrow>
     i < length pats \<and> from \<le> s \<and> occurs_at (pats ! i) s text \<and> e = s + length (pats ! i) \<and>
     (\<forall>j < length pats. \<forall>s'. from \<le> s' \<and> occurs_at (pats ! j) s' text \<longrightarrow> e \<le> s' + length (pats ! j)) \<and>
     successive pats text e ms"

definition find_contract :: "('r, 'a, 'q) engine \<Rightarrow> bool" where
  "find_contract e \<longleftrightarrow>
     (\<forall>pats a text. eng_aho e pats = Ok a \<and> [] \<notin> set pats \<longrightarrow>
        successive pats text 0 (eng_find_iter e a text))"

section \<open>Runtime state\<close>

definition MAX_SIFT_BYTES :: nat where
  "MAX_SIFT_BYTES = 8192"

datatype sifter_error =
    NotActive string
  | KindNotImplemented string
  | RegexCompile string string
  | EmptyKeywords string
  | SMissingPattern string
  | Invalid string string

record 'r regex_rule =
  rx_def :: rule_definition
  rx_compiled :: 'r

record keyword_rule =
  kr_def :: rule_definition
  kr_keywords :: "string list"

record ('r, 'a, 'q) sifter_inner =
  si_keyword_rules :: "keyword_rule list"
  si_keyword_ac :: "'a option"
  si_kw_pattern_to_rule :: "nat list"
  si_regex_rules :: "'r regex_rule list"
  si_regex_set :: "'q option"

record rebind_report =
  rb_old_rule_count :: nat
  rb_new_rule_count :: nat

section \<open>Building\<close>

record 'r builder =
  b_keyword_rules :: "keyword_rule list"
  b_kw_patterns :: "string list"
  b_kw_pattern_to_rule :: "nat list"
  b_regex_rules :: "'r regex_rule list"

definition builder_new :: "'r builder" where
  "builder_new = \<lparr>b_keyword_rules = [], b_kw_patterns = [], b_kw_pattern_to_rule = [],
     b_regex_rules = []\<rparr>"

definition add_keyword_rule ::
  "rule_definition \<Rightarrow> 'r builder \<Rightarrow> (sifter_error, 'r builder) outcome" where
  "add_keyword_rule r b =
     (case r_keywords r of
        None \<Rightarrow> Err (EmptyKeywords (r_id r))
      | Some kws \<Rightarrow>
          if kws = [] then Err (EmptyKeywords (r_id r))
          else
            let rule_idx = length (b_keyword_rules b); kws_sorted = sort kws in
            Ok (b\<lparr>b_kw_patterns := b_kw_patterns b @ kws_sorted,
                  b_kw_pattern_to_rule :=
                    b_kw_pattern_to_rule b @ replicate (length kws_sorted) rule_idx,
                  b_keyword_rules :=
                    b_keyword_rules b @ [\<lparr>kr_def = r, kr_keywords = kws_sorted\<rparr>]\<rparr>))"

definition add_regex_rule ::
  "('r, 'a, 'q) engine \<Rightarrow> rule_definition \<Rightarrow> 'r builder \<Rightarrow> (sifter_error, 'r builder) outcome" where
  "add_regex_rule e r b =
     (case r_pattern r of
        None \<Rightarrow> Err (SMissingPattern (r_id r))
      | Some pat \<Rightarrow>
          (case compile_bounded_regex (eng_regex e) pat of
             Ok compiled \<Rightarrow>
               Ok (b\<lparr>b_regex_rules := b_regex_rules b @ [\<lparr>rx_def = r, rx_compiled = compiled\<rparr>]\<rparr>)
           | Err reason \<Rightarrow> Err (RegexCompile (r_id r) reason)
           | Panic \<Rightarrow> Panic))"

definition add_rule ::
  "('r, 'a, 'q) engine \<Rightarrow> rule_definition \<Rightarrow> 'r builder \<Rightarrow> (sifter_error, 'r builder) outcome" where
  "add_rule e r b =
     (case validate_rule (eng_regex e) (eng_lowercase e) r of
        Err err \<Rightarrow> Err (Invalid (r_id r) (rule_error_text err))
      | Panic \<Rightarrow> Panic
      | Ok _ \<Rightarrow>
          if \<not> is_runtime_eligible (r_status r) then Err (NotActive (r_id r))
          else
            (case r_kind r of
               Keyword \<Rightarrow> add_keyword_rule r b
             | Regex \<Rightarrow> add_regex_rule e r b
             | other \<Rightarrow> Err (KindNotImplemented (r_id r @ ''/'' @ rule_type_debug other))))"

fun add_rules ::
  "('r, 'a, 'q) engine \<Rightarrow> rule_definition list \<Rightarrow> 'r builder \<Rightarrow> (sifter_error, 'r builder) outcome" where
  "add_rules e [] b = Ok b"
| "add_rules e (r # rs) b = and_then (add_rule e r b) (add_rules e rs)"

definition build_keyword_ac ::
  "('r, 'a, 'q) engine \<Rightarrow> string list \<Rightarrow> (sifter_error, 'a option) outcome" where
  "build_keyword_ac e pats =
     (if pats = [] then Ok None
      else case eng_aho e pats of
        Ok a \<Rightarrow> Ok (Some a)
      | Err reason \<Rightarrow> Err (RegexCompile ''<aho>'' reason)
      | Panic \<Rightarrow> Panic)"

definition build_regex_set ::
  "('r, 'a, 'q) engine \<Rightarrow> 'r regex_rule list \<Rightarrow> (sifter_error, 'q option) outcome" where
  "build_regex_set e rules =
     (if rules = [] then Ok None
      else case compile_bounded_regex_set (eng_regex_set e)
                  (map (\<lambda>r. case r_pattern (rx_def r) of Some p \<Rightarrow> p | None \<Rightarrow> []) rules) of
        Ok q \<Rightarrow> Ok (Some q)
      | Err reason \<Rightarrow> Err (RegexCompile ''<set>'' reason)
      | Panic \<Rightarrow> Panic)"

definition build_inner ::
  "('r, 'a, 'q) engine \<Rightarrow> rule_definition list \<Rightarrow> (sifter_error, ('r, 'a, 'q) sifter_inner) outcome" where
  "build_inner e rules =
     and_then (add_rules e rules builder_new) (\<lambda>b.
     and_then (build_keyword_ac e (b_kw_patterns b)) (\<lambda>ac.
     and_then (build_regex_set e (b_regex_rules b)) (\<lambda>q.
       Ok \<lparr>si_keyword_rules = b_keyword_rules b, si_keyword_ac = ac,
           si_kw_pattern_to_rule = b_kw_pattern_to_rule b,
           si_regex_rules = b_regex_rules b, si_regex_set = q\<rparr>)))"

definition rule_count :: "('r, 'a, 'q) sifter_inner \<Rightarrow> nat" where
  "rule_count si = length (si_keyword_rules si) + length (si_regex_rules si)"

text \<open>
  \<open>rebuild\<close>: the new snapshot replaces the old one, or the runtime is left as it was.
\<close>

definition rebuild ::
  "('r, 'a, 'q) engine \<Rightarrow> ('r, 'a, 'q) sifter_inner \<Rightarrow> rule_definition list \<Rightarrow>
     ('r, 'a, 'q) sifter_inner \<times> (sifter_error, rebind_report) outcome" where
  "rebuild e si rules =
     (case build_inner e rules of
        Ok si' \<Rightarrow> (si', Ok \<lparr>rb_old_rule_count = rule_count si, rb_new_rule_count = rule_count si'\<rparr>)
      | Err err \<Rightarrow> (si, Err err)
      | Panic \<Rightarrow> (si, Panic))"

section \<open>Drafts\<close>

text \<open>The sifter's own \<open>cap_text\<close>.\<close>

definition sift_cap_text :: "string \<Rightarrow> string \<times> nat" where
  "sift_cap_text text =
     (if length text \<le> MAX_SIFT_BYTES then (text, 0)
      else let end = floor_boundary text MAX_SIFT_BYTES in
        (take end text, try_from_or_max u32_max (length text - end)))"

definition SUPPRESSED_NOTICE :: string where
  "SUPPRESSED_NOTICE = ''<full match suppressed: rule declares redact>''"

definition inject_full_match ::
  "captures \<Rightarrow> string \<Rightarrow> string list \<Rightarrow> captures \<times> string list" where
  "inject_full_match caps text redact =
     (let value = (if redact = [] then clamp_full_match text else SUPPRESSED_NOTICE) in
      foldl (\<lambda>(c, injected) key.
               if map_of c key = None then (AList.update key value c, injected @ [key])
               else (c, injected))
        (caps, []) RESERVED_MATCH_KEYS)"

definition collapse_full_match_captures :: "captures \<Rightarrow> string list \<Rightarrow> captures" where
  "collapse_full_match_captures caps injected =
     foldl (\<lambda>c key. if key \<noteq> CANONICAL_MATCH_KEY then AList.delete key c else c) caps injected"

definition stream_matches :: "source_stream option \<Rightarrow> source_stream \<Rightarrow> bool" where
  "stream_matches rule_stream frame_stream \<longleftrightarrow>
     (case rule_stream of None \<Rightarrow> True | Some rs \<Rightarrow> rs = frame_stream)"

definition match_index_for_pattern :: "nat \<Rightarrow> nat \<Rightarrow> nat list \<Rightarrow> nat" where
  "match_index_for_pattern pat_idx rule_idx m = length (filter (\<lambda>r. r = rule_idx) (take pat_idx m))"

definition STABLE_RULE_ID_NAMESPACE :: uuid where
  "STABLE_RULE_ID_NAMESPACE = ''a3b5c7d9e1f24a6b8c0d1e2f3a4b5c6d''"

definition stable_rule_id :: "('r, 'a, 'q) engine \<Rightarrow> string \<Rightarrow> rule_id" where
  "stable_rule_id e registry_id = RuleId (eng_uuid_v5 e STABLE_RULE_ID_NAMESPACE registry_id)"

definition build_draft ::
  "('r, 'a, 'q) engine \<Rightarrow> timestamp \<Rightarrow> rule_definition \<Rightarrow> source_frame \<Rightarrow> bucket_id \<Rightarrow> captures \<Rightarrow>
     string list \<Rightarrow> nat \<Rightarrow> event_draft option" where
  "build_draft e now r frame bucket caps injected truncated =
     (let summary = (case render_summary r caps of Ok s \<Rightarrow> s | _ \<Rightarrow> r_summary_template r);
          stored = collapse_full_match_captures caps injected;
          pointer = \<lparr>sp_frame_id = f_frame_id frame, sp_line = f_line frame,
                     sp_byte_start = f_byte_offset frame, sp_byte_end = None,
                     sp_stream = Some (f_stream frame), sp_context_available = True\<rparr>;
          source = \<lparr>es_probe_id = f_probe_id frame, es_source_type = SProcess,
                    es_stream = f_stream frame, es_job_id = None\<rparr>;
          rule_ref = \<lparr>rr_id = stable_rule_id e (r_id r), rr_version = r_version r,
                      rr_registry_id = Some (r_id r)\<rparr>;
          draft = \<lparr>d_bucket_id = bucket, d_timestamp = now, d_severity = r_severity r,
                   d_kind = r_event_kind r, d_summary = summary, d_rule = Some rule_ref,
                   d_source = source, d_captures = Some stored, d_pointer = Some pointer,
                   d_pointer_unavailable_reason = None,
                   d_tags = (if r_tags r = [] then None else Some (r_tags r)),
                   d_frame_truncated_bytes = truncated, d_count = 1, d_first_seen = None,
                   d_last_seen = None, d_suppressed = False\<rparr>
      in if validate_draft draft = Ok () then Some draft else None)"

section \<open>Evaluating a frame\<close>

definition at_index :: "'a list \<Rightarrow> nat \<Rightarrow> ('e, 'a) outcome" where
  "at_index xs i = (if i < length xs then Ok (xs ! i) else Panic)"

definition push_draft :: "event_draft option \<Rightarrow> event_draft list \<Rightarrow> event_draft list" where
  "push_draft d out = (case d of Some x \<Rightarrow> out @ [x] | None \<Rightarrow> out)"

fun keyword_pass ::
  "('r, 'a, 'q) engine \<Rightarrow> (nat \<Rightarrow> timestamp) \<Rightarrow> ('r, 'a, 'q) sifter_inner \<Rightarrow> source_frame \<Rightarrow>
     bucket_id \<Rightarrow> string \<Rightarrow> nat \<Rightarrow> (nat \<times> nat \<times> nat) list \<Rightarrow> bool list \<Rightarrow> event_draft list \<Rightarrow>
     (unit, event_draft list) outcome" where
  "keyword_pass e clk si frame bucket text truncated [] fired out = Ok out"
| "keyword_pass e clk si frame bucket text truncated ((pat_idx, _, _) # ms) fired out =
     and_then (at_index (si_kw_pattern_to_rule si) pat_idx) (\<lambda>rule_idx.
     and_then (at_index fired rule_idx) (\<lambda>already.
       if already then keyword_pass e clk si frame bucket text truncated ms fired out
       else
         and_then (at_index (si_keyword_rules si) rule_idx) (\<lambda>rule.
           if \<not> stream_matches (r_stream (kr_def rule)) (f_stream frame)
           then keyword_pass e clk si frame bucket text truncated ms fired out
           else
             and_then (at_index (kr_keywords rule)
                        (match_index_for_pattern pat_idx rule_idx (si_kw_pattern_to_rule si)))
               (\<lambda>kw_token.
                 (case inject_full_match [(''keyword'', kw_token)] text (r_redact (kr_def rule)) of
                    (caps, injected) \<Rightarrow>
                      keyword_pass e clk si frame bucket text truncated ms (fired[rule_idx := True])
                        (push_draft
                           (build_draft e (clk (length out)) (kr_def rule) frame bucket caps injected
                             truncated) out))))))"

text \<open>The named groups that took part in the match, in the order of the pattern.\<close>

definition named_captures :: "string list \<Rightarrow> (string \<Rightarrow> string option) \<Rightarrow> captures" where
  "named_captures names caps =
     foldl (\<lambda>named name. case caps name of Some m \<Rightarrow> AList.update name m named | None \<Rightarrow> named)
       [] names"

definition REDACTED :: string where
  "REDACTED = ''<redacted>''"

definition redact_captures :: "string list \<Rightarrow> captures \<Rightarrow> captures" where
  "redact_captures redact named =
     foldl (\<lambda>n r. if map_of n r \<noteq> None then AList.update r REDACTED n else n) named redact"

fun regex_pass ::
  "('r, 'a, 'q) engine \<Rightarrow> (nat \<Rightarrow> timestamp) \<Rightarrow> ('r, 'a, 'q) sifter_inner \<Rightarrow> source_frame \<Rightarrow>
     bucket_id \<Rightarrow> string \<Rightarrow> nat \<Rightarrow> nat list \<Rightarrow> event_draft list \<Rightarrow> (unit, event_draft list) outcome" where
  "regex_pass e clk si frame bucket text truncated [] out = Ok out"
| "regex_pass e clk si frame bucket text truncated (hit # hits) out =
     and_then (at_index (si_regex_rules si) hit) (\<lambda>rule.
       if \<not> stream_matches (r_stream (rx_def rule)) (f_stream frame)
       then regex_pass e clk si frame bucket text truncated hits out
       else
         (case eng_captures e (rx_compiled rule) text of
            None \<Rightarrow> regex_pass e clk si frame bucket text truncated hits out
          | Some caps \<Rightarrow>
              (case inject_full_match
                      (redact_captures (r_redact (rx_def rule))
                        (named_captures (eng_capture_names e (rx_compiled rule)) caps))
                      text (r_redact (rx_def rule)) of
                 (named, injected) \<Rightarrow>
                   regex_pass e clk si frame bucket text truncated hits
                     (push_draft
                        (build_draft e (clk (length out)) (rx_def rule) frame bucket named injected
                          truncated) out))))"

definition sift_evaluate ::
  "('r, 'a, 'q) engine \<Rightarrow> (nat \<Rightarrow> timestamp) \<Rightarrow> ('r, 'a, 'q) sifter_inner \<Rightarrow> source_frame \<Rightarrow>
     bucket_id \<Rightarrow> (unit, event_draft list) outcome" where
  "sift_evaluate e clk si frame bucket =
     (case sift_cap_text (f_text frame) of
        (text, truncated) \<Rightarrow>
          and_then
            (case si_keyword_ac si of
               None \<Rightarrow> Ok []
             | Some ac \<Rightarrow>
                 keyword_pass e clk si frame bucket text truncated (eng_find_iter e ac text)
                   (replicate (length (si_keyword_rules si)) False) [])
            (\<lambda>out.
               case si_regex_set si of
                 None \<Rightarrow> Ok out
               | Some q \<Rightarrow>
                   regex_pass e clk si frame bucket text truncated (eng_set_matches e q text) out))"

section \<open>The flat keyword table\<close>

text \<open>The rule that owns each entry of the concatenated keyword lists.\<close>

definition owners :: "'a list list \<Rightarrow> nat list" where
  "owners xss = concat (map (\<lambda>i. replicate (length (xss ! i)) i) [0 ..< length xss])"

lemma owners_Nil [simp]: "owners [] = []"
  by (simp add: owners_def)

lemma owners_snoc: "owners (xss @ [xs]) = owners xss @ replicate (length xs) (length xss)"
proof -
  have same: "map (\<lambda>i. replicate (length ((xss @ [xs]) ! i)) i) [0 ..< length xss] =
      map (\<lambda>i. replicate (length (xss ! i)) i) [0 ..< length xss]"
    by (simp add: nth_append)
  show ?thesis
    unfolding owners_def length_append_singleton upt_Suc_append [OF le0] map_append concat_append same
    by simp
qed

lemma length_owners [simp]: "length (owners xss) = length (concat xss)"
  by (induction xss rule: rev_induct) (simp_all add: owners_snoc)

lemma owners_less: "i \<in> set (owners xss) \<Longrightarrow> i < length xss"
  by (induction xss rule: rev_induct) (auto simp: owners_snoc)

lemma owner_index:
  "i < length (concat xss) \<Longrightarrow>
   owners xss ! i < length xss \<and>
   match_index_for_pattern i (owners xss ! i) (owners xss) < length (xss ! (owners xss ! i)) \<and>
   xss ! (owners xss ! i) ! match_index_for_pattern i (owners xss ! i) (owners xss) = concat xss ! i"
proof (induction xss rule: rev_induct)
  case (snoc xs xss)
  let ?n = "length (concat xss)"
  show ?case
  proof (cases "i < ?n")
    case True
    then have r: "owners (xss @ [xs]) ! i = owners xss ! i"
      by (simp add: owners_snoc nth_append)
    have "match_index_for_pattern i (owners xss ! i) (owners (xss @ [xs])) =
        match_index_for_pattern i (owners xss ! i) (owners xss)"
      using True by (simp add: match_index_for_pattern_def owners_snoc)
    with snoc.IH [OF True] r True show ?thesis
      by (simp add: nth_append)
  next
    case False
    with snoc.prems obtain k where k: "i = ?n + k" "k < length xs"
      by (metis add_diff_inverse_nat append_Nil2 concat.simps concat_append length_append
          nat_add_left_cancel_less)
    have r: "owners (xss @ [xs]) ! i = length xss"
      using k by (simp add: owners_snoc nth_append)
    have "filter (\<lambda>r. r = length xss) (owners xss) = []"
      using owners_less by (fastforce simp: filter_empty_conv)
    then have "match_index_for_pattern i (length xss) (owners (xss @ [xs])) = k"
      using k by (simp add: match_index_for_pattern_def owners_snoc)
    with r k show ?thesis by (simp add: nth_append)
  qed
qed simp

section \<open>What a built runtime holds\<close>

definition holds_rules ::
  "('r, 'a, 'q) engine \<Rightarrow> rule_definition list \<Rightarrow> 'r builder \<Rightarrow> bool" where
  "holds_rules e rules b \<longleftrightarrow>
     map kr_def (b_keyword_rules b) = filter (\<lambda>r. r_kind r = Keyword) rules \<and>
     (\<forall>k \<in> set (b_keyword_rules b). \<exists>kws. r_keywords (kr_def k) = Some kws \<and>
        kr_keywords k = sort kws \<and> [] \<notin> set kws) \<and>
     b_kw_patterns b = concat (map kr_keywords (b_keyword_rules b)) \<and>
     b_kw_pattern_to_rule b = owners (map kr_keywords (b_keyword_rules b)) \<and>
     map rx_def (b_regex_rules b) = filter (\<lambda>r. r_kind r = Regex) rules \<and>
     (\<forall>x \<in> set (b_regex_rules b). \<exists>p. r_pattern (rx_def x) = Some p \<and>
        compile_bounded_regex (eng_regex e) p = Ok (rx_compiled x))"

lemma holds_rules_new: "holds_rules e [] builder_new"
  by (simp add: holds_rules_def builder_new_def)

lemma validate_rule_body:
  assumes "validate_rule build low r = Ok ()"
  shows "validate_body build r = Ok ()"
    "validate_template_against_captures (r_id r) (r_summary_template r) (r_captures r) = Ok ()"
  using assms by (auto simp: validate_rule_def and_then_Ok_iff split: if_splits)

lemma add_keyword_rule_holds:
  assumes "holds_rules e rules b" and "add_keyword_rule r b = Ok b'" and "r_kind r = Keyword"
    and "validate_body build r = Ok ()"
  shows "holds_rules e (rules @ [r]) b'"
  using assms
  by (auto simp: holds_rules_def add_keyword_rule_def Let_def owners_snoc validate_body_def
      split: option.splits if_splits)

lemma add_regex_rule_holds:
  assumes "holds_rules e rules b" and "add_regex_rule e r b = Ok b'" and "r_kind r = Regex"
  shows "holds_rules e (rules @ [r]) b'"
  using assms
  by (auto simp: holds_rules_def add_regex_rule_def split: option.splits outcome.splits)

lemma add_rule_holds:
  assumes h: "holds_rules e rules b" and a: "add_rule e r b = Ok b'"
  shows "holds_rules e (rules @ [r]) b' \<and> validate_rule (eng_regex e) (eng_lowercase e) r = Ok () \<and>
    r_status r = Active \<and> (r_kind r = Keyword \<or> r_kind r = Regex)"
proof -
  from a have v: "validate_rule (eng_regex e) (eng_lowercase e) r = Ok ()"
    and s: "r_status r = Active"
    by (auto simp: add_rule_def split: outcome.splits if_splits) (cases "r_status r", auto)
  show ?thesis
  proof (cases "r_kind r = Keyword")
    case True
    with a v s have "add_keyword_rule r b = Ok b'" by (simp add: add_rule_def)
    with add_keyword_rule_holds [OF h this True validate_rule_body(1) [OF v]] v s True
    show ?thesis by simp
  next
    case False
    with a v s have "r_kind r = Regex \<and> add_regex_rule e r b = Ok b'"
      by (auto simp: add_rule_def split: rule_type.splits)
    with add_regex_rule_holds [OF h] v s show ?thesis by simp
  qed
qed

lemma add_rules_holds:
  "holds_rules e done b \<Longrightarrow> add_rules e rs b = Ok b' \<Longrightarrow>
   holds_rules e (done @ rs) b' \<and>
   (\<forall>r \<in> set rs. validate_rule (eng_regex e) (eng_lowercase e) r = Ok () \<and> r_status r = Active \<and>
      (r_kind r = Keyword \<or> r_kind r = Regex))"
proof (induction rs arbitrary: "done" b)
  case (Cons r rs)
  from Cons.prems(2) obtain b1 where b1: "add_rule e r b = Ok b1" "add_rules e rs b1 = Ok b'"
    by (auto simp: and_then_Ok_iff)
  from add_rule_holds [OF Cons.prems(1) b1(1)] Cons.IH [OF _ b1(2), of "done @ [r]"]
  show ?case by simp
qed simp

lemma build_inner_holds:
  assumes "build_inner e rules = Ok si"
  obtains b where "holds_rules e rules b"
    "si_keyword_rules si = b_keyword_rules b" "si_kw_pattern_to_rule si = b_kw_pattern_to_rule b"
    "si_regex_rules si = b_regex_rules b"
    "build_keyword_ac e (b_kw_patterns b) = Ok (si_keyword_ac si)"
    "build_regex_set e (b_regex_rules b) = Ok (si_regex_set si)"
    "\<forall>r \<in> set rules. validate_rule (eng_regex e) (eng_lowercase e) r = Ok () \<and> r_status r = Active"
proof -
  from assms obtain b ac q where b: "add_rules e rules builder_new = Ok b"
      "build_keyword_ac e (b_kw_patterns b) = Ok ac" "build_regex_set e (b_regex_rules b) = Ok q"
      "si = \<lparr>si_keyword_rules = b_keyword_rules b, si_keyword_ac = ac,
           si_kw_pattern_to_rule = b_kw_pattern_to_rule b,
           si_regex_rules = b_regex_rules b, si_regex_set = q\<rparr>"
    by (auto simp: build_inner_def and_then_Ok_iff)
  with add_rules_holds [OF holds_rules_new b(1)] show ?thesis
    by (intro that [of b]) auto
qed

section \<open>Stored captures\<close>

definition full_match_value :: "string list \<Rightarrow> string \<Rightarrow> string" where
  "full_match_value redact text = (if redact = [] then clamp_full_match text else SUPPRESSED_NOTICE)"

lemma inject_full_match_map:
  assumes "inject_full_match caps text redact = (caps', injected)"
  shows "map_of caps' k =
    (case map_of caps k of Some v \<Rightarrow> Some v
     | None \<Rightarrow> if is_reserved_match_key k then Some (full_match_value redact text) else None)"
    "injected = filter (\<lambda>k. map_of caps k = None) RESERVED_MATCH_KEYS"
proof -
  let ?v = "full_match_value redact text"
  have v: "inject_full_match caps text redact =
      foldl (\<lambda>(c, injected) key.
               if map_of c key = None then (AList.update key ?v c, injected @ [key])
               else (c, injected))
        (caps, []) RESERVED_MATCH_KEYS"
    unfolding inject_full_match_def full_match_value_def Let_def by (rule refl)
  note v = v [unfolded RESERVED_MATCH_KEYS_def, simplified]
  show "map_of caps' k = (case map_of caps k of Some v \<Rightarrow> Some v
     | None \<Rightarrow> if is_reserved_match_key k then Some ?v else None)"
    using assms unfolding v
    by (auto simp: is_reserved_match_key_def RESERVED_MATCH_KEYS_def update_conv' split: if_splits option.splits)
  show "injected = filter (\<lambda>k. map_of caps k = None) RESERVED_MATCH_KEYS"
    using assms unfolding v
    by (auto simp: RESERVED_MATCH_KEYS_def update_conv' split: if_splits)
qed

lemma collapse_map:
  "map_of (collapse_full_match_captures caps ks) k =
     (if k \<in> set ks \<and> k \<noteq> CANONICAL_MATCH_KEY then None else map_of caps k)"
  unfolding collapse_full_match_captures_def
  by (induction ks arbitrary: caps) (auto simp: delete_conv')

text \<open>
  A stored event carries the captures of the match, and the full-match value once, under its
  canonical name.
\<close>

lemma stored_captures:
  assumes "inject_full_match caps text redact = (caps', injected)"
  shows "map_of (collapse_full_match_captures caps' injected) k =
    (case map_of caps k of Some v \<Rightarrow> Some v
     | None \<Rightarrow> if k = CANONICAL_MATCH_KEY then Some (full_match_value redact text) else None)"
  by (auto simp: collapse_map inject_full_match_map [OF assms] is_reserved_match_key_def
      RESERVED_MATCH_KEYS_def CANONICAL_MATCH_KEY_def split: option.splits)

section \<open>Drafts of a rule\<close>

definition pointer_to :: "source_frame \<Rightarrow> source_pointer" where
  "pointer_to frame = \<lparr>sp_frame_id = f_frame_id frame, sp_line = f_line frame,
     sp_byte_start = f_byte_offset frame, sp_byte_end = None,
     sp_stream = Some (f_stream frame), sp_context_available = True\<rparr>"

definition draft_of ::
  "('r, 'a, 'q) engine \<Rightarrow> source_frame \<Rightarrow> bucket_id \<Rightarrow> rule_definition \<Rightarrow> event_draft \<Rightarrow> bool" where
  "draft_of e frame bucket r d \<longleftrightarrow>
     d_bucket_id d = bucket \<and> d_severity d = r_severity r \<and> d_kind d = r_event_kind r \<and>
     d_rule d = Some \<lparr>rr_id = stable_rule_id e (r_id r), rr_version = r_version r,
                      rr_registry_id = Some (r_id r)\<rparr> \<and>
     d_pointer d = Some (pointer_to frame) \<and>
     d_frame_truncated_bytes d = snd (sift_cap_text (f_text frame)) \<and>
     d_count d = 1 \<and> \<not> d_suppressed d \<and> validate_draft d = Ok ()"

lemma build_draft_Some:
  "\<exists>d. build_draft e now r frame bucket caps injected (snd (sift_cap_text (f_text frame))) = Some d \<and>
     draft_of e frame bucket r d \<and> d_timestamp d = now \<and>
     d_captures d = Some (collapse_full_match_captures caps injected) \<and>
     d_summary d = (case render_summary r caps of Ok s \<Rightarrow> s | _ \<Rightarrow> r_summary_template r)"
  by (simp add: build_draft_def Let_def draft_of_def validate_draft_def pointer_to_def)

section \<open>The keyword pass\<close>

definition keyword_fires :: "rule_definition \<Rightarrow> string \<Rightarrow> source_stream \<Rightarrow> bool" where
  "keyword_fires r text s \<longleftrightarrow>
     stream_matches (r_stream r) s \<and>
     (\<exists>kws. r_keywords r = Some kws \<and> (\<exists>kw \<in> set kws. \<exists>p. occurs_at kw p text))"

lemma successive_mem:
  "successive pats text from ms \<Longrightarrow> (i, s, t) \<in> set ms \<Longrightarrow>
   i < length pats \<and> from \<le> s \<and> occurs_at (pats ! i) s text \<and> t = s + length (pats ! i) \<and>
   (\<forall>j < length pats. occurs_at (pats ! j) s text \<longrightarrow> t \<le> s + length (pats ! j))"
proof (induction ms arbitrary: "from")
  case (Cons m ms)
  obtain i' s' t' where m: "m = (i', s', t')" by (cases m) auto
  show ?case
  proof (cases "(i, s, t) = m")
    case True
    with Cons.prems m have "from \<le> s" "\<forall>j < length pats. \<forall>s'. from \<le> s' \<and> occurs_at (pats ! j) s' text \<longrightarrow>
        t \<le> s' + length (pats ! j)" "i < length pats" "occurs_at (pats ! i) s text" "t = s + length (pats ! i)"
      by auto
    then show ?thesis by blast
  next
    case False
    with Cons m have "i < length pats \<and> t' \<le> s \<and> occurs_at (pats ! i) s text \<and>
       t = s + length (pats ! i) \<and> (\<forall>j < length pats. occurs_at (pats ! j) s text \<longrightarrow> t \<le> s + length (pats ! j))"
      by auto
    moreover from Cons.prems m have "from \<le> t'" by auto
    ultimately show ?thesis by auto
  qed
qed simp

text \<open>The matches that belong to the table: what \<open>find_contract\<close> gives each of them.\<close>

definition in_table :: "('r, 'a, 'q) sifter_inner \<Rightarrow> string \<Rightarrow> nat \<Rightarrow> bool" where
  "in_table si text i \<longleftrightarrow>
     (let kws = map kr_keywords (si_keyword_rules si) in
      i < length (concat kws) \<and> si_kw_pattern_to_rule si = owners kws \<and>
      (\<exists>p. occurs_at (concat kws ! i) p text))"

lemma in_table_rule:
  assumes "in_table si text i"
  defines "r \<equiv> si_kw_pattern_to_rule si ! i"
  shows "i < length (si_kw_pattern_to_rule si)" "r < length (si_keyword_rules si)"
    "match_index_for_pattern i r (si_kw_pattern_to_rule si) < length (kr_keywords (si_keyword_rules si ! r))"
    "\<exists>p. occurs_at (kr_keywords (si_keyword_rules si ! r) !
       match_index_for_pattern i r (si_kw_pattern_to_rule si)) p text"
  using assms owner_index [of i "map kr_keywords (si_keyword_rules si)"]
  by (auto simp: in_table_def Let_def)

definition kw_hit ::
  "('r, 'a, 'q) engine \<Rightarrow> ('r, 'a, 'q) sifter_inner \<Rightarrow> source_frame \<Rightarrow> bucket_id \<Rightarrow> string \<Rightarrow> nat \<Rightarrow>
     event_draft \<Rightarrow> bool" where
  "kw_hit e si frame bucket text r d \<longleftrightarrow>
     r < length (si_keyword_rules si) \<and>
     (let k = si_keyword_rules si ! r in
      stream_matches (r_stream (kr_def k)) (f_stream frame) \<and> draft_of e frame bucket (kr_def k) d \<and>
      (\<exists>kw caps. kw \<in> set (kr_keywords k) \<and> (\<exists>p. occurs_at kw p text) \<and>
         d_captures d = Some caps \<and> map_of caps ''keyword'' = Some kw))"

text \<open>
  The keyword table of a rule set, and the rules that a sequence of reported matches is credited to:
  each match belongs to the rule that owns its table entry, a rule that does not admit the stream is
  passed over, and a rule counts once, at its first match.
\<close>

definition keyword_rules_of :: "rule_definition list \<Rightarrow> rule_definition list" where
  "keyword_rules_of rules = filter (\<lambda>r. r_kind r = Keyword) rules"

definition keyword_lists :: "rule_definition list \<Rightarrow> string list list" where
  "keyword_lists rules = map (\<lambda>r. case r_keywords r of Some kws \<Rightarrow> sort kws | None \<Rightarrow> []) (keyword_rules_of rules)"

definition note_first :: "'a list \<Rightarrow> 'a \<Rightarrow> 'a list" where
  "note_first xs x = (if x \<in> set xs then xs else xs @ [x])"

definition credited :: "rule_definition list \<Rightarrow> source_stream \<Rightarrow> (nat \<times> nat \<times> nat) list \<Rightarrow> nat list" where
  "credited rules stream ms =
     foldl note_first []
       (filter (\<lambda>r. stream_matches (r_stream (keyword_rules_of rules ! r)) stream)
         (map (\<lambda>m. owners (keyword_lists rules) ! fst m) ms))"

text \<open>An occurrence of a table entry that no other occurrence of any entry overlaps.\<close>

definition isolated :: "string list \<Rightarrow> string \<Rightarrow> nat \<Rightarrow> nat \<Rightarrow> bool" where
  "isolated pats text i s \<longleftrightarrow>
     i < length pats \<and> occurs_at (pats ! i) s text \<and>
     (\<forall>j < length pats. \<forall>s'. occurs_at (pats ! j) s' text \<and> s' < s + length (pats ! i) \<and> s < s' + length (pats ! j) \<longrightarrow>
        j = i \<and> s' = s)"

lemma set_note_first: "set (foldl note_first xs ys) = set xs \<union> set ys"
  by (induction ys arbitrary: xs) (auto simp: note_first_def)

lemma isolated_reported:
  assumes "successive pats text from ms" and "isolated pats text i s" and "from \<le> s" and "[] \<notin> set pats"
  shows "(i, s, s + length (pats ! i)) \<in> set ms"
  using assms(1,3)
proof (induction ms arbitrary: "from")
  case Nil
  with assms(2) show ?case by (auto simp: isolated_def)
next
  case (Cons m ms)
  obtain i' s' t where m: "m = (i', s', t)" by (cases m) auto
  have i: "i < length pats" "occurs_at (pats ! i) s text" using assms(2) by (auto simp: isolated_def)
  from Cons.prems m have m': "i' < length pats" "occurs_at (pats ! i') s' text" "t = s' + length (pats ! i')"
    "successive pats text t ms" by auto
  have le: "t \<le> s + length (pats ! i)" using Cons.prems m i by auto
  have "0 < length (pats ! i')" using assms(4) m'(1) by (metis length_greater_0_conv nth_mem)
  with le m'(3) have before: "s' < s + length (pats ! i)" by linarith
  show ?case
  proof (cases "i' = i \<and> s' = s")
    case True
    with m m'(3) show ?thesis by simp
  next
    case False
    have "\<not> s < s' + length (pats ! i')" using assms(2) m'(1,2) before False unfolding isolated_def by blast
    with m'(3) have "t \<le> s" by simp
    with Cons.IH [OF m'(4)] show ?thesis by simp
  qed
qed

lemma keyword_pass_loop:
  assumes "\<forall>(i, s, t) \<in> set ms. in_table si text i"
    and "length fired = length (si_keyword_rules si)"
    and "distinct rs" and "\<forall>r < length fired. fired ! r \<longleftrightarrow> r \<in> set rs"
    and "list_all2 (kw_hit e si frame bucket text) rs out"
    and "snd (sift_cap_text (f_text frame)) = truncated"
  defines "adm \<equiv> \<lambda>r. stream_matches (r_stream (kr_def (si_keyword_rules si ! r))) (f_stream frame)"
  defines "owner \<equiv> \<lambda>m. si_kw_pattern_to_rule si ! fst m"
  shows "\<exists>out' rs'. keyword_pass e clk si frame bucket text truncated ms fired out = Ok out' \<and>
    distinct rs' \<and> list_all2 (kw_hit e si frame bucket text) rs' out' \<and>
    rs' = foldl note_first rs (filter adm (map owner ms))"
  using assms(1-6)
proof (induction ms arbitrary: fired rs out)
  case Nil
  then show ?case by auto
next
  case (Cons m ms)
  obtain i s t where m: "m = (i, s, t)" by (cases m) auto
  with Cons.prems(1) have tab: "in_table si text i" and rest: "\<forall>(i, s, t) \<in> set ms. in_table si text i"
    by auto
  let ?r = "si_kw_pattern_to_rule si ! i"
  let ?l = "match_index_for_pattern i ?r (si_kw_pattern_to_rule si)"
  let ?k = "si_keyword_rules si ! ?r"
  note idx = in_table_rule [OF tab]
  show ?case
  proof (cases "fired ! ?r \<or> \<not> adm ?r")
    case True
    have "keyword_pass e clk si frame bucket text truncated (m # ms) fired out =
        keyword_pass e clk si frame bucket text truncated ms fired out"
      using True idx Cons.prems(2) m by (auto simp: at_index_def adm_def)
    moreover have "foldl note_first rs (filter adm (map owner (m # ms))) = foldl note_first rs (filter adm (map owner ms))"
      using True m idx Cons.prems(2,4) by (auto simp: owner_def note_first_def)
    ultimately show ?thesis using Cons.IH [OF rest Cons.prems(2-6)] by presburger
  next
    case False
    obtain caps injected where inj:
      "inject_full_match [(''keyword'', kr_keywords ?k ! ?l)] text (r_redact (kr_def ?k)) = (caps, injected)"
      by fastforce
    obtain d where d: "build_draft e (clk (length out)) (kr_def ?k) frame bucket caps injected truncated = Some d"
        "draft_of e frame bucket (kr_def ?k) d"
        "d_captures d = Some (collapse_full_match_captures caps injected)"
      using build_draft_Some [of e "clk (length out)" "kr_def ?k" frame bucket caps injected]
        Cons.prems(6) by auto
    have "map_of (collapse_full_match_captures caps injected) ''keyword'' = Some (kr_keywords ?k ! ?l)"
      by (simp add: stored_captures [OF inj])
    with idx d(2,3) False have hit: "kw_hit e si frame bucket text ?r d"
      by (auto simp: kw_hit_def Let_def adm_def)
    have new: "?r \<notin> set rs" using Cons.prems(2,4) False idx(2) by auto
    have "\<exists>out' rs'. keyword_pass e clk si frame bucket text truncated ms (fired[?r := True]) (out @ [d]) =
        Ok out' \<and> distinct rs' \<and> list_all2 (kw_hit e si frame bucket text) rs' out' \<and>
        rs' = foldl note_first (rs @ [?r]) (filter adm (map owner ms))"
    proof (rule Cons.IH [OF rest, of _ "rs @ [?r]"])
      show "length (fired[?r := True]) = length (si_keyword_rules si)" using Cons.prems(2) by simp
      show "distinct (rs @ [?r])" using Cons.prems(3) new by simp
      show "\<forall>r < length (fired[?r := True]). fired[?r := True] ! r \<longleftrightarrow> r \<in> set (rs @ [?r])"
        using Cons.prems(2,4) idx(2) by (auto simp: nth_list_update split: if_splits)
      show "list_all2 (kw_hit e si frame bucket text) (rs @ [?r]) (out @ [d])"
        using Cons.prems(5) hit by (simp add: list_all2_appendI)
    qed (rule Cons.prems(6))
    moreover have "keyword_pass e clk si frame bucket text truncated (m # ms) fired out =
        keyword_pass e clk si frame bucket text truncated ms (fired[?r := True]) (out @ [d])"
      using False idx Cons.prems(2) m inj d(1) by (simp add: at_index_def push_draft_def adm_def)
    moreover have "foldl note_first rs (filter adm (map owner (m # ms))) =
        foldl note_first (rs @ [?r]) (filter adm (map owner ms))"
      using False new m by (simp add: owner_def note_first_def)
    ultimately show ?thesis by presburger
  qed
qed

lemma kw_hits_submset:
  assumes "distinct rs" and "list_all2 (kw_hit e si frame bucket text) rs out"
  shows "mset (map (\<lambda>r. kr_def (si_keyword_rules si ! r)) rs) \<subseteq>#
    mset (map kr_def (si_keyword_rules si))"
proof -
  let ?n = "length (si_keyword_rules si)"
  have "set rs \<subseteq> {..< ?n}"
    using assms(2) by (auto simp: list_all2_conv_all_nth kw_hit_def in_set_conv_nth)
  with assms(1) have "mset rs \<subseteq># mset [0 ..< ?n]"
    by (metis atLeast0LessThan distinct_upt mset_set_set msubset_mset_set_iff finite_lessThan
        finite_set set_upt)
  then have "image_mset (\<lambda>r. kr_def (si_keyword_rules si ! r)) (mset rs) \<subseteq>#
      image_mset (\<lambda>r. kr_def (si_keyword_rules si ! r)) (mset [0 ..< ?n])"
    by (rule image_mset_subseteq_mono)
  also have "image_mset (\<lambda>r. kr_def (si_keyword_rules si ! r)) (mset [0 ..< ?n]) =
      mset (map (\<lambda>r. kr_def (si_keyword_rules si ! r)) [0 ..< ?n])"
    by (rule mset_map [symmetric])
  also have "map (\<lambda>r. kr_def (si_keyword_rules si ! r)) [0 ..< ?n] = map kr_def (si_keyword_rules si)"
    by (metis map_map map_nth comp_apply map_cong)
  finally show ?thesis by simp
qed

lemma submset_filter:
  assumes "mset xs \<subseteq># mset ys" and "\<forall>x \<in> set xs. P x"
  shows "mset xs \<subseteq># mset (filter P ys)"
proof -
  have "mset xs = filter_mset P (mset xs)"
    using assms(2) by (metis filter_True mset_filter)
  also have "\<dots> \<subseteq># filter_mset P (mset ys)"
    using assms(1) by (rule multiset_filter_mono)
  finally show ?thesis by simp
qed

section \<open>The regex pass\<close>

definition regex_fires :: "('r, 'a, 'q) engine \<Rightarrow> rule_definition \<Rightarrow> string \<Rightarrow> source_stream \<Rightarrow> bool" where
  "regex_fires e r text s \<longleftrightarrow>
     stream_matches (r_stream r) s \<and>
     (\<exists>p c. r_pattern r = Some p \<and> compile_bounded_regex (eng_regex e) p = Ok c \<and>
        eng_captures e c text \<noteq> None)"

lemma regex_pass_loop:
  assumes "\<forall>i \<in> set hits. i < length (si_regex_rules si) \<and>
      eng_captures e (rx_compiled (si_regex_rules si ! i)) text \<noteq> None"
    and "truncated = snd (sift_cap_text (f_text frame))"
  shows "\<exists>ro. regex_pass e clk si frame bucket text truncated hits out = Ok (out @ ro) \<and>
    list_all2 (draft_of e frame bucket)
      (filter (\<lambda>r. stream_matches (r_stream r) (f_stream frame))
        (map (\<lambda>i. rx_def (si_regex_rules si ! i)) hits)) ro"
  using assms(1)
proof (induction hits arbitrary: out)
  case (Cons i hits)
  let ?x = "si_regex_rules si ! i"
  from Cons.prems obtain caps where i: "i < length (si_regex_rules si)"
    and caps: "eng_captures e (rx_compiled ?x) text = Some caps" by auto
  show ?case
  proof (cases "stream_matches (r_stream (rx_def ?x)) (f_stream frame)")
    case False
    from Cons.IH [of out] Cons.prems False i show ?thesis by (auto simp: at_index_def)
  next
    case True
    obtain named injected where inj: "inject_full_match
        (redact_captures (r_redact (rx_def ?x)) (named_captures (eng_capture_names e (rx_compiled ?x)) caps))
        text (r_redact (rx_def ?x)) = (named, injected)"
      by fastforce
    obtain d where d: "build_draft e (clk (length out)) (rx_def ?x) frame bucket named injected truncated = Some d"
        "draft_of e frame bucket (rx_def ?x) d"
      using build_draft_Some [of e "clk (length out)" "rx_def ?x" frame bucket named injected]
        assms(2) by auto
    from Cons.IH [of "out @ [d]"] Cons.prems True i caps inj d show ?thesis
      by (auto simp: at_index_def push_draft_def)
  qed
qed simp

lemma filter_upt_nth: "map (\<lambda>i. f (xs ! i)) (filter (\<lambda>i. P (xs ! i)) [0 ..< length xs]) = map f (filter P xs)"
proof -
  have "filter P xs = filter P (map ((!) xs) [0 ..< length xs])" by (simp add: map_nth)
  then show ?thesis by (simp add: filter_map o_def del: map_nth)
qed

lemma regex_fires_compiled:
  assumes "r_pattern (rx_def x) = Some p" and "compile_bounded_regex (eng_regex e) p = Ok (rx_compiled x)"
  shows "regex_fires e (rx_def x) text s \<longleftrightarrow>
    stream_matches (r_stream (rx_def x)) s \<and> eng_captures e (rx_compiled x) text \<noteq> None"
  using assms by (auto simp: regex_fires_def)

lemma regex_hits:
  assumes c: "set_contract e" and h: "holds_rules e rules b"
    and q: "build_regex_set e (b_regex_rules b) = Ok (Some q)"
  shows "eng_set_matches e q text =
    filter (\<lambda>i. eng_captures e (rx_compiled (b_regex_rules b ! i)) text \<noteq> None)
      [0 ..< length (b_regex_rules b)]"
proof -
  let ?xs = "b_regex_rules b"
  let ?pats = "map (\<lambda>r. case r_pattern (rx_def r) of Some p \<Rightarrow> p | None \<Rightarrow> []) ?xs"
  from q obtain lim where "eng_regex_set e lim lim ?pats = Ok q"
    by (auto simp: build_regex_set_def compile_bounded_regex_set_def Let_def
        split: if_splits outcome.splits)
  moreover have "list_all2 (\<lambda>p r. compile_bounded_regex (eng_regex e) p = Ok r) ?pats (map rx_compiled ?xs)"
    using h by (fastforce simp: holds_rules_def list_all2_map1 list_all2_map2 list_all2_same)
  ultimately have "eng_set_matches e q text =
      filter (\<lambda>i. eng_captures e (map rx_compiled ?xs ! i) text \<noteq> None) [0 ..< length ?pats]"
    using c unfolding set_contract_def by blast
  also have "\<dots> = filter (\<lambda>i. eng_captures e (rx_compiled (?xs ! i)) text \<noteq> None) [0 ..< length ?xs]"
    by (auto intro!: filter_cong)
  finally show ?thesis .
qed

lemma regex_part:
  assumes c: "set_contract e" and h: "holds_rules e rules b"
    and q: "build_regex_set e (b_regex_rules b) = Ok (si_regex_set si)"
    and si: "si_regex_rules si = b_regex_rules b"
    and tx: "sift_cap_text (f_text frame) = (text, truncated)"
  shows "\<exists>ro. (case si_regex_set si of None \<Rightarrow> Ok out
      | Some q \<Rightarrow> regex_pass e clk si frame bucket text truncated (eng_set_matches e q text) out) =
      Ok (out @ ro) \<and>
    list_all2 (draft_of e frame bucket)
      (filter (\<lambda>r. r_kind r = Regex \<and> regex_fires e r text (f_stream frame)) rules) ro"
proof (cases "si_regex_set si")
  case None
  with q have "b_regex_rules b = []"
    by (auto simp: build_regex_set_def split: if_splits outcome.splits)
  with h have "filter (\<lambda>r. r_kind r = Regex) rules = []" by (simp add: holds_rules_def)
  then have "filter (\<lambda>r. r_kind r = Regex \<and> regex_fires e r text (f_stream frame)) rules = []"
    by (auto simp: filter_empty_conv)
  with None show ?thesis by simp
next
  case (Some qq)
  let ?xs = "b_regex_rules b"
  let ?P = "\<lambda>x. eng_captures e (rx_compiled x) text \<noteq> None"
  have hits: "eng_set_matches e qq text = filter (\<lambda>i. ?P (?xs ! i)) [0 ..< length ?xs]"
    using regex_hits [OF c h] q Some by simp
  have "\<exists>ro. regex_pass e clk si frame bucket text truncated (eng_set_matches e qq text) out = Ok (out @ ro) \<and>
      list_all2 (draft_of e frame bucket)
        (filter (\<lambda>r. stream_matches (r_stream r) (f_stream frame))
          (map (\<lambda>i. rx_def (si_regex_rules si ! i)) (eng_set_matches e qq text))) ro"
    by (rule regex_pass_loop) (auto simp: hits si tx)
  moreover have "filter (\<lambda>r. stream_matches (r_stream r) (f_stream frame))
        (map (\<lambda>i. rx_def (si_regex_rules si ! i)) (eng_set_matches e qq text)) =
      filter (\<lambda>r. regex_fires e r text (f_stream frame)) (map rx_def ?xs)"
  proof -
    have "map (\<lambda>i. rx_def (si_regex_rules si ! i)) (eng_set_matches e qq text) =
        map rx_def (filter ?P ?xs)"
      unfolding hits si by (rule filter_upt_nth)
    moreover have "filter (\<lambda>r. stream_matches (r_stream r) (f_stream frame)) (map rx_def (filter ?P ?xs)) =
        map rx_def (filter (\<lambda>x. regex_fires e (rx_def x) text (f_stream frame)) ?xs)"
      using h by (auto simp: filter_map o_def holds_rules_def regex_fires_compiled
          intro!: arg_cong [of _ _ "map rx_def"] filter_cong)
    ultimately show ?thesis by (simp add: filter_map o_def)
  qed
  moreover have "map rx_def ?xs = filter (\<lambda>r. r_kind r = Regex) rules"
    using h by (simp add: holds_rules_def)
  ultimately show ?thesis by (auto simp: Some conj_commute)
qed

text \<open>A built runtime's keyword table is the one of its rules.\<close>

lemma holds_rules_table:
  assumes "holds_rules e rules b"
  shows "map kr_def (b_keyword_rules b) = keyword_rules_of rules"
    "map kr_keywords (b_keyword_rules b) = keyword_lists rules" "[] \<notin> set (concat (keyword_lists rules))"
proof -
  show d: "map kr_def (b_keyword_rules b) = keyword_rules_of rules"
    using assms by (simp add: holds_rules_def keyword_rules_of_def)
  show l: "map kr_keywords (b_keyword_rules b) = keyword_lists rules"
  proof -
    have "kr_keywords k = (case r_keywords (kr_def k) of Some kws \<Rightarrow> sort kws | None \<Rightarrow> [])"
      if "k \<in> set (b_keyword_rules b)" for k
      using assms that by (fastforce simp: holds_rules_def)
    then show ?thesis unfolding keyword_lists_def d [symmetric] by simp
  qed
  show "[] \<notin> set (concat (keyword_lists rules))"
    unfolding l [symmetric] using assms by (fastforce simp: holds_rules_def)
qed

lemma credited_table:
  assumes "holds_rules e rules b" and "successive (concat (keyword_lists rules)) text 0 ms"
  shows "credited rules stream ms =
    foldl note_first []
      (filter (\<lambda>r. stream_matches (r_stream (kr_def (b_keyword_rules b ! r))) stream)
        (map (\<lambda>m. owners (keyword_lists rules) ! fst m) ms))"
proof -
  have "keyword_rules_of rules ! r = kr_def (b_keyword_rules b ! r)"
    if "r \<in> set (map (\<lambda>m. owners (keyword_lists rules) ! fst m) ms)" for r
  proof -
    from that obtain i s t where "(i, s, t) \<in> set ms" "r = owners (keyword_lists rules) ! i" by auto
    with successive_mem [OF assms(2)] owner_index [of i "keyword_lists rules"]
    have "r < length (keyword_lists rules)" by blast
    then have "r < length (b_keyword_rules b)"
      unfolding holds_rules_table(2) [OF assms(1), symmetric] by simp
    then show ?thesis unfolding holds_rules_table(1) [OF assms(1), symmetric] by simp
  qed
  then show ?thesis unfolding credited_def by (intro arg_cong [where f = "foldl note_first []"] filter_cong) simp_all
qed

lemma keyword_part:
  assumes c: "find_contract e" and h: "holds_rules e rules b"
    and ac: "build_keyword_ac e (b_kw_patterns b) = Ok (si_keyword_ac si)"
    and si: "si_keyword_rules si = b_keyword_rules b" "si_kw_pattern_to_rule si = b_kw_pattern_to_rule b"
    and tx: "sift_cap_text (f_text frame) = (text, truncated)"
  shows "\<exists>ko rs ms. (case si_keyword_ac si of None \<Rightarrow> Ok []
      | Some ac \<Rightarrow> keyword_pass e clk si frame bucket text truncated (eng_find_iter e ac text)
          (replicate (length (si_keyword_rules si)) False) []) = Ok ko \<and>
    distinct rs \<and> list_all2 (kw_hit e si frame bucket text) rs ko \<and>
    successive (concat (keyword_lists rules)) text 0 ms \<and> rs = credited rules (f_stream frame) ms"
proof (cases "si_keyword_ac si")
  case None
  have "b_kw_patterns b = concat (keyword_lists rules)"
    using h holds_rules_table(2) [OF h] by (simp add: holds_rules_def)
  with None ac have "concat (keyword_lists rules) = []"
    by (auto simp: build_keyword_ac_def split: if_splits outcome.splits)
  then have "successive (concat (keyword_lists rules)) text 0 []" by (simp only: successive.simps) simp
  with None show ?thesis by (intro exI [of _ "[]"]) (simp add: credited_def)
next
  case (Some a)
  let ?pats = "concat (keyword_lists rules)"
  let ?ms = "eng_find_iter e a text"
  note t = holds_rules_table [OF h]
  have p: "b_kw_patterns b = ?pats" "si_kw_pattern_to_rule si = owners (keyword_lists rules)"
    using h si(2) t(2) by (simp_all add: holds_rules_def)
  from ac Some have "eng_aho e ?pats = Ok a"
    by (auto simp: build_keyword_ac_def p(1) split: if_splits outcome.splits)
  with c t(3) have succ: "successive ?pats text 0 ?ms" by (simp add: find_contract_def)
  then have tab: "\<forall>(i, s, t) \<in> set ?ms. in_table si text i"
    using successive_mem [of ?pats "text" 0 ?ms] p(2) t(2) si(1)
    by (fastforce simp: in_table_def Let_def)
  let ?n = "length (si_keyword_rules si)"
  have "\<exists>ko rs'. keyword_pass e clk si frame bucket text truncated ?ms (replicate ?n False) [] = Ok ko \<and>
    distinct rs' \<and> list_all2 (kw_hit e si frame bucket text) rs' ko \<and>
    rs' = foldl note_first [] (filter (\<lambda>r. stream_matches (r_stream (kr_def (si_keyword_rules si ! r))) (f_stream frame))
      (map (\<lambda>m. si_kw_pattern_to_rule si ! fst m) ?ms))"
    by (rule keyword_pass_loop [OF tab]) (simp_all add: tx)
  then obtain ko where "keyword_pass e clk si frame bucket text truncated ?ms (replicate ?n False) [] = Ok ko"
    "distinct (credited rules (f_stream frame) ?ms)"
    "list_all2 (kw_hit e si frame bucket text) (credited rules (f_stream frame) ?ms) ko"
    unfolding credited_table [OF h succ] si(1) p(2) by blast
  with Some succ show ?thesis by (intro exI [of _ ko] exI [of _ "credited rules (f_stream frame) ?ms"] exI [of _ ?ms]) simp
qed

lemma keyword_rules_fire:
  assumes h: "holds_rules e rules b" and si: "si_keyword_rules si = b_keyword_rules b"
    and rs: "distinct rs" "list_all2 (kw_hit e si frame bucket text) rs ko"
  defines "ks \<equiv> map ((!) (keyword_rules_of rules)) rs"
  shows "mset ks \<subseteq># mset (filter (\<lambda>r. r_kind r = Keyword \<and> keyword_fires r text (f_stream frame)) rules)"
    "list_all2 (draft_of e frame bucket) ks ko"
proof -
  have less: "\<forall>r \<in> set rs. r < length (si_keyword_rules si)"
    using rs(2) by (auto simp: list_all2_conv_all_nth kw_hit_def in_set_conv_nth)
  have defs: "map kr_def (si_keyword_rules si) = keyword_rules_of rules"
    using holds_rules_table(1) [OF h] si by simp
  have ks: "ks = map (\<lambda>r. kr_def (si_keyword_rules si ! r)) rs"
    unfolding ks_def defs [symmetric] using less by simp
  have "\<forall>k \<in> set ks. keyword_fires k text (f_stream frame)"
  proof
    fix k
    assume "k \<in> set ks"
    then obtain i where i: "i < length rs" "k = kr_def (si_keyword_rules si ! (rs ! i))"
      by (auto simp: ks in_set_conv_nth)
    obtain r d where r: "k = kr_def (si_keyword_rules si ! r)" "kw_hit e si frame bucket text r d"
      using that [OF i(2) list_all2_nthD [OF rs(2) i(1)]] .
    then have m: "si_keyword_rules si ! r \<in> set (b_keyword_rules b)"
      using si by (auto simp: kw_hit_def)
    with h obtain kws where kws: "r_keywords k = Some kws" "kr_keywords (si_keyword_rules si ! r) = sort kws"
      using r(1) by (auto simp: holds_rules_def)
    from r(2) obtain kw p where "kw \<in> set (kr_keywords (si_keyword_rules si ! r))" "occurs_at kw p text"
      by (auto simp: kw_hit_def Let_def)
    with kws have "\<exists>kw \<in> set kws. \<exists>p. occurs_at kw p text" by (metis set_sort)
    with r kws show "keyword_fires k text (f_stream frame)"
      by (simp add: kw_hit_def keyword_fires_def Let_def)
  qed
  with kw_hits_submset [OF rs] show "mset ks \<subseteq>#
      mset (filter (\<lambda>r. r_kind r = Keyword \<and> keyword_fires r text (f_stream frame)) rules)"
    using submset_filter [of ks "keyword_rules_of rules" "\<lambda>r. keyword_fires r text (f_stream frame)"]
    unfolding ks [symmetric] defs by (simp add: conj_commute keyword_rules_of_def)
  show "list_all2 (draft_of e frame bucket) ks ko"
    using rs(2) by (auto simp: ks list_all2_map1 kw_hit_def Let_def elim: list_all2_mono)
qed

lemma credited_owner:
  "r \<in> set (credited rules stream ms) \<Longrightarrow> \<exists>m \<in> set ms. r = owners (keyword_lists rules) ! fst m"
  by (auto simp: credited_def set_note_first)

lemma isolated_credited:
  assumes "successive (concat (keyword_lists rules)) text 0 ms" and "[] \<notin> set (concat (keyword_lists rules))"
    and "isolated (concat (keyword_lists rules)) text i s"
    and "stream_matches (r_stream (keyword_rules_of rules ! (owners (keyword_lists rules) ! i))) stream"
  shows "owners (keyword_lists rules) ! i \<in> set (credited rules stream ms)"
  using isolated_reported [OF assms(1,3) le0 assms(2)] assms(4)
  by (force simp: credited_def set_note_first)

section \<open>A concrete engine\<close>

text \<open>
  An engine with the documented behaviour: a pattern is a literal that must start the text, and
  its one group \<open>secret\<close> captures the rest; keywords are searched naively.
\<close>

definition literal_captures :: "string \<Rightarrow> string \<Rightarrow> (string \<Rightarrow> string option) option" where
  "literal_captures p text =
     (if starts_with p text then Some [''secret'' \<mapsto> drop (length p) text] else None)"

text \<open>The first pattern that ends at \<open>t\<close> and starts at or after \<open>from\<close>.\<close>

definition ends_here :: "string list \<Rightarrow> string \<Rightarrow> nat \<Rightarrow> nat \<Rightarrow> nat option" where
  "ends_here pats text from t =
     find (\<lambda>i. from + length (pats ! i) \<le> t \<and> occurs_at (pats ! i) (t - length (pats ! i)) text)
       [0 ..< length pats]"

function naive_find :: "string list \<Rightarrow> string \<Rightarrow> nat \<Rightarrow> nat \<Rightarrow> (nat \<times> nat \<times> nat) list" where
  "naive_find pats text from t =
     (if length text < t then []
      else case ends_here pats text from t of
        None \<Rightarrow> naive_find pats text from (Suc t)
      | Some i \<Rightarrow> (i, t - length (pats ! i), t) # naive_find pats text t (Suc t))"
  by pat_completeness auto
termination
  by (relation "measure (\<lambda>(pats, text, from, t). Suc (length text) - t)") auto

declare naive_find.simps [simp del]

lemma ends_here_Some:
  assumes "ends_here pats text from t = Some i"
  shows "i < length pats" "from + length (pats ! i) \<le> t" "occurs_at (pats ! i) (t - length (pats ! i)) text"
  using assms by (auto simp: ends_here_def find_Some_iff)

lemma ends_here_None:
  assumes "ends_here pats text from t = None" and "i < length pats"
    and "from \<le> s" and "occurs_at (pats ! i) s text"
  shows "s + length (pats ! i) \<noteq> t"
proof
  assume t: "s + length (pats ! i) = t"
  have "i \<in> set [0 ..< length pats]" using assms(2) by simp
  moreover have "from + length (pats ! i) \<le> t" "t - length (pats ! i) = s" using t assms(3) by auto
  ultimately show False using assms(1,4) unfolding ends_here_def find_None_iff by metis
qed

lemma naive_find_successive:
  assumes "[] \<notin> set pats" and "from < t"
    and "\<forall>i < length pats. \<forall>s. from \<le> s \<and> occurs_at (pats ! i) s text \<longrightarrow> t \<le> s + length (pats ! i)"
  shows "successive pats text from (naive_find pats text from t)"
  using assms
proof (induction pats "text" "from" t rule: naive_find.induct)
  case (1 pats line "from" t)
  show ?case
  proof (cases "length line < t")
    case True
    with "1.prems"(3) have "\<forall>j < length pats. \<forall>s. from \<le> s \<longrightarrow> \<not> occurs_at (pats ! j) s line"
      by (fastforce simp: occurs_at_def)
    with True show ?thesis by (simp add: naive_find.simps [of pats line "from" t])
  next
    case le: False
    show ?thesis
    proof (cases "ends_here pats line from t")
      case None
      have "\<forall>i < length pats. \<forall>s. from \<le> s \<and> occurs_at (pats ! i) s line \<longrightarrow> Suc t \<le> s + length (pats ! i)"
        using "1.prems"(3) ends_here_None [OF None] by (metis le_neq_implies_less Suc_leI)
      from "1.IH"(1) [OF le None "1.prems"(1) _ this] "1.prems"(2) le None show ?thesis
        by (simp add: naive_find.simps [of pats line "from" t])
    next
      case (Some i)
      note i = ends_here_Some [OF Some]
      have pos: "0 < length (pats ! j)" if "j < length pats" for j
        using "1.prems"(1) that by (metis length_greater_0_conv nth_mem)
      have "\<forall>j < length pats. \<forall>s. t \<le> s \<and> occurs_at (pats ! j) s line \<longrightarrow> Suc t \<le> s + length (pats ! j)"
        using pos by (metis Suc_leI add_le_less_mono add.right_neutral)
      from "1.IH"(2) [OF le Some "1.prems"(1) _ this] "1.prems"(3) i le Some show ?thesis
        by (auto simp: naive_find.simps [of pats line "from" t])
    qed
  qed
qed

definition sample_engine :: "(string, string list, string list) engine" where
  "sample_engine =
     \<lparr>eng_regex = (\<lambda>_ _ p. Ok p), eng_captures = literal_captures,
      eng_capture_names = (\<lambda>_. [''secret'']),
      eng_regex_set = (\<lambda>_ _ pats. Ok pats),
      eng_set_matches = (\<lambda>pats text. filter (\<lambda>i. literal_captures (pats ! i) text \<noteq> None) [0 ..< length pats]),
      eng_aho = Ok, eng_find_iter = (\<lambda>pats text. naive_find pats text 0 1),
      eng_uuid_v5 = (\<lambda>_ name. name), eng_lowercase = lower\<rparr>"

lemma sample_set_contract: "set_contract sample_engine"
proof -
  have same: "rs = pats" if "list_all2 (\<lambda>p r. compile_bounded_regex (eng_regex sample_engine) p = Ok r) pats rs"
    for pats rs
    using that
    by (induction pats rs rule: list_all2_induct) (simp_all add: sample_engine_def compile_bounded_regex_def)
  show ?thesis
    unfolding set_contract_def
  proof (intro allI impI, elim conjE)
    fix lim dlim pats q rs line
    assume q: "eng_regex_set sample_engine lim dlim pats = Ok q"
      and rs: "list_all2 (\<lambda>p r. compile_bounded_regex (eng_regex sample_engine) p = Ok r) pats rs"
    from q same [OF rs] show "eng_set_matches sample_engine q line =
        filter (\<lambda>i. eng_captures sample_engine (rs ! i) line \<noteq> None) [0 ..< length pats]"
      by (simp add: sample_engine_def)
  qed
qed

lemma sample_find_contract: "find_contract sample_engine"
proof -
  have "successive pats line 0 (naive_find pats line 0 1)" if ne: "[] \<notin> set pats" for pats line
  proof (rule naive_find_successive [OF ne])
    show "\<forall>i < length pats. \<forall>s. 0 \<le> s \<and> occurs_at (pats ! i) s line \<longrightarrow> 1 \<le> s + length (pats ! i)"
      using ne by (metis One_nat_def Suc_leI length_greater_0_conv nth_mem trans_le_add2)
  qed simp
  then show ?thesis by (simp add: find_contract_def sample_engine_def)
qed

section \<open>Properties\<close>

text \<open>
  C15. Evaluating a frame never panics, and its drafts are determined by the rules and the scanner's
  report. The drafts of the regex pass are, in rule order, one for every active regex rule whose
  stream filter admits the frame and whose pattern matches the capped text (the combined pattern set
  and the per-rule expressions agree). The drafts before them are one for every keyword rule that
  admits the stream and is credited with one of the scanner's successive, non-overlapping matches, in
  the order of the first such match. So they belong to pairwise different keyword rules, each with a
  keyword that occurs in the text; the converse fails where matches overlap or keywords are shared,
  for a match is credited to one rule, but a keyword occurrence that no other occurrence of a keyword
  overlaps always gives its rule a draft. Every draft has the rule's severity and kind, names the
  rule and points at the frame.
\<close>

theorem evaluate_exact:
  assumes "find_contract e" and "set_contract e" and "build_inner e rules = Ok si"
  shows "\<exists>ko ro ms.
    sift_evaluate e clk si frame bucket = Ok (ko @ ro) \<and>
    successive (concat (keyword_lists rules)) (fst (sift_cap_text (f_text frame))) 0 ms \<and>
    list_all2 (draft_of e frame bucket)
      (map ((!) (keyword_rules_of rules)) (credited rules (f_stream frame) ms)) ko \<and>
    mset (map ((!) (keyword_rules_of rules)) (credited rules (f_stream frame) ms)) \<subseteq>#
      mset (filter (\<lambda>r. r_kind r = Keyword \<and>
        keyword_fires r (fst (sift_cap_text (f_text frame))) (f_stream frame)) rules) \<and>
    (\<forall>i s. isolated (concat (keyword_lists rules)) (fst (sift_cap_text (f_text frame))) i s \<and>
       stream_matches (r_stream (keyword_rules_of rules ! (owners (keyword_lists rules) ! i))) (f_stream frame) \<longrightarrow>
       owners (keyword_lists rules) ! i \<in> set (credited rules (f_stream frame) ms)) \<and>
    list_all2 (draft_of e frame bucket)
      (filter (\<lambda>r. r_kind r = Regex \<and>
        regex_fires e r (fst (sift_cap_text (f_text frame))) (f_stream frame)) rules) ro"
proof -
  obtain b where b: "holds_rules e rules b"
    "si_keyword_rules si = b_keyword_rules b" "si_kw_pattern_to_rule si = b_kw_pattern_to_rule b"
    "si_regex_rules si = b_regex_rules b"
    "build_keyword_ac e (b_kw_patterns b) = Ok (si_keyword_ac si)"
    "build_regex_set e (b_regex_rules b) = Ok (si_regex_set si)"
    using build_inner_holds [OF assms(3)] by blast
  obtain line truncated where tx: "sift_cap_text (f_text frame) = (line, truncated)" by fastforce
  then have line: "fst (sift_cap_text (f_text frame)) = line" by simp
  from keyword_part [OF assms(1) b(1,5,2,3) tx, of clk bucket] obtain ko ms where
    ko: "(case si_keyword_ac si of None \<Rightarrow> Ok []
      | Some ac \<Rightarrow> keyword_pass e clk si frame bucket line truncated (eng_find_iter e ac line)
          (replicate (length (si_keyword_rules si)) False) []) = Ok ko"
      "distinct (credited rules (f_stream frame) ms)"
      "list_all2 (kw_hit e si frame bucket line) (credited rules (f_stream frame) ms) ko"
      "successive (concat (keyword_lists rules)) line 0 ms" by blast
  from regex_part [OF assms(2) b(1,6,4) tx, of ko clk bucket] obtain ro where
    ro: "(case si_regex_set si of None \<Rightarrow> Ok ko
      | Some q \<Rightarrow> regex_pass e clk si frame bucket line truncated (eng_set_matches e q line) ko) =
      Ok (ko @ ro)"
      "list_all2 (draft_of e frame bucket)
        (filter (\<lambda>r. r_kind r = Regex \<and> regex_fires e r line (f_stream frame)) rules) ro" by blast
  have "sift_evaluate e clk si frame bucket = Ok (ko @ ro)"
    using ko(1) ro(1) by (simp add: sift_evaluate_def tx)
  then show ?thesis
    unfolding line
    using ro(2) ko(4) keyword_rules_fire [OF b(1,2) ko(2,3)] isolated_credited [OF ko(4) holds_rules_table(3) [OF b(1)]]
    by blast
qed

definition sample_rule :: "string \<Rightarrow> rule_type \<Rightarrow> string list option \<Rightarrow> string option \<Rightarrow> string list \<Rightarrow> rule_definition" where
  "sample_rule i k kws pat redact =
     \<lparr>r_id = i, r_version = 1, r_kind = k, r_status = Active, r_severity = Low,
      r_event_kind = ''note'', r_stream = None, r_description = None, r_pattern = pat,
      r_keywords = kws, r_captures = [''secret''], r_summary_template = ''at ${line}'', r_tags = [],
      r_rate_limit_per_min = None, r_redact = redact,
      r_context_hint = \<lparr>ch_before_lines = 0, ch_after_lines = 0\<rparr>, r_examples = []\<rparr>"

lemmas rule_bounds = MAX_RULE_ID_BYTES_def MAX_PATTERN_BYTES_def MAX_TEMPLATE_BYTES_def MAX_TAGS_def
  MAX_EXAMPLES_def MAX_CONTEXT_LINES_def

lemma sample_template: "validate_template_against_captures i ''at ${line}'' [''secret''] = Ok ()"
  by (simp add: validate_template_against_captures_def validate_template.simps opens_placeholder_def
      is_reserved_match_key_def RESERVED_MATCH_KEYS_def)

lemma sample_rule_valid:
  assumes "i \<noteq> []" "length i \<le> 128"
  shows "kws \<noteq> [] \<Longrightarrow> [] \<notin> set kws \<Longrightarrow>
      validate_rule build low (sample_rule i Keyword (Some kws) None redact) = Ok ()"
    "pat = ''pw='' \<Longrightarrow> build = eng_regex sample_engine \<Longrightarrow>
      validate_rule build low (sample_rule i Regex None (Some pat) redact) = Ok ()"
  using assms sample_template [of i]
  by (simp_all add: validate_rule_def sample_rule_def validate_body_def validate_tail_def Let_def
      rule_bounds check_forbidden_regex_constructs_def lookarounds_def compile_bounded_regex_def
      sample_engine_def)

lemma sample_rule_sel [simp]:
  "r_id (sample_rule i k kws pat redact) = i" "r_kind (sample_rule i k kws pat redact) = k"
  "r_status (sample_rule i k kws pat redact) = Active" "r_keywords (sample_rule i k kws pat redact) = kws"
  "r_pattern (sample_rule i k kws pat redact) = pat" "r_redact (sample_rule i k kws pat redact) = redact"
  "r_stream (sample_rule i k kws pat redact) = None" 
  by (simp_all add: sample_rule_def)

definition sample_rules :: "rule_definition list" where
  "sample_rules = [sample_rule ''k'' Keyword (Some [''err'']) None [],
     sample_rule ''x'' Regex None (Some ''pw='') [''secret'']]"

lemma sample_engine_sel [simp]:
  "eng_regex sample_engine l d p = Ok p" "eng_regex_set sample_engine l d pats = Ok pats"
  "eng_aho sample_engine ps = Ok ps"
  by (simp_all add: sample_engine_def)

lemma sample_build: "\<exists>si. build_inner sample_engine sample_rules = Ok si"
  by (simp add: build_inner_def sample_rules_def add_rule_def sample_rule_valid add_keyword_rule_def
      add_regex_rule_def compile_bounded_regex_def build_keyword_ac_def build_regex_set_def
      builder_new_def compile_bounded_regex_set_def Let_def)


lemma submset_single: "mset xs \<subseteq># {#x#} \<Longrightarrow> xs \<noteq> [] \<Longrightarrow> xs = [x]"
  by (cases xs) (use size_mset_mono [of "mset xs" "{#x#}"] in \<open>auto dest: mset_subset_eqD\<close>)

lemma sample_isolated: "isolated [''err''] ''pw=err'' 0 3"
proof -
  have "s = 3" if "occurs_at ''err'' s ''pw=err''" for s
  proof -
    from that have "s \<le> 3" by (simp add: occurs_at_def)
    then have "s = 0 \<or> s = 1 \<or> s = 2 \<or> s = 3" by linarith
    with that show ?thesis by (auto simp: occurs_at_def)
  qed
  then show ?thesis by (auto simp: isolated_def occurs_at_def)
qed

lemma sample_tables:
  "keyword_rules_of sample_rules = [sample_rule ''k'' Keyword (Some [''err'']) None []]"
  "keyword_lists sample_rules = [[''err'']]"
  by (simp_all add: keyword_rules_of_def keyword_lists_def sample_rules_def)

theorem evaluate_exact_witness:
  "find_contract sample_engine \<and> set_contract sample_engine \<and>
   (\<exists>si. build_inner sample_engine sample_rules = Ok si \<and>
     (\<exists>out. sift_evaluate sample_engine (\<lambda>_. 0) si (sample_frame ''f'' ''pw=err'') (BucketId ''b'') = Ok out \<and>
       map (\<lambda>d. map_option rr_registry_id (d_rule d)) out = [Some (Some ''k''), Some (Some ''x'')]))"
proof -
  obtain si where si: "build_inner sample_engine sample_rules = Ok si" using sample_build by blast
  let ?f = "sample_frame ''f'' ''pw=err''"
  let ?k = "sample_rule ''k'' Keyword (Some [''err'']) None []"
  let ?x = "sample_rule ''x'' Regex None (Some ''pw='') [''secret'']"
  have f: "fst (sift_cap_text (f_text ?f)) = ''pw=err''" "f_stream ?f = Stdout"
    by (simp_all add: sample_frame_def sift_cap_text_def MAX_SIFT_BYTES_def)
  have own: "owners [[''err'']] ! 0 = 0" by (simp add: owners_def)
  obtain ko ro ms where out: "sift_evaluate sample_engine (\<lambda>_. 0) si ?f (BucketId ''b'') = Ok (ko @ ro)"
    "list_all2 (draft_of sample_engine ?f (BucketId ''b'')) (map ((!) [?k]) (credited sample_rules Stdout ms)) ko"
    "mset (map ((!) [?k]) (credited sample_rules Stdout ms)) \<subseteq>#
      mset (filter (\<lambda>r. r_kind r = Keyword \<and> keyword_fires r ''pw=err'' Stdout) sample_rules)"
    "0 \<in> set (credited sample_rules Stdout ms)"
    "list_all2 (draft_of sample_engine ?f (BucketId ''b''))
      (filter (\<lambda>r. r_kind r = Regex \<and> regex_fires sample_engine r ''pw=err'' Stdout) sample_rules) ro"
    using evaluate_exact [OF sample_find_contract sample_set_contract si, of "\<lambda>_. 0" ?f "BucketId ''b''"]
      sample_isolated own unfolding f sample_tables by (fastforce simp: stream_matches_def)
  have "mset (map ((!) [?k]) (credited sample_rules Stdout ms)) \<subseteq># {#?k#}"
    using out(3) by (simp add: sample_rules_def split: if_splits)
  then have "map ((!) [?k]) (credited sample_rules Stdout ms) = [?k]"
    using out(4) by (intro submset_single) auto
  moreover have "regex_fires sample_engine ?x ''pw=err'' Stdout"
    by (simp add: regex_fires_def stream_matches_def compile_bounded_regex_def sample_engine_def literal_captures_def
        starts_with_def)
  then have "filter (\<lambda>r. r_kind r = Regex \<and> regex_fires sample_engine r ''pw=err'' Stdout) sample_rules = [?x]"
    by (simp add: sample_rules_def)
  ultimately have "map (\<lambda>d. map_option rr_registry_id (d_rule d)) (ko @ ro) = [Some (Some ''k''), Some (Some ''x'')]"
    using out(2,5) by (auto simp: list_all2_Cons1 draft_of_def)
  with out(1) have "\<exists>out. sift_evaluate sample_engine (\<lambda>_. 0) si ?f (BucketId ''b'') = Ok out \<and>
      map (\<lambda>d. map_option rr_registry_id (d_rule d)) out = [Some (Some ''k''), Some (Some ''x'')]"
    by (intro exI [of _ "ko @ ro"]) (rule conjI)
  with si sample_find_contract sample_set_contract show ?thesis by (intro conjI exI [of _ si])
qed







section \<open>Redaction\<close>

text \<open>Two matches that differ only in the values of redacted groups.\<close>

definition same_but :: "string list \<Rightarrow> (string \<Rightarrow> string option) \<Rightarrow> (string \<Rightarrow> string option) \<Rightarrow> bool" where
  "same_but redact c c' \<longleftrightarrow>
     (\<forall>n. (c n = None) = (c' n = None)) \<and> (\<forall>n. n \<notin> set redact \<longrightarrow> c n = c' n)"

definition alike :: "string list \<Rightarrow> captures \<Rightarrow> captures \<Rightarrow> bool" where
  "alike redact n n' \<longleftrightarrow>
     map fst n = map fst n' \<and> distinct (map fst n) \<and>
     (\<forall>k. k \<notin> set redact \<longrightarrow> map_of n k = map_of n' k)"

lemma alike_update:
  "alike redact n n' \<Longrightarrow> v = v' \<or> k \<in> set redact \<Longrightarrow>
   alike redact (AList.update k v n) (AList.update k v' n')"
  by (auto simp: alike_def update_keys update_conv' distinct_update)

lemma named_captures_alike:
  assumes "same_but redact c c'"
  shows "alike redact (named_captures names c) (named_captures names c')"
proof -
  have step: "alike redact n n' \<Longrightarrow>
    alike redact
      (foldl (\<lambda>named name. case c name of Some m \<Rightarrow> AList.update name m named | None \<Rightarrow> named) n names)
      (foldl (\<lambda>named name. case c' name of Some m \<Rightarrow> AList.update name m named | None \<Rightarrow> named) n' names)"
    for n n'
  proof (induction names arbitrary: n n')
    case (Cons k names)
    from assms have k: "(c k = None) = (c' k = None)" "k \<notin> set redact \<Longrightarrow> c k = c' k"
      by (auto simp: same_but_def)
    show ?case
    proof (cases "c k")
      case None
      with Cons k show ?thesis by simp
    next
      case (Some v)
      with k obtain v' where v': "c' k = Some v'" "v = v' \<or> k \<in> set redact" by (cases "c' k") auto
      with Some Cons.IH [OF alike_update [OF Cons.prems v'(2)]] show ?thesis by simp
    qed
  qed simp
  show ?thesis unfolding named_captures_def by (rule step) (simp add: alike_def)
qed

lemma redact_captures_map:
  "map_of (redact_captures rs n) k =
     (if k \<in> set rs \<and> map_of n k \<noteq> None then Some REDACTED else map_of n k)"
  unfolding redact_captures_def
  by (induction rs arbitrary: n) (auto simp: update_conv')

lemma redact_captures_keys: "map fst (redact_captures rs n) = map fst n"
proof -
  have "map fst (foldl (\<lambda>n r. if map_of n r \<noteq> None then AList.update r REDACTED n else n) n rs) = map fst n"
    by (induction rs arbitrary: n) (auto simp: update_keys map_of_eq_None_iff)
  then show ?thesis by (simp add: redact_captures_def)
qed

lemma alist_eqI:
  "map fst xs = map fst ys \<Longrightarrow> distinct (map fst xs) \<Longrightarrow> map_of xs = map_of ys \<Longrightarrow> xs = ys"
proof (induction xs arbitrary: ys)
  case (Cons x xs)
  then obtain y ys' where ys: "ys = y # ys'" "fst x = fst y" by (cases ys) auto
  from Cons.prems(3) ys have "snd x = snd y"
    by (cases x; cases y) (auto dest: fun_cong [of _ _ "fst y"])
  moreover have "map_of xs k = map_of ys' k" for k
  proof (cases "k = fst x")
    case True
    with Cons.prems(1,2) ys show ?thesis
      by (metis distinct.simps(2) list.inject list.simps(9) map_of_eq_None_iff set_map)
  next
    case False
    with Cons.prems(3) ys show ?thesis
      by (cases x; cases y) (auto dest: fun_cong [of _ _ k])
  qed
  then have "xs = ys'" using Cons.IH [of ys'] Cons.prems ys by auto
  ultimately show ?case using ys by (simp add: prod_eq_iff)
qed simp

lemma redacted_equal:
  assumes "same_but redact c c'"
  shows "redact_captures redact (named_captures names c) = redact_captures redact (named_captures names c')"
proof -
  note a = named_captures_alike [OF assms, of names]
  have "(map_of (named_captures names c) k = None) = (map_of (named_captures names c') k = None)" for k
    using a by (metis alike_def map_of_eq_None_iff set_map)
  then have "map_of (redact_captures redact (named_captures names c)) =
      map_of (redact_captures redact (named_captures names c'))"
    using a by (auto simp: redact_captures_map alike_def fun_eq_iff)
  with a show ?thesis
    by (intro alist_eqI) (auto simp: redact_captures_keys alike_def)
qed

definition match_draft ::
  "('r, 'a, 'q) engine \<Rightarrow> timestamp \<Rightarrow> rule_definition \<Rightarrow> 'r \<Rightarrow> source_frame \<Rightarrow> bucket_id \<Rightarrow> string \<Rightarrow>
     nat \<Rightarrow> (string \<Rightarrow> string option) \<Rightarrow> event_draft option" where
  "match_draft e now r c frame bucket line truncated caps =
     (case inject_full_match (redact_captures (r_redact r) (named_captures (eng_capture_names e c) caps))
             line (r_redact r) of
        (named, injected) \<Rightarrow> build_draft e now r frame bucket named injected truncated)"

lemma evaluate_single_regex:
  assumes c: "set_contract e" and b: "build_inner e [r] = Ok si" and k: "r_kind r = Regex"
  obtains p c where "r_pattern r = Some p" "compile_bounded_regex (eng_regex e) p = Ok c"
    "\<And>frame. sift_evaluate e clk si frame bucket =
      (case sift_cap_text (f_text frame) of (line, n) \<Rightarrow>
        if stream_matches (r_stream r) (f_stream frame) then
          (case eng_captures e c line of None \<Rightarrow> Ok []
           | Some caps \<Rightarrow> Ok (push_draft (match_draft e (clk 0) r c frame bucket line n caps) []))
        else Ok [])"
proof -
  obtain bb where h: "holds_rules e [r] bb"
    "si_keyword_rules si = b_keyword_rules bb" "si_kw_pattern_to_rule si = b_kw_pattern_to_rule bb"
    "si_regex_rules si = b_regex_rules bb"
    "build_keyword_ac e (b_kw_patterns bb) = Ok (si_keyword_ac si)"
    "build_regex_set e (b_regex_rules bb) = Ok (si_regex_set si)"
    using build_inner_holds [OF b] by blast
  from h(1) k have "map rx_def (b_regex_rules bb) = [r]" "b_kw_patterns bb = []"
    by (auto simp: holds_rules_def)
  then obtain x where x: "b_regex_rules bb = [x]" "rx_def x = r" and ac: "si_keyword_ac si = None"
    using h(5) by (auto simp: build_keyword_ac_def)
  from h(1) x obtain p where p: "r_pattern r = Some p"
    "compile_bounded_regex (eng_regex e) p = Ok (rx_compiled x)"
    by (auto simp: holds_rules_def)
  have "si_regex_set si \<noteq> None"
  proof
    assume "si_regex_set si = None"
    with h(6) x show False by (auto simp: build_regex_set_def split: outcome.splits)
  qed
  then obtain q where q: "si_regex_set si = Some q" by blast
  have hits: "eng_set_matches e q line = (if eng_captures e (rx_compiled x) line = None then [] else [0])"
    for line
    using regex_hits [OF c h(1)] h(6) q x(1) by simp
  show ?thesis
  proof (rule that [OF p])
    show "sift_evaluate e clk si frame bucket =
      (case sift_cap_text (f_text frame) of (line, n) \<Rightarrow>
        if stream_matches (r_stream r) (f_stream frame) then
          (case eng_captures e (rx_compiled x) line of None \<Rightarrow> Ok []
           | Some caps \<Rightarrow> Ok (push_draft (match_draft e (clk 0) r (rx_compiled x) frame bucket line n caps) []))
        else Ok [])" for frame
      by (auto simp: sift_evaluate_def ac q hits at_index_def h(4) x match_draft_def split: prod.splits option.splits)
  qed
qed

lemma build_draft_frame:
  assumes "f_frame_id f = f_frame_id g" "f_probe_id f = f_probe_id g" "f_stream f = f_stream g"
    "f_line f = f_line g" "f_byte_offset f = f_byte_offset g"
  shows "build_draft e now r f bucket caps injected n = build_draft e now r g bucket caps injected n"
  using assms by (simp add: build_draft_def)

text \<open>
  C16. A rule that redacts a group reveals nothing of it: if two lines are matched by the rule's
  pattern with the same groups taking part and the same values for every group that is not
  redacted, then the drafts for the two lines are equal, summary and stored captures included,
  whatever the redacted values and the rest of the line are.
\<close>

theorem redaction_hides_secret:
  assumes "set_contract e" and "build_inner e [r] = Ok si" and "r_kind r = Regex" and "r_redact r \<noteq> []"
    and "r_pattern r = Some p" and "compile_bounded_regex (eng_regex e) p = Ok c"
    and "sift_cap_text (f_text f) = (line, n)" and "sift_cap_text other = (line', n)"
    and "eng_captures e c line = Some caps" and "eng_captures e c line' = Some caps'"
    and "same_but (r_redact r) caps caps'"
  shows "sift_evaluate e clk si (f\<lparr>f_text := other\<rparr>) bucket = sift_evaluate e clk si f bucket"
proof -
  obtain p' c' where p': "r_pattern r = Some p'" "compile_bounded_regex (eng_regex e) p' = Ok c'"
    "\<And>frame. sift_evaluate e clk si frame bucket =
      (case sift_cap_text (f_text frame) of (line, n) \<Rightarrow>
        if stream_matches (r_stream r) (f_stream frame) then
          (case eng_captures e c' line of None \<Rightarrow> Ok []
           | Some caps \<Rightarrow> Ok (push_draft (match_draft e (clk 0) r c' frame bucket line n caps) []))
        else Ok [])"
    by (rule evaluate_single_regex [OF assms(1-3), of clk bucket]) (rule that)
  have c': "c' = c" using p'(1,2) assms(5,6) by simp
  have "inject_full_match named line (r_redact r) = inject_full_match named line' (r_redact r)" for named
    using assms(4) by (simp add: inject_full_match_def)
  then have "match_draft e (clk 0) r c (f\<lparr>f_text := other\<rparr>) bucket line' n caps' =
      match_draft e (clk 0) r c f bucket line n caps"
    unfolding match_draft_def redacted_equal [OF assms(11), of "eng_capture_names e c"]
    by (simp add: build_draft_frame [of "f\<lparr>f_text := other\<rparr>" f] split: prod.splits)
  with assms(7-10) c' show ?thesis by (simp add: p'(3))
qed

theorem redaction_hides_secret_witness:
  "\<exists>si. build_inner sample_engine [sample_rule ''x'' Regex None (Some ''pw='') [''secret'']] = Ok si \<and>
     sift_evaluate sample_engine (\<lambda>_. 0) si ((sample_frame ''f'' ''pw=1'')\<lparr>f_text := ''pw=22''\<rparr>) (BucketId ''b'') =
     sift_evaluate sample_engine (\<lambda>_. 0) si (sample_frame ''f'' ''pw=1'') (BucketId ''b'')"
proof -
  let ?r = "sample_rule ''x'' Regex None (Some ''pw='') [''secret'']"
  have "\<exists>si. build_inner sample_engine [?r] = Ok si"
    by (simp add: build_inner_def add_rule_def sample_rule_valid add_regex_rule_def
        compile_bounded_regex_def build_keyword_ac_def build_regex_set_def
        builder_new_def compile_bounded_regex_set_def Let_def)
  then obtain si where si: "build_inner sample_engine [?r] = Ok si" by blast
  have "sift_evaluate sample_engine (\<lambda>_. 0) si ((sample_frame ''f'' ''pw=1'')\<lparr>f_text := ''pw=22''\<rparr>) (BucketId ''b'') =
     sift_evaluate sample_engine (\<lambda>_. 0) si (sample_frame ''f'' ''pw=1'') (BucketId ''b'')"
    by (rule redaction_hides_secret [OF sample_set_contract si, where p = "''pw=''" and c = "''pw=''" and n = 0
          and line = "''pw=1''" and line' = "''pw=22''" and caps = "[''secret'' \<mapsto> ''1'']"
          and caps' = "[''secret'' \<mapsto> ''22'']"])
       (simp_all add: compile_bounded_regex_def sift_cap_text_def MAX_SIFT_BYTES_def sample_frame_def
          sample_engine_def literal_captures_def same_but_def)
  with si show ?thesis by blast
qed

section \<open>Shadowed keywords\<close>

lemma prefix_shadows:
  assumes "successive pats line from ms" and "(i, s, t) \<in> set ms"
    and "j < length pats" and "pats ! i = pats ! j @ x" and "x \<noteq> []"
  shows False
proof -
  note m = successive_mem [OF assms(1,2)]
  then have "occurs_at (pats ! j) s line"
    using assms(4) by (auto simp: occurs_at_def) (metis append_eq_conv_conj append_assoc append_take_drop_id)
  with m assms(3-5) show False by fastforce
qed


lemma shadowed_rule_not_hit:
  assumes h: "holds_rules e rules b" and si: "si_keyword_rules si = b_keyword_rules b"
    and ms: "successive (concat (map kr_keywords (si_keyword_rules si))) line 0 ms" "m \<in> set ms"
    and r: "r = kr_def (si_keyword_rules si ! (owners (map kr_keywords (si_keyword_rules si)) ! fst m))"
    and sh: "\<forall>kws. r_keywords r = Some kws \<longrightarrow> (\<forall>kw \<in> set kws. \<exists>r' \<in> set rules. r_kind r' = Keyword \<and>
      (\<exists>kws' kw' x. r_keywords r' = Some kws' \<and> kw' \<in> set kws' \<and> x \<noteq> [] \<and> kw = kw' @ x))"
  shows False
proof -
  let ?krs = "si_keyword_rules si"
  let ?pats = "concat (map kr_keywords ?krs)"
  obtain i s t where m: "m = (i, s, t)" by (cases m) auto
  from successive_mem [OF ms(1)] ms(2) m have i: "i < length ?pats" by blast
  let ?o = "owners (map kr_keywords ?krs) ! i"
  from owner_index [OF i] have o: "?o < length ?krs" "?pats ! i \<in> set (kr_keywords (?krs ! ?o))"
    by (auto simp: in_set_conv_nth)
  with h si obtain kws where kws: "r_keywords r = Some kws" "?pats ! i \<in> set kws"
    using r m by (fastforce simp: holds_rules_def)
  with sh obtain r' kws' kw' x where s': "r' \<in> set rules" "r_kind r' = Keyword" "r_keywords r' = Some kws'"
    "kw' \<in> set kws'" "x \<noteq> []" "?pats ! i = kw' @ x" by blast
  have "r' \<in> set (map kr_def ?krs)"
    using h si s'(1,2) by (simp add: holds_rules_def)
  then obtain k where k: "k \<in> set ?krs" "kr_def k = r'" by auto
  with h si s'(3) have "kr_keywords k = sort kws'" by (fastforce simp: holds_rules_def)
  with s'(4) have "kw' \<in> set (kr_keywords k)" by simp
  with k(1) have "kw' \<in> set ?pats" by auto
  then obtain j where "j < length ?pats" "?pats ! j = kw'" by (metis in_set_conv_nth)
  with prefix_shadows [OF ms(1), of i s t j x] ms(2) m s'(5,6) show False by simp
qed

text \<open>
  C37. A keyword rule can be dead. If every keyword of a rule properly extends a keyword of some
  keyword rule of the same set (of the same or another rule, whatever its stream filter), the
  rule never produces a draft, for any frame: the scanner reports the shorter keyword first and
  resumes after it, and each report is credited to one rule only.
\<close>

theorem shadowed_keyword_rule_is_dead:
  assumes "find_contract e" and "set_contract e" and "build_inner e rules = Ok si"
    and "r_kind r = Keyword" and "\<forall>r' \<in> set rules. r_id r' = r_id r \<longrightarrow> r' = r"
    and "\<forall>kws. r_keywords r = Some kws \<longrightarrow> (\<forall>kw \<in> set kws. \<exists>r' \<in> set rules. r_kind r' = Keyword \<and>
      (\<exists>kws' kw' x. r_keywords r' = Some kws' \<and> kw' \<in> set kws' \<and> x \<noteq> [] \<and> kw = kw' @ x))"
  shows "\<exists>out. sift_evaluate e clk si frame bucket = Ok out \<and>
    (\<forall>d \<in> set out. \<exists>rf. d_rule d = Some rf \<and> rr_registry_id rf \<noteq> Some (r_id r))"
proof -
  obtain b where b: "holds_rules e rules b"
    "si_keyword_rules si = b_keyword_rules b" "si_kw_pattern_to_rule si = b_kw_pattern_to_rule b"
    "si_regex_rules si = b_regex_rules b"
    "build_keyword_ac e (b_kw_patterns b) = Ok (si_keyword_ac si)"
    "build_regex_set e (b_regex_rules b) = Ok (si_regex_set si)"
    using build_inner_holds [OF assms(3)] by blast
  obtain line truncated where tx: "sift_cap_text (f_text frame) = (line, truncated)" by fastforce
  from keyword_part [OF assms(1) b(1,5,2,3) tx, of clk bucket] obtain ko rs ms where
    ko: "(case si_keyword_ac si of None \<Rightarrow> Ok []
      | Some ac \<Rightarrow> keyword_pass e clk si frame bucket line truncated (eng_find_iter e ac line)
          (replicate (length (si_keyword_rules si)) False) []) = Ok ko"
      "list_all2 (kw_hit e si frame bucket line) rs ko"
    and ms: "successive (concat (keyword_lists rules)) line 0 ms" "rs = credited rules (f_stream frame) ms" by blast
  have "keyword_lists rules = map kr_keywords (si_keyword_rules si)"
    using holds_rules_table(2) [OF b(1)] b(2) by simp
  with ms credited_owner have hits: "\<forall>r \<in> set rs. \<exists>ms m.
      successive (concat (map kr_keywords (si_keyword_rules si))) line 0 ms \<and>
      m \<in> set ms \<and> r = owners (map kr_keywords (si_keyword_rules si)) ! fst m" by metis
  from regex_part [OF assms(2) b(1,6,4) tx, of ko clk bucket] obtain ro where
    ro: "(case si_regex_set si of None \<Rightarrow> Ok ko
      | Some q \<Rightarrow> regex_pass e clk si frame bucket line truncated (eng_set_matches e q line) ko) =
      Ok (ko @ ro)"
      "list_all2 (draft_of e frame bucket)
        (filter (\<lambda>r. r_kind r = Regex \<and> regex_fires e r line (f_stream frame)) rules) ro" by blast
  have "sift_evaluate e clk si frame bucket = Ok (ko @ ro)"
    using ko(1) ro(1) by (simp add: sift_evaluate_def tx)
  moreover have "\<exists>rf. d_rule d = Some rf \<and> rr_registry_id rf \<noteq> Some (r_id r)" if "d \<in> set ko" for d
  proof -
    from that ko(2) obtain n where n: "n < length rs" "kw_hit e si frame bucket line (rs ! n) d"
      by (auto simp: in_set_conv_nth list_all2_conv_all_nth)
    let ?r = "kr_def (si_keyword_rules si ! (rs ! n))"
    have "?r \<noteq> r"
      using hits n(1) shadowed_rule_not_hit [OF b(1,2), of line _ _ r] assms(6) by (metis nth_mem)
    moreover have "?r \<in> set rules"
    proof -
      have "?r \<in> set (map kr_def (b_keyword_rules b))"
        using n(2) b(2) by (auto simp: kw_hit_def)
      moreover have "map kr_def (b_keyword_rules b) = filter (\<lambda>r. r_kind r = Keyword) rules"
        using b(1) by (simp add: holds_rules_def)
      ultimately show ?thesis by (metis filter_is_subset subsetD)
    qed
    ultimately have "r_id ?r \<noteq> r_id r" using assms(5) by blast
    with n(2) show ?thesis by (auto simp: kw_hit_def Let_def draft_of_def)
  qed
  moreover have "\<exists>rf. d_rule d = Some rf \<and> rr_registry_id rf \<noteq> Some (r_id r)" if d: "d \<in> set ro" for d
  proof -
    let ?fs = "filter (\<lambda>r. r_kind r = Regex \<and> regex_fires e r line (f_stream frame)) rules"
    from d obtain n where n: "n < length ro" "ro ! n = d" by (auto simp: in_set_conv_nth)
    with ro(2) have "n < length ?fs" "draft_of e frame bucket (?fs ! n) d"
      by (auto simp: list_all2_lengthD intro: list_all2_nthD2)
    moreover from this(1) have "?fs ! n \<in> set rules" "r_kind (?fs ! n) = Regex"
      using nth_mem [of n ?fs] by auto
    ultimately obtain r' where r': "r' \<in> set rules" "r_kind r' = Regex" "draft_of e frame bucket r' d" by blast
    with assms(4,5) have "r_id r' \<noteq> r_id r" by auto
    with r'(3) show ?thesis by (auto simp: draft_of_def)
  qed
  ultimately show ?thesis by auto
qed


definition shadow_rules :: "rule_definition list" where
  "shadow_rules = [sample_rule ''short'' Keyword (Some [''error'']) None [],
     sample_rule ''long'' Keyword (Some [''error: fatal'']) None []]"

lemma shadow_build: "\<exists>si. build_inner sample_engine shadow_rules = Ok si"
  by (simp add: build_inner_def shadow_rules_def add_rule_def sample_rule_valid add_keyword_rule_def
      build_keyword_ac_def build_regex_set_def builder_new_def Let_def)

theorem shadowed_keyword_rule_is_dead_witness:
  "keyword_fires (sample_rule ''long'' Keyword (Some [''error: fatal'']) None []) ''error: fatal'' Stdout \<and>
   (\<exists>si. build_inner sample_engine shadow_rules = Ok si \<and>
     (\<exists>out. sift_evaluate sample_engine (\<lambda>_. 0) si (sample_frame ''f'' ''error: fatal'') (BucketId ''b'') = Ok out \<and>
       list_all (\<lambda>d. map_option rr_registry_id (d_rule d) \<noteq> Some (Some ''long'')) out))"
proof -
  obtain si where si: "build_inner sample_engine shadow_rules = Ok si" using shadow_build by blast
  let ?r = "sample_rule ''long'' Keyword (Some [''error: fatal'']) None []"
  have "\<exists>out. sift_evaluate sample_engine (\<lambda>_. 0) si (sample_frame ''f'' ''error: fatal'') (BucketId ''b'') = Ok out \<and>
    (\<forall>d \<in> set out. \<exists>rf. d_rule d = Some rf \<and> rr_registry_id rf \<noteq> Some (r_id ?r))"
  proof (rule shadowed_keyword_rule_is_dead [OF sample_find_contract sample_set_contract si])
    show "\<forall>r' \<in> set shadow_rules. r_id r' = r_id ?r \<longrightarrow> r' = ?r" by (simp add: shadow_rules_def)
    show "\<forall>kws. r_keywords ?r = Some kws \<longrightarrow> (\<forall>kw \<in> set kws. \<exists>r' \<in> set shadow_rules. r_kind r' = Keyword \<and>
      (\<exists>kws' kw' x. r_keywords r' = Some kws' \<and> kw' \<in> set kws' \<and> x \<noteq> [] \<and> kw = kw' @ x))"
      by (simp add: shadow_rules_def)
  qed simp
  then obtain out where out:
    "sift_evaluate sample_engine (\<lambda>_. 0) si (sample_frame ''f'' ''error: fatal'') (BucketId ''b'') = Ok out"
    "\<forall>d \<in> set out. \<exists>rf. d_rule d = Some rf \<and> rr_registry_id rf \<noteq> Some ''long''" by auto
  then have "list_all (\<lambda>d. map_option rr_registry_id (d_rule d) \<noteq> Some (Some ''long'')) out"
    by (auto simp: list_all_iff)
  moreover have "keyword_fires ?r ''error: fatal'' Stdout"
    by (simp add: keyword_fires_def stream_matches_def occurs_at_def exI [of _ 0])
  ultimately show ?thesis using si out(1) by blast
qed

end
