(* ===== verification/TC_Noise.thy ===== *)
theory TC_Noise
  imports TC_Sifter TC_Router
begin

text \<open>
  Noise suppression on the way from a frame to the event store: the cross-frame dedupe and the
  progress-line detector of \<^verbatim>\<open>crates/sifters/src/noise.rs\<close>, the per-probe pipeline of
  \<^verbatim>\<open>crates/probes/src/noise_pipeline.rs\<close>, and the two event sinks the pipeline writes to: the
  in-memory sink of \<^verbatim>\<open>crates/probes/src/process.rs\<close> and the daemon's sink of
  \<^verbatim>\<open>crates/daemon/src/command.rs\<close>, which appends to a bucket through the router.

  The pipeline takes its sink as an argument, and \<open>event_sink\<close> is the contract under which its
  laws are proved, once for both sinks. The subtraction of the \<^verbatim>\<open>time\<close> crate is the parameter
  \<open>sub\<close>, and a result it cannot represent is a panic.
\<close>

section \<open>Dedupe\<close>

definition DEFAULT_DEDUPE_WINDOW :: duration where
  "DEFAULT_DEDUPE_WINDOW = 5 * 1000000000"

record noise_policy =
  np_dedupe_severity_max :: severity
  np_dedupe_window :: duration
  np_drop_progress_frames :: bool

definition noise_policy_default :: noise_policy where
  "noise_policy_default = \<lparr>np_dedupe_severity_max = High, np_dedupe_window = DEFAULT_DEDUPE_WINDOW,
     np_drop_progress_frames = True\<rparr>"

record dedupe_entry =
  de_first_seen :: timestamp
  de_last_seen :: timestamp
  de_count :: nat
  de_representative_seq :: "nat option"

record dedupe =
  dd_state :: "(string \<times> dedupe_entry) list"
  dd_max_seen_ts :: "timestamp option"

definition dedupe_new :: dedupe where
  "dedupe_new = \<lparr>dd_state = [], dd_max_seen_ts = None\<rparr>"

definition dedupe_key :: "rule_ref option \<Rightarrow> captures option \<Rightarrow> string \<Rightarrow> string" where
  "dedupe_key rule caps kind =
     (case rule of
        Some r \<Rightarrow> rule_wire (rr_id r) @ ''|'' @ show_nat (rr_version r)
      | None \<Rightarrow> ''<no-rule>'') @ ''|'' @ kind @ ''|'' @
     (case caps of
        None \<Rightarrow> []
      | Some c \<Rightarrow>
          concat (map (\<lambda>k. k @ ''='' @ (case map_of c k of Some v \<Rightarrow> v | None \<Rightarrow> []) @ '';'')
            (sort (map fst c))))"

abbreviation draft_key :: "event_draft \<Rightarrow> string" where
  "draft_key d \<equiv> dedupe_key (d_rule d) (d_captures d) (d_kind d)"

text \<open>\<open>Option::max\<close> over the drafts' timestamps and the clock carried between batches.\<close>

definition advance_clock :: "timestamp option \<Rightarrow> event_draft list \<Rightarrow> timestamp option" where
  "advance_clock prior drafts =
     foldl (\<lambda>acc t. case acc of None \<Rightarrow> Some t | Some a \<Rightarrow> Some (max a t)) prior (map d_timestamp drafts)"

text \<open>One pass of the batch loop: the entries, what is emitted, the patches, and the batch index.\<close>

record dedupe_loop =
  dl_state :: "(string \<times> dedupe_entry) list"
  dl_emit :: "event_draft list"
  dl_patches :: "dedupe_patch list"
  dl_batch_index :: "(string \<times> nat) list"

definition dedupe_repeat :: "event_draft \<Rightarrow> dedupe_entry \<Rightarrow> dedupe_loop \<Rightarrow> dedupe_loop" where
  "dedupe_repeat d entry l =
     (let entry' = entry\<lparr>de_count := sat_add_u32 (de_count entry) 1, de_last_seen := d_timestamp d\<rparr>;
          stamp = (\<lambda>x. x\<lparr>d_count := de_count entry', d_first_seen := Some (de_first_seen entry'),
                         d_last_seen := Some (de_last_seen entry')\<rparr>);
          l1 = l\<lparr>dl_state := AList.update (draft_key d) entry' (dl_state l)\<rparr>
      in case map_of (dl_batch_index l) (draft_key d) of
           Some idx \<Rightarrow>
             (if idx < length (dl_emit l)
              then l1\<lparr>dl_emit := (dl_emit l)[idx := stamp (dl_emit l ! idx)]\<rparr> else l1)
         | None \<Rightarrow>
             (case de_representative_seq entry' of
                Some s \<Rightarrow>
                  l1\<lparr>dl_patches := dl_patches l @
                       [\<lparr>dp_seq = s, dp_count = de_count entry', dp_first_seen = de_first_seen entry',
                         dp_last_seen = de_last_seen entry'\<rparr>]\<rparr>
              | None \<Rightarrow>
                  l1\<lparr>dl_batch_index := AList.update (draft_key d) (length (dl_emit l)) (dl_batch_index l),
                     dl_emit := dl_emit l @ [stamp d]\<rparr>))"

definition dedupe_first :: "event_draft \<Rightarrow> dedupe_loop \<Rightarrow> dedupe_loop" where
  "dedupe_first d l =
     l\<lparr>dl_batch_index := AList.update (draft_key d) (length (dl_emit l)) (dl_batch_index l),
       dl_state := AList.update (draft_key d)
         \<lparr>de_first_seen = d_timestamp d, de_last_seen = d_timestamp d, de_count = 1,
          de_representative_seq = None\<rparr> (dl_state l),
       dl_emit := dl_emit l @
         [d\<lparr>d_count := 1, d_first_seen := Some (d_timestamp d), d_last_seen := Some (d_timestamp d)\<rparr>]\<rparr>"

definition dedupe_draft :: "noise_policy \<Rightarrow> dedupe_loop \<Rightarrow> event_draft \<Rightarrow> dedupe_loop" where
  "dedupe_draft policy l d =
     (if np_dedupe_severity_max policy \<le> d_severity d then l\<lparr>dl_emit := dl_emit l @ [d]\<rparr>
      else case map_of (dl_state l) (draft_key d) of
        Some entry \<Rightarrow> dedupe_repeat d entry l
      | None \<Rightarrow> dedupe_first d l)"

definition retain_recent :: "timestamp \<Rightarrow> (string \<times> dedupe_entry) list \<Rightarrow> (string \<times> dedupe_entry) list" where
  "retain_recent cutoff st = filter (\<lambda>(_, en). cutoff \<le> de_last_seen en) st"

definition apply_at ::
  "dt_sub \<Rightarrow> dedupe \<Rightarrow> event_draft list \<Rightarrow> noise_policy \<Rightarrow> timestamp \<Rightarrow>
     (unit, dedupe \<times> event_draft list \<times> dedupe_patch list) outcome" where
  "apply_at sub dd drafts policy now =
     (let window_secs = try_from_or_max i64_max (as_secs (np_dedupe_window policy));
          data_clock = advance_clock (dd_max_seen_ts dd) drafts
      in case sub (case data_clock of Some t \<Rightarrow> t | None \<Rightarrow> now) window_secs of
           None \<Rightarrow> Panic
         | Some cutoff \<Rightarrow>
             (let l = foldl (dedupe_draft policy)
                        \<lparr>dl_state = retain_recent cutoff (dd_state dd), dl_emit = [], dl_patches = [],
                         dl_batch_index = []\<rparr> drafts
              in Ok (\<lparr>dd_state = dl_state l, dd_max_seen_ts = data_clock\<rparr>, dl_emit l, dl_patches l)))"

definition dedupe_apply ::
  "dt_sub \<Rightarrow> timestamp \<Rightarrow> dedupe \<Rightarrow> event_draft list \<Rightarrow> noise_policy \<Rightarrow> (unit, dedupe \<times> event_draft list) outcome" where
  "dedupe_apply sub now dd drafts policy =
     and_then (apply_at sub dd drafts policy now) (\<lambda>(dd', emit, _). Ok (dd', emit))"

definition register_emitted :: "event_draft \<Rightarrow> nat \<Rightarrow> dedupe \<Rightarrow> dedupe" where
  "register_emitted d s dd =
     (case map_of (dd_state dd) (draft_key d) of
        None \<Rightarrow> dd
      | Some en \<Rightarrow>
          dd\<lparr>dd_state := AList.update (draft_key d) (en\<lparr>de_representative_seq := Some s\<rparr>) (dd_state dd)\<rparr>)"

definition dedupe_bypass_kind :: "string \<Rightarrow> bool" where
  "dedupe_bypass_kind kind \<longleftrightarrow> kind = ''password_prompt''"

section \<open>Progress lines\<close>

definition is_progress_line :: "string \<Rightarrow> bool" where
  "is_progress_line text =
     (let t = trim text in
      t = [] \<or>
      (list_all (\<lambda>c. (length c = 1 \<and> (is_digit (hd c) \<or> c = ''.'' \<or> c = ''%'')) \<or> is_whitespace c) (chars t) \<and>
       CHR ''%'' \<in> set t) \<or>
      (length t = 1 \<and> hd t \<in> set (''|/-'' @ [BSL] @ ''*'')) \<or>
      (case split_once (CHR ''/'') t of
         None \<Rightarrow> False
       | Some (a, b) \<Rightarrow> a \<noteq> [] \<and> b \<noteq> [] \<and> list_all is_digit a \<and> list_all is_digit b))"

section \<open>The pipeline\<close>

definition PASSWORD_PROMPT_KIND :: string where
  "PASSWORD_PROMPT_KIND = ''password_prompt''"

text \<open>The three counters, which every probe's metrics carry.\<close>

record suppression_metrics =
  sup_frames :: nat
  sup_progress :: nat
  sup_dedupe :: nat

definition suppression_default :: suppression_metrics where
  "suppression_default = \<lparr>sup_frames = 0, sup_progress = 0, sup_dedupe = 0\<rparr>"

definition record_progress_suppressed :: "suppression_metrics \<Rightarrow> suppression_metrics" where
  "record_progress_suppressed m =
     m\<lparr>sup_progress := sat_add_u64 (sup_progress m) 1, sup_frames := sat_add_u64 (sup_frames m) 1\<rparr>"

definition record_dedupe_suppressed :: "nat \<Rightarrow> suppression_metrics \<Rightarrow> suppression_metrics" where
  "record_dedupe_suppressed n m =
     m\<lparr>sup_dedupe := sat_add_u64 (sup_dedupe m) n, sup_frames := sat_add_u64 (sup_frames m) n\<rparr>"

record noise_pipeline =
  pl_policy :: noise_policy
  pl_dedupe :: dedupe

definition pipeline_new :: "noise_policy \<Rightarrow> noise_pipeline" where
  "pipeline_new policy = \<lparr>pl_policy = policy, pl_dedupe = dedupe_new\<rparr>"

definition with_default_policy :: noise_pipeline where
  "with_default_policy = pipeline_new noise_policy_default"

type_synonym 's sink_emit = "'s \<Rightarrow> event_draft \<Rightarrow> 's \<times> nat option"
type_synonym 's sink_patch = "'s \<Rightarrow> bucket_id \<Rightarrow> dedupe_patch \<Rightarrow> 's"

definition emit_one ::
  "'s sink_emit \<Rightarrow> dedupe \<times> 's \<times> nat \<Rightarrow> event_draft \<Rightarrow> dedupe \<times> 's \<times> nat" where
  "emit_one emit st draft =
     (case st of (dd, sink, emitted) \<Rightarrow>
        (case emit sink draft of
           (sink', Some s) \<Rightarrow> (register_emitted draft s dd, sink', sat_add_u64 emitted 1)
         | (sink', None) \<Rightarrow> (dd, sink', sat_add_u64 emitted 1)))"

definition stamp_source :: "source_type \<Rightarrow> event_draft \<Rightarrow> event_draft" where
  "stamp_source ty d = d\<lparr>d_source := (d_source d)\<lparr>es_source_type := ty\<rparr>\<rparr>"

record 's frame_result =
  fr_pipeline :: noise_pipeline
  fr_sink :: 's
  fr_metrics :: suppression_metrics
  fr_emitted :: nat

definition suppress_and_emit ::
  "dt_sub \<Rightarrow> timestamp \<Rightarrow> 's sink_emit \<Rightarrow> 's sink_patch \<Rightarrow> noise_pipeline \<Rightarrow> bucket_id \<Rightarrow> 's \<Rightarrow>
     suppression_metrics \<Rightarrow> nat \<Rightarrow> event_draft list \<Rightarrow> (unit, 's frame_result) outcome" where
  "suppress_and_emit sub now emit patch pl bkt sink metrics emitted drafts =
     (let bypass = filter (\<lambda>d. dedupe_bypass_kind (d_kind d)) drafts;
          rest = filter (\<lambda>d. \<not> dedupe_bypass_kind (d_kind d)) drafts
      in and_then (apply_at sub (pl_dedupe pl) rest (pl_policy pl) now) (\<lambda>(dd, kept, patches).
           let dropped = try_from_or_max u64_max (length rest - length kept);
               metrics1 = (if 0 < dropped then record_dedupe_suppressed dropped metrics else metrics);
               sink1 = foldl (\<lambda>s p. patch s bkt p) sink patches
           in case foldl (emit_one emit) (dd, sink1, emitted) (bypass @ kept) of
                (dd', sink', emitted') \<Rightarrow>
                  Ok \<lparr>fr_pipeline = pl\<lparr>pl_dedupe := dd'\<rparr>, fr_sink = sink', fr_metrics = metrics1,
                      fr_emitted = emitted'\<rparr>))"

definition process_frame ::
  "('r, 'a, 'q) engine \<Rightarrow> dt_sub \<Rightarrow> (nat \<Rightarrow> timestamp) \<Rightarrow> timestamp \<Rightarrow> 's sink_emit \<Rightarrow> 's sink_patch \<Rightarrow>
     noise_pipeline \<Rightarrow> source_frame \<Rightarrow> source_type \<Rightarrow> bucket_id \<Rightarrow> ('r, 'a, 'q) sifter_inner \<Rightarrow> 's \<Rightarrow>
     suppression_metrics \<Rightarrow> nat \<Rightarrow> event_draft list \<Rightarrow> (unit, 's frame_result) outcome" where
  "process_frame e sub clk now emit patch pl frame ty bkt si sink metrics emitted extra =
     and_then (sift_evaluate e clk si frame bkt) (\<lambda>matched.
       let drafts = map (stamp_source ty) (matched @ extra) in
       if drafts = [] \<and> np_drop_progress_frames (pl_policy pl) \<and> is_progress_line (f_text frame)
       then Ok \<lparr>fr_pipeline = pl, fr_sink = sink, fr_metrics = record_progress_suppressed metrics,
                fr_emitted = emitted\<rparr>
       else suppress_and_emit sub now emit patch pl bkt sink metrics emitted drafts)"

definition password_prompt_draft :: "timestamp \<Rightarrow> source_frame \<Rightarrow> bucket_id \<Rightarrow> event_draft" where
  "password_prompt_draft now frame bkt =
     \<lparr>d_bucket_id = bkt, d_timestamp = now, d_severity = Critical, d_kind = PASSWORD_PROMPT_KIND,
      d_summary = ''secret password prompt detected'', d_rule = None,
      d_source = \<lparr>es_probe_id = f_probe_id frame, es_source_type = STerminal,
                  es_stream = f_stream frame, es_job_id = None\<rparr>,
      d_captures = None,
      d_pointer = map_option (\<lambda>n. pointer_with_line (pointer_new (f_frame_id frame)) n) (f_line frame),
      d_pointer_unavailable_reason = None, d_tags = None, d_frame_truncated_bytes = 0, d_count = 1,
      d_first_seen = None, d_last_seen = None, d_suppressed = False\<rparr>"

section \<open>The sinks\<close>

text \<open>\<open>InMemorySink\<close>: its sequence numbers are the one-based positions of the drafts.\<close>

definition memory_emit :: "event_draft list sink_emit" where
  "memory_emit g d = (g @ [d], Some (length g + 1))"

definition memory_patch :: "event_draft list sink_patch" where
  "memory_patch g b p =
     (let idx = dp_seq p - 1 in
      if idx < length g
      then g[idx := (g ! idx)\<lparr>d_count := dp_count p, d_first_seen := Some (dp_first_seen p),
                              d_last_seen := Some (dp_last_seen p)\<rparr>]
      else g)"

text \<open>
  \<open>DaemonEventSink\<close>: an append through the router and the job's event counter. The clock and
  the event identifier of the \<open>k\<close>-th call are \<open>env k\<close>.
\<close>

record daemon_sink =
  ds_router :: router
  ds_calls :: nat

definition daemon_emit :: "(nat \<Rightarrow> timestamp \<times> event_id) \<Rightarrow> job_id \<Rightarrow> daemon_sink sink_emit" where
  "daemon_emit env job s draft =
     (case bucket_append (fst (env (ds_calls s))) (snd (env (ds_calls s))) (ds_router s)
             (d_bucket_id draft) draft of
        (r, Ok ev) \<Rightarrow>
          (s\<lparr>ds_router := r\<lparr>ro_jobs := record_event (ro_jobs r) job\<rparr>, ds_calls := Suc (ds_calls s)\<rparr>,
           Some (ev_seq ev))
      | (r, _) \<Rightarrow> (s\<lparr>ds_router := r, ds_calls := Suc (ds_calls s)\<rparr>, None))"

definition daemon_patch :: "(nat \<Rightarrow> timestamp \<times> event_id) \<Rightarrow> daemon_sink sink_patch" where
  "daemon_patch env s b p =
     s\<lparr>ds_router := fst (bucket_patch_aggregation (fst (env (ds_calls s))) (ds_router s) b p),
       ds_calls := Suc (ds_calls s)\<rparr>"

section \<open>What one batch does to one key\<close>

definition low :: "noise_policy \<Rightarrow> event_draft \<Rightarrow> bool" where
  "low policy d \<longleftrightarrow> d_severity d < np_dedupe_severity_max policy"

definition mine :: "noise_policy \<Rightarrow> string \<Rightarrow> event_draft \<Rightarrow> bool" where
  "mine policy k d \<longleftrightarrow> low policy d \<and> draft_key d = k"

definition occ :: "noise_policy \<Rightarrow> string \<Rightarrow> event_draft list \<Rightarrow> nat" where
  "occ policy k ds = length (filter (mine policy k) ds)"

definition start_count :: "(string \<times> dedupe_entry) list \<Rightarrow> string \<Rightarrow> nat" where
  "start_count st k = (case map_of st k of Some en \<Rightarrow> de_count en | None \<Rightarrow> 0)"

definition start_rep :: "(string \<times> dedupe_entry) list \<Rightarrow> string \<Rightarrow> nat option" where
  "start_rep st k = (case map_of st k of Some en \<Rightarrow> de_representative_seq en | None \<Rightarrow> None)"

definition patch_of :: "nat \<Rightarrow> dedupe_entry \<Rightarrow> dedupe_patch" where
  "patch_of s en = \<lparr>dp_seq = s, dp_count = de_count en, dp_first_seen = de_first_seen en,
     dp_last_seen = de_last_seen en\<rparr>"

definition shows_entry :: "dedupe_entry \<Rightarrow> event_draft \<Rightarrow> bool" where
  "shows_entry en d \<longleftrightarrow> d_count d = de_count en \<and> d_first_seen d = Some (de_first_seen en) \<and>
     d_last_seen d = Some (de_last_seen en)"

text \<open>Entries of different keys have different representatives in the sink.\<close>

definition reps_distinct :: "(string \<times> dedupe_entry) list \<Rightarrow> bool" where
  "reps_distinct st \<longleftrightarrow> (\<forall>k k' s. start_rep st k = Some s \<and> start_rep st k' = Some s \<longrightarrow> k = k')"

definition key_ok ::
  "noise_policy \<Rightarrow> (string \<times> dedupe_entry) list \<Rightarrow> event_draft list \<Rightarrow> dedupe_loop \<Rightarrow> string \<Rightarrow> bool" where
  "key_ok policy st0 ps l k \<longleftrightarrow>
     (if occ policy k ps = 0 then
        map_of (dl_state l) k = map_of st0 k \<and> map_of (dl_batch_index l) k = None \<and>
        (\<forall>i < length (dl_emit l). \<not> mine policy k (dl_emit l ! i))
      else \<exists>en. map_of (dl_state l) k = Some en \<and>
        de_count en = min (start_count st0 k + occ policy k ps) u32_max \<and>
        de_representative_seq en = start_rep st0 k \<and>
        (case start_rep st0 k of
           Some s \<Rightarrow> map_of (dl_batch_index l) k = None \<and>
             (\<forall>i < length (dl_emit l). \<not> mine policy k (dl_emit l ! i)) \<and>
             (\<exists>qs. filter (\<lambda>p. dp_seq p = s) (dl_patches l) = qs @ [patch_of s en])
         | None \<Rightarrow> (\<exists>i. map_of (dl_batch_index l) k = Some i \<and> i < length (dl_emit l) \<and>
             shows_entry en (dl_emit l ! i) \<and> mine policy k (dl_emit l ! i) \<and>
             (\<forall>j < length (dl_emit l). mine policy k (dl_emit l ! j) \<longrightarrow> j = i))))"

lemma occ_snoc: "occ policy k (ps @ [d]) = occ policy k ps + (if mine policy k d then 1 else 0)"
  by (simp add: occ_def)

text \<open>The four ways a step changes the loop state.\<close>


definition entry_next :: "event_draft \<Rightarrow> dedupe_entry \<Rightarrow> dedupe_entry" where
  "entry_next d en = en\<lparr>de_count := sat_add_u32 (de_count en) 1, de_last_seen := d_timestamp d\<rparr>"

definition stamped :: "dedupe_entry \<Rightarrow> event_draft \<Rightarrow> event_draft" where
  "stamped en x = x\<lparr>d_count := de_count en, d_first_seen := Some (de_first_seen en),
     d_last_seen := Some (de_last_seen en)\<rparr>"

lemma stamped_sel [simp]:
  "draft_key (stamped en x) = draft_key x" "d_severity (stamped en x) = d_severity x"
  "mine policy k (stamped en x) = mine policy k x" "shows_entry en (stamped en x)"
  "d_bucket_id (stamped en x) = d_bucket_id x" "d_kind (stamped en x) = d_kind x"
  "low policy (stamped en x) = low policy x"
  by (simp_all add: stamped_def mine_def low_def shows_entry_def)

lemma entry_next_sel [simp]:
  "de_count (entry_next d en) = min (Suc (de_count en)) u32_max"
  "de_representative_seq (entry_next d en) = de_representative_seq en"
  "de_first_seen (entry_next d en) = de_first_seen en"
  "de_last_seen (entry_next d en) = d_timestamp d"
  by (simp_all add: entry_next_def sat_add_def)

lemma dedupe_draft_high: "\<not> low policy d \<Longrightarrow> dedupe_draft policy l d = l\<lparr>dl_emit := dl_emit l @ [d]\<rparr>"
  by (simp add: dedupe_draft_def low_def not_less)

lemma dedupe_draft_first:
  assumes "low policy d" and "map_of (dl_state l) (draft_key d) = None"
  shows "dedupe_draft policy l d =
    l\<lparr>dl_batch_index := AList.update (draft_key d) (length (dl_emit l)) (dl_batch_index l),
      dl_state := AList.update (draft_key d)
        \<lparr>de_first_seen = d_timestamp d, de_last_seen = d_timestamp d, de_count = 1,
         de_representative_seq = None\<rparr> (dl_state l),
      dl_emit := dl_emit l @
        [stamped \<lparr>de_first_seen = d_timestamp d, de_last_seen = d_timestamp d, de_count = 1,
         de_representative_seq = None\<rparr> d]\<rparr>"
  using assms by (simp add: dedupe_draft_def low_def dedupe_first_def stamped_def)

lemma dedupe_draft_repeat:
  assumes "low policy d" and "map_of (dl_state l) (draft_key d) = Some en"
  shows "dedupe_draft policy l d =
    (let l1 = l\<lparr>dl_state := AList.update (draft_key d) (entry_next d en) (dl_state l)\<rparr> in
     case map_of (dl_batch_index l) (draft_key d) of
       Some idx \<Rightarrow> (if idx < length (dl_emit l)
         then l1\<lparr>dl_emit := (dl_emit l)[idx := stamped (entry_next d en) (dl_emit l ! idx)]\<rparr> else l1)
     | None \<Rightarrow> (case de_representative_seq en of
         Some s \<Rightarrow> l1\<lparr>dl_patches := dl_patches l @ [patch_of s (entry_next d en)]\<rparr>
       | None \<Rightarrow> l1\<lparr>dl_batch_index := AList.update (draft_key d) (length (dl_emit l)) (dl_batch_index l),
           dl_emit := dl_emit l @ [stamped (entry_next d en) d]\<rparr>))"
  using assms
  by (simp add: dedupe_draft_def low_def dedupe_repeat_def Let_def stamped_def patch_of_def entry_next_def
      split: option.splits)

lemma key_ok_entry_rep:
  assumes "key_ok policy st0 ps l k" and "map_of (dl_state l) k = Some en"
  shows "de_representative_seq en = start_rep st0 k"
  using assms by (auto simp: key_ok_def start_rep_def split: if_splits option.splits)

lemma min_Suc_bound: "min (Suc (min a b)) b = min (Suc a) b" for a b :: nat
  by simp

lemma key_ok_own:
  assumes ok: "key_ok policy st0 ps l k" and low: "low policy d" and k: "k = draft_key d"
  shows "key_ok policy st0 (ps @ [d]) (dedupe_draft policy l d) k"
proof -
  have n: "occ policy k (ps @ [d]) = Suc (occ policy k ps)"
    using low k by (simp add: occ_snoc mine_def)
  have m: "mine policy k d" using low k by (simp add: mine_def)
  show ?thesis
  proof (cases "map_of (dl_state l) k")
    case None
    with ok have z: "occ policy k ps = 0" "map_of st0 k = None"
        "\<forall>i < length (dl_emit l). \<not> mine policy k (dl_emit l ! i)"
      by (auto simp: key_ok_def split: if_splits)
    note step = dedupe_draft_first [OF low None [unfolded k]]
    show ?thesis
      unfolding key_ok_def n step using z m
      by (auto simp: start_count_def start_rep_def update_conv' k [symmetric] nth_append u32_max_def
          less_Suc_eq)
  next
    case (Some en)
    note step = dedupe_draft_repeat [OF low Some [unfolded k], unfolded k [symmetric]]
    show ?thesis
    proof (cases "occ policy k ps = 0")
      case True
      with ok Some have z: "map_of st0 k = Some en" "map_of (dl_batch_index l) k = None"
          "\<forall>i < length (dl_emit l). \<not> mine policy k (dl_emit l ! i)"
        by (auto simp: key_ok_def)
      show ?thesis
        unfolding key_ok_def n step using z m True
        by (cases "de_representative_seq en")
           (auto simp: start_count_def start_rep_def update_conv' nth_append less_Suc_eq Let_def patch_of_def)
    next
      case False
      with ok Some have z: "de_count en = min (start_count st0 k + occ policy k ps) u32_max"
          "de_representative_seq en = start_rep st0 k"
        by (auto simp: key_ok_def)
      show ?thesis
      proof (cases "start_rep st0 k")
        case None
        with ok Some False have "\<exists>i. map_of (dl_batch_index l) k = Some i \<and> i < length (dl_emit l) \<and>
            shows_entry en (dl_emit l ! i) \<and> mine policy k (dl_emit l ! i) \<and>
            (\<forall>j < length (dl_emit l). mine policy k (dl_emit l ! j) \<longrightarrow> j = i)"
          by (simp add: key_ok_def)
        then obtain i where i: "map_of (dl_batch_index l) k = Some i" "i < length (dl_emit l)"
            "mine policy k (dl_emit l ! i)" "\<forall>j < length (dl_emit l). mine policy k (dl_emit l ! j) \<longrightarrow> j = i"
          by blast
        let ?em = "(dl_emit l)[i := stamped (entry_next d en) (dl_emit l ! i)]"
        have l': "dedupe_draft policy l d = l\<lparr>dl_state := AList.update k (entry_next d en) (dl_state l),
            dl_emit := ?em\<rparr>"
          unfolding step using i(1,2) by (simp add: Let_def)
        have em: "\<forall>j < length ?em. mine policy k (?em ! j) \<longrightarrow> j = i"
          using i(4) by (metis length_list_update nth_list_update_neq)
        have "de_count (entry_next d en) = min (start_count st0 k + Suc (occ policy k ps)) u32_max"
          using z(1) by (simp add: min_Suc_bound)
        moreover have "?em ! i = stamped (entry_next d en) (dl_emit l ! i)" "i < length ?em"
          using i(2) by simp_all
        ultimately have "\<exists>e. map_of (AList.update k (entry_next d en) (dl_state l)) k = Some e \<and>
            de_count e = min (start_count st0 k + Suc (occ policy k ps)) u32_max \<and>
            de_representative_seq e = None \<and> (\<exists>j. map_of (dl_batch_index l) k = Some j \<and> j < length ?em \<and>
              shows_entry e (?em ! j) \<and> mine policy k (?em ! j) \<and>
              (\<forall>j' < length ?em. mine policy k (?em ! j') \<longrightarrow> j' = j))"
          using i(1,3) em z(2) None
          by (intro exI [of _ "entry_next d en"] conjI exI [of _ i]) (simp_all add: update_conv')
        then show ?thesis unfolding key_ok_def n l' None by simp
      next
        case s: (Some s)
        with ok Some False have i: "map_of (dl_batch_index l) k = None"
            "\<forall>i < length (dl_emit l). \<not> mine policy k (dl_emit l ! i)"
          by (auto simp: key_ok_def)
        have l': "dedupe_draft policy l d = l\<lparr>dl_state := AList.update k (entry_next d en) (dl_state l),
            dl_patches := dl_patches l @ [patch_of s (entry_next d en)]\<rparr>"
          unfolding step using i(1) z(2) s by (simp add: Let_def)
        have "dp_seq (patch_of s (entry_next d en)) = s" by (simp add: patch_of_def)
        then show ?thesis
          unfolding key_ok_def n l' using z i s
          by (simp add: update_conv' min_Suc_bound)
      qed
    qed
  qed
qed

text \<open>A step that concerns another key leaves this key's part of the state alone.\<close>

definition same_for :: "noise_policy \<Rightarrow> nat option \<Rightarrow> string \<Rightarrow> dedupe_loop \<Rightarrow> dedupe_loop \<Rightarrow> bool" where
  "same_for policy rep k l l' \<longleftrightarrow>
     map_of (dl_state l') k = map_of (dl_state l) k \<and>
     map_of (dl_batch_index l') k = map_of (dl_batch_index l) k \<and>
     length (dl_emit l) \<le> length (dl_emit l') \<and>
     (\<forall>i < length (dl_emit l). mine policy k (dl_emit l' ! i) = mine policy k (dl_emit l ! i)) \<and>
     (\<forall>i < length (dl_emit l). mine policy k (dl_emit l ! i) \<longrightarrow> dl_emit l' ! i = dl_emit l ! i) \<and>
     (\<forall>i. length (dl_emit l) \<le> i \<and> i < length (dl_emit l') \<longrightarrow> \<not> mine policy k (dl_emit l' ! i)) \<and>
     (\<forall>s. rep = Some s \<longrightarrow> filter (\<lambda>p. dp_seq p = s) (dl_patches l') = filter (\<lambda>p. dp_seq p = s) (dl_patches l))"

lemma key_ok_same:
  assumes ok: "key_ok policy st0 ps l k" and same: "same_for policy (start_rep st0 k) k l l'"
    and n: "occ policy k ps' = occ policy k ps"
  shows "key_ok policy st0 ps' l' k"
proof -
  have other: "\<not> mine policy k (dl_emit l' ! i)"
    if "i < length (dl_emit l')" "\<not> i < length (dl_emit l) \<or> \<not> mine policy k (dl_emit l ! i)" for i
    using same that unfolding same_for_def by (metis not_less)
  show ?thesis
  proof (cases "occ policy k ps = 0 \<or> start_rep st0 k \<noteq> None")
    case True
    with ok have "\<forall>i < length (dl_emit l). \<not> mine policy k (dl_emit l ! i)"
      by (auto simp: key_ok_def split: if_splits)
    with other have none: "\<forall>i < length (dl_emit l'). \<not> mine policy k (dl_emit l' ! i)" by blast
    from same have st: "map_of (dl_state l') k = map_of (dl_state l) k"
      "map_of (dl_batch_index l') k = map_of (dl_batch_index l) k"
      "\<forall>s. start_rep st0 k = Some s \<longrightarrow>
         filter (\<lambda>p. dp_seq p = s) (dl_patches l') = filter (\<lambda>p. dp_seq p = s) (dl_patches l)"
      unfolding same_for_def by blast+
    show ?thesis
    proof (cases "occ policy k ps = 0")
      case z: True
      with ok none st n show ?thesis by (simp add: key_ok_def)
    next
      case nz: False
      with True obtain s where s: "start_rep st0 k = Some s" by auto
      with st(3) have "filter (\<lambda>p. dp_seq p = s) (dl_patches l') = filter (\<lambda>p. dp_seq p = s) (dl_patches l)"
        by blast
      with ok none st(1,2) n nz s show ?thesis by (simp add: key_ok_def) blast
    qed
  next
    case False
    with ok have "\<exists>en. map_of (dl_state l) k = Some en \<and>
        de_count en = min (start_count st0 k + occ policy k ps) u32_max \<and>
        de_representative_seq en = None \<and>
        (\<exists>i. map_of (dl_batch_index l) k = Some i \<and> i < length (dl_emit l) \<and>
          shows_entry en (dl_emit l ! i) \<and> mine policy k (dl_emit l ! i) \<and>
          (\<forall>j < length (dl_emit l). mine policy k (dl_emit l ! j) \<longrightarrow> j = i))"
      by (simp add: key_ok_def)
    then obtain en i where i: "map_of (dl_state l) k = Some en"
        "de_count en = min (start_count st0 k + occ policy k ps) u32_max"
        "de_representative_seq en = None"
        "map_of (dl_batch_index l) k = Some i" "i < length (dl_emit l)" "shows_entry en (dl_emit l ! i)"
        "mine policy k (dl_emit l ! i)" "\<forall>j < length (dl_emit l). mine policy k (dl_emit l ! j) \<longrightarrow> j = i"
      by blast
    have "\<forall>j < length (dl_emit l'). mine policy k (dl_emit l' ! j) \<longrightarrow> j = i"
      using i(8) other by blast
    moreover have "i < length (dl_emit l')" "dl_emit l' ! i = dl_emit l ! i"
      using same i(5,7) unfolding same_for_def by auto
    moreover have "map_of (dl_state l') k = map_of (dl_state l) k"
      "map_of (dl_batch_index l') k = map_of (dl_batch_index l) k"
      using same unfolding same_for_def by blast+
    moreover have nz: "occ policy k ps' \<noteq> 0" and none: "start_rep st0 k = None" using False n by auto
    ultimately show ?thesis
      unfolding key_ok_def if_not_P [OF nz] none option.case n using i(1-7) by metis
  qed
qed

lemma same_for_append:
  assumes "\<not> mine policy k x" and "map_of st k = map_of (dl_state l) k" and "map_of bi k = map_of (dl_batch_index l) k"
  shows "same_for policy rep k l (l\<lparr>dl_emit := dl_emit l @ [x], dl_state := st, dl_batch_index := bi\<rparr>)"
  using assms by (auto simp: same_for_def nth_append)

lemma key_ok_other:
  assumes ok: "key_ok policy st0 ps l k" and own: "key_ok policy st0 ps l (draft_key d)"
    and other: "\<not> mine policy k d" and reps: "reps_distinct st0"
  shows "key_ok policy st0 (ps @ [d]) (dedupe_draft policy l d) k"
proof (rule key_ok_same [OF ok])
  show "occ policy k (ps @ [d]) = occ policy k ps" using other by (simp add: occ_snoc)
  show "same_for policy (start_rep st0 k) k l (dedupe_draft policy l d)"
  proof (cases "low policy d")
    case False
    then show ?thesis
      using same_for_append [OF other, of "dl_state l" l "dl_batch_index l"] by (simp add: dedupe_draft_high)
  next
    case low: True
    with other have k: "draft_key d \<noteq> k" by (auto simp: mine_def)
    show ?thesis
    proof (cases "map_of (dl_state l) (draft_key d)")
      case None
      show ?thesis
        unfolding dedupe_draft_first [OF low None]
        using other k by (auto simp: same_for_def nth_append update_conv')
    next
      case (Some en)
      note step = dedupe_draft_repeat [OF low Some]
      show ?thesis
      proof (cases "map_of (dl_batch_index l) (draft_key d)")
        case None
        have rep: "de_representative_seq en = start_rep st0 (draft_key d)"
          by (rule key_ok_entry_rep [OF own Some])
        show ?thesis
        proof (cases "de_representative_seq en")
          case r: None
          show ?thesis
            unfolding step using None r other k by (auto simp: same_for_def nth_append update_conv' Let_def)
        next
          case r: (Some s)
          with rep reps k have "start_rep st0 k \<noteq> Some s" unfolding reps_distinct_def by metis
          then show ?thesis
            unfolding step using None r k by (auto simp: same_for_def update_conv' Let_def patch_of_def)
        qed
      next
        case idx: (Some idx)
        with own have i: "idx < length (dl_emit l)" "mine policy (draft_key d) (dl_emit l ! idx)"
          by (auto simp: key_ok_def split: if_splits option.splits)
        with k have "\<not> mine policy k (dl_emit l ! idx)" by (auto simp: mine_def)
        with i(1) idx k show ?thesis
          unfolding step by (auto simp: same_for_def update_conv' Let_def nth_list_update)
      qed
    qed
  qed
qed

lemma dedupe_loop_ok:
  assumes "reps_distinct st0"
  shows "key_ok policy st0 ds
    (foldl (dedupe_draft policy) \<lparr>dl_state = st0, dl_emit = [], dl_patches = [], dl_batch_index = []\<rparr> ds) k"
proof (induction ds arbitrary: k rule: rev_induct)
  case Nil
  then show ?case by (simp add: key_ok_def occ_def)
next
  case (snoc d ds)
  show ?case
  proof (cases "mine policy k d")
    case True
    then have "low policy d" "k = draft_key d" by (auto simp: mine_def)
    then show ?thesis using key_ok_own [OF snoc.IH] by simp
  next
    case False
    then show ?thesis using key_ok_other [OF snoc.IH snoc.IH _ assms] by simp
  qed
qed

lemma filter_unique:
  assumes "i < length xs" and "P (xs ! i)" and "\<forall>j < length xs. P (xs ! j) \<longrightarrow> j = i"
  shows "filter P xs = [xs ! i]"
proof -
  have "\<not> P x" if "x \<in> set (take i xs)" for x
  proof -
    from that obtain j where "j < i" "x = xs ! j" by (auto simp: in_set_conv_nth)
    with assms(1,3) show ?thesis by (metis less_irrefl less_trans)
  qed
  then have "filter P (take i xs) = []" by (simp add: filter_empty_conv)
  moreover have "\<not> P x" if "x \<in> set (drop (Suc i) xs)" for x
  proof -
    from that obtain j where j: "j < length xs - Suc i" "x = xs ! (Suc i + j)"
      by (auto simp: in_set_conv_nth)
    then have "Suc i + j < length xs" "Suc i + j \<noteq> i" by simp_all
    with assms(3) j(2) show ?thesis by blast
  qed
  then have "filter P (drop (Suc i) xs) = []" by (simp add: filter_empty_conv)
  ultimately show ?thesis
    using assms(2) by (subst id_take_nth_drop [OF assms(1)]) simp
qed

abbreviation loop_start :: "(string \<times> dedupe_entry) list \<Rightarrow> dedupe_loop" where
  "loop_start st \<equiv> \<lparr>dl_state = st, dl_emit = [], dl_patches = [], dl_batch_index = []\<rparr>"

lemma dedupe_loop_high:
  assumes "reps_distinct st0"
  shows "filter (\<lambda>d. \<not> low policy d) (dl_emit (foldl (dedupe_draft policy) (loop_start st0) ds)) =
    filter (\<lambda>d. \<not> low policy d) ds"
proof (induction ds rule: rev_induct)
  case (snoc d ds)
  let ?l = "foldl (dedupe_draft policy) (loop_start st0) ds"
  show ?case
  proof (cases "low policy d")
    case False
    with snoc show ?thesis by (simp add: dedupe_draft_high)
  next
    case low: True
    show ?thesis
    proof (cases "map_of (dl_state ?l) (draft_key d)")
      case None
      show ?thesis using snoc low by (simp add: dedupe_draft_first [OF low None])
    next
      case (Some en)
      show ?thesis
      proof (cases "map_of (dl_batch_index ?l) (draft_key d)")
        case None
        with snoc low show ?thesis
          by (simp add: dedupe_draft_repeat [OF low Some] Let_def split: option.splits)
      next
        case idx: (Some i)
        with dedupe_loop_ok [OF assms, of policy ds "draft_key d"]
        have i: "i < length (dl_emit ?l)" "low policy (dl_emit ?l ! i)"
          by (auto simp: key_ok_def mine_def split: if_splits option.splits)
        have "filter (\<lambda>d. \<not> low policy d) ((dl_emit ?l)[i := stamped (entry_next d en) (dl_emit ?l ! i)]) =
            filter (\<lambda>d. \<not> low policy d) (dl_emit ?l)"
          using i by (subst (2) id_take_nth_drop [OF i(1)]) (simp add: upd_conv_take_nth_drop)
        with snoc low idx i show ?thesis
          by (simp add: dedupe_draft_repeat [OF low Some] Let_def)
      qed
    qed
  qed
qed simp

lemma dedupe_loop_patches:
  assumes "reps_distinct st0"
  shows "p \<in> set (dl_patches (foldl (dedupe_draft policy) (loop_start st0) ds)) \<Longrightarrow>
    \<exists>k. 0 < occ policy k ds \<and> start_rep st0 k = Some (dp_seq p)"
proof (induction ds rule: rev_induct)
  case (snoc d ds)
  let ?l = "foldl (dedupe_draft policy) (loop_start st0) ds"
  show ?case
  proof (cases "p \<in> set (dl_patches ?l)")
    case True
    with snoc.IH show ?thesis by (metis add_is_0 neq0_conv occ_snoc)
  next
    case False
    have low: "low policy d"
      using False snoc.prems by (cases "low policy d") (auto simp: dedupe_draft_high)
    moreover obtain en where en: "map_of (dl_state ?l) (draft_key d) = Some en"
      using False snoc.prems by (cases "map_of (dl_state ?l) (draft_key d)") (auto simp: dedupe_draft_first [OF low])
    moreover have "de_representative_seq en = start_rep st0 (draft_key d)"
      by (rule key_ok_entry_rep [OF dedupe_loop_ok [OF assms] en])
    moreover have "\<exists>s. de_representative_seq en = Some s \<and> dp_seq p = s"
      using False snoc.prems
      by (auto simp: dedupe_draft_repeat [OF low en] Let_def patch_of_def split: option.splits if_splits)
    ultimately show ?thesis by (intro exI [of _ "draft_key d"]) (auto simp: occ_snoc mine_def)
  qed
qed simp

lemma dedupe_loop_keys:
  "distinct (map fst st) \<Longrightarrow>
   distinct (map fst (dl_state (foldl (dedupe_draft policy) (loop_start st) ds)))"
proof (induction ds rule: rev_induct)
  case (snoc d ds)
  let ?l = "foldl (dedupe_draft policy) (loop_start st) ds"
  have "dl_state (dedupe_draft policy ?l d) = dl_state ?l \<or>
      (\<exists>en. dl_state (dedupe_draft policy ?l d) = AList.update (draft_key d) en (dl_state ?l))"
    by (auto simp: dedupe_draft_def dedupe_repeat_def dedupe_first_def Let_def split: option.splits)
  with snoc show ?case by (auto simp: distinct_update)
qed simp

lemma retain_recent_map:
  assumes "distinct (map fst st)"
  shows "map_of (retain_recent c st) k =
    (case map_of st k of Some en \<Rightarrow> if c \<le> de_last_seen en then Some en else None | None \<Rightarrow> None)"
  using assms
proof (induction st)
  case (Cons x st)
  obtain k' en where x: "x = (k', en)" by fastforce
  with Cons have "map_of (retain_recent c st) k' = None"
    by (force simp: map_of_eq_None_iff retain_recent_def)
  with Cons x show ?case by (auto simp: retain_recent_def)
qed (simp add: retain_recent_def)

lemma retain_recent_distinct: "distinct (map fst st) \<Longrightarrow> distinct (map fst (retain_recent c st))"
  by (simp add: retain_recent_def distinct_map_filter)

lemma retain_recent_reps:
  assumes "distinct (map fst st)" and "reps_distinct st"
  shows "reps_distinct (retain_recent c st)"
proof -
  have "start_rep (retain_recent c st) k = Some s \<Longrightarrow> start_rep st k = Some s" for k s
    by (auto simp: start_rep_def retain_recent_map [OF assms(1)] split: option.splits if_splits)
  with assms(2) show ?thesis unfolding reps_distinct_def by blast
qed

definition dedupe_cutoff :: "dt_sub \<Rightarrow> dedupe \<Rightarrow> event_draft list \<Rightarrow> noise_policy \<Rightarrow> timestamp \<Rightarrow> timestamp option" where
  "dedupe_cutoff sub dd drafts policy now =
     sub (case advance_clock (dd_max_seen_ts dd) drafts of Some t \<Rightarrow> t | None \<Rightarrow> now)
       (try_from_or_max i64_max (as_secs (np_dedupe_window policy)))"

lemma apply_at_loop:
  assumes "apply_at sub dd drafts policy now = Ok (dd', kept, patches)"
  obtains c l where "dedupe_cutoff sub dd drafts policy now = Some c"
    "l = foldl (dedupe_draft policy) (loop_start (retain_recent c (dd_state dd))) drafts"
    "dd_state dd' = dl_state l" "kept = dl_emit l" "patches = dl_patches l"
  using assms by (auto simp: apply_at_def dedupe_cutoff_def Let_def split: option.splits)

section \<open>The drafts a batch emits\<close>

lemma dedupe_loop_origin:
  assumes "reps_distinct st0"
  shows "x \<in> set (dl_emit (foldl (dedupe_draft policy) (loop_start st0) ds)) \<Longrightarrow>
    \<exists>d \<in> set ds. draft_key x = draft_key d \<and> d_severity x = d_severity d \<and> d_kind x = d_kind d \<and>
      d_bucket_id x = d_bucket_id d"
proof (induction ds arbitrary: x rule: rev_induct)
  case (snoc d ds)
  let ?l = "foldl (dedupe_draft policy) (loop_start st0) ds"
  have "x \<in> set (dl_emit ?l) \<or> (\<exists>en. x = stamped en d) \<or> x = d \<or>
      (\<exists>en i. i < length (dl_emit ?l) \<and> x = stamped en (dl_emit ?l ! i))"
  proof (cases "low policy d")
    case False
    with snoc.prems show ?thesis by (auto simp: dedupe_draft_high)
  next
    case low: True
    show ?thesis
    proof (cases "map_of (dl_state ?l) (draft_key d)")
      case None
      with snoc.prems show ?thesis by (auto simp: dedupe_draft_first [OF low None])
    next
      case (Some en)
      with snoc.prems show ?thesis
        by (auto simp: dedupe_draft_repeat [OF low Some] Let_def dest!: set_update_subset_insert [THEN subsetD]
            split: option.splits if_splits)
    qed
  qed
  then consider (old) "x \<in> set (dl_emit ?l)" | (new) en where "x = stamped en d" | (same) "x = d"
    | (upd) en i where "i < length (dl_emit ?l)" "x = stamped en (dl_emit ?l ! i)" by blast
  then show ?case
  proof cases
    case old
    from snoc.IH [OF this] show ?thesis by auto
  next
    case upd
    from snoc.IH [OF nth_mem [OF upd(1)]] upd(2) show ?thesis by (auto simp: stamped_def)
  qed (auto simp: stamped_def)
qed simp

lemma distinct_by_key:
  assumes "\<And>k. length (filter (\<lambda>x. Q x \<and> f x = k) xs) \<le> 1"
  shows "distinct (map f (filter Q xs))"
  using assms
proof (induction xs)
  case (Cons x xs)
  have "length (filter (\<lambda>x. Q x \<and> f x = k) xs) \<le> 1" for k
    using Cons.prems [of k] by (auto split: if_splits)
  with Cons.IH have "distinct (map f (filter Q xs))" by blast
  moreover have "f x \<notin> f ` set (filter Q xs)" if "Q x"
    using Cons.prems [of "f x"] that by (auto simp: filter_empty_conv)
  ultimately show ?case by auto
qed simp

lemma batch_low:
  assumes key: "key_ok policy st ds l k" and occ: "0 < occ policy k ds"
  obtains en where "map_of (dl_state l) k = Some en"
    "de_count en = min (start_count st k + occ policy k ds) u32_max"
    "de_representative_seq en = start_rep st k"
    "start_rep st k = None \<Longrightarrow> \<exists>d. filter (mine policy k) (dl_emit l) = [d] \<and> shows_entry en d"
    "\<And>s. start_rep st k = Some s \<Longrightarrow> filter (mine policy k) (dl_emit l) = [] \<and>
       (\<exists>qs. filter (\<lambda>p. dp_seq p = s) (dl_patches l) = qs @ [patch_of s en])"
proof -
  have nz: "occ policy k ds \<noteq> 0" using occ by simp
  from key obtain en where
    en: "map_of (dl_state l) k = Some en" "de_count en = min (start_count st k + occ policy k ds) u32_max"
      "de_representative_seq en = start_rep st k"
    and c: "case start_rep st k of
         Some s \<Rightarrow> map_of (dl_batch_index l) k = None \<and>
           (\<forall>i < length (dl_emit l). \<not> mine policy k (dl_emit l ! i)) \<and>
           (\<exists>qs. filter (\<lambda>p. dp_seq p = s) (dl_patches l) = qs @ [patch_of s en])
       | None \<Rightarrow> (\<exists>i. map_of (dl_batch_index l) k = Some i \<and> i < length (dl_emit l) \<and>
           shows_entry en (dl_emit l ! i) \<and> mine policy k (dl_emit l ! i) \<and>
           (\<forall>j < length (dl_emit l). mine policy k (dl_emit l ! j) \<longrightarrow> j = i))"
    unfolding key_ok_def if_not_P [OF nz] by blast
  show ?thesis
  proof (rule that [OF en])
    assume none: "start_rep st k = None"
    from c obtain i where i: "i < length (dl_emit l)" "shows_entry en (dl_emit l ! i)"
        "mine policy k (dl_emit l ! i)" "\<forall>j < length (dl_emit l). mine policy k (dl_emit l ! j) \<longrightarrow> j = i"
      unfolding none option.case by blast
    from i(2) filter_unique [OF i(1,3,4)]
    show "\<exists>d. filter (mine policy k) (dl_emit l) = [d] \<and> shows_entry en d" by simp
  next
    fix s
    assume some: "start_rep st k = Some s"
    from c have "filter (mine policy k) (dl_emit l) = []"
      unfolding some option.case by (metis filter_False in_set_conv_nth)
    with c some show "filter (mine policy k) (dl_emit l) = [] \<and>
       (\<exists>qs. filter (\<lambda>p. dp_seq p = s) (dl_patches l) = qs @ [patch_of s en])" by simp
  qed
qed

lemma batch_mine_le_1:
  assumes "key_ok policy st ds l k"
  shows "length (filter (mine policy k) (dl_emit l)) \<le> 1"
proof (cases "occ policy k ds = 0")
  case True
  with assms have "filter (mine policy k) (dl_emit l) = []"
    unfolding key_ok_def by (metis (no_types, lifting) filter_False in_set_conv_nth)
  then show ?thesis by simp
next
  case False
  then have pos: "0 < occ policy k ds" by simp
  show ?thesis
    by (rule batch_low [OF assms pos]) (cases "start_rep st k", auto)
qed

section \<open>The contract of an event sink\<close>

text \<open>
  What the pipeline relies on. A sink hands out a new number for every row it stores, may drop
  rows at any time, and shows of a stored row its aggregate: the count and the two times, as the
  draft had them or as the last patch set them. A patch of a row that is gone does nothing.
\<close>

type_synonym aggregate = "nat \<times> timestamp option \<times> timestamp option"

definition shown ::
  "('s \<Rightarrow> nat \<Rightarrow> aggregate option) \<Rightarrow> ('s \<Rightarrow> nat set) \<Rightarrow> 's \<Rightarrow> nat \<Rightarrow> dedupe_entry \<Rightarrow> bool" where
  "shown row issued s n en \<longleftrightarrow> n \<in> issued s \<and>
     (row s n = None \<or> row s n = Some (de_count en, Some (de_first_seen en), Some (de_last_seen en)))"

text \<open>
  The rows that represent a dedupe entry show that entry's aggregate, as far as they are still
  stored, and no row represents two entries.
\<close>

definition rows_current ::
  "('s \<Rightarrow> nat \<Rightarrow> aggregate option) \<Rightarrow> ('s \<Rightarrow> nat set) \<Rightarrow> 's \<Rightarrow> dedupe \<Rightarrow> bool" where
  "rows_current row issued s dd \<longleftrightarrow>
     distinct (map fst (dd_state dd)) \<and> reps_distinct (dd_state dd) \<and>
     (\<forall>k en n. map_of (dd_state dd) k = Some en \<and> de_representative_seq en = Some n \<longrightarrow>
        shown row issued s n en)"

text \<open>Drafts that dedupe never touches, and drafts about to be emitted, each owning its key.\<close>

definition exempt :: "noise_policy \<Rightarrow> event_draft \<Rightarrow> bool" where
  "exempt policy d \<longleftrightarrow> dedupe_bypass_kind (d_kind d) \<or> \<not> low policy d"

definition pending_ok :: "bucket_id \<Rightarrow> noise_policy \<Rightarrow> dedupe \<Rightarrow> event_draft list \<Rightarrow> bool" where
  "pending_ok bkt policy dd ds \<longleftrightarrow>
     distinct (map draft_key (filter (\<lambda>d. \<not> exempt policy d) ds)) \<and>
     (\<forall>d \<in> set ds. d_bucket_id d = bkt \<and>
        (if exempt policy d then map_of (dd_state dd) (draft_key d) = None
         else \<exists>en. map_of (dd_state dd) (draft_key d) = Some en \<and> de_representative_seq en = None \<and>
           shows_entry en d))"

text \<open>No key is shared between a draft that dedupe leaves alone and one it may collapse.\<close>

definition keys_apart :: "noise_policy \<Rightarrow> dedupe \<Rightarrow> event_draft list \<Rightarrow> bool" where
  "keys_apart policy dd drafts \<longleftrightarrow>
     (\<forall>d \<in> set drafts. exempt policy d \<longrightarrow>
        map_of (dd_state dd) (draft_key d) = None \<and>
        (\<forall>d' \<in> set drafts. draft_key d' = draft_key d \<longrightarrow> exempt policy d'))"

lemma batch_state:
  assumes a: "apply_at sub dd ds policy now = Ok (dd', kept, patches)"
    and d: "distinct (map fst (dd_state dd))" "reps_distinct (dd_state dd)"
  obtains st l where "reps_distinct st" "distinct (map fst st)"
    "\<And>k. map_of (dd_state dd) k = None \<Longrightarrow> map_of st k = None"
    "l = foldl (dedupe_draft policy) (loop_start st) ds" "dd_state dd' = dl_state l" "kept = dl_emit l"
    "patches = dl_patches l" "\<And>k. key_ok policy st ds l k"
proof -
  from apply_at_loop [OF a] obtain c l where l:
    "l = foldl (dedupe_draft policy) (loop_start (retain_recent c (dd_state dd))) ds"
    "dd_state dd' = dl_state l" "kept = dl_emit l" "patches = dl_patches l" by metis
  note r = retain_recent_reps [OF d, of c]
  show ?thesis
    by (rule that [OF r retain_recent_distinct [OF d(1)] _ l])
       (simp_all add: retain_recent_map [OF d(1)] dedupe_loop_ok [OF r] l(1))
qed

lemma batch_distinct:
  assumes a: "apply_at sub dd ds policy now = Ok (dd', kept, patches)"
    and d: "distinct (map fst (dd_state dd)) \<and> reps_distinct (dd_state dd)"
  shows "distinct (map fst (dd_state dd')) \<and> reps_distinct (dd_state dd')"
proof -
  from d have d1: "distinct (map fst (dd_state dd))" and d2: "reps_distinct (dd_state dd)" by simp_all
  obtain st l where l: "reps_distinct st" "distinct (map fst st)"
    "l = foldl (dedupe_draft policy) (loop_start st) ds" "dd_state dd' = dl_state l" "\<And>k. key_ok policy st ds l k"
    by (rule batch_state [OF a d1 d2]) (rule that)
  have "start_rep (dl_state l) k = Some s \<Longrightarrow> start_rep st k = Some s" for k s
    using key_ok_entry_rep [OF l(5)] by (auto simp: start_rep_def [of "dl_state l"] split: option.splits)
  with l(1) have "reps_distinct (dl_state l)" unfolding reps_distinct_def by blast
  with dedupe_loop_keys [OF l(2)] l(3,4) show ?thesis by simp
qed

lemma batch_pending:
  assumes a: "apply_at sub dd (filter (\<lambda>d. \<not> dedupe_bypass_kind (d_kind d)) drafts) policy now = Ok (dd', kept, patches)"
    and d: "distinct (map fst (dd_state dd)) \<and> reps_distinct (dd_state dd)"
    and apart: "keys_apart policy dd drafts" and b: "\<forall>d \<in> set drafts. d_bucket_id d = bkt"
  shows "pending_ok bkt policy dd' (filter (\<lambda>d. dedupe_bypass_kind (d_kind d)) drafts @ kept)"
proof -
  let ?rest = "filter (\<lambda>d. \<not> dedupe_bypass_kind (d_kind d)) drafts"
  let ?by = "filter (\<lambda>d. dedupe_bypass_kind (d_kind d)) drafts"
  from d have d1: "distinct (map fst (dd_state dd))" and d2: "reps_distinct (dd_state dd)" by simp_all
  obtain st l where l: "reps_distinct st" "\<And>k. map_of (dd_state dd) k = None \<Longrightarrow> map_of st k = None"
    "l = foldl (dedupe_draft policy) (loop_start st) ?rest" "dd_state dd' = dl_state l" "kept = dl_emit l"
    "\<And>k. key_ok policy st ?rest l k"
    by (rule batch_state [OF a d1 d2]) (rule that)
  have origin: "\<exists>d \<in> set ?rest. draft_key x = draft_key d \<and> d_severity x = d_severity d \<and> d_kind x = d_kind d \<and>
      d_bucket_id x = d_bucket_id d" if "x \<in> set kept" for x
    using dedupe_loop_origin [OF l(1)] that l(3,5) by blast
  have none: "map_of (dd_state dd') (draft_key x) = None" if x: "x \<in> set drafts" "exempt policy x" for x
  proof -
    from apart x have k: "map_of (dd_state dd) (draft_key x) = None"
      "\<forall>d' \<in> set drafts. draft_key d' = draft_key x \<longrightarrow> exempt policy d'" by (auto simp: keys_apart_def)
    then have "occ policy (draft_key x) ?rest = 0"
      by (auto simp: occ_def mine_def exempt_def filter_empty_conv)
    with l(6) [of "draft_key x"] l(2) [OF k(1)] l(4) show ?thesis by (simp add: key_ok_def)
  qed
  have low_entry: "\<exists>en. map_of (dd_state dd') (draft_key x) = Some en \<and> de_representative_seq en = None \<and>
      shows_entry en x" if x: "x \<in> set kept" "low policy x" for x
  proof -
    from origin [OF x(1)] x(2) have pos: "0 < occ policy (draft_key x) ?rest"
      by (fastforce simp: occ_def mine_def low_def filter_empty_conv)
    have m: "x \<in> set (filter (mine policy (draft_key x)) (dl_emit l))" using x l(5) by (simp add: mine_def)
    obtain en where en: "map_of (dl_state l) (draft_key x) = Some en"
      "de_representative_seq en = start_rep st (draft_key x)"
      "start_rep st (draft_key x) = None \<Longrightarrow>
         \<exists>d. filter (mine policy (draft_key x)) (dl_emit l) = [d] \<and> shows_entry en d"
      "\<And>s. start_rep st (draft_key x) = Some s \<Longrightarrow> filter (mine policy (draft_key x)) (dl_emit l) = []"
      by (rule batch_low [OF l(6) pos]) (rule that, auto)
    have none: "start_rep st (draft_key x) = None"
      using en(4) m by (cases "start_rep st (draft_key x)") auto
    obtain y where "filter (mine policy (draft_key x)) (dl_emit l) = [y]" "shows_entry en y"
      using en(3) [OF none] by blast
    with m have "shows_entry en x" by (metis list.set_intros(1) list.simps(15) empty_iff empty_set insert_iff)
    with en(1,2) none l(4) show ?thesis by simp
  qed
  have "distinct (map draft_key (filter (\<lambda>d. \<not> exempt policy d) kept))"
  proof (rule distinct_by_key)
    fix k
    have "\<not> dedupe_bypass_kind (d_kind x)" if "x \<in> set kept" for x
      using origin [OF that] by auto
    then have "filter (\<lambda>x. \<not> exempt policy x \<and> draft_key x = k) kept = filter (mine policy k) kept"
      by (intro filter_cong) (auto simp: exempt_def mine_def)
    then show "length (filter (\<lambda>x. \<not> exempt policy x \<and> draft_key x = k) kept) \<le> 1"
      using batch_mine_le_1 [OF l(6)] l(5) by simp
  qed
  moreover have "filter (\<lambda>d. \<not> exempt policy d) ?by = []" by (auto simp: filter_empty_conv exempt_def)
  moreover have "d_bucket_id x = bkt \<and>
        (if exempt policy x then map_of (dd_state dd') (draft_key x) = None
         else \<exists>en. map_of (dd_state dd') (draft_key x) = Some en \<and> de_representative_seq en = None \<and>
           shows_entry en x)" if x: "x \<in> set (?by @ kept)" for x
  proof (cases "x \<in> set ?by")
    case True
    with b none show ?thesis by (auto simp: exempt_def)
  next
    case False
    with x have k: "x \<in> set kept" by auto
    from origin [OF k] obtain d0 where d0: "d0 \<in> set drafts" "\<not> dedupe_bypass_kind (d_kind d0)"
      "draft_key x = draft_key d0" "d_severity x = d_severity d0" "d_kind x = d_kind d0"
      "d_bucket_id x = d_bucket_id d0" by auto
    have e: "exempt policy x = exempt policy d0" "low policy x = low policy d0"
      using d0(4,5) by (simp_all add: exempt_def low_def)
    show ?thesis
      using none [OF d0(1)] low_entry [OF k] d0 e b by (auto simp: exempt_def)
  qed
  ultimately show ?thesis by (auto simp: pending_ok_def)
qed

locale event_sink =
  fixes emit :: "'s sink_emit" and patch :: "'s sink_patch"
    and row :: "'s \<Rightarrow> nat \<Rightarrow> aggregate option"
    and issued :: "'s \<Rightarrow> nat set"
    and ok :: "'s \<Rightarrow> bool"
    and bkt :: bucket_id
  assumes emit_ok: "ok s \<Longrightarrow> d_bucket_id d = bkt \<Longrightarrow> ok (fst (emit s d))"
    and emit_fails: "ok s \<Longrightarrow> d_bucket_id d = bkt \<Longrightarrow> emit s d = (s', None) \<Longrightarrow>
      row s' = row s \<and> issued s' = issued s"
    and emit_stores: "ok s \<Longrightarrow> d_bucket_id d = bkt \<Longrightarrow> emit s d = (s', Some n) \<Longrightarrow>
      n \<notin> issued s \<and> issued s' = insert n (issued s) \<and>
      (\<forall>m. m \<noteq> n \<longrightarrow> row s' m = None \<or> row s' m = row s m) \<and>
      (row s' n = None \<or> row s' n = Some (d_count d, d_first_seen d, d_last_seen d))"
    and patch_ok: "ok s \<Longrightarrow> ok (patch s bkt p)"
    and patch_row: "ok s \<Longrightarrow> dp_seq p \<in> issued s \<Longrightarrow> issued (patch s bkt p) = issued s \<and>
      row (patch s bkt p) =
        (if row s (dp_seq p) = None then row s
         else (row s)(dp_seq p \<mapsto> (dp_count p, Some (dp_first_seen p), Some (dp_last_seen p))))"
begin

lemma patches_row:
  "ok s \<Longrightarrow> \<forall>p \<in> set ps. dp_seq p \<in> issued s \<Longrightarrow>
   ok (foldl (\<lambda>s p. patch s bkt p) s ps) \<and> issued (foldl (\<lambda>s p. patch s bkt p) s ps) = issued s \<and>
   row (foldl (\<lambda>s p. patch s bkt p) s ps) n =
     (if row s n = None then None
      else case rev (filter (\<lambda>p. dp_seq p = n) ps) of [] \<Rightarrow> row s n
        | p # _ \<Rightarrow> Some (dp_count p, Some (dp_first_seen p), Some (dp_last_seen p)))"
proof (induction ps arbitrary: s rule: rev_induct)
  case (snoc p ps)
  then show ?case
    using patch_ok [of "foldl (\<lambda>s p. patch s bkt p) s ps" p]
      patch_row [of "foldl (\<lambda>s p. patch s bkt p) s ps" p]
    by (auto split: list.splits)
qed simp

lemma patched_current:
  assumes ok: "ok s" and cur: "rows_current row issued s dd"
    and a: "apply_at sub dd drafts policy now = Ok (dd', kept, patches)"
  shows "ok (foldl (\<lambda>s p. patch s bkt p) s patches)"
    "\<And>k en n. map_of (dd_state dd') k = Some en \<Longrightarrow> de_representative_seq en = Some n \<Longrightarrow>
       shown row issued (foldl (\<lambda>s p. patch s bkt p) s patches) n en"
proof -
  from ok cur have c: "ok s" "distinct (map fst (dd_state dd))" "reps_distinct (dd_state dd)"
    by (simp_all add: rows_current_def)
  from apply_at_loop [OF a] obtain c l where l:
    "l = foldl (dedupe_draft policy) (loop_start (retain_recent c (dd_state dd))) drafts"
    "dd_state dd' = dl_state l" "patches = dl_patches l" by metis
  let ?st = "retain_recent c (dd_state dd)"
  let ?s = "foldl (\<lambda>s p. patch s bkt p) s patches"
  have reps: "reps_distinct ?st" by (rule retain_recent_reps [OF c(2,3)])
  have "dp_seq p \<in> issued s" if "p \<in> set patches" for p
  proof -
    from dedupe_loop_patches [OF reps, of p policy drafts] that l(1,3)
    obtain k where "start_rep ?st k = Some (dp_seq p)" by blast
    then have "\<exists>en. map_of (dd_state dd) k = Some en \<and> de_representative_seq en = Some (dp_seq p)"
      by (auto simp: start_rep_def retain_recent_map [OF c(2)] split: option.splits if_splits)
    with cur show ?thesis by (auto simp: rows_current_def shown_def)
  qed
  then have rows: "ok ?s \<and> issued ?s = issued s \<and> row ?s n =
      (if row s n = None then None
       else case rev (filter (\<lambda>p. dp_seq p = n) patches) of [] \<Rightarrow> row s n
         | p # _ \<Rightarrow> Some (dp_count p, Some (dp_first_seen p), Some (dp_last_seen p)))" for n
    using patches_row [OF c(1), of patches n] by blast
  show "ok ?s" using rows by blast
  fix k en n
  assume en: "map_of (dd_state dd') k = Some en" "de_representative_seq en = Some n"
  note key = dedupe_loop_ok [OF reps, of policy drafts k, folded l(1)]
  have rep: "start_rep ?st k = Some n"
    using key_ok_entry_rep [OF key] en l(2) by simp
  then obtain en0 where en0: "map_of ?st k = Some en0" "de_representative_seq en0 = Some n"
    by (auto simp: start_rep_def split: option.splits)
  then have "map_of (dd_state dd) k = Some en0"
    by (auto simp: retain_recent_map [OF c(2)] split: option.splits if_splits)
  with cur en0(2) have sh: "shown row issued s n en0" by (auto simp: rows_current_def)
  show "shown row issued ?s n en"
  proof (cases "occ policy k drafts = 0")
    case True
    with key l(2) en(1) en0(1) have "en = en0" by (simp add: key_ok_def)
    moreover have "filter (\<lambda>p. dp_seq p = n) patches = []"
    proof -
      have "dp_seq p \<noteq> n" if "p \<in> set patches" for p
        using dedupe_loop_patches [OF reps, of p policy drafts] that l(1,3) rep reps True
        unfolding reps_distinct_def by (metis less_irrefl)
      then show ?thesis by (simp add: filter_empty_conv)
    qed
    ultimately show ?thesis using sh rows [of n] by (auto simp: shown_def)
  next
    case False
    with key rep l(2,3) en(1) obtain qs where "filter (\<lambda>p. dp_seq p = n) patches = qs @ [patch_of n en]"
      unfolding key_ok_def if_not_P [OF False] by (auto simp: key_ok_def)
    with sh rows [of n] show ?thesis by (auto simp: shown_def patch_of_def)
  qed
qed

lemma emit_keeps_shown:
  assumes "ok s" and "d_bucket_id d = bkt" and "emit s d = (s', r)" and "shown row issued s n en"
  shows "shown row issued s' n en"
proof (cases r)
  case None
  with emit_fails [OF assms(1,2)] assms(3,4) show ?thesis by (simp add: shown_def)
next
  case (Some m)
  from emit_stores [OF assms(1,2)] assms(3) Some
  have "m \<notin> issued s" "issued s' = insert m (issued s)"
    "\<forall>k. k \<noteq> m \<longrightarrow> row s' k = None \<or> row s' k = row s k" by blast+
  with assms(4) show ?thesis by (auto simp: shown_def)
qed

lemma emit_one_current:
  assumes ok: "ok s" and cur: "rows_current row issued s dd" and pend: "pending_ok bkt policy dd (d # ds)"
  obtains dd' s' m' where "emit_one emit (dd, s, m) d = (dd', s', m')" "ok s'"
    "rows_current row issued s' dd'" "pending_ok bkt policy dd' ds"
proof -
  obtain s' r where e: "emit s d = (s', r)" by fastforce
  have b: "d_bucket_id d = bkt" using pend by (simp add: pending_ok_def)
  have ok': "ok s'" using emit_ok [OF ok b] e by simp
  have cur': "rows_current row issued s' dd"
    using cur emit_keeps_shown [OF ok b e] unfolding rows_current_def by blast
  have pend': "pending_ok bkt policy dd ds"
    using pend by (auto simp: pending_ok_def split: if_splits)
  show ?thesis
  proof (cases "r = None \<or> exempt policy d")
    case True
    then have "fst (emit_one emit (dd, s, m) d) = dd" "fst (snd (emit_one emit (dd, s, m) d)) = s'"
      using e pend by (auto simp: emit_one_def register_emitted_def pending_ok_def split: option.splits)
    with that [OF _ ok' cur' pend'] show ?thesis by (metis prod.collapse)
  next
    case False
    then obtain n where n: "r = Some n" by auto
    from pend False obtain en where en: "map_of (dd_state dd) (draft_key d) = Some en"
      "de_representative_seq en = None" "shows_entry en d" by (auto simp: pending_ok_def)
    let ?dd = "dd\<lparr>dd_state := AList.update (draft_key d) (en\<lparr>de_representative_seq := Some n\<rparr>) (dd_state dd)\<rparr>"
    have one: "emit_one emit (dd, s, m) d = (?dd, s', sat_add_u64 m 1)"
      using e n en(1) by (simp add: emit_one_def register_emitted_def)
    note st = emit_stores [OF ok b, of s' n]
    have fresh: "n \<notin> issued s" using st e n by simp
    have old: "m' \<noteq> n" if "map_of (dd_state dd) k = Some e'" "de_representative_seq e' = Some m'" for k e' m'
      using that cur fresh unfolding rows_current_def shown_def by blast
    have new: "shown row issued s' n (en\<lparr>de_representative_seq := Some n\<rparr>)"
      using st e n en(3) by (auto simp: shown_def shows_entry_def)
    have reps: "start_rep (dd_state ?dd) k = (if k = draft_key d then Some n else start_rep (dd_state dd) k)" for k
      by (simp add: start_rep_def update_conv')
    have "start_rep (dd_state dd) k \<noteq> Some n" for k
      using old by (auto simp: start_rep_def split: option.splits)
    then have rd: "reps_distinct (dd_state ?dd)"
      using cur' unfolding reps_distinct_def reps rows_current_def by (auto split: if_splits)
    have "rows_current row issued s' ?dd"
      using cur' new rd by (auto simp: rows_current_def update_conv' distinct_update split: if_splits)
    moreover have "pending_ok bkt policy ?dd ds"
    proof -
      have "draft_key x \<noteq> draft_key d" if "x \<in> set ds" for x
      proof (cases "exempt policy x")
        case True
        with pend that have "map_of (dd_state dd) (draft_key x) = None" by (simp add: pending_ok_def)
        with en(1) show ?thesis by force
      next
        case ne: False
        from pend False have "draft_key d \<notin> draft_key ` set (filter (\<lambda>d. \<not> exempt policy d) ds)"
          by (simp add: pending_ok_def)
        moreover have "draft_key x \<in> draft_key ` set (filter (\<lambda>d. \<not> exempt policy d) ds)"
          using that ne by simp
        ultimately show ?thesis by metis
      qed
      with pend' show ?thesis unfolding pending_ok_def by (simp add: update_conv')
    qed
    ultimately show ?thesis using that [OF one ok'] by blast
  qed
qed

lemma emit_all_current:
  "ok s \<Longrightarrow> rows_current row issued s dd \<Longrightarrow> pending_ok bkt policy dd ds \<Longrightarrow>
   foldl (emit_one emit) (dd, s, m) ds = (dd', s', m') \<Longrightarrow> ok s' \<and> rows_current row issued s' dd'"
proof (induction ds arbitrary: dd s m)
  case (Cons d ds)
  obtain dd1 s1 m1 where "emit_one emit (dd, s, m) d = (dd1, s1, m1)" "ok s1"
    "rows_current row issued s1 dd1" "pending_ok bkt policy dd1 ds"
    by (rule emit_one_current [OF Cons.prems(1-3)])
  with Cons show ?case by simp
qed simp


lemma suppress_and_emit_current:
  assumes ok: "ok s" and cur: "rows_current row issued s (pl_dedupe pl)"
    and b: "\<forall>d \<in> set drafts. d_bucket_id d = bkt"
    and apart: "keys_apart (pl_policy pl) (pl_dedupe pl) drafts"
    and run: "suppress_and_emit sub now emit patch pl bkt s metrics emitted drafts = Ok fr"
  shows "ok (fr_sink fr) \<and> rows_current row issued (fr_sink fr) (pl_dedupe (fr_pipeline fr))"
proof -
  let ?policy = "pl_policy pl"
  let ?bypass = "filter (\<lambda>d. dedupe_bypass_kind (d_kind d)) drafts"
  let ?rest = "filter (\<lambda>d. \<not> dedupe_bypass_kind (d_kind d)) drafts"
  from run obtain dd kept patches where a: "apply_at sub (pl_dedupe pl) ?rest ?policy now = Ok (dd, kept, patches)"
    by (auto simp: suppress_and_emit_def Let_def and_then_Ok_iff)
  let ?s1 = "foldl (\<lambda>s p. patch s bkt p) s patches"
  obtain dd' s' m' where f: "foldl (emit_one emit) (dd, ?s1, emitted) (?bypass @ kept) = (dd', s', m')"
    by (metis prod_cases3)
  from run a f have fr: "fr_sink fr = s'" "pl_dedupe (fr_pipeline fr) = dd'"
    by (auto simp: suppress_and_emit_def Let_def)
  have "rows_current row issued ?s1 dd"
    using patched_current(2) [OF ok cur a] batch_distinct [OF a] cur unfolding rows_current_def by blast
  moreover have "pending_ok bkt ?policy dd (?bypass @ kept)"
    using cur by (intro batch_pending [OF a _ apart b]) (simp add: rows_current_def)
  ultimately show ?thesis
    using emit_all_current [OF patched_current(1) [OF ok cur a] _ _ f] fr by blast
qed

end

section \<open>The two sinks meet the contract\<close>

definition memory_row :: "event_draft list \<Rightarrow> nat \<Rightarrow> aggregate option" where
  "memory_row g n = (if 0 < n \<and> n \<le> length g
     then Some (d_count (g ! (n - 1)), d_first_seen (g ! (n - 1)), d_last_seen (g ! (n - 1))) else None)"

definition memory_issued :: "event_draft list \<Rightarrow> nat set" where
  "memory_issued g = {1 .. length g}"

definition daemon_row :: "bucket_id \<Rightarrow> daemon_sink \<Rightarrow> nat \<Rightarrow> aggregate option" where
  "daemon_row b s n =
     (case map_of (ro_buckets (ds_router s)) b of
        None \<Rightarrow> None
      | Some bi \<Rightarrow> map_option (\<lambda>ev. (ev_count ev, ev_first_seen ev, ev_last_seen ev))
          (find (\<lambda>ev. ev_seq ev = n) (bi_events bi)))"

definition daemon_issued :: "bucket_id \<Rightarrow> daemon_sink \<Rightarrow> nat set" where
  "daemon_issued b s =
     (case map_of (ro_buckets (ds_router s)) b of
        None \<Rightarrow> {} | Some bi \<Rightarrow> {n. n \<le> bs_tail_seq (bi_state bi)})"

definition daemon_ok :: "daemon_sink \<Rightarrow> bool" where
  "daemon_ok s \<longleftrightarrow> manager_inv (ro_buckets (ds_router s))"

lemma find_seq_drop:
  assumes "distinct (map ev_seq es)"
  shows "find (\<lambda>ev. ev_seq ev = n) (drop k es) = None \<or>
    find (\<lambda>ev. ev_seq ev = n) (drop k es) = find (\<lambda>ev. ev_seq ev = n) es"
  using assms
proof (induction es arbitrary: k)
  case (Cons e es)
  show ?case
  proof (cases k)
    case (Suc j)
    show ?thesis
    proof (cases "ev_seq e = n")
      case True
      with Cons.prems have "n \<notin> ev_seq ` set es" by auto
      then have "find (\<lambda>ev. ev_seq ev = n) (drop j es) = None"
        unfolding find_None_iff by (metis image_eqI in_set_dropD)
      with Suc show ?thesis by simp
    next
      case False
      with Cons Suc show ?thesis by simp
    qed
  qed simp
qed simp

lemma find_patch_first:
  "patch_first s f es = Some es' \<Longrightarrow> (\<And>e. ev_seq (f e) = ev_seq e) \<Longrightarrow>
   find (\<lambda>ev. ev_seq ev = n) es' = (if n = s then map_option f (find (\<lambda>ev. ev_seq ev = n) es)
     else find (\<lambda>ev. ev_seq ev = n) es)"
  by (induction s f es arbitrary: es' rule: patch_first.induct) (auto split: if_splits)

lemma find_seq_None: "find (\<lambda>ev. ev_seq ev = n) es = None \<longleftrightarrow> n \<notin> ev_seq ` set es"
  by (auto simp: find_None_iff)

interpretation memory_sink: event_sink memory_emit memory_patch memory_row memory_issued "\<lambda>_. True" b for b
proof unfold_locales
  fix s :: "event_draft list" and p :: dedupe_patch
  assume "dp_seq p \<in> memory_issued s"
  then show "memory_issued (memory_patch s b p) = memory_issued s \<and>
      memory_row (memory_patch s b p) =
        (if memory_row s (dp_seq p) = None then memory_row s
         else (memory_row s)(dp_seq p \<mapsto> (dp_count p, Some (dp_first_seen p), Some (dp_last_seen p))))"
    by (auto simp: memory_issued_def memory_patch_def memory_row_def Let_def fun_eq_iff nth_list_update)
qed (auto simp: memory_emit_def memory_issued_def memory_row_def nth_append)

lemma daemon_emit_Some:
  assumes "daemon_emit env job s d = (s', Some n)"
  obtains m where "append_event (ro_buckets (ds_router s)) (d_bucket_id d)
      (into_signal_event (snd (env (ds_calls s))) d 0) = Ok (m, n)"
    "ro_buckets (ds_router s') = m"
  using assms
  by (auto simp: daemon_emit_def bucket_append_def on_buckets_def Let_def record_audit_def and_then_Ok_iff
      split: outcome.splits prod.splits)

lemma daemon_emit_None:
  assumes "daemon_emit env job s d = (s', None)"
  shows "ro_buckets (ds_router s') = ro_buckets (ds_router s)"
  using assms
  by (auto simp: daemon_emit_def bucket_append_def on_buckets_def Let_def record_audit_def
      split: outcome.splits prod.splits)

lemma append_event_find:
  assumes inv: "bucket_inv bi" and s: "assign_seq b ev bi = Ok s" "ev_seq ev = 0"
  defines "bi' \<equiv> push_event (ev\<lparr>ev_seq := s\<rparr>) bi"
  shows "m \<noteq> s \<Longrightarrow> find (\<lambda>ev. ev_seq ev = m) (bi_events bi') = None \<or>
      find (\<lambda>ev. ev_seq ev = m) (bi_events bi') = find (\<lambda>ev. ev_seq ev = m) (bi_events bi)"
    "find (\<lambda>ev. ev_seq ev = s) (bi_events bi') = None \<or>
      find (\<lambda>ev. ev_seq ev = s) (bi_events bi') = Some (ev\<lparr>ev_seq := s\<rparr>)"
    "s \<notin> {n. n \<le> bs_tail_seq (bi_state bi)}"
    "{n. n \<le> bs_tail_seq (bi_state bi')} = insert s {n. n \<le> bs_tail_seq (bi_state bi)}"
proof -
  let ?es = "bi_events bi @ [ev\<lparr>ev_seq := s\<rparr>]"
  have sq: "s = Suc (bs_tail_seq (bi_state bi))" using assign_seq_Ok [OF s(1)] s(2) by simp
  have so: "seqs_ok bi" using inv by (simp add: bucket_inv_def bucket_core_def)
  then have d: "distinct (map ev_seq ?es)"
    using sq strict_sorted_iff by (fastforce simp: seqs_ok_def)
  have new: "find (\<lambda>ev. ev_seq ev = m) ?es =
      (if m = s then Some (ev\<lparr>ev_seq := s\<rparr>) else find (\<lambda>ev. ev_seq ev = m) (bi_events bi))" for m
  proof -
    have "distinct (map ev_seq (es @ [x])) \<Longrightarrow> find (\<lambda>ev. ev_seq ev = m) (es @ [x]) =
        (if m = ev_seq x then Some x else find (\<lambda>ev. ev_seq ev = m) es)" for es and x :: signal_event
      by (induction es) auto
    from this [OF d] show ?thesis by simp
  qed
  show "m \<noteq> s \<Longrightarrow> find (\<lambda>ev. ev_seq ev = m) (bi_events bi') = None \<or>
      find (\<lambda>ev. ev_seq ev = m) (bi_events bi') = find (\<lambda>ev. ev_seq ev = m) (bi_events bi)"
    "find (\<lambda>ev. ev_seq ev = s) (bi_events bi') = None \<or>
      find (\<lambda>ev. ev_seq ev = s) (bi_events bi') = Some (ev\<lparr>ev_seq := s\<rparr>)"
    using find_seq_drop [OF d, of m] find_seq_drop [OF d, of s] new unfolding bi'_def push_event_frame by metis+
  show "s \<notin> {n. n \<le> bs_tail_seq (bi_state bi)}"
    "{n. n \<le> bs_tail_seq (bi_state bi')} = insert s {n. n \<le> bs_tail_seq (bi_state bi)}"
    using sq by (auto simp: bi'_def)
qed

lemma daemon_emit_stores:
  assumes ok: "daemon_ok s" and b: "d_bucket_id d = b" and e: "daemon_emit env job s d = (s', Some n)"
  shows "n \<notin> daemon_issued b s \<and> daemon_issued b s' = insert n (daemon_issued b s) \<and>
    (\<forall>m. m \<noteq> n \<longrightarrow> daemon_row b s' m = None \<or> daemon_row b s' m = daemon_row b s m) \<and>
    (daemon_row b s' n = None \<or> daemon_row b s' n = Some (d_count d, d_first_seen d, d_last_seen d))"
proof -
  let ?ev = "into_signal_event (snd (env (ds_calls s))) d 0"
  obtain m where m: "append_event (ro_buckets (ds_router s)) b ?ev = Ok (m, n)" "ro_buckets (ds_router s') = m"
    by (rule daemon_emit_Some [OF e]) (use b that in auto)
  obtain bi where bi: "map_of (ro_buckets (ds_router s)) b = Some bi" "assign_seq b ?ev bi = Ok n"
    "m = AList.update b (push_event (?ev\<lparr>ev_seq := n\<rparr>) bi) (ro_buckets (ds_router s))"
    by (rule append_event_Ok [OF m(1)]) (rule that)
  have inv: "bucket_inv bi" using ok manager_invD(1) bi(1) by (auto simp: daemon_ok_def)
  have z: "ev_seq ?ev = 0" by (simp add: into_signal_event_def)
  define bi' where "bi' = push_event (?ev\<lparr>ev_seq := n\<rparr>) bi"
  note f = append_event_find [OF inv bi(2) z, folded bi'_def]
  let ?agg = "\<lambda>ev :: signal_event. (ev_count ev, ev_first_seen ev, ev_last_seen ev)"
  have b': "map_of (ro_buckets (ds_router s')) b = Some bi'"
    using m(2) bi(3) by (simp add: update_conv' bi'_def)
  have row': "daemon_row b s' k = map_option ?agg (find (\<lambda>ev. ev_seq ev = k) (bi_events bi'))"
    and row: "daemon_row b s k = map_option ?agg (find (\<lambda>ev. ev_seq ev = k) (bi_events bi))" for k
    using b' bi(1) by (simp_all add: daemon_row_def)
  have "daemon_row b s' k = None \<or> daemon_row b s' k = daemon_row b s k" if "k \<noteq> n" for k
    using f(1) [OF that] unfolding row row' by auto
  moreover have "?agg (?ev\<lparr>ev_seq := n\<rparr>) = (d_count d, d_first_seen d, d_last_seen d)"
    by (simp add: into_signal_event_def)
  then have "daemon_row b s' n = None \<or> daemon_row b s' n = Some (d_count d, d_first_seen d, d_last_seen d)"
    using f(2) unfolding row' by auto
  ultimately show ?thesis
    using f(3,4) b' bi(1) by (simp add: daemon_issued_def)
qed

lemma daemon_patch_buckets:
  "ro_buckets (ds_router (daemon_patch env s b p)) =
     (case patch_event_aggregation (ro_buckets (ds_router s)) b (dp_seq p) (dp_count p)
         (dp_first_seen p) (dp_last_seen p) of
        Ok m \<Rightarrow> m | _ \<Rightarrow> ro_buckets (ds_router s))"
  by (auto simp: daemon_patch_def bucket_patch_aggregation_def on_buckets_def Let_def record_audit_def
      split: outcome.splits)

lemma daemon_patch_row:
  assumes ok: "daemon_ok s"
  shows "daemon_issued b (daemon_patch env s b p) = daemon_issued b s \<and>
    daemon_row b (daemon_patch env s b p) =
      (if daemon_row b s (dp_seq p) = None then daemon_row b s
       else (daemon_row b s)(dp_seq p \<mapsto> (dp_count p, Some (dp_first_seen p), Some (dp_last_seen p))))"
proof (cases "map_of (ro_buckets (ds_router s)) b")
  case None
  then have "patch_event_aggregation (ro_buckets (ds_router s)) b (dp_seq p) (dp_count p)
      (dp_first_seen p) (dp_last_seen p) = Err (NotFound b)"
    by (simp add: patch_event_aggregation_def bucket_def)
  then have "ro_buckets (ds_router (daemon_patch env s b p)) = ro_buckets (ds_router s)"
    by (simp add: daemon_patch_buckets)
  with None show ?thesis by (simp add: daemon_issued_def daemon_row_def [abs_def])
next
  case (Some bi)
  let ?f = "\<lambda>e. e\<lparr>ev_count := dp_count p, ev_first_seen := Some (dp_first_seen p),
      ev_last_seen := Some (dp_last_seen p)\<rparr>"
  show ?thesis
  proof (cases "patch_first (dp_seq p) ?f (bi_events bi)")
    case None
    with Some have "ro_buckets (ds_router (daemon_patch env s b p)) = ro_buckets (ds_router s)"
      by (simp add: daemon_patch_buckets patch_event_aggregation_def bucket_def)
    moreover have "find (\<lambda>ev. ev_seq ev = dp_seq p) (bi_events bi) = None"
      using None by (simp add: patch_first_None find_seq_None)
    ultimately show ?thesis using Some by (simp add: daemon_issued_def daemon_row_def [abs_def])
  next
    case es: (Some es)
    with Some have m: "ro_buckets (ds_router (daemon_patch env s b p)) =
        AList.update b (bi\<lparr>bi_events := es,
          bi_dedupe_collapsed_count := sat_add_u64 (bi_dedupe_collapsed_count bi) 1\<rparr>) (ro_buckets (ds_router s))"
      by (simp add: daemon_patch_buckets patch_event_aggregation_def bucket_def)
    obtain e where e: "find (\<lambda>ev. ev_seq ev = dp_seq p) (bi_events bi) = Some e"
      using es patch_first_None [of "dp_seq p" ?f "bi_events bi"] find_seq_None [of "dp_seq p" "bi_events bi"]
      by (cases "find (\<lambda>ev. ev_seq ev = dp_seq p) (bi_events bi)") auto
    note fp = find_patch_first [OF es]
    show ?thesis
      using Some m e by (auto simp: daemon_issued_def daemon_row_def fun_eq_iff update_conv' fp)
  qed
qed

interpretation daemon_sink: event_sink "daemon_emit env job" "daemon_patch env" "daemon_row b"
  "daemon_issued b" daemon_ok b for env job b
proof unfold_locales
  fix s s' n and d :: event_draft
  assume ok: "daemon_ok s" and b: "d_bucket_id d = b"
  show "daemon_ok (fst (daemon_emit env job s d))"
  proof (cases "daemon_emit env job s d")
    case (Pair s1 r)
    show ?thesis
    proof (cases r)
      case None
      with Pair ok show ?thesis by (simp add: daemon_ok_def daemon_emit_None)
    next
      case (Some k)
      obtain m where m: "append_event (ro_buckets (ds_router s)) (d_bucket_id d)
          (into_signal_event (snd (env (ds_calls s))) d 0) = Ok (m, k)" "ro_buckets (ds_router s1) = m"
        by (rule daemon_emit_Some [OF Pair [unfolded Some]]) (rule that)
      have "manager_inv m"
        by (rule append_event_inv [OF _ _ m(1)]) (use ok in \<open>simp_all add: daemon_ok_def into_signal_event_def\<close>)
      with Pair m(2) show ?thesis by (simp add: daemon_ok_def)
    qed
  qed
  show "daemon_row b s' = daemon_row b s \<and> daemon_issued b s' = daemon_issued b s"
    if "daemon_emit env job s d = (s', None)"
    using daemon_emit_None [OF that] by (simp add: daemon_row_def [abs_def] daemon_issued_def)
  show "n \<notin> daemon_issued b s \<and> daemon_issued b s' = insert n (daemon_issued b s) \<and>
      (\<forall>m. m \<noteq> n \<longrightarrow> daemon_row b s' m = None \<or> daemon_row b s' m = daemon_row b s m) \<and>
      (daemon_row b s' n = None \<or> daemon_row b s' n = Some (d_count d, d_first_seen d, d_last_seen d))"
    if "daemon_emit env job s d = (s', Some n)"
    by (rule daemon_emit_stores [OF ok b that])
next
  fix s and p :: dedupe_patch
  assume "daemon_ok s"
  then show "daemon_ok (daemon_patch env s b p)"
    using patch_event_aggregation_inv by (auto simp: daemon_ok_def daemon_patch_buckets split: outcome.splits)
qed (rule daemon_patch_row)

text \<open>
  C18. The dedupe accounts for every draft it is given. Drafts at or above the severity limit pass
  unchanged and in order. For every key that occurs below it, the key's entry counts all its
  occurrences in the batch on top of those it still remembered (up to \<open>u32::MAX\<close>), and the total is
  made visible exactly once: on the one draft of that key that is emitted, when the key has no
  representative in the sink yet (a first occurrence, or one whose append had failed), and
  otherwise in the last patch for the representative, no draft of the key being emitted then.
\<close>

theorem dedupe_accounts_for_every_draft:
  assumes "apply_at sub dd drafts policy now = Ok (dd', kept, patches)"
    and "dedupe_cutoff sub dd drafts policy now = Some c" and "st = retain_recent c (dd_state dd)"
    and "distinct (map fst (dd_state dd))" and "reps_distinct (dd_state dd)"
  shows "filter (\<lambda>d. \<not> low policy d) kept = filter (\<lambda>d. \<not> low policy d) drafts \<and>
    (\<forall>k. 0 < occ policy k drafts \<longrightarrow>
      (\<exists>en. map_of (dd_state dd') k = Some en \<and>
        de_count en = min (start_count st k + occ policy k drafts) u32_max \<and>
        (case start_rep st k of
           None \<Rightarrow> \<exists>d. filter (mine policy k) kept = [d] \<and> shows_entry en d
         | Some s \<Rightarrow> filter (mine policy k) kept = [] \<and>
             (\<exists>qs. filter (\<lambda>p. dp_seq p = s) patches = qs @ [patch_of s en]))))"
proof -
  obtain l where l: "l = foldl (dedupe_draft policy) (loop_start st) drafts"
    "dd_state dd' = dl_state l" "kept = dl_emit l" "patches = dl_patches l"
    using apply_at_loop [OF assms(1)] assms(2,3) by (metis option.inject)
  have reps: "reps_distinct st"
    unfolding assms(3) by (rule retain_recent_reps [OF assms(4,5)])
  have "\<exists>en. map_of (dd_state dd') k = Some en \<and>
        de_count en = min (start_count st k + occ policy k drafts) u32_max \<and>
        (case start_rep st k of
           None \<Rightarrow> \<exists>d. filter (mine policy k) kept = [d] \<and> shows_entry en d
         | Some s \<Rightarrow> filter (mine policy k) kept = [] \<and>
             (\<exists>qs. filter (\<lambda>p. dp_seq p = s) patches = qs @ [patch_of s en]))"
    if "0 < occ policy k drafts" for k
    by (rule batch_low [OF dedupe_loop_ok [OF reps] that, folded l(1), folded l(2-4)]) (auto split: option.split)
  with dedupe_loop_high [OF reps] l show ?thesis by simp
qed

text \<open>Every draft of a frame goes to the bucket of the probe and carries a reading of the clock.\<close>

definition drawn :: "(nat \<Rightarrow> timestamp) \<Rightarrow> bucket_id \<Rightarrow> event_draft \<Rightarrow> bool" where
  "drawn clk b d \<longleftrightarrow> d_bucket_id d = b \<and> d_timestamp d \<in> range clk"

lemma build_draft_drawn: "build_draft e (clk i) r frame b caps injected n = Some d \<Longrightarrow> drawn clk b d"
  by (auto simp: build_draft_def drawn_def Let_def split: if_splits)

lemma push_draft_drawn:
  "list_all (drawn clk b) out \<Longrightarrow>
   list_all (drawn clk b) (push_draft (build_draft e (clk i) r frame b caps injected n) out)"
  by (auto simp: push_draft_def build_draft_drawn split: option.splits)

lemma keyword_pass_drawn:
  "keyword_pass e clk si frame b line n ms fired out = Ok out' \<Longrightarrow> list_all (drawn clk b) out \<Longrightarrow>
   list_all (drawn clk b) out'"
proof (induction ms arbitrary: fired out)
  case (Cons m ms)
  obtain j x y where m: "m = (j, x, y)" by (cases m) auto
  from Cons.prems(1) m consider (same) "keyword_pass e clk si frame b line n ms fired out = Ok out'"
    | (push) r fired' caps injected i where "keyword_pass e clk si frame b line n ms fired'
        (push_draft (build_draft e (clk i) r frame b caps injected n) out) = Ok out'"
    by (auto simp: and_then_Ok_iff case_prod_unfold split: if_splits)
  then show ?case
  proof cases
    case same
    from Cons.IH [OF this Cons.prems(2)] show ?thesis .
  next
    case push
    from Cons.IH [OF this push_draft_drawn [OF Cons.prems(2)]] show ?thesis .
  qed
qed simp

lemma regex_pass_drawn:
  "regex_pass e clk si frame b line n hits out = Ok out' \<Longrightarrow> list_all (drawn clk b) out \<Longrightarrow>
   list_all (drawn clk b) out'"
proof (induction hits arbitrary: out)
  case (Cons h hits)
  from Cons.prems(1) consider (same) "regex_pass e clk si frame b line n hits out = Ok out'"
    | (push) r caps injected i where "regex_pass e clk si frame b line n hits
        (push_draft (build_draft e (clk i) r frame b caps injected n) out) = Ok out'"
    by (auto simp: and_then_Ok_iff case_prod_unfold split: if_splits option.splits)
  then show ?case
  proof cases
    case same
    from Cons.IH [OF this Cons.prems(2)] show ?thesis .
  next
    case push
    from Cons.IH [OF this push_draft_drawn [OF Cons.prems(2)]] show ?thesis .
  qed
qed simp

lemma evaluate_drawn:
  assumes "sift_evaluate e clk si frame b = Ok out"
  shows "list_all (drawn clk b) out"
proof -
  obtain line n where tx: "sift_cap_text (f_text frame) = (line, n)" by fastforce
  from assms obtain ko where ko:
    "(case si_keyword_ac si of None \<Rightarrow> Ok []
      | Some ac \<Rightarrow> keyword_pass e clk si frame b line n (eng_find_iter e ac line)
          (replicate (length (si_keyword_rules si)) False) []) = Ok ko"
    "(case si_regex_set si of None \<Rightarrow> Ok ko
      | Some q \<Rightarrow> regex_pass e clk si frame b line n (eng_set_matches e q line) ko) = Ok out"
    by (auto simp: sift_evaluate_def tx and_then_Ok_iff)
  have "list_all (drawn clk b) ko"
    using ko(1) keyword_pass_drawn [of e clk si frame b line n _ _ "[]" ko] by (cases "si_keyword_ac si") auto
  then show ?thesis
    using ko(2) regex_pass_drawn [of e clk si frame b line n _ ko out] by (cases "si_regex_set si") auto
qed

text \<open>
  C17. The store always shows what dedupe has counted. With the daemon's sink, if before a frame
  every bucket row that represents a dedupe entry shows that entry's count and times (or has been
  evicted), then so it is after the frame, whatever drafts the frame gives: first occurrences,
  collapses within the frame, recurrences patched into older rows, appends that failed before and
  are tried again, drafts above the severity limit and password prompts. The hypothesis is that no
  dedupe key is shared by a draft that dedupe exempts and one that it may collapse.
\<close>

theorem dedupe_rows_stay_current:
  assumes "daemon_ok s" and "rows_current (daemon_row b) (daemon_issued b) s (pl_dedupe pl)"
    and "sift_evaluate e clk si frame b = Ok matched"
    and "\<forall>d \<in> set extra. d_bucket_id d = b"
    and "keys_apart (pl_policy pl) (pl_dedupe pl) (map (stamp_source ty) (matched @ extra))"
    and "process_frame e sub clk now (daemon_emit env job) (daemon_patch env) pl frame ty b si s metrics
      emitted extra = Ok fr"
  shows "daemon_ok (fr_sink fr) \<and>
    rows_current (daemon_row b) (daemon_issued b) (fr_sink fr) (pl_dedupe (fr_pipeline fr))"
proof (cases "map (stamp_source ty) (matched @ extra) = [] \<and> np_drop_progress_frames (pl_policy pl) \<and>
    is_progress_line (f_text frame)")
  case True
  with assms show ?thesis by (auto simp: process_frame_def Let_def)
next
  case False
  with assms(3,6) have run: "suppress_and_emit sub now (daemon_emit env job) (daemon_patch env) pl b s metrics
      emitted (map (stamp_source ty) (matched @ extra)) = Ok fr"
    by (auto simp: process_frame_def Let_def split: if_splits)
  have "\<forall>d \<in> set (map (stamp_source ty) (matched @ extra)). d_bucket_id d = b"
    using evaluate_drawn [OF assms(3)] assms(4) by (auto simp: stamp_source_def list_all_iff drawn_def)
  from daemon_sink.suppress_and_emit_current [OF assms(1,2) this assms(5) run] show ?thesis .
qed

text \<open>
  C38. An evicted representative silences its key. When the row that represents a live dedupe entry
  has been evicted from the bucket, a further occurrence of the key within the window changes no
  event of the bucket: it is collapsed onto the row that no longer exists, the failed patch is
  ignored, and the entry is renewed, so the signal stays invisible for as long as it keeps
  recurring.
\<close>

theorem evicted_representative_silences:
  assumes "daemon_ok s" and "map_of (ro_buckets (ds_router s)) b = Some bi"
    and "map_of (dd_state (pl_dedupe pl)) (draft_key d) = Some en"
    and "de_representative_seq en = Some n" and "n \<notin> ev_seq ` set (bi_events bi)"
    and "distinct (map fst (dd_state (pl_dedupe pl)))"
    and "dedupe_cutoff sub (pl_dedupe pl) [d] (pl_policy pl) now = Some c" and "c \<le> de_last_seen en"
    and "low (pl_policy pl) d" and "\<not> dedupe_bypass_kind (d_kind d)"
  shows "\<exists>fr. suppress_and_emit sub now (daemon_emit env job) (daemon_patch env) pl b s metrics emitted [d] = Ok fr \<and>
    ro_buckets (ds_router (fr_sink fr)) = ro_buckets (ds_router s) \<and>
    map_of (dd_state (pl_dedupe (fr_pipeline fr))) (draft_key d) = Some (entry_next d en)"
proof -
  let ?st = "retain_recent c (dd_state (pl_dedupe pl))"
  have st: "map_of ?st (draft_key d) = Some en"
    using assms(3,6,8) by (simp add: retain_recent_map)
  have step: "dedupe_draft (pl_policy pl) (loop_start ?st) d =
      (loop_start ?st)\<lparr>dl_state := AList.update (draft_key d) (entry_next d en) ?st,
        dl_patches := [patch_of n (entry_next d en)]\<rparr>"
    using dedupe_draft_repeat [OF assms(9), of "loop_start ?st" en] st assms(4) by (simp add: Let_def)
  obtain dd' where a: "apply_at sub (pl_dedupe pl) [d] (pl_policy pl) now =
      Ok (dd', [], [patch_of n (entry_next d en)])"
    and dd': "dd_state dd' = AList.update (draft_key d) (entry_next d en) ?st"
    using assms(7) step by (auto simp: apply_at_def dedupe_cutoff_def Let_def)
  have "patch_first n f (bi_events bi) = None" for f
    using assms(5) by (simp add: patch_first_None)
  then have "ro_buckets (ds_router (daemon_patch env s b (patch_of n (entry_next d en)))) = ro_buckets (ds_router s)"
    using assms(2) by (simp add: daemon_patch_buckets patch_event_aggregation_def bucket_def patch_of_def)
  with a dd' assms(10) show ?thesis
    by (simp add: suppress_and_emit_def Let_def update_conv')
qed

definition note_draft :: "timestamp \<Rightarrow> event_draft" where
  "note_draft t = (password_prompt_draft t (sample_frame ''f'' ''x'') wit_b)\<lparr>d_severity := Low, d_kind := ''note''\<rparr>"

lemma note_draft_sel [simp]:
  "d_rule (note_draft t) = None" "d_captures (note_draft t) = None"
  "dedupe_key None None ''note'' = ''<no-rule>|note|''" "d_kind (note_draft t) = ''note''"
  "d_bucket_id (note_draft t) = wit_b" "d_timestamp (note_draft t) = t" "low noise_policy_default (note_draft t)"
  "mine noise_policy_default ''<no-rule>|note|'' (note_draft t)" "\<not> exempt noise_policy_default (note_draft t)"
  by (simp_all add: note_draft_def password_prompt_draft_def dedupe_key_def low_def mine_def exempt_def
      dedupe_bypass_kind_def noise_policy_default_def severity_order)

lemma stamp_note_sel [simp]:
  "d_rule (stamp_source ty d) = d_rule d" "d_captures (stamp_source ty d) = d_captures d" "d_kind (stamp_source ty d) = d_kind d"
  "d_bucket_id (stamp_source ty d) = d_bucket_id d" "d_timestamp (stamp_source ty d) = d_timestamp d"
  "d_severity (stamp_source ty d) = d_severity d" "low policy (stamp_source ty d) = low policy d"
  "exempt policy (stamp_source ty d) = exempt policy d"
  by (simp_all add: stamp_source_def low_def exempt_def)

lemma apply_at_total:
  "dedupe_cutoff sub dd ds policy now = Some c \<Longrightarrow> \<exists>dd' kept patches. apply_at sub dd ds policy now = Ok (dd', kept, patches)"
  by (simp add: dedupe_cutoff_def apply_at_def Let_def)

lemma suppress_and_emit_total:
  assumes "dedupe_cutoff sub (pl_dedupe pl) (filter (\<lambda>d. \<not> dedupe_bypass_kind (d_kind d)) ds) (pl_policy pl) now = Some c"
  shows "\<exists>fr. suppress_and_emit sub now emit patch pl bkt s metrics emitted ds = Ok fr"
proof -
  obtain dd' kept patches where
    "apply_at sub (pl_dedupe pl) (filter (\<lambda>d. \<not> dedupe_bypass_kind (d_kind d)) ds) (pl_policy pl) now =
      Ok (dd', kept, patches)" using apply_at_total [OF assms] by blast
  then show ?thesis by (simp add: suppress_and_emit_def Let_def case_prod_unfold)
qed

text \<open>
  A pipeline whose window reaches no further back than the range of dates, and whose clock, if it has
  one, is a reading of the system clock. A new pipeline with the default window is one, and stays one.
\<close>

definition pipeline_ok :: "noise_pipeline \<Rightarrow> bool" where
  "pipeline_ok pl \<longleftrightarrow>
     int (try_from_or_max i64_max (as_secs (np_dedupe_window (pl_policy pl)))) * 1000000000 \<le> - TIME_MIN \<and>
     pred_option real_time (dd_max_seen_ts (pl_dedupe pl))"

lemma with_default_policy_ok: "pipeline_ok with_default_policy"
  by (simp add: pipeline_ok_def with_default_policy_def pipeline_new_def dedupe_new_def noise_policy_default_def
      DEFAULT_DEDUPE_WINDOW_def as_secs_def try_from_or_max_def i64_max_def TIME_MIN_def)

lemma advance_clock_real:
  "pred_option real_time c \<Longrightarrow> \<forall>d \<in> set ds. real_time (d_timestamp d) \<Longrightarrow> pred_option real_time (advance_clock c ds)"
  unfolding advance_clock_def
  by (induction ds arbitrary: c) (auto simp: real_time_def max_def split: option.splits)

lemma emit_all_clock: "dd_max_seen_ts (fst (foldl (emit_one emit) st ds)) = dd_max_seen_ts (fst st)"
  by (induction ds arbitrary: st) (auto simp: emit_one_def register_emitted_def split: prod.splits option.splits)

lemma suppress_and_emit_ok:
  assumes "sub_contract sub" and "pipeline_ok pl" and "real_time now" and "\<forall>d \<in> set ds. real_time (d_timestamp d)"
  shows "\<exists>fr. suppress_and_emit sub now emit patch pl bkt s metrics emitted ds = Ok fr \<and> pipeline_ok (fr_pipeline fr)"
proof -
  let ?rest = "filter (\<lambda>d. \<not> dedupe_bypass_kind (d_kind d)) ds"
  let ?clock = "advance_clock (dd_max_seen_ts (pl_dedupe pl)) ?rest"
  have clock: "pred_option real_time ?clock"
    using assms(2,4) by (intro advance_clock_real) (auto simp: pipeline_ok_def)
  then have "real_time (case ?clock of Some t \<Rightarrow> t | None \<Rightarrow> now)" using assms(3) by (cases ?clock) auto
  then have "\<exists>c. dedupe_cutoff sub (pl_dedupe pl) ?rest (pl_policy pl) now = Some c"
    using assms(1,2) by (auto simp: dedupe_cutoff_def sub_contract_def pipeline_ok_def real_time_def)
  then obtain c where c: "dedupe_cutoff sub (pl_dedupe pl) ?rest (pl_policy pl) now = Some c" by blast
  obtain dd kept patches where a: "apply_at sub (pl_dedupe pl) ?rest (pl_policy pl) now = Ok (dd, kept, patches)"
    using apply_at_total [OF c] by blast
  then have "dd_max_seen_ts dd = ?clock" by (auto simp: apply_at_def Let_def split: option.splits)
  with a clock assms(2) show ?thesis
    by (auto simp: suppress_and_emit_def Let_def case_prod_unfold pipeline_ok_def emit_all_clock)
qed

lemma note_cutoff:
  "dedupe_cutoff sample_sub dedupe_new [d, d'] noise_policy_default now =
     Some (max (d_timestamp d) (d_timestamp d') - 5000000000)"
  if "0 \<le> d_timestamp d"
  using that by (simp add: dedupe_cutoff_def dedupe_new_def advance_clock_def sample_sub_def
      noise_policy_default_def DEFAULT_DEDUPE_WINDOW_def as_secs_def try_from_or_max_def i64_max_def)

theorem dedupe_accounts_for_every_draft_witness:
  "\<exists>dd' kept patches d. apply_at sample_sub dedupe_new [note_draft 0, note_draft 1] noise_policy_default 1 =
      Ok (dd', kept, patches) \<and>
    filter (mine noise_policy_default ''<no-rule>|note|'') kept = [d] \<and> d_count d = 2"
proof -
  let ?ds = "[note_draft 0, note_draft 1]"
  have c: "dedupe_cutoff sample_sub dedupe_new ?ds noise_policy_default 1 = Some (- 4999999999)"
    by (simp add: note_cutoff)
  obtain dd' kept patches where a: "apply_at sample_sub dedupe_new ?ds noise_policy_default 1 = Ok (dd', kept, patches)"
    using apply_at_total [OF c] by blast
  have occ: "occ noise_policy_default ''<no-rule>|note|'' ?ds = 2" by (simp add: occ_def)
  have "\<exists>en. de_count en = 2 \<and> (\<exists>d. filter (mine noise_policy_default ''<no-rule>|note|'') kept = [d] \<and> shows_entry en d)"
    using conjunct2 [OF dedupe_accounts_for_every_draft [OF a c refl], rule_format, of "''<no-rule>|note|''"] occ
    by (auto simp: dedupe_new_def retain_recent_def reps_distinct_def start_rep_def start_count_def u32_max_def
        numeral_2_eq_2)
  with a show ?thesis by (auto simp: shows_entry_def)
qed

definition note_sink :: daemon_sink where
  "note_sink = \<lparr>ds_router = \<lparr>ro_buckets = wit_m0, ro_rings = [], ro_jobs = sample_jobs, ro_audit = audit_new\<rparr>, ds_calls = 0\<rparr>"

lemma note_sink_ok: "daemon_ok note_sink"
  using mgr_reach_inv [OF wit_m0_reach] by (simp add: daemon_ok_def note_sink_def)

theorem dedupe_rows_stay_current_witness:
  "\<exists>si fr. build_inner sample_engine [] = Ok si \<and>
     process_frame sample_engine sample_sub (\<lambda>_. 0) 1 (daemon_emit (\<lambda>k. (int k, EventId [])) (JobId ''j''))
       (daemon_patch (\<lambda>k. (int k, EventId []))) with_default_policy (sample_frame ''f'' ''x'') SProcess wit_b si
       note_sink suppression_default 0 [note_draft 0, note_draft 1] = Ok fr \<and>
     rows_current (daemon_row wit_b) (daemon_issued wit_b) (fr_sink fr) (pl_dedupe (fr_pipeline fr))"
proof -
  obtain si where si: "build_inner sample_engine [] = Ok si" "si_keyword_ac si = None" "si_regex_set si = None"
    by (simp add: build_inner_def builder_new_def build_keyword_ac_def build_regex_set_def)
  have ev: "sift_evaluate sample_engine (\<lambda>_. 0) si (sample_frame ''f'' ''x'') wit_b = Ok []"
    using si by (simp add: sift_evaluate_def case_prod_unfold)
  let ?ds = "map (stamp_source SProcess) ([] @ [note_draft 0, note_draft 1])"
  let ?env = "\<lambda>k. (int k, EventId [])"
  have c: "dedupe_cutoff sample_sub (pl_dedupe with_default_policy)
      (filter (\<lambda>d. \<not> dedupe_bypass_kind (d_kind d)) ?ds) (pl_policy with_default_policy) 1 = Some (- 4999999999)"
    by (simp add: dedupe_bypass_kind_def with_default_policy_def pipeline_new_def note_cutoff)
  obtain fr where fr: "suppress_and_emit sample_sub 1 (daemon_emit ?env (JobId ''j'')) (daemon_patch ?env)
      with_default_policy wit_b note_sink suppression_default 0 ?ds = Ok fr"
    by (rule suppress_and_emit_total [OF c, THEN exE])
  then have run: "process_frame sample_engine sample_sub (\<lambda>_. 0) 1 (daemon_emit ?env (JobId ''j''))
      (daemon_patch ?env) with_default_policy (sample_frame ''f'' ''x'') SProcess wit_b si
      note_sink suppression_default 0 [note_draft 0, note_draft 1] = Ok fr"
    using ev by (simp add: process_frame_def)
  have "rows_current (daemon_row wit_b) (daemon_issued wit_b) note_sink (pl_dedupe with_default_policy)"
    "keys_apart (pl_policy with_default_policy) (pl_dedupe with_default_policy) ?ds"
    by (simp_all add: rows_current_def with_default_policy_def pipeline_new_def dedupe_new_def reps_distinct_def
        start_rep_def keys_apart_def)
  with dedupe_rows_stay_current [OF note_sink_ok _ ev _ _ run] si(1) run show ?thesis by auto
qed

definition stale_pipeline :: noise_pipeline where
  "stale_pipeline = with_default_policy\<lparr>pl_dedupe :=
     \<lparr>dd_state = [(''<no-rule>|note|'', \<lparr>de_first_seen = 0, de_last_seen = 0, de_count = 1,
        de_representative_seq = Some 1\<rparr>)], dd_max_seen_ts = Some 0\<rparr>\<rparr>"

theorem evicted_representative_silences_witness:
  "\<exists>fr. suppress_and_emit sample_sub 1 (daemon_emit (\<lambda>k. (int k, EventId [])) (JobId ''j''))
       (daemon_patch (\<lambda>k. (int k, EventId []))) stale_pipeline wit_b note_sink suppression_default 0 [note_draft 1] = Ok fr \<and>
     ro_buckets (ds_router (fr_sink fr)) = wit_m0"
proof -
  let ?en = "\<lparr>de_first_seen = 0, de_last_seen = 0, de_count = 1, de_representative_seq = Some 1\<rparr>"
  have "map_of (ro_buckets (ds_router note_sink)) wit_b = Some (bucket_inner_new 0 wit_b bucket_config_default)"
    "bi_events (bucket_inner_new 0 wit_b bucket_config_default) = []"
    "ro_buckets (ds_router note_sink) = wit_m0"
    by (simp_all add: note_sink_def wit_m0_def bucket_inner_new_def)
  moreover have "map_of (dd_state (pl_dedupe stale_pipeline)) (draft_key (note_draft 1)) = Some ?en"
    "distinct (map fst (dd_state (pl_dedupe stale_pipeline)))" "pl_policy stale_pipeline = noise_policy_default"
    by (simp_all add: stale_pipeline_def with_default_policy_def pipeline_new_def)
  moreover have "dedupe_cutoff sample_sub (pl_dedupe stale_pipeline) [note_draft 1] noise_policy_default 1 =
      Some (- 4999999999)"
    by (simp add: dedupe_cutoff_def advance_clock_def sample_sub_def stale_pipeline_def
        noise_policy_default_def DEFAULT_DEDUPE_WINDOW_def as_secs_def try_from_or_max_def i64_max_def)
  ultimately show ?thesis
    using evicted_representative_silences [OF note_sink_ok, of wit_b _ stale_pipeline "note_draft 1" ?en 1 sample_sub 1
        "- 4999999999" "\<lambda>k. (int k, EventId [])" "JobId ''j''" suppression_default 0]
    by (auto simp: dedupe_bypass_kind_def)
qed

end
