(* ===== verification/TC_Stream.thy ===== *)
theory TC_Stream
  imports TC_Noise
begin

text \<open>
  From the bytes of a child's pipe to frames: the observation of a pipe
  (\<^verbatim>\<open>core/src/process_observation.rs\<close> and \<open>ObservedReader\<close> of \<^verbatim>\<open>probes/src/process.rs\<close>), the UTF-16
  decoder (\<^verbatim>\<open>probes/src/utf16.rs\<close>), the bounded line reader and the loop of \<open>read_stream\<close>
  (\<^verbatim>\<open>probes/src/process.rs\<close>), which decodes a line, stores it in the context ring and hands it to
  the sifter and the noise pipeline, and the escape stripper (\<^verbatim>\<open>probes/src/ansi.rs\<close>).

  A pipe is the list of what its reads will give. A read that has to wait is not a step of the
  model: the poll is repeated with nothing changed. The buffered reader between the decoder and the
  line reader is that of \<^verbatim>\<open>tokio\<close> as documented: \<open>fill_buf\<close> gives the unread bytes, and reads at most
  \<open>cap\<close> more when there are none. The terminal parser of \<^verbatim>\<open>vte\<close> is the argument \<open>vte\<close>.

  The model runs one call of \<open>read_stream\<close>. The probe runs two, for the output and the error stream of
  a child, which share the ring, the metrics and the noise pipeline under locks; the frames of the two
  calls interleave there in an order that is not modelled.
\<close>

section \<open>Observation of a pipe\<close>

text \<open>\<open>std::io::ErrorKind\<close>, as far as it is told apart, and the raw code of an OS error.\<close>

datatype io_error_kind = EkInterrupted | EkPermissionDenied | EkBrokenPipe | EkConnectionReset
  | EkUnexpectedEof | EkTimedOut | EkAnother

record io_error =
  io_kind :: io_error_kind
  io_raw_os_error :: "int option"

datatype pipe_read_error_kind = PrInterrupted | PrPermissionDenied | PrBrokenPipe | PrConnectionReset
  | PrUnexpectedEof | PrTimedOut | PrOther

record pipe_read_failure =
  prf_kind :: pipe_read_error_kind
  prf_raw_os_error :: "int option"

datatype observation_incomplete_reason = OCancelled | ODrainTimeout | ORuntimeLost

datatype stream_observation_state = ObReading | ObComplete | ObFailed pipe_read_failure
  | ObIncomplete observation_incomplete_reason

record stream_observation =
  ob_bytes_total :: nat
  ob_state :: stream_observation_state

record process_observation =
  po_stdout :: stream_observation
  po_stderr :: stream_observation

definition is_complete :: "process_observation \<Rightarrow> bool" where
  "is_complete po \<longleftrightarrow> ob_state (po_stdout po) = ObComplete \<and> ob_state (po_stderr po) = ObComplete"

datatype process_cleanup = ClRunning | ClComplete | ClReaping | ClUncertain "int option"

record process_metrics =
  pm_frames_total :: nat
  pm_frames_stdout :: nat
  pm_frames_stderr :: nat
  pm_bytes_total :: nat
  pm_last_output_at :: "timestamp option"
  pm_observation :: process_observation
  pm_cleanup :: process_cleanup
  pm_events_emitted :: nat
  pm_suppression :: suppression_metrics
  pm_last_frame_at :: "timestamp option"

definition process_metrics_default :: process_metrics where
  "process_metrics_default =
     \<lparr>pm_frames_total = 0, pm_frames_stdout = 0, pm_frames_stderr = 0, pm_bytes_total = 0,
      pm_last_output_at = None,
      pm_observation = \<lparr>po_stdout = \<lparr>ob_bytes_total = 0, ob_state = ObReading\<rparr>,
                        po_stderr = \<lparr>ob_bytes_total = 0, ob_state = ObReading\<rparr>\<rparr>,
      pm_cleanup = ClRunning, pm_events_emitted = 0, pm_suppression = suppression_default,
      pm_last_frame_at = None\<rparr>"

definition pipe_failure :: "io_error \<Rightarrow> pipe_read_failure" where
  "pipe_failure e =
     \<lparr>prf_kind = (case io_kind e of
         EkInterrupted \<Rightarrow> PrInterrupted | EkPermissionDenied \<Rightarrow> PrPermissionDenied
       | EkBrokenPipe \<Rightarrow> PrBrokenPipe | EkConnectionReset \<Rightarrow> PrConnectionReset
       | EkUnexpectedEof \<Rightarrow> PrUnexpectedEof | EkTimedOut \<Rightarrow> PrTimedOut | EkAnother \<Rightarrow> PrOther),
      prf_raw_os_error = io_raw_os_error e\<rparr>"

definition finish_stream :: "observation_incomplete_reason \<Rightarrow> stream_observation \<Rightarrow> stream_observation" where
  "finish_stream reason s = (if ob_state s = ObReading then s\<lparr>ob_state := ObIncomplete reason\<rparr> else s)"

definition finish_observation :: "process_metrics \<Rightarrow> observation_incomplete_reason \<Rightarrow> process_metrics" where
  "finish_observation m reason =
     m\<lparr>pm_observation := \<lparr>po_stdout = finish_stream reason (po_stdout (pm_observation m)),
        po_stderr = finish_stream reason (po_stderr (pm_observation m))\<rparr>\<rparr>"

text \<open>The reads of a pipe to come; after the last one every read is the end of the file.\<close>

datatype pipe_item = Bytes string | Fault io_error

type_synonym pipe = "pipe_item list"

fun pipe_read :: "nat \<Rightarrow> pipe \<Rightarrow> pipe \<times> (io_error, string) outcome" where
  "pipe_read cap [] = ([], Ok [])"
| "pipe_read cap (Fault e # p) = (p, Err e)"
| "pipe_read cap (Bytes bs # p) =
     (if length bs \<le> cap then (p, Ok bs) else (Bytes (drop cap bs) # p, Ok (take cap bs)))"

text \<open>The bookkeeping of \<open>ObservedReader::poll_read\<close> for a read that was ready.\<close>

definition observe_stream ::
  "nat \<Rightarrow> (io_error, string) outcome \<Rightarrow> nat \<Rightarrow> stream_observation \<Rightarrow> stream_observation" where
  "observe_stream cap r bytes s =
     (let s1 = s\<lparr>ob_bytes_total := sat_add_u64 (ob_bytes_total s) bytes\<rparr> in
      case r of
        Ok _ \<Rightarrow> if bytes = 0 \<and> 0 < cap then s1\<lparr>ob_state := ObComplete\<rparr> else s1
      | Err e \<Rightarrow> s1\<lparr>ob_state := ObFailed (pipe_failure e)\<rparr>
      | Panic \<Rightarrow> s1)"

definition observe ::
  "source_stream \<Rightarrow> timestamp \<Rightarrow> nat \<Rightarrow> (io_error, string) outcome \<Rightarrow> process_metrics \<Rightarrow> process_metrics" where
  "observe kind instant cap r m =
     (let bytes = (case r of Ok bs \<Rightarrow> length bs | _ \<Rightarrow> 0);
          m1 = (if 0 < bytes
                then m\<lparr>pm_bytes_total := sat_add_u64 (pm_bytes_total m) bytes,
                       pm_last_output_at := Some instant\<rparr> else m);
          ob = pm_observation m1
      in case kind of
           Stdout \<Rightarrow> m1\<lparr>pm_observation := ob\<lparr>po_stdout := observe_stream cap r bytes (po_stdout ob)\<rparr>\<rparr>
         | Stderr \<Rightarrow> m1\<lparr>pm_observation := ob\<lparr>po_stderr := observe_stream cap r bytes (po_stderr ob)\<rparr>\<rparr>
         | _ \<Rightarrow> m1)"

record probe_io =
  pi_pipe :: pipe
  pi_metrics :: process_metrics
  pi_reads :: nat

text \<open>The clock at the \<open>k\<close>-th read is \<open>inst k\<close>.\<close>

definition observed_read ::
  "(nat \<Rightarrow> timestamp) \<Rightarrow> source_stream \<Rightarrow> nat \<Rightarrow> probe_io \<Rightarrow> probe_io \<times> (io_error, string) outcome" where
  "observed_read inst kind cap io =
     (case pipe_read cap (pi_pipe io) of
        (p, r) \<Rightarrow>
          (\<lparr>pi_pipe = p, pi_metrics = observe kind (inst (pi_reads io)) cap r (pi_metrics io),
            pi_reads = Suc (pi_reads io)\<rparr>, r))"

section \<open>The UTF-16 decoder\<close>

definition RAW_CHUNK :: nat where
  "RAW_CHUNK = 8192"

definition SNIFF_WINDOW :: nat where
  "SNIFF_WINDOW = 256"

definition SNIFF_MIN :: nat where
  "SNIFF_MIN = 16"

datatype latch = Undecided | PassThrough | Le | Be

record utf16_decoder =
  ud_latch :: latch
  ud_carry :: "char option"
  ud_pending :: string
  ud_pending_pos :: nat

definition decoder_new :: utf16_decoder where
  "decoder_new = \<lparr>ud_latch = Undecided, ud_carry = None, ud_pending = [], ud_pending_pos = 0\<rparr>"

definition combine :: "char \<Rightarrow> char \<Rightarrow> bool \<Rightarrow> nat" where
  "combine a b be = (if be then byte a * 256 + byte b else byte b * 256 + byte a)"

text \<open>The units of a byte sequence, two bytes each, and the odd last byte.\<close>

fun take_units :: "bool \<Rightarrow> string \<Rightarrow> nat list \<times> char option" where
  "take_units be (a # b # s) = (case take_units be s of (us, c) \<Rightarrow> (combine a b be # us, c))"
| "take_units be [a] = ([], Some a)"
| "take_units be [] = ([], None)"

text \<open>\<open>char::decode_utf16\<close>: \<open>None\<close> is an unpaired surrogate.\<close>

fun decode_utf16_units :: "nat list \<Rightarrow> nat option list" where
  "decode_utf16_units [] = []"
| "decode_utf16_units [u] = [if 0xD800 \<le> u \<and> u \<le> 0xDFFF then None else Some u]"
| "decode_utf16_units (u # v # us) =
     (if \<not> (0xD800 \<le> u \<and> u \<le> 0xDFFF) then Some u # decode_utf16_units (v # us)
      else if 0xDC00 \<le> u then None # decode_utf16_units (v # us)
      else if \<not> (0xDC00 \<le> v \<and> v \<le> 0xDFFF) then None # decode_utf16_units (v # us)
      else Some (0x10000 + (u - 0xD800) * 1024 + (v - 0xDC00)) # decode_utf16_units us)"

definition encode_utf8 :: "nat \<Rightarrow> string" where
  "encode_utf8 cp =
     map char_of
       (if cp < 0x80 then [cp]
        else if cp < 0x800 then [0xC0 + cp div 64, 0x80 + cp mod 64]
        else if cp < 0x10000 then [0xE0 + cp div 4096, 0x80 + cp div 64 mod 64, 0x80 + cp mod 64]
        else [0xF0 + cp div 262144, 0x80 + cp div 4096 mod 64, 0x80 + cp div 64 mod 64, 0x80 + cp mod 64])"

definition decode_utf16 :: "utf16_decoder \<Rightarrow> string \<Rightarrow> utf16_decoder" where
  "decode_utf16 d input =
     (let be = (ud_latch d = Be);
          emit = (\<lambda>us. concat (map (\<lambda>c. encode_utf8 (case c of Some cp \<Rightarrow> cp | None \<Rightarrow> 0xFFFD))
                              (decode_utf16_units us)))
      in case ud_carry d of
           None \<Rightarrow>
             (case take_units be input of
                (us, c) \<Rightarrow> d\<lparr>ud_carry := c, ud_pending := ud_pending d @ emit us\<rparr>)
         | Some first \<Rightarrow>
             (case input of
                [] \<Rightarrow> d
              | second # rest \<Rightarrow>
                  (case take_units be rest of
                     (us, c) \<Rightarrow>
                       d\<lparr>ud_carry := c,
                         ud_pending := ud_pending d @ emit (combine first second be # us)\<rparr>)))"

definition detect :: "string \<Rightarrow> latch \<times> nat" where
  "detect chunk =
     (if 2 \<le> length chunk \<and> byte (chunk ! 0) = 0xFF \<and> byte (chunk ! 1) = 0xFE then (Le, 2)
      else if 2 \<le> length chunk \<and> byte (chunk ! 0) = 0xFE \<and> byte (chunk ! 1) = 0xFF then (Be, 2)
      else
        let n = min (length chunk) SNIFF_WINDOW in
        if n < SNIFF_MIN then (PassThrough, 0)
        else
          let evens = filter even [0 ..< n];
              odds = filter odd [0 ..< n];
              even_text = length (filter (\<lambda>i. 0x01 \<le> byte (chunk ! i) \<and> byte (chunk ! i) \<le> 0x7F) evens);
              odd_zero = length (filter (\<lambda>i. byte (chunk ! i) = 0) odds);
              odd_ok = length odds * 7 \<le> odd_zero * 10;
              even_ok = length evens * 7 \<le> even_text * 10
          in if odd_ok \<and> even_ok then (Le, 0) else (PassThrough, 0))"

definition consume_raw :: "utf16_decoder \<Rightarrow> string \<Rightarrow> utf16_decoder" where
  "consume_raw d input =
     (case ud_latch d of
        Undecided \<Rightarrow>
          (case detect input of
             (l, skip) \<Rightarrow>
               let d1 = d\<lparr>ud_latch := l\<rparr>; rest = drop skip input in
               if l = PassThrough then d1\<lparr>ud_pending := ud_pending d1 @ rest\<rparr> else decode_utf16 d1 rest)
      | PassThrough \<Rightarrow> d\<lparr>ud_pending := ud_pending d @ input\<rparr>
      | _ \<Rightarrow> decode_utf16 d input)"

fun pipe_weight :: "pipe \<Rightarrow> nat" where
  "pipe_weight [] = 0"
| "pipe_weight (Fault e # p) = Suc (pipe_weight p)"
| "pipe_weight (Bytes bs # p) = Suc (length bs) + pipe_weight p"

lemma pipe_read_weight:
  "pipe_read cap p = (p', r) \<Longrightarrow> pipe_weight p' \<le> pipe_weight p"
  "pipe_read cap p = (p', Ok bs) \<Longrightarrow> bs \<noteq> [] \<Longrightarrow> pipe_weight p' < pipe_weight p"
  by (cases "(cap, p)" rule: pipe_read.cases; auto split: if_splits)+

lemma observed_read_pipe:
  "observed_read inst kind cap io = (io', r) \<Longrightarrow> pipe_read cap (pi_pipe io) = (pi_pipe io', r)"
  by (auto simp: observed_read_def split: prod.splits)

function decoder_read ::
  "(nat \<Rightarrow> timestamp) \<Rightarrow> source_stream \<Rightarrow> nat \<Rightarrow> utf16_decoder \<Rightarrow> probe_io \<Rightarrow>
     utf16_decoder \<times> probe_io \<times> (io_error, string) outcome" where
  "decoder_read inst kind cap d io =
     (if ud_pending_pos d < length (ud_pending d) then
        let avail = drop (ud_pending_pos d) (ud_pending d);
            n = min (length avail) cap
        in (d\<lparr>ud_pending_pos := ud_pending_pos d + n\<rparr>, io, Ok (take n avail))
      else
        let d1 = d\<lparr>ud_pending := [], ud_pending_pos := 0\<rparr> in
        if ud_latch d1 = PassThrough then
          (case observed_read inst kind cap io of (io', r) \<Rightarrow> (d1, io', r))
        else
          (case observed_read inst kind RAW_CHUNK io of
             (io', Ok filled) \<Rightarrow>
               if filled = [] then (d1, io', Ok [])
               else decoder_read inst kind cap (consume_raw d1 filled) io'
           | (io', r) \<Rightarrow> (d1, io', r)))"
  by pat_completeness auto
termination
  by (relation "measure (\<lambda>(inst, kind, cap, d, io). pipe_weight (pi_pipe io))")
     (auto dest!: observed_read_pipe [OF sym] intro: pipe_read_weight(2))

declare decoder_read.simps [simp del]

section \<open>Lines\<close>

definition MAX_LINE_BYTES :: nat where
  "MAX_LINE_BYTES = 64 * 1024"

record line_read =
  lr_bytes :: string
  lr_dropped :: nat

record buf_reader =
  br_buf :: string
  br_decoder :: utf16_decoder
  br_io :: probe_io

definition fill_buf ::
  "(nat \<Rightarrow> timestamp) \<Rightarrow> source_stream \<Rightarrow> nat \<Rightarrow> buf_reader \<Rightarrow> buf_reader \<times> (io_error, string) outcome" where
  "fill_buf inst kind cap r =
     (if br_buf r \<noteq> [] then (r, Ok (br_buf r))
      else case decoder_read inst kind cap (br_decoder r) (br_io r) of
        (d, io, res) \<Rightarrow>
          (\<lparr>br_buf = (case res of Ok bs \<Rightarrow> bs | _ \<Rightarrow> []), br_decoder = d, br_io = io\<rparr>, res))"

definition consume :: "nat \<Rightarrow> buf_reader \<Rightarrow> buf_reader" where
  "consume n r = r\<lparr>br_buf := drop n (br_buf r)\<rparr>"

definition accumulate :: "string \<Rightarrow> nat \<Rightarrow> string \<Rightarrow> string \<times> nat" where
  "accumulate buf dropped added =
     (let room = MAX_LINE_BYTES - length buf in
      if length added \<le> room then (buf @ added, dropped)
      else (buf @ take room added, sat_add_u64 dropped (length added - room)))"

text \<open>What is left to read, which every step of the loops below makes smaller.\<close>

definition reader_measure :: "buf_reader \<Rightarrow> nat \<times> nat \<times> nat" where
  "reader_measure r =
     (pipe_weight (pi_pipe (br_io r)),
      length (ud_pending (br_decoder r)) - ud_pending_pos (br_decoder r), length (br_buf r))"

definition reader_less :: "((nat \<times> nat \<times> nat) \<times> (nat \<times> nat \<times> nat)) set" where
  "reader_less = less_than <*lex*> less_than <*lex*> less_than"

lemma reader_less_wf [simp, intro]: "wf reader_less"
  unfolding reader_less_def by (intro wf_lex_prod wf_less_than)

lemma reader_less_trans: "trans reader_less"
  unfolding reader_less_def by (intro trans_lex_prod) (simp_all add: trans_less_than)

lemma decoder_read_less:
  "decoder_read inst kind cap d io = (d', io', Ok c) \<Longrightarrow> c \<noteq> [] \<Longrightarrow>
   pipe_weight (pi_pipe io') < pipe_weight (pi_pipe io) \<or>
   io' = io \<and> length (ud_pending d') - ud_pending_pos d' < length (ud_pending d) - ud_pending_pos d"
proof (induction inst kind cap d io rule: decoder_read.induct)
  case (1 inst kind cap d io)
  show ?case
  proof (cases "ud_pending_pos d < length (ud_pending d)")
    case True
    with 1(2,3) show ?thesis by (auto simp: decoder_read.simps [of inst kind cap d io] Let_def)
  next
    case pos: False
    let ?d1 = "d\<lparr>ud_pending := [], ud_pending_pos := 0\<rparr>"
    show ?thesis
    proof (cases "ud_latch d = PassThrough")
      case True
      with 1(2,3) pos show ?thesis
        by (auto simp: decoder_read.simps [of inst kind cap d io] Let_def split: prod.splits
            dest!: observed_read_pipe dest: pipe_read_weight(2))
    next
      case False
      obtain io1 r where o: "observed_read inst kind RAW_CHUNK io = (io1, r)" by fastforce
      note p = observed_read_pipe [OF o]
      from 1(2) pos False o 1(3) obtain filled where
        f: "r = Ok filled" "filled \<noteq> []" "decoder_read inst kind cap (consume_raw ?d1 filled) io1 = (d', io', Ok c)"
        by (cases r) (auto simp: decoder_read.simps [of inst kind cap d io] Let_def split: if_splits)
      have w: "pipe_weight (pi_pipe io1) < pipe_weight (pi_pipe io)"
        using pipe_read_weight(2) p f(1,2) by blast
      from 1(1) [OF pos refl _ o [symmetric] f(1) f(2) f(3) 1(3)] False w show ?thesis by auto
    qed
  qed
qed

lemma fill_buf_less:
  assumes "fill_buf inst kind cap r = (r', Ok c)" and "c \<noteq> []" and "0 < n"
  shows "(reader_measure (consume n r'), reader_measure r) \<in> reader_less"
proof (cases "br_buf r = []")
  case False
  with assms show ?thesis by (auto simp: fill_buf_def consume_def reader_less_def reader_measure_def)
next
  case True
  with assms obtain d io where "decoder_read inst kind cap (br_decoder r) (br_io r) = (d, io, Ok c)"
    "r' = \<lparr>br_buf = c, br_decoder = d, br_io = io\<rparr>"
    by (auto simp: fill_buf_def split: prod.splits outcome.splits)
  with decoder_read_less [OF this(1) assms(2)] show ?thesis
    by (auto simp: consume_def reader_less_def reader_measure_def)
qed

function read_line_loop ::
  "(nat \<Rightarrow> timestamp) \<Rightarrow> source_stream \<Rightarrow> nat \<Rightarrow> string \<Rightarrow> nat \<Rightarrow> bool \<Rightarrow> buf_reader \<Rightarrow>
     buf_reader \<times> (io_error, line_read option) outcome" where
  "read_line_loop inst kind cap bytes dropped saw_input r =
     (case fill_buf inst kind cap r of
        (r1, Ok chunk) \<Rightarrow>
          if chunk = [] then
            (r1, Ok (if saw_input then Some \<lparr>lr_bytes = bytes, lr_dropped = dropped\<rparr> else None))
          else
            (case position (\<lambda>b. b = NL) chunk of
               Some idx \<Rightarrow>
                 (case accumulate bytes dropped (take idx chunk) of
                    (bytes', dropped') \<Rightarrow>
                      (consume (idx + 1) r1, Ok (Some \<lparr>lr_bytes = bytes', lr_dropped = dropped'\<rparr>)))
             | None \<Rightarrow>
                 (case accumulate bytes dropped chunk of
                    (bytes', dropped') \<Rightarrow>
                      read_line_loop inst kind cap bytes' dropped' True (consume (length chunk) r1)))
      | (r1, Err e) \<Rightarrow> (r1, Err e)
      | (r1, Panic) \<Rightarrow> (r1, Panic))"
  by pat_completeness auto
termination
proof (relation "inv_image reader_less (\<lambda>(inst, kind, cap, bytes, dropped, saw, r). reader_measure r)", goal_cases)
  case 1
  show ?case by (intro wf_inv_image reader_less_wf)
next
  case (2 inst kind cap bytes dropped saw r r1 y chunk)
  then have "fill_buf inst kind cap r = (r1, Ok chunk)" by auto
  from fill_buf_less [OF this, of "length chunk"] 2 show ?case by simp
qed

declare read_line_loop.simps [simp del]

definition read_line_bounded ::
  "(nat \<Rightarrow> timestamp) \<Rightarrow> source_stream \<Rightarrow> nat \<Rightarrow> buf_reader \<Rightarrow>
     buf_reader \<times> (io_error, line_read option) outcome" where
  "read_line_bounded inst kind cap r = read_line_loop inst kind cap [] 0 False r"

lemma decoder_read_eof:
  "decoder_read inst kind cap d io = (d', io', Ok []) \<Longrightarrow>
   pipe_weight (pi_pipe io') < pipe_weight (pi_pipe io) \<or>
   pipe_weight (pi_pipe io') = pipe_weight (pi_pipe io) \<and>
   length (ud_pending d') - ud_pending_pos d' \<le> length (ud_pending d) - ud_pending_pos d"
proof (induction inst kind cap d io rule: decoder_read.induct)
  case (1 inst kind cap d io)
  show ?case
  proof (cases "ud_pending_pos d < length (ud_pending d)")
    case True
    with 1(2) show ?thesis by (auto simp: decoder_read.simps [of inst kind cap d io] Let_def)
  next
    case pos: False
    let ?d1 = "d\<lparr>ud_pending := [], ud_pending_pos := 0\<rparr>"
    show ?thesis
    proof (cases "ud_latch d = PassThrough")
      case True
      with 1(2) pos show ?thesis
        by (auto simp: decoder_read.simps [of inst kind cap d io] Let_def less_le split: prod.splits
            dest!: observed_read_pipe dest: pipe_read_weight(1))
    next
      case False
      obtain io1 r where o: "observed_read inst kind RAW_CHUNK io = (io1, r)" by fastforce
      note p = observed_read_pipe [OF o]
      have le: "pipe_weight (pi_pipe io1) \<le> pipe_weight (pi_pipe io)" by (rule pipe_read_weight(1) [OF p])
      from 1(2) pos False o consider "r = Ok []" "d' = ?d1" "io' = io1"
        | filled where "r = Ok filled" "filled \<noteq> []"
          "decoder_read inst kind cap (consume_raw ?d1 filled) io1 = (d', io', Ok [])"
        by (cases r) (auto simp: decoder_read.simps [of inst kind cap d io] Let_def split: if_splits)
      then show ?thesis
      proof cases
        case 1
        with le show ?thesis by auto
      next
        case (2 filled)
        have "pipe_weight (pi_pipe io1) < pipe_weight (pi_pipe io)"
          using pipe_read_weight(2) p 2(1,2) by blast
        with "1"(1) [OF pos refl _ o [symmetric] 2(1) 2(2) 2(3)] False show ?thesis by auto
      qed
    qed
  qed
qed

lemma fill_buf_eof:
  assumes "fill_buf inst kind cap r = (r', Ok [])"
  shows "reader_measure r' = reader_measure r \<or> (reader_measure r', reader_measure r) \<in> reader_less"
proof (cases "br_buf r = []")
  case True
  with assms obtain d io where "decoder_read inst kind cap (br_decoder r) (br_io r) = (d, io, Ok [])"
    "r' = \<lparr>br_buf = [], br_decoder = d, br_io = io\<rparr>"
    by (auto simp: fill_buf_def split: prod.splits outcome.splits)
  with decoder_read_eof [OF this(1)] True show ?thesis by (auto simp: reader_less_def reader_measure_def)
qed (use assms in \<open>auto simp: fill_buf_def\<close>)

lemma read_line_loop_less:
  "read_line_loop inst kind cap bytes dropped saw r = (r', Ok (Some lr)) \<Longrightarrow>
   (reader_measure r', reader_measure r) \<in> reader_less \<or> saw \<and> reader_measure r' = reader_measure r"
proof (induction inst kind cap bytes dropped saw r rule: read_line_loop.induct)
  case (1 inst kind cap bytes dropped saw r)
  obtain r1 res where f: "fill_buf inst kind cap r = (r1, res)" by fastforce
  from 1(2) f obtain chunk where c: "res = Ok chunk"
    by (cases res) (auto simp: read_line_loop.simps [of inst kind cap bytes dropped saw r])
  note step = 1(2) [unfolded read_line_loop.simps [of inst kind cap bytes dropped saw r] f c]
  show ?case
  proof (cases "chunk = []")
    case True
    with step f c fill_buf_eof [of inst kind cap r r1] show ?thesis by (auto split: if_splits)
  next
    case ne: False
    show ?thesis
    proof (cases "position (\<lambda>b. b = NL) chunk")
      case (Some idx)
      with step ne have "r' = consume (idx + 1) r1" by (auto split: prod.splits)
      with fill_buf_less [OF f [unfolded c] ne, of "idx + 1"] show ?thesis by simp
    next
      case None
      obtain b' k' where a: "accumulate bytes dropped chunk = (b', k')" by fastforce
      from step ne None a have run: "read_line_loop inst kind cap b' k' True (consume (length chunk) r1) = (r', Ok (Some lr))"
        by simp
      have less: "(reader_measure (consume (length chunk) r1), reader_measure r) \<in> reader_less"
        using fill_buf_less [OF f [unfolded c] ne, of "length chunk"] ne by simp
      from "1.IH" [OF f [symmetric] c ne None a [symmetric] run] show ?thesis
        using less transD [OF reader_less_trans _ less] by (metis (no_types, lifting))
    qed
  qed
qed

lemma read_line_bounded_less:
  "read_line_bounded inst kind cap r = (r', Ok (Some lr)) \<Longrightarrow>
   (reader_measure r', reader_measure r) \<in> reader_less"
  using read_line_loop_less [of inst kind cap "[]" 0 False r r' lr] by (simp add: read_line_bounded_def)

section \<open>Frames\<close>

definition REPLACEMENT :: string where
  "REPLACEMENT = encode_utf8 0xFFFD"

text \<open>
  \<open>String::from_utf8_lossy\<close>. The length of the sequence at the front and whether it is valid; an
  invalid one is its longest prefix that could have started a valid one.
\<close>

definition utf8_next :: "char \<Rightarrow> string \<Rightarrow> nat \<times> bool" where
  "utf8_next c s =
     (let n = utf8_len c;
          k = (if s \<noteq> [] \<and> second_ok c (s ! 0) then length (takeWhile is_cont (take (n - 1) s)) else 0)
      in if n \<noteq> 0 \<and> k = n - 1 then (n, True) else (Suc k, False))"

function from_utf8_lossy :: "string \<Rightarrow> string" where
  "from_utf8_lossy [] = []"
| "from_utf8_lossy (c # s) =
     (case utf8_next c s of
        (k, ok) \<Rightarrow> (if ok then take k (c # s) else REPLACEMENT) @ from_utf8_lossy (drop (k - 1) s))"
  by pat_completeness auto
termination
  by (relation "measure length") auto

declare from_utf8_lossy.simps(2) [simp del]

definition trim_end_cr :: "string \<Rightarrow> string" where
  "trim_end_cr s = rev (dropWhile (\<lambda>c. c = CHR 0x0D) (rev s))"

text \<open>What the terminal parser reports: a printable character, a control byte, anything else.\<close>

datatype vte_action = VPrint string | VExecute char | VSequence

definition strip_ansi :: "(string \<Rightarrow> vte_action list) \<Rightarrow> string \<Rightarrow> string" where
  "strip_ansi vte input =
     (if CHR 0x1B \<notin> set input then input
      else concat (map (\<lambda>a. case a of
             VPrint c \<Rightarrow> c
           | VExecute b \<Rightarrow> if b = CHR 0x09 then [CHR 0x09] else []
           | VSequence \<Rightarrow> []) (vte input)))"

text \<open>What the clock and the identifier source give for the \<open>n\<close>-th frame.\<close>

record frame_env =
  fe_frame_id :: "nat \<Rightarrow> frame_id"
  fe_timestamp :: "nat \<Rightarrow> timestamp"
  fe_instant :: "nat \<Rightarrow> timestamp"
  fe_clock :: "nat \<Rightarrow> nat \<Rightarrow> timestamp"
  fe_now :: "nat \<Rightarrow> timestamp"

text \<open>
  The arguments of \<open>read_stream\<close> that do not change. The rule set may be rebuilt between frames:
  \<open>tk_rules n\<close> is the one the \<open>n\<close>-th frame meets.
\<close>

record ('r, 'a, 'q, 's) stream_task =
  tk_probe_id :: probe_id
  tk_kind :: source_stream
  tk_bucket_id :: bucket_id
  tk_strip_ansi :: bool
  tk_engine :: "('r, 'a, 'q) engine"
  tk_rules :: "nat \<Rightarrow> ('r, 'a, 'q) sifter_inner"
  tk_emit :: "'s sink_emit"
  tk_patch :: "'s sink_patch"
  tk_sub :: dt_sub
  tk_vte :: "string \<Rightarrow> vte_action list"
  tk_env :: frame_env
  tk_inst :: "nat \<Rightarrow> timestamp"
  tk_cap :: nat

record 's stream_state =
  ss_reader :: buf_reader
  ss_rings :: ring_manager
  ss_pipeline :: noise_pipeline
  ss_sink :: 's
  ss_line_no :: nat

abbreviation ss_metrics :: "'s stream_state \<Rightarrow> process_metrics" where
  "ss_metrics st \<equiv> pi_metrics (br_io (ss_reader st))"

definition set_metrics :: "process_metrics \<Rightarrow> buf_reader \<Rightarrow> buf_reader" where
  "set_metrics m r = r\<lparr>br_io := (br_io r)\<lparr>pi_metrics := m\<rparr>\<rparr>"

definition line_frame :: "frame_env \<Rightarrow> probe_id \<Rightarrow> source_stream \<Rightarrow> nat \<Rightarrow> line_read \<Rightarrow> source_frame" where
  "line_frame env p kind line_no lr =
     (let normalized = trim_end_cr (from_utf8_lossy (lr_bytes lr));
          frame = frame_with_line
            (frame_new (fe_frame_id env line_no) (fe_timestamp env line_no) p kind normalized) line_no
      in if 0 < lr_dropped lr
         then frame\<lparr>f_truncated_bytes :=
                sat_add_u32 (f_truncated_bytes frame) (try_from_or_max u32_max (lr_dropped lr))\<rparr>
         else frame)"

definition count_frame :: "source_stream \<Rightarrow> timestamp \<Rightarrow> process_metrics \<Rightarrow> process_metrics" where
  "count_frame kind instant m =
     (let m1 = m\<lparr>pm_frames_total := sat_add_u64 (pm_frames_total m) 1\<rparr>;
          m2 = (case kind of
                  Stdout \<Rightarrow> m1\<lparr>pm_frames_stdout := sat_add_u64 (pm_frames_stdout m1) 1\<rparr>
                | Stderr \<Rightarrow> m1\<lparr>pm_frames_stderr := sat_add_u64 (pm_frames_stderr m1) 1\<rparr>
                | _ \<Rightarrow> m1)
      in m2\<lparr>pm_last_frame_at := Some instant\<rparr>)"

definition sift_view :: "(string \<Rightarrow> vte_action list) \<Rightarrow> bool \<Rightarrow> source_frame \<Rightarrow> source_frame" where
  "sift_view vte strip frame =
     (if strip then
        let stripped = strip_ansi vte (f_text frame) in
        if stripped = f_text frame then frame else frame\<lparr>f_text := stripped\<rparr>
      else frame)"

definition on_line ::
  "('r, 'a, 'q, 's) stream_task \<Rightarrow> 's stream_state \<Rightarrow> line_read \<Rightarrow> (unit, 's stream_state) outcome" where
  "on_line tk st lr =
     (let n = sat_add_u64 (ss_line_no st) 1;
          frame = line_frame (tk_env tk) (tk_probe_id tk) (tk_kind tk) n lr;
          rings = (case append_frame (ss_rings st) (tk_probe_id tk) frame of
                     Ok (m, _) \<Rightarrow> m | _ \<Rightarrow> ss_rings st);
          m1 = count_frame (tk_kind tk) (fe_instant (tk_env tk) n) (ss_metrics st)
      in and_then
           (process_frame (tk_engine tk) (tk_sub tk) (fe_clock (tk_env tk) n) (fe_now (tk_env tk) n)
              (tk_emit tk) (tk_patch tk) (ss_pipeline st) (sift_view (tk_vte tk) (tk_strip_ansi tk) frame)
              SProcess (tk_bucket_id tk) (tk_rules tk n) (ss_sink st) (pm_suppression m1)
              (pm_events_emitted m1) [])
           (\<lambda>fr. Ok \<lparr>ss_reader = set_metrics (m1\<lparr>pm_suppression := fr_metrics fr,
                        pm_events_emitted := fr_emitted fr\<rparr>) (ss_reader st),
                     ss_rings = rings, ss_pipeline = fr_pipeline fr, ss_sink = fr_sink fr,
                     ss_line_no = n\<rparr>))"

lemma on_line_reader:
  "on_line tk st lr = Ok st' \<Longrightarrow> \<exists>m. ss_reader st' = set_metrics m (ss_reader st)"
  by (auto simp: on_line_def Let_def and_then_Ok_iff)

lemma set_metrics_measure [simp]: "reader_measure (set_metrics m r) = reader_measure r"
  by (simp add: set_metrics_def reader_measure_def)

function read_stream_loop ::
  "('r, 'a, 'q, 's) stream_task \<Rightarrow> 's stream_state \<Rightarrow> (unit, 's stream_state) outcome" where
  "read_stream_loop tk st =
     (case read_line_bounded (tk_inst tk) (tk_kind tk) (tk_cap tk) (ss_reader st) of
        (r, Ok (Some lr)) \<Rightarrow>
          (case on_line tk (st\<lparr>ss_reader := r\<rparr>) lr of
             Ok st' \<Rightarrow> read_stream_loop tk st'
           | Err e \<Rightarrow> Err e
           | Panic \<Rightarrow> Panic)
      | (r, _) \<Rightarrow> Ok (st\<lparr>ss_reader := r\<rparr>))"
  by pat_completeness auto
termination
proof (relation "inv_image reader_less (\<lambda>(tk, st). reader_measure (ss_reader st))", goal_cases)
  case 1
  show ?case by (intro wf_inv_image reader_less_wf)
next
  case (2 tk st r y z lr st')
  then have "read_line_bounded (tk_inst tk) (tk_kind tk) (tk_cap tk) (ss_reader st) = (r, Ok (Some lr))"
    "on_line tk (st\<lparr>ss_reader := r\<rparr>) lr = Ok st'" by auto
  with read_line_bounded_less [OF this(1)] on_line_reader [OF this(2)] show ?case by auto
qed

declare read_stream_loop.simps [simp del]

definition reader_new :: "pipe \<Rightarrow> process_metrics \<Rightarrow> buf_reader" where
  "reader_new p m =
     \<lparr>br_buf = [], br_decoder = decoder_new, br_io = \<lparr>pi_pipe = p, pi_metrics = m, pi_reads = 0\<rparr>\<rparr>"

definition read_stream ::
  "('r, 'a, 'q, 's) stream_task \<Rightarrow> pipe \<Rightarrow> process_metrics \<Rightarrow> ring_manager \<Rightarrow> noise_pipeline \<Rightarrow> 's \<Rightarrow>
     (unit, 's stream_state) outcome" where
  "read_stream tk p m rings pl sink =
     read_stream_loop tk
       \<lparr>ss_reader = reader_new p m, ss_rings = rings, ss_pipeline = pl, ss_sink = sink, ss_line_no = 0\<rparr>"

section \<open>The bytes a reader will deliver\<close>

fun pipe_bytes :: "pipe \<Rightarrow> string" where
  "pipe_bytes [] = []"
| "pipe_bytes (Fault e # p) = []"
| "pipe_bytes (Bytes bs # p) = bs @ pipe_bytes p"

fun pipe_fault :: "pipe \<Rightarrow> io_error option" where
  "pipe_fault [] = None"
| "pipe_fault (Fault e # p) = Some e"
| "pipe_fault (Bytes bs # p) = pipe_fault p"

text \<open>An empty read is the end of the file, so a pipe that still delivers holds none.\<close>

definition pipe_ok :: "pipe \<Rightarrow> bool" where
  "pipe_ok p \<longleftrightarrow> Bytes [] \<notin> set p"

function later :: "utf16_decoder \<Rightarrow> pipe \<Rightarrow> string" where
  "later d [] = []"
| "later d (Fault e # p) = []"
| "later d (Bytes bs # p) =
     (if bs = [] then []
      else if ud_latch d = PassThrough then bs @ later d p
      else let d' = consume_raw (d\<lparr>ud_pending := [], ud_pending_pos := 0\<rparr>) (take RAW_CHUNK bs) in
        ud_pending d' @ later d' (if length bs \<le> RAW_CHUNK then p else Bytes (drop RAW_CHUNK bs) # p))"
  by pat_completeness auto
termination
  by (relation "measure (\<lambda>(d, p). pipe_weight p)") (auto simp: RAW_CHUNK_def)

declare later.simps(3) [simp del]

definition decoder_will :: "utf16_decoder \<Rightarrow> pipe \<Rightarrow> string" where
  "decoder_will d p = drop (ud_pending_pos d) (ud_pending d) @ later d p"

definition will :: "buf_reader \<Rightarrow> string" where
  "will r = br_buf r @ decoder_will (br_decoder r) (pi_pipe (br_io r))"

abbreviation reader_fault :: "buf_reader \<Rightarrow> io_error option" where
  "reader_fault r \<equiv> pipe_fault (pi_pipe (br_io r))"

abbreviation reader_ok :: "buf_reader \<Rightarrow> bool" where
  "reader_ok r \<equiv> pipe_ok (pi_pipe (br_io r))"

lemma decode_utf16_frame:
  "ud_latch (decode_utf16 d input) = ud_latch d"
  "ud_pending_pos (decode_utf16 d input) = ud_pending_pos d"
  by (auto simp: decode_utf16_def Let_def split: option.splits list.splits prod.splits)

lemma consume_raw_pos: "ud_pending_pos (consume_raw d input) = ud_pending_pos d"
  by (auto simp: consume_raw_def Let_def decode_utf16_frame split: latch.splits prod.splits)

lemma later_pending:
  "later (d\<lparr>ud_pending := x, ud_pending_pos := n\<rparr>) p = later d p"
  by (induction d p rule: later.induct) (auto simp: later.simps(3))

lemma pipe_read_spec:
  assumes "pipe_read cap p = (p', res)" and "0 < cap" and "pipe_ok p"
  shows "pipe_ok p' \<and>
    (case res of
       Ok c \<Rightarrow> pipe_bytes p = c @ pipe_bytes p' \<and> pipe_fault p' = pipe_fault p \<and> (c = [] \<longleftrightarrow> p = []) \<and>
         (c = [] \<longrightarrow> p' = [])
     | Err e \<Rightarrow> pipe_bytes p = [] \<and> pipe_fault p = Some e
     | Panic \<Rightarrow> False)"
proof (cases p)
  case (Cons i q)
  then show ?thesis using assms by (cases i) (auto simp: pipe_ok_def split: if_splits)
qed (use assms in \<open>auto simp: pipe_ok_def\<close>)

lemma later_pass:
  "ud_latch d = PassThrough \<Longrightarrow> pipe_ok p \<Longrightarrow> later d p = pipe_bytes p"
  by (induction d p rule: later.induct) (auto simp: later.simps(3) pipe_ok_def)

lemma later_read:
  assumes "pipe_read RAW_CHUNK p = (p', Ok c)" and "c \<noteq> []" and "ud_latch d \<noteq> PassThrough"
  shows "later d p = ud_pending (consume_raw (d\<lparr>ud_pending := [], ud_pending_pos := 0\<rparr>) c) @
    later (consume_raw (d\<lparr>ud_pending := [], ud_pending_pos := 0\<rparr>) c) p'"
proof -
  from assms(1,2) obtain bs q where p: "p = Bytes bs # q" "c = take RAW_CHUNK bs"
    "p' = (if length bs \<le> RAW_CHUNK then q else Bytes (drop RAW_CHUNK bs) # q)"
    by (cases "(RAW_CHUNK, p)" rule: pipe_read.cases) (auto split: if_splits)
  have "bs \<noteq> []" using assms(2) p(2) by auto
  with assms(3) p show ?thesis by (simp only: later.simps(3) Let_def if_False simp_thms)
qed

lemma decoder_read_spec:
  "decoder_read inst kind cap d io = (d', io', res) \<Longrightarrow> 0 < cap \<Longrightarrow> pipe_ok (pi_pipe io) \<Longrightarrow>
   pipe_ok (pi_pipe io') \<and>
   (case res of
      Ok c \<Rightarrow> decoder_will d (pi_pipe io) = c @ decoder_will d' (pi_pipe io') \<and>
        pipe_fault (pi_pipe io') = pipe_fault (pi_pipe io) \<and>
        (c = [] \<longrightarrow> decoder_will d (pi_pipe io) = [] \<and> pi_pipe io' = [])
    | Err e \<Rightarrow> decoder_will d (pi_pipe io) = [] \<and> pipe_fault (pi_pipe io) = Some e
    | Panic \<Rightarrow> False)"
proof (induction inst kind cap d io rule: decoder_read.induct)
  case (1 inst kind cap d io)
  show ?case
  proof (cases "ud_pending_pos d < length (ud_pending d)")
    case True
    with 1(2,3,4) have r: "res = Ok (take (min (length (ud_pending d) - ud_pending_pos d) cap) (drop (ud_pending_pos d) (ud_pending d)))"
      "io' = io" "d' = d\<lparr>ud_pending_pos := ud_pending_pos d + min (length (ud_pending d) - ud_pending_pos d) cap\<rparr>"
      by (auto simp: decoder_read.simps [of inst kind cap d io] Let_def)
    have "later d' p = later d p" for p
      using later_pending [where d = d and x = "ud_pending d"] r(3) by simp
    moreover have "take n xs @ drop (m + n) ys = xs" if "xs = drop m ys" for n m and xs ys :: string
      using that append_take_drop_id [of n xs] by (simp add: add.commute)
    ultimately show ?thesis
      using r True 1(3,4) by (simp add: decoder_will_def flip: append_assoc)
  next
    case pos: False
    let ?d1 = "d\<lparr>ud_pending := [], ud_pending_pos := 0\<rparr>"
    have w: "decoder_will d p = later d p" "decoder_will ?d1 p = later d p" for p
      using pos later_pending [where d = d and x = "[]" and n = 0] by (simp_all add: decoder_will_def)
    show ?thesis
    proof (cases "ud_latch d = PassThrough")
      case True
      obtain io1 r where o: "observed_read inst kind cap io = (io1, r)" by fastforce
      have eq: "d' = ?d1" "io' = io1" "res = r"
        using 1(2) pos True o by (auto simp: decoder_read.simps [of inst kind cap d io] Let_def)
      note p = pipe_read_spec [OF observed_read_pipe [OF o] 1(3,4)]
      show ?thesis
        using p w later_pass [OF True] 1(4) unfolding eq by (cases r) auto
    next
      case False
      obtain io1 r where o: "observed_read inst kind RAW_CHUNK io = (io1, r)" by fastforce
      note p = pipe_read_spec [OF observed_read_pipe [OF o] _ 1(4)]
      have cap: "0 < RAW_CHUNK" by (simp add: RAW_CHUNK_def)
      show ?thesis
      proof (cases "\<exists>c. r = Ok c \<and> c \<noteq> []")
        case True
        then obtain c where c: "r = Ok c" "c \<noteq> []" by blast
        let ?d2 = "consume_raw ?d1 c"
        have run: "decoder_read inst kind cap ?d2 io1 = (d', io', res)"
          using 1(2) pos False o c by (simp add: decoder_read.simps [of inst kind cap d io] Let_def)
        have lr: "later d (pi_pipe io) = decoder_will ?d2 (pi_pipe io1)"
          using later_read [OF observed_read_pipe [OF o [unfolded c(1)]] c(2) False]
          by (simp add: decoder_will_def consume_raw_pos)
        have ok1: "pipe_ok (pi_pipe io1)" "pipe_fault (pi_pipe io1) = pipe_fault (pi_pipe io)"
          using p [OF cap] c by auto
        from "1.IH" [OF pos refl _ o [symmetric] c(1) c(2) run 1(3) ok1(1)] False
        show ?thesis using w lr ok1 by (cases res) auto
      next
        case no: False
        have eq: "d' = ?d1" "io' = io1" "res = r"
          using 1(2) pos False o no
          by (cases r; auto simp: decoder_read.simps [of inst kind cap d io] Let_def)+
        show ?thesis
        proof (cases r)
          case (Ok c)
          with no have "c = []" by simp
          with p [OF cap] Ok have e: "pi_pipe io = []" "pi_pipe io1 = []"
by auto
          with Ok \<open>c = []\<close> w p [OF cap] show ?thesis unfolding eq by simp
        next
          case (Err e)
          with p [OF cap] have "\<exists>q. pi_pipe io = Fault e # q"
            using observed_read_pipe [OF o] by (cases "(RAW_CHUNK, pi_pipe io)" rule: pipe_read.cases) (auto split: if_splits)
          with Err w p [OF cap] show ?thesis unfolding eq by auto
        qed (use p [OF cap] eq in auto)
      qed
    qed
  qed
qed

lemma fill_buf_spec:
  assumes "fill_buf inst kind cap r = (r', res)" and "0 < cap" and "reader_ok r"
  shows "reader_ok r' \<and>
    (case res of
       Ok c \<Rightarrow> br_buf r' = c \<and> will r' = will r \<and> reader_fault r' = reader_fault r \<and>
         (c = [] \<longrightarrow> will r = [] \<and> pi_pipe (br_io r') = [])
     | Err e \<Rightarrow> will r = [] \<and> reader_fault r = Some e
     | Panic \<Rightarrow> False)"
proof (cases "br_buf r = []")
  case True
  obtain d io res' where d: "decoder_read inst kind cap (br_decoder r) (br_io r) = (d, io, res')"
    by (metis prod_cases3)
  with assms(1) True have "res' = res" "r' = \<lparr>br_buf = (case res of Ok bs \<Rightarrow> bs | _ \<Rightarrow> []), br_decoder = d, br_io = io\<rparr>"
    by (auto simp: fill_buf_def)
  with decoder_read_spec [OF d assms(2,3)] True show ?thesis by (cases res) (auto simp: will_def)
next
  case False
  with assms show ?thesis by (auto simp: fill_buf_def)
qed

section \<open>The next line\<close>

definition bounded :: "string \<Rightarrow> line_read" where
  "bounded l = \<lparr>lr_bytes = take MAX_LINE_BYTES l, lr_dropped = min (length l - MAX_LINE_BYTES) u64_max\<rparr>"

lemma accumulate_bounded:
  "accumulate (lr_bytes (bounded pre)) (lr_dropped (bounded pre)) xs =
     (lr_bytes (bounded (pre @ xs)), lr_dropped (bounded (pre @ xs)))"
  by (auto simp: accumulate_def bounded_def Let_def sat_add_def min_def)

lemma position_NL_append:
  "position P (xs @ ys) =
     (case position P xs of Some i \<Rightarrow> Some i | None \<Rightarrow> map_option (\<lambda>i. length xs + i) (position P ys))"
proof (induction xs)
  case Nil
  then show ?case by (cases "position P ys") simp_all
next
  case (Cons x xs)
  then show ?case by (cases "position P xs"; cases "position P ys") simp_all
qed

lemma position_less: "position P xs = Some i \<Longrightarrow> i < length xs"
  by (induction xs arbitrary: i) (auto split: if_splits)

text \<open>What one call answers, told by the bytes to come and not by the way they arrive.\<close>

definition line_answer ::
  "buf_reader \<Rightarrow> string \<Rightarrow> bool \<Rightarrow> buf_reader \<Rightarrow> (io_error, line_read option) outcome \<Rightarrow> bool" where
  "line_answer r pre saw r' res \<longleftrightarrow> reader_ok r' \<and>
     (case position (\<lambda>b. b = NL) (will r) of
        Some i \<Rightarrow> res = Ok (Some (bounded (pre @ take i (will r)))) \<and> will r' = drop (Suc i) (will r) \<and>
          reader_fault r' = reader_fault r
      | None \<Rightarrow>
          (case reader_fault r of
             Some e \<Rightarrow> res = Err e
           | None \<Rightarrow> res = Ok (if saw \<or> will r \<noteq> [] then Some (bounded (pre @ will r)) else None) \<and>
               will r' = [] \<and> pi_pipe (br_io r') = []))"

lemma will_consume: "n \<le> length (br_buf r) \<Longrightarrow> will (consume n r) = drop n (will r)"
  by (simp add: will_def consume_def)

lemma read_line_loop_answer:
  "read_line_loop inst kind cap (lr_bytes (bounded pre)) (lr_dropped (bounded pre)) saw r = (r', res) \<Longrightarrow>
   0 < cap \<Longrightarrow> reader_ok r \<Longrightarrow> line_answer r pre saw r' res"
proof (induction inst kind cap "lr_bytes (bounded pre)" "lr_dropped (bounded pre)" saw r arbitrary: pre
    rule: read_line_loop.induct)
  case (1 inst kind cap saw r)
  obtain r1 res1 where f: "fill_buf inst kind cap r = (r1, res1)" by fastforce
  note spec = fill_buf_spec [OF f 1(3,4)]
  note run = 1(2) [unfolded read_line_loop.simps [of inst kind cap "lr_bytes (bounded pre)"] f prod.case]
  show ?case
  proof (cases res1)
    case (Err e)
    with run spec show ?thesis by (simp add: line_answer_def)
  next
    case Panic
    with spec show ?thesis by simp
  next
    case (Ok chunk)
    show ?thesis
    proof (cases "chunk = []")
      case True
      with Ok run spec have "r' = r1" "res = Ok (if saw then Some (bounded pre) else None)" by auto
      with True Ok spec show ?thesis by (auto simp: line_answer_def will_def)
    next
      case ne: False
      from spec Ok have w: "will r1 = will r" "br_buf r1 = chunk" "reader_ok r1" "reader_fault r1 = reader_fault r"
        by auto
      then have wr: "will r = chunk @ decoder_will (br_decoder r1) (pi_pipe (br_io r1))" by (simp add: will_def)
      show ?thesis
      proof (cases "position (\<lambda>b. b = NL) chunk")
        case (Some idx)
        have i: "idx < length chunk" by (rule position_less [OF Some])
        have p: "position (\<lambda>b. b = NL) (will r) = Some idx" unfolding wr by (simp add: position_NL_append Some)
        have t: "take idx (will r) = take idx chunk" using i wr by simp
        from run Ok ne Some have "r' = consume (idx + 1) r1" "res = Ok (Some (bounded (pre @ take idx chunk)))"
          by (auto simp: accumulate_bounded)
        with p t i w show ?thesis
          using will_consume [of "idx + 1" r1] by (simp add: line_answer_def consume_def)
      next
        case None
        let ?r2 = "consume (length chunk) r1"
        from run Ok ne None have rec: "read_line_loop inst kind cap (lr_bytes (bounded (pre @ chunk)))
            (lr_dropped (bounded (pre @ chunk))) True ?r2 = (r', res)"
          by (simp add: accumulate_bounded)
        have ok2: "reader_ok ?r2" "reader_fault ?r2 = reader_fault r" using w by (simp_all add: consume_def)
        have w2: "will r = chunk @ will ?r2" using w will_consume [of "length chunk" r1] wr by simp
        have p: "position (\<lambda>b. b = NL) (will r) =
            map_option (\<lambda>i. length chunk + i) (position (\<lambda>b. b = NL) (will ?r2))"
          unfolding w2 by (simp add: position_NL_append None)
        have ans: "line_answer ?r2 (pre @ chunk) True r' res"
          by (rule "1.hyps" [OF f [symmetric] Ok ne None _ rec 1(3) ok2(1)]) (simp add: accumulate_bounded)
        show ?thesis
        proof (cases "position (\<lambda>b. b = NL) (will ?r2)")
          case (Some i)
          with ans p ok2 show ?thesis by (simp add: line_answer_def w2)
        next
          case n2: None
          with ans p ok2 ne show ?thesis
            unfolding line_answer_def by (cases "reader_fault r") (simp_all add: w2 pipe_ok_def)
        qed
      qed
    qed
  qed
qed

lemma bounded_Nil [simp]: "lr_bytes (bounded []) = []" "lr_dropped (bounded []) = 0"
  by (simp_all add: bounded_def)

lemma read_line_bounded_answer:
  "read_line_bounded inst kind cap r = (r', res) \<Longrightarrow> 0 < cap \<Longrightarrow> reader_ok r \<Longrightarrow> line_answer r [] False r' res"
  using read_line_loop_answer [where pre = "[]"] by (simp add: read_line_bounded_def)

section \<open>What the observation of a pipe says\<close>

definition seen :: "source_stream \<Rightarrow> process_metrics \<Rightarrow> stream_observation" where
  "seen kind m = (if kind = Stderr then po_stderr (pm_observation m) else po_stdout (pm_observation m))"

text \<open>The bytes observed and those still in the pipe; every read leaves their sum alone.\<close>

definition tally :: "source_stream \<Rightarrow> probe_io \<Rightarrow> nat" where
  "tally kind io = sat_add_u64 (ob_bytes_total (seen kind (pi_metrics io))) (length (pipe_bytes (pi_pipe io)))"

definition observed ::
  "source_stream \<Rightarrow> probe_io \<Rightarrow> probe_io \<Rightarrow> (io_error, 'a) outcome \<Rightarrow> bool \<Rightarrow> bool" where
  "observed kind io io' res eof \<longleftrightarrow>
     pm_frames_total (pi_metrics io') = pm_frames_total (pi_metrics io) \<and>
     (ob_bytes_total (seen kind (pi_metrics io)) \<le> u64_max \<longrightarrow>
        ob_bytes_total (seen kind (pi_metrics io')) \<le> u64_max) \<and>
     (case res of
        Ok _ \<Rightarrow> tally kind io' = tally kind io \<and>
          (if eof then ob_state (seen kind (pi_metrics io')) = ObComplete
           else ob_state (seen kind (pi_metrics io')) \<in> {ob_state (seen kind (pi_metrics io)), ObComplete})
      | Err e \<Rightarrow> ob_bytes_total (seen kind (pi_metrics io')) = tally kind io \<and>
          ob_state (seen kind (pi_metrics io')) = ObFailed (pipe_failure e)
      | Panic \<Rightarrow> True)"

lemma observe_seen:
  assumes "kind = Stdout \<or> kind = Stderr"
  shows "seen kind (observe kind t cap r m) =
    observe_stream cap r (case r of Ok bs \<Rightarrow> length bs | _ \<Rightarrow> 0) (seen kind m)"
    "pm_frames_total (observe kind t cap r m) = pm_frames_total m"
  using assms by (auto simp: observe_def seen_def Let_def)

lemma observed_read_observed:
  assumes "observed_read inst kind cap io = (io', res)" and "kind = Stdout \<or> kind = Stderr"
    and "0 < cap" and "pipe_ok (pi_pipe io)"
  shows "observed kind io io' res (res = Ok [])"
    "res \<noteq> Ok [] \<Longrightarrow> \<exists>c. res = Ok c \<Longrightarrow>
       ob_state (seen kind (pi_metrics io')) = ob_state (seen kind (pi_metrics io))"
proof -
  note p = pipe_read_spec [OF observed_read_pipe [OF assms(1)] assms(3,4)]
  from assms(1) have m: "pi_metrics io' = observe kind (inst (pi_reads io)) cap res (pi_metrics io)"
    by (auto simp: observed_read_def split: prod.splits)
  note s = observe_seen [OF assms(2), of "inst (pi_reads io)" cap res "pi_metrics io", folded m]
  show "observed kind io io' res (res = Ok [])"
    using p s assms(3)
    by (cases res) (auto simp: observed_def tally_def observe_stream_def Let_def sat_add_assoc)
  show "ob_state (seen kind (pi_metrics io')) = ob_state (seen kind (pi_metrics io))"
    if "res \<noteq> Ok []" "\<exists>c. res = Ok c"
    using that s assms(3) by (auto simp: observe_stream_def Let_def)
qed

lemma observed_trans:
  "observed kind io io1 (Ok x) False \<Longrightarrow> observed kind io1 io' res eof \<Longrightarrow> observed kind io io' res eof"
  by (auto simp: observed_def split: outcome.splits if_splits)

lemma observed_refl: "observed kind io io (Ok x) False"
  by (simp add: observed_def)

lemma observed_weaken: "observed kind io io' res eof \<Longrightarrow> observed kind io io' res False"
  by (auto simp: observed_def split: outcome.splits if_splits)

lemma observed_Ok: "observed kind io io' (Ok x) eof \<Longrightarrow> observed kind io io' (Ok y) eof"
  by (cases eof) (simp_all add: observed_def)

lemma decoder_read_observed:
  "decoder_read inst kind cap d io = (d', io', res) \<Longrightarrow> kind = Stdout \<or> kind = Stderr \<Longrightarrow> 0 < cap \<Longrightarrow>
   pipe_ok (pi_pipe io) \<Longrightarrow> observed kind io io' res (res = Ok [])"
proof (induction inst kind cap d io rule: decoder_read.induct)
  case (1 inst kind cap d io)
  show ?case
  proof (cases "ud_pending_pos d < length (ud_pending d)")
    case True
    with 1(2,4) have "io' = io" "\<exists>x. res = Ok x" "res \<noteq> Ok []"
      by (auto simp: decoder_read.simps [of inst kind cap d io] Let_def)
    then show ?thesis by (auto simp: observed_def)
  next
    case pos: False
    let ?d1 = "d\<lparr>ud_pending := [], ud_pending_pos := 0\<rparr>"
    show ?thesis
    proof (cases "ud_latch d = PassThrough")
      case True
      obtain io1 r where o: "observed_read inst kind cap io = (io1, r)" by fastforce
      have eq: "io' = io1" "res = r"
        using 1(2) pos True o by (auto simp: decoder_read.simps [of inst kind cap d io] Let_def)
      show ?thesis unfolding eq by (rule observed_read_observed(1) [OF o 1(3-5)])
    next
      case False
      obtain io1 r where o: "observed_read inst kind RAW_CHUNK io = (io1, r)" by fastforce
      have cap: "0 < RAW_CHUNK" by (simp add: RAW_CHUNK_def)
      note ob = observed_read_observed(1) [OF o 1(3) cap 1(5)]
      show ?thesis
      proof (cases "\<exists>c. r = Ok c \<and> c \<noteq> []")
        case True
        then obtain c where c: "r = Ok c" "c \<noteq> []" by blast
        have run: "decoder_read inst kind cap (consume_raw ?d1 c) io1 = (d', io', res)"
          using 1(2) pos False o c by (simp add: decoder_read.simps [of inst kind cap d io] Let_def)
        have ok1: "pipe_ok (pi_pipe io1)"
          using pipe_read_spec [OF observed_read_pipe [OF o] cap 1(5)] by simp
        from "1.IH" [OF pos refl _ o [symmetric] c(1) c(2) run 1(3,4) ok1] False
        have "observed kind io1 io' res (res = Ok [])" by simp
        with observed_trans [OF observed_weaken [OF ob, unfolded c(1)]] show ?thesis by blast
      next
        case no: False
        have eq: "io' = io1" "res = r"
          using 1(2) pos False o no
          by (cases r; auto simp: decoder_read.simps [of inst kind cap d io] Let_def)+
        show ?thesis unfolding eq by (rule ob)
      qed
    qed
  qed
qed

lemma fill_buf_observed:
  assumes "fill_buf inst kind cap r = (r', res)" and "kind = Stdout \<or> kind = Stderr" and "0 < cap"
    and "reader_ok r"
  shows "observed kind (br_io r) (br_io r') res (res = Ok [])"
proof (cases "br_buf r = []")
  case True
  obtain d io res' where d: "decoder_read inst kind cap (br_decoder r) (br_io r) = (d, io, res')"
    by (metis prod_cases3)
  with assms(1) True have "res' = res" "br_io r' = io" by (auto simp: fill_buf_def)
  with decoder_read_observed [OF d assms(2-4)] show ?thesis by simp
next
  case False
  with assms(1) show ?thesis by (auto simp: fill_buf_def intro: observed_refl)
qed

lemma read_line_loop_observed:
  "read_line_loop inst kind cap bytes dropped saw r = (r', res) \<Longrightarrow> kind = Stdout \<or> kind = Stderr \<Longrightarrow>
   0 < cap \<Longrightarrow> reader_ok r \<Longrightarrow> observed kind (br_io r) (br_io r') res (res = Ok None)"
proof (induction inst kind cap bytes dropped saw r rule: read_line_loop.induct)
  case (1 inst kind cap bytes dropped saw r)
  obtain r1 res1 where f: "fill_buf inst kind cap r = (r1, res1)" by fastforce
  note ob = fill_buf_observed [OF f 1(3-5)]
  note spec = fill_buf_spec [OF f 1(4,5)]
  note run = 1(2) [unfolded read_line_loop.simps [of inst kind cap bytes dropped saw r] f prod.case]
  show ?case
  proof (cases res1)
    case (Err e)
    with run ob show ?thesis by (auto simp: observed_def)
  next
    case Panic
    with spec show ?thesis by simp
  next
    case (Ok chunk)
    show ?thesis
    proof (cases "chunk = []")
      case True
      with run ob Ok show ?thesis by (auto simp: observed_def split: if_splits)
    next
      case ne: False
      show ?thesis
      proof (cases "position (\<lambda>b. b = NL) chunk")
        case (Some idx)
        with run Ok ne have "br_io r' = br_io r1" "\<exists>x. res = Ok (Some x)"
          by (auto simp: consume_def split: prod.splits)
        with ob Ok ne show ?thesis by (auto simp: observed_def)
      next
        case None
        obtain b' k' where a: "accumulate bytes dropped chunk = (b', k')" by fastforce
        from run Ok ne None a have rec: "read_line_loop inst kind cap b' k' True (consume (length chunk) r1) = (r', res)"
          by simp
        have "reader_ok (consume (length chunk) r1)" using spec by (simp add: consume_def)
        from "1.IH" [OF f [symmetric] Ok ne None a [symmetric] rec 1(3,4) this]
        have "observed kind (br_io r1) (br_io r') res (res = Ok None)" by (simp add: consume_def)
        with observed_trans [OF observed_weaken [OF ob, unfolded Ok]] show ?thesis by blast
      qed
    qed
  qed
qed

section \<open>The text of a pipe\<close>

definition surrogate :: "nat \<Rightarrow> bool" where
  "surrogate u \<longleftrightarrow> 0xD800 \<le> u \<and> u \<le> 0xDFFF"

abbreviation carry_list :: "char option \<Rightarrow> string" where
  "carry_list c \<equiv> (case c of None \<Rightarrow> [] | Some x \<Rightarrow> [x])"

definition units_text :: "nat list \<Rightarrow> string" where
  "units_text us = concat (map encode_utf8 us)"

lemma decode_plain: "list_all (\<lambda>u. \<not> surrogate u) us \<Longrightarrow> decode_utf16_units us = map Some us"
  by (induction us rule: decode_utf16_units.induct) (auto simp: surrogate_def)

lemma decode_utf16_carry:
  "ud_pending (decode_utf16 d input) = ud_pending d @
     concat (map (\<lambda>c. encode_utf8 (case c of Some cp \<Rightarrow> cp | None \<Rightarrow> 0xFFFD))
       (decode_utf16_units (fst (take_units (ud_latch d = Be) (carry_list (ud_carry d) @ input)))))"
  "ud_carry (decode_utf16 d input) = snd (take_units (ud_latch d = Be) (carry_list (ud_carry d) @ input))"
  by (cases "ud_carry d"; cases input; auto simp: decode_utf16_def Let_def split: prod.splits)+

lemma take_units_append:
  "take_units be (xs @ ys) =
     (fst (take_units be xs) @ fst (take_units be (carry_list (snd (take_units be xs)) @ ys)),
      snd (take_units be (carry_list (snd (take_units be xs)) @ ys)))"
  by (induction be xs rule: take_units.induct) (auto simp: case_prod_unfold)

lemma decode_utf16_plain:
  assumes "list_all (\<lambda>u. \<not> surrogate u) (fst (take_units (ud_latch d = Be) (carry_list (ud_carry d) @ input)))"
  shows "ud_pending (decode_utf16 d input) =
    ud_pending d @ units_text (fst (take_units (ud_latch d = Be) (carry_list (ud_carry d) @ input)))"
  unfolding decode_utf16_carry(1) decode_plain [OF assms] units_text_def by (simp add: comp_def)

lemma later_utf16:
  "ud_latch d = Le \<or> ud_latch d = Be \<Longrightarrow> pipe_ok p \<Longrightarrow>
   list_all (\<lambda>u. \<not> surrogate u) (fst (take_units (ud_latch d = Be) (carry_list (ud_carry d) @ pipe_bytes p))) \<Longrightarrow>
   later d p = units_text (fst (take_units (ud_latch d = Be) (carry_list (ud_carry d) @ pipe_bytes p)))"
proof (induction d p rule: later.induct)
  case (3 d bs p)
  let ?be = "ud_latch d = Be" and ?cl = "carry_list (ud_carry d)"
  let ?q = "if length bs \<le> RAW_CHUNK then p else Bytes (drop RAW_CHUNK bs) # p"
  let ?d0 = "d\<lparr>ud_pending := [], ud_pending_pos := 0\<rparr>"
  let ?in = "take RAW_CHUNK bs"
  let ?d' = "consume_raw ?d0 ?in"
  have bs: "bs \<noteq> []" using "3.prems"(2) by (auto simp: pipe_ok_def)
  have latch: "ud_latch d \<noteq> PassThrough" "ud_latch d \<noteq> Undecided" using "3.prems"(1) by auto
  have d': "?d' = decode_utf16 ?d0 ?in" using "3.prems"(1) by (cases "ud_latch d") (simp_all add: consume_raw_def)
  have q: "?in @ pipe_bytes ?q = pipe_bytes (Bytes bs # p)" "pipe_ok ?q"
    using "3.prems"(2) bs by (auto simp: pipe_ok_def)
  have l': "ud_latch ?d' = ud_latch d" "ud_carry ?d' = snd (take_units ?be (?cl @ ?in))"
    by (simp_all add: d' decode_utf16_frame decode_utf16_carry(2))
  have split: "fst (take_units ?be (?cl @ pipe_bytes (Bytes bs # p))) =
      fst (take_units ?be (?cl @ ?in)) @ fst (take_units ?be (carry_list (ud_carry ?d') @ pipe_bytes ?q))"
    unfolding l'(2) q(1) [symmetric] append_assoc [symmetric] take_units_append [of ?be "?cl @ ?in"] by simp
  from "3.prems"(3) have plain: "list_all (\<lambda>u. \<not> surrogate u) (fst (take_units ?be (?cl @ ?in)))"
    "list_all (\<lambda>u. \<not> surrogate u) (fst (take_units ?be (carry_list (ud_carry ?d') @ pipe_bytes ?q)))"
    unfolding split by simp_all
  have "ud_pending ?d' = units_text (fst (take_units ?be (?cl @ ?in)))"
    using decode_utf16_plain [of ?d0 ?in] plain(1) by (simp add: d')
  moreover have "later ?d' ?q = units_text (fst (take_units ?be (carry_list (ud_carry ?d') @ pipe_bytes ?q)))"
    using "3.IH"(2) [OF bs latch(1) refl] "3.prems"(1) q(2) plain(2) unfolding l'(1) by blast
  ultimately show ?case
    using bs latch(1) split by (simp add: later.simps(3) Let_def units_text_def)
qed (auto simp: units_text_def split: option.split)

text \<open>
  The text a pipe stands for: its bytes, or the characters of its UTF-16 units, as its first read
  decides.
\<close>

definition first_read :: "pipe \<Rightarrow> string" where
  "first_read p = (case p of Bytes bs # _ \<Rightarrow> take RAW_CHUNK bs | _ \<Rightarrow> [])"

definition pipe_units :: "pipe \<Rightarrow> nat list" where
  "pipe_units p = (case detect (first_read p) of
     (l, skip) \<Rightarrow> if l = PassThrough then [] else fst (take_units (l = Be) (drop skip (pipe_bytes p))))"

definition pipe_text :: "pipe \<Rightarrow> string" where
  "pipe_text p =
     (if fst (detect (first_read p)) = PassThrough then pipe_bytes p else units_text (pipe_units p))"

lemma detect_latch: "fst (detect c) \<noteq> Undecided" "snd (detect c) \<le> length c"
  "fst (detect c) = PassThrough \<Longrightarrow> snd (detect c) = 0"
  by (auto simp: detect_def Let_def)

lemma later_new:
  assumes ok: "pipe_ok p" and plain: "list_all (\<lambda>u. \<not> surrogate u) (pipe_units p)"
  shows "later decoder_new p = pipe_text p"
proof (cases "\<exists>bs q. p = Bytes bs # q")
  case False
  then have "p = [] \<or> (\<exists>e q. p = Fault e # q)" by (cases p rule: pipe_bytes.cases) auto
  then show ?thesis
    by (auto simp: pipe_text_def first_read_def pipe_units_def units_text_def detect_def SNIFF_MIN_def)
next
  case True
  then obtain bs q where p: "p = Bytes bs # q" by blast
  let ?c = "take RAW_CHUNK bs"
  let ?q = "if length bs \<le> RAW_CHUNK then q else Bytes (drop RAW_CHUNK bs) # q"
  obtain l skip where det: "detect ?c = (l, skip)" by fastforce
  have fr: "first_read p = ?c" by (simp add: first_read_def p)
  have bs: "bs \<noteq> []" using ok p by (auto simp: pipe_ok_def)
  have q: "?c @ pipe_bytes ?q = pipe_bytes p" "pipe_ok ?q" using ok p by (auto simp: pipe_ok_def)
  let ?d' = "consume_raw (decoder_new\<lparr>ud_pending := [], ud_pending_pos := 0\<rparr>) ?c"
  have step: "later decoder_new p = ud_pending ?d' @ later ?d' ?q"
    using bs by (simp add: p later.simps(3) Let_def decoder_new_def)
  show ?thesis
  proof (cases "l = PassThrough")
    case True
    with det detect_latch(3) [of ?c] have "ud_latch ?d' = PassThrough" "ud_pending ?d' = ?c"
      by (simp_all add: consume_raw_def decoder_new_def Let_def)
    then have "later decoder_new p = ?c @ pipe_bytes ?q"
      using step later_pass [of ?d' ?q] q(2) by simp
    with True det q(1) show ?thesis by (simp add: pipe_text_def fr)
  next
    case False
    have l: "l = Le \<or> l = Be" using False detect_latch(1) [of ?c] det by (cases l) auto
    let ?d0 = "decoder_new\<lparr>ud_pending := [], ud_pending_pos := 0, ud_latch := l\<rparr>"
    have d': "?d' = decode_utf16 ?d0 (drop skip ?c)"
      using False det by (simp add: consume_raw_def decoder_new_def Let_def)
    have d0: "ud_carry ?d0 = None" "ud_latch ?d0 = l" "ud_pending ?d0 = []" by (simp_all add: decoder_new_def)
    have dr: "drop skip ?c @ pipe_bytes ?q = drop skip (pipe_bytes p)"
      using detect_latch(2) [of ?c] det by (simp flip: q(1))
    have u: "pipe_units p = fst (take_units (l = Be) (drop skip ?c @ pipe_bytes ?q))"
      using False det dr by (simp add: pipe_units_def fr)
    have c': "ud_latch ?d' = l" "ud_carry ?d' = snd (take_units (l = Be) (drop skip ?c))"
      using decode_utf16_carry(2) [of ?d0 "drop skip ?c"] d0
      by (simp_all add: d' decode_utf16_frame)
    have us: "pipe_units p = fst (take_units (l = Be) (drop skip ?c)) @
        fst (take_units (l = Be) (carry_list (ud_carry ?d') @ pipe_bytes ?q))"
      unfolding u c'(2) take_units_append [of "l = Be" "drop skip ?c"] by simp
    have pl: "list_all (\<lambda>u. \<not> surrogate u) (fst (take_units (l = Be) (drop skip ?c)))"
      "list_all (\<lambda>u. \<not> surrogate u) (fst (take_units (l = Be) (carry_list (ud_carry ?d') @ pipe_bytes ?q)))"
      using plain unfolding us by simp_all
    have "ud_pending ?d' = units_text (fst (take_units (l = Be) (drop skip ?c)))"
      using decode_utf16_plain [of ?d0 "drop skip ?c"] pl(1) d0 by (simp add: d')
    moreover have "later ?d' ?q = units_text (fst (take_units (l = Be) (carry_list (ud_carry ?d') @ pipe_bytes ?q)))"
      using later_utf16 [of ?d' ?q] l q(2) pl(2) unfolding c'(1) by blast
    ultimately show ?thesis
      using False det step us by (simp add: pipe_text_def fr units_text_def)
  qed
qed

section \<open>From the pipe to the ring\<close>

text \<open>The lines of a text; \<open>whole\<close> says whether an unterminated rest counts as one.\<close>

function lines_of :: "bool \<Rightarrow> string \<Rightarrow> string list" where
  "lines_of whole bs =
     (case position (\<lambda>b. b = NL) bs of
        Some i \<Rightarrow> take i bs # lines_of whole (drop (Suc i) bs)
      | None \<Rightarrow> if whole \<and> bs \<noteq> [] then [bs] else [])"
  by pat_completeness auto
termination
  by (relation "measure (\<lambda>(whole, bs). length bs)") (auto dest: position_less)

declare lines_of.simps [simp del]

fun frames_of :: "frame_env \<Rightarrow> probe_id \<Rightarrow> source_stream \<Rightarrow> nat \<Rightarrow> string list \<Rightarrow> source_frame list" where
  "frames_of env p kind n [] = []"
| "frames_of env p kind n (l # ls) =
     line_frame env p kind (sat_add_u64 n 1) (bounded l) # frames_of env p kind (sat_add_u64 n 1) ls"

text \<open>
  The scanners keep their contracts, the rules were built, the date arithmetic is the crate's, and the
  clock gives real times.
\<close>

definition clock_ok :: "frame_env \<Rightarrow> bool" where
  "clock_ok env \<longleftrightarrow> (\<forall>n i. real_time (fe_clock env n i)) \<and> (\<forall>n. real_time (fe_now env n))"

definition task_ok :: "('r, 'a, 'q, 's) stream_task \<Rightarrow> bool" where
  "task_ok tk \<longleftrightarrow> find_contract (tk_engine tk) \<and> set_contract (tk_engine tk) \<and>
     (\<forall>n. \<exists>rules. build_inner (tk_engine tk) rules = Ok (tk_rules tk n)) \<and>
     sub_contract (tk_sub tk) \<and> clock_ok (tk_env tk) \<and> 0 < tk_cap tk \<and> (tk_kind tk = Stdout \<or> tk_kind tk = Stderr)"

lemma sift_evaluate_total:
  assumes "find_contract e" and "set_contract e" and "build_inner e rules = Ok si"
  shows "\<exists>out. sift_evaluate e clk si frame bkt = Ok out"
proof -
  obtain b where b: "holds_rules e rules b"
    "si_keyword_rules si = b_keyword_rules b" "si_kw_pattern_to_rule si = b_kw_pattern_to_rule b"
    "si_regex_rules si = b_regex_rules b"
    "build_keyword_ac e (b_kw_patterns b) = Ok (si_keyword_ac si)"
    "build_regex_set e (b_regex_rules b) = Ok (si_regex_set si)"
    using build_inner_holds [OF assms(3)] by blast
  obtain line truncated where tx: "sift_cap_text (f_text frame) = (line, truncated)" by fastforce
  from keyword_part [OF assms(1) b(1,5,2,3) tx, of clk bkt] obtain ko where
    ko: "(case si_keyword_ac si of None \<Rightarrow> Ok []
      | Some ac \<Rightarrow> keyword_pass e clk si frame bkt line truncated (eng_find_iter e ac line)
          (replicate (length (si_keyword_rules si)) False) []) = Ok ko" by blast
  from regex_part [OF assms(2) b(1,6,4) tx, of ko clk bkt] ko show ?thesis
    by (auto simp: sift_evaluate_def tx)
qed

lemma process_frame_total:
  assumes "find_contract e" and "set_contract e" and "build_inner e rules = Ok si"
    and "sub_contract sub" and "\<forall>i. real_time (clk i)" and "real_time now" and "pipeline_ok pl"
  shows "\<exists>fr. process_frame e sub clk now emit patch pl frame ty bkt si sink metrics emitted [] = Ok fr \<and>
    pipeline_ok (fr_pipeline fr)"
proof -
  obtain out where out: "sift_evaluate e clk si frame bkt = Ok out"
    using sift_evaluate_total [OF assms(1-3)] by blast
  have "\<forall>d \<in> set (map (stamp_source ty) out). real_time (d_timestamp d)"
    using evaluate_drawn [OF out] assms(5) by (auto simp: list_all_iff drawn_def stamp_source_def)
  from suppress_and_emit_ok [OF assms(4,7,6) this, of emit patch bkt sink metrics emitted] assms(7) show ?thesis
    by (simp add: process_frame_def out Let_def)
qed

lemma on_line_total:
  assumes "task_ok tk" and "map_of (ss_rings st) (tk_probe_id tk) = Some ring" and "pipeline_ok (ss_pipeline st)"
  shows "\<exists>st'. on_line tk st lr = Ok st' \<and> pipeline_ok (ss_pipeline st') \<and> ss_line_no st' = sat_add_u64 (ss_line_no st) 1 \<and>
    ss_rings st' = AList.update (tk_probe_id tk)
      (ring_push ring (line_frame (tk_env tk) (tk_probe_id tk) (tk_kind tk) (sat_add_u64 (ss_line_no st) 1) lr))
      (ss_rings st) \<and>
    (\<exists>m. ss_reader st' = set_metrics m (ss_reader st) \<and> pm_observation m = pm_observation (ss_metrics st) \<and>
      pm_frames_total m = sat_add_u64 (pm_frames_total (ss_metrics st)) 1)"
proof -
  let ?n = "sat_add_u64 (ss_line_no st) 1"
  let ?f = "line_frame (tk_env tk) (tk_probe_id tk) (tk_kind tk) ?n lr"
  let ?m1 = "count_frame (tk_kind tk) (fe_instant (tk_env tk) ?n) (ss_metrics st)"
  have tk: "find_contract (tk_engine tk)" "set_contract (tk_engine tk)" "sub_contract (tk_sub tk)"
    "\<forall>i. real_time (fe_clock (tk_env tk) ?n i)" "real_time (fe_now (tk_env tk) ?n)"
    "\<exists>rules. build_inner (tk_engine tk) rules = Ok (tk_rules tk ?n)"
    using assms(1) unfolding task_ok_def clock_ok_def by blast+
  then obtain rules where rules: "build_inner (tk_engine tk) rules = Ok (tk_rules tk ?n)" by blast
  obtain fr where
    fr: "process_frame (tk_engine tk) (tk_sub tk) (fe_clock (tk_env tk) ?n) (fe_now (tk_env tk) ?n)
      (tk_emit tk) (tk_patch tk) (ss_pipeline st) (sift_view (tk_vte tk) (tk_strip_ansi tk) ?f)
      SProcess (tk_bucket_id tk) (tk_rules tk ?n) (ss_sink st) (pm_suppression ?m1)
      (pm_events_emitted ?m1) [] = Ok fr" "pipeline_ok (fr_pipeline fr)"
    by (rule process_frame_total [OF tk(1,2) rules tk(3-5) assms(3), THEN exE]) (elim conjE, rule that)
  have r: "append_frame (ss_rings st) (tk_probe_id tk) ?f =
      Ok (AList.update (tk_probe_id tk) (ring_push ring ?f) (ss_rings st), f_frame_id ?f)"
    using assms(2) by (simp add: append_frame_def ring_cell_def)
  have "pm_observation ?m1 = pm_observation (ss_metrics st)"
    "pm_frames_total ?m1 = sat_add_u64 (pm_frames_total (ss_metrics st)) 1"
    by (auto simp: count_frame_def Let_def split: source_stream.split)
  with fr r show ?thesis by (auto simp: on_line_def Let_def)
qed

lemma set_metrics_reader [simp]:
  "will (set_metrics m r) = will r" "reader_fault (set_metrics m r) = reader_fault r"
  "reader_ok (set_metrics m r) = reader_ok r" "pi_pipe (br_io (set_metrics m r)) = pi_pipe (br_io r)"
  "pi_metrics (br_io (set_metrics m r)) = m"
  by (simp_all add: will_def set_metrics_def)

text \<open>What the loop leaves behind, for a reader that will still deliver the lines \<open>ls\<close>.\<close>

definition stream_done ::
  "('r, 'a, 'q, 's) stream_task \<Rightarrow> 's stream_state \<Rightarrow> ring_inner \<Rightarrow> string list \<Rightarrow> 's stream_state \<Rightarrow> bool" where
  "stream_done tk st ring ls st' \<longleftrightarrow>
     map_of (ss_rings st') (tk_probe_id tk) =
       Some (foldl ring_push ring (frames_of (tk_env tk) (tk_probe_id tk) (tk_kind tk) (ss_line_no st) ls)) \<and>
     pm_frames_total (ss_metrics st') = sat_add_u64 (pm_frames_total (ss_metrics st)) (length ls) \<and>
     ob_bytes_total (seen (tk_kind tk) (ss_metrics st')) = tally (tk_kind tk) (br_io (ss_reader st)) \<and>
     ob_state (seen (tk_kind tk) (ss_metrics st')) =
       (case reader_fault (ss_reader st) of None \<Rightarrow> ObComplete | Some e \<Rightarrow> ObFailed (pipe_failure e))"

definition counts_ok :: "source_stream \<Rightarrow> process_metrics \<Rightarrow> bool" where
  "counts_ok kind m \<longleftrightarrow> pm_frames_total m \<le> u64_max \<and> ob_bytes_total (seen kind m) \<le> u64_max"

lemma seen_observation: "pm_observation m = pm_observation m' \<Longrightarrow> seen kind m = seen kind m'"
  by (simp add: seen_def)

lemma tally_observation:
  "pm_observation m = pm_observation (pi_metrics (br_io r)) \<Longrightarrow>
   tally kind (br_io (set_metrics m r)) = tally kind (br_io r)"
  by (simp add: tally_def seen_def)

lemma read_stream_loop_done:
  "task_ok tk \<Longrightarrow> reader_ok (ss_reader st) \<Longrightarrow> map_of (ss_rings st) (tk_probe_id tk) = Some ring \<Longrightarrow>
   counts_ok (tk_kind tk) (ss_metrics st) \<Longrightarrow> pipeline_ok (ss_pipeline st) \<Longrightarrow>
   \<exists>st'. read_stream_loop tk st = Ok st' \<and>
     stream_done tk st ring (lines_of (reader_fault (ss_reader st) = None) (will (ss_reader st))) st'"
proof (induction tk st arbitrary: ring rule: read_stream_loop.induct)
  case (1 tk st)
  let ?k = "tk_kind tk" and ?r0 = "ss_reader st"
  have tk: "0 < tk_cap tk" "?k = Stdout \<or> ?k = Stderr" using "1.prems"(1) by (auto simp: task_ok_def)
  obtain r res where rl: "read_line_bounded (tk_inst tk) ?k (tk_cap tk) ?r0 = (r, res)" by fastforce
  have ans: "line_answer ?r0 [] False r res" by (rule read_line_bounded_answer [OF rl tk(1) "1.prems"(2)])
  have ob: "observed ?k (br_io ?r0) (br_io r) res (res = Ok None)"
    by (rule read_line_loop_observed [OF rl [unfolded read_line_bounded_def] tk(2,1) "1.prems"(2)])
  have cr: "counts_ok ?k (pi_metrics (br_io r))"
    using ob "1.prems"(4) by (auto simp: observed_def counts_ok_def)
  note loop = read_stream_loop.simps [of tk st, unfolded rl prod.case]
  have more: "\<exists>st'. read_stream_loop tk st = Ok st' \<and> stream_done tk st ring (l # ls) st'"
    if res: "res = Ok (Some (bounded l))" and ok: "reader_ok r"
      and ls: "lines_of (reader_fault r = None) (will r) = ls" and ft: "reader_fault r = reader_fault ?r0" for l ls
  proof -
    let ?st1 = "st\<lparr>ss_reader := r\<rparr>"
    have "map_of (ss_rings ?st1) (tk_probe_id tk) = Some ring" "pipeline_ok (ss_pipeline ?st1)"
      using "1.prems"(3,5) by simp_all
    from on_line_total [OF "1.prems"(1) this, of "bounded l"] obtain st2 m where
      o: "on_line tk ?st1 (bounded l) = Ok st2" "ss_line_no st2 = sat_add_u64 (ss_line_no st) 1"
      "ss_rings st2 = AList.update (tk_probe_id tk) (ring_push ring (line_frame (tk_env tk) (tk_probe_id tk) ?k
        (sat_add_u64 (ss_line_no st) 1) (bounded l))) (ss_rings st)"
      "ss_reader st2 = set_metrics m r" "pm_observation m = pm_observation (pi_metrics (br_io r))"
      "pm_frames_total m = sat_add_u64 (pm_frames_total (pi_metrics (br_io r))) 1" "pipeline_ok (ss_pipeline st2)" by auto
    have "counts_ok ?k (ss_metrics st2)"
      using cr o(4-6) by (simp add: counts_ok_def seen_observation [OF o(5)])
    with "1.IH" [OF rl [symmetric] res refl o(1) "1.prems"(1), of "ring_push ring (line_frame (tk_env tk)
        (tk_probe_id tk) ?k (sat_add_u64 (ss_line_no st) 1) (bounded l))"] ok o(3,4,7)
    obtain st' where st': "read_stream_loop tk st2 = Ok st'"
      "stream_done tk st2 (ring_push ring (line_frame (tk_env tk) (tk_probe_id tk) ?k
        (sat_add_u64 (ss_line_no st) 1) (bounded l))) ls st'"
      using ls by (auto simp: update_conv')
    have "pm_frames_total (pi_metrics (br_io r)) = pm_frames_total (ss_metrics st)"
      "tally ?k (br_io r) = tally ?k (br_io ?r0)"
      using ob res by (simp_all add: observed_def)
    with st'(2) o(2,4,6) ft tally_observation [OF o(5)] have "stream_done tk st ring (l # ls) st'"
      by (simp add: stream_done_def sat_add_assoc)
    moreover have "read_stream_loop tk st = Ok st'" using loop res o(1) st'(1) by simp
    ultimately show ?thesis by blast
  qed
  show ?case
  proof (cases "position (\<lambda>b. b = NL) (will ?r0)")
    case (Some i)
    with ans more [of "take i (will ?r0)" "lines_of (reader_fault r = None) (will r)"] show ?thesis
      by (simp add: line_answer_def lines_of.simps [of _ "will ?r0"])
  next
    case None
    show ?thesis
    proof (cases "reader_fault ?r0")
      case (Some e)
      with ans None have "res = Err e" by (simp add: line_answer_def)
      with loop ob Some None "1.prems"(3,4) show ?thesis
        by (simp add: lines_of.simps [of _ "will ?r0"] stream_done_def observed_def counts_ok_def)
    next
      case nf: None
      with ans None have a: "res = Ok (if will ?r0 \<noteq> [] then Some (bounded (will ?r0)) else None)"
        "will r = []" "pi_pipe (br_io r) = []" by (simp_all add: line_answer_def)
      show ?thesis
      proof (cases "will ?r0 = []")
        case True
        have "tally ?k (br_io r) = ob_bytes_total (seen ?k (pi_metrics (br_io r)))"
          using a(3) cr by (simp add: tally_def counts_ok_def)
        with True a(1) loop ob nf None "1.prems"(3,4) show ?thesis
          by (simp add: lines_of.simps [of _ "[]"] stream_done_def observed_def counts_ok_def)
      next
        case False
        with a nf more [of "will ?r0" "[]"] None show ?thesis
          by (simp add: lines_of.simps [of _ "will ?r0"] lines_of.simps [of _ "[]"] pipe_ok_def)
      qed
    qed
  qed
qed

lemma read_stream_done:
  assumes "task_ok tk" and "pipe_ok p" and "list_all (\<lambda>u. \<not> surrogate u) (pipe_units p)"
    and "map_of rings (tk_probe_id tk) = Some ring" and "counts_ok (tk_kind tk) m" and "pipeline_ok pl"
  shows "\<exists>st. read_stream tk p m rings pl sink = Ok st \<and>
    stream_done tk \<lparr>ss_reader = reader_new p m, ss_rings = rings, ss_pipeline = pl, ss_sink = sink, ss_line_no = 0\<rparr>
      ring (lines_of (pipe_fault p = None) (pipe_text p)) st"
proof -
  have "will (reader_new p m) = pipe_text p"
    using later_new [OF assms(2,3)] by (simp add: will_def reader_new_def decoder_will_def decoder_new_def)
  moreover have "br_io (reader_new p m) = \<lparr>pi_pipe = p, pi_metrics = m, pi_reads = 0\<rparr>" by (simp add: reader_new_def)
  ultimately show ?thesis
    using read_stream_loop_done [of tk "\<lparr>ss_reader = reader_new p m, ss_rings = rings, ss_pipeline = pl,
      ss_sink = sink, ss_line_no = 0\<rparr>" ring] assms
    by (auto simp: read_stream_def)
qed

text \<open>
  C13. From the bytes of a pipe to the context ring, nothing is lost or invented. For every sequence
  of reads, however the bytes are cut into them, \<open>read_stream\<close> returns, and the probe's ring has then
  received, in order and numbered from one, exactly one frame for every line of the pipe's text (the
  bytes themselves, or the characters of a UTF-16 stream), each holding the first
  \<open>MAX_LINE_BYTES\<close> bytes of its line and the count of the rest. An unterminated last line counts as
  a line at the end of the file, and is dropped when the pipe fails. The observation of the stream
  is then complete, or failed with the error the pipe gave, and has counted every byte read. The
  hypotheses: a UTF-16 stream has no surrogates, the rules were built by a scanner that keeps its
  contract, the clock is between the epoch and the year 9999, dates are subtracted as the
  \<^verbatim>\<open>time\<close> crate does, and the noise pipeline is new or has seen only such times. One
  stream is read by itself: the other stream's frames and the events of the shared noise pipeline
  enter between two frames of this one and are not part of the statement.
\<close>

theorem stream_becomes_frames:
  assumes "task_ok tk" and "pipe_ok p" and "list_all (\<lambda>u. \<not> surrogate u) (pipe_units p)"
    and "map_of rings (tk_probe_id tk) = Some ring" and "counts_ok (tk_kind tk) m" and "pipeline_ok pl"
    and "ls = lines_of (pipe_fault p = None) (pipe_text p)"
  shows "\<exists>st. read_stream tk p m rings pl sink = Ok st \<and>
    map_of (ss_rings st) (tk_probe_id tk) =
      Some (foldl ring_push ring (frames_of (tk_env tk) (tk_probe_id tk) (tk_kind tk) 0 ls)) \<and>
    pm_frames_total (ss_metrics st) = min (pm_frames_total m + length ls) u64_max \<and>
    seen (tk_kind tk) (ss_metrics st) =
      \<lparr>ob_bytes_total = min (ob_bytes_total (seen (tk_kind tk) m) + length (pipe_bytes p)) u64_max,
       ob_state = (case pipe_fault p of None \<Rightarrow> ObComplete | Some e \<Rightarrow> ObFailed (pipe_failure e))\<rparr>"
  using read_stream_done [OF assms(1-6), of sink] assms(7)
  by (auto simp: stream_done_def tally_def sat_add_def reader_new_def)

definition bom :: "bool \<Rightarrow> string" where
  "bom be = map char_of (if be then [0xFE, 0xFF] else [0xFF, 0xFE :: nat])"

definition utf16_bytes :: "bool \<Rightarrow> nat list \<Rightarrow> string" where
  "utf16_bytes be us =
     concat (map (\<lambda>u. map char_of (if be then [u div 256, u mod 256] else [u mod 256, u div 256])) us)"

lemma byte_char_of [simp]: "byte (char_of n) = n mod 256"
  by (simp add: byte_def)

lemma take_units_bytes: "list_all (\<lambda>u. u < 65536) us \<Longrightarrow> take_units be (utf16_bytes be us) = (us, None)"
  by (induction us) (auto simp: utf16_bytes_def combine_def)

lemma first_read_prefix: "pipe_bytes p = first_read p @ drop (length (first_read p)) (pipe_bytes p)"
  by (cases p rule: pipe_bytes.cases) (auto simp: first_read_def min_def)

lemma detect_bom:
  assumes "pipe_bytes p = bom be @ bs" and "2 \<le> length (first_read p)"
  shows "detect (first_read p) = (if be then Be else Le, 2)"
proof -
  obtain a b c where f: "first_read p = a # b # c"
    using assms(2) by (cases "first_read p"; cases "tl (first_read p)") auto
  with first_read_prefix [of p] assms(1) have "[a, b] = bom be" by (auto simp: bom_def)
  then show ?thesis using f by (auto simp: detect_def bom_def split: if_splits)
qed

text \<open>
  C19. A UTF-16 stream with a byte order mark, of either byte order, gives the same frames as the
  UTF-8 stream of the same text, however the two are cut into reads, when the first read of the
  UTF-16 stream holds the whole mark, the text has no surrogates, neither stream fails, and the
  UTF-8 stream's first read is not itself taken for UTF-16.
\<close>

theorem utf16_same_frames:
  assumes "task_ok tk" and "pipe_ok p" and "pipe_ok q" and "pipe_fault p = None" and "pipe_fault q = None"
    and "pipe_bytes p = bom be @ utf16_bytes be us" and "list_all (\<lambda>u. u < 65536 \<and> \<not> surrogate u) us"
    and "2 \<le> length (first_read p)"
    and "pipe_bytes q = units_text us" and "fst (detect (first_read q)) = PassThrough"
    and "map_of rings (tk_probe_id tk) = Some ring" and "counts_ok (tk_kind tk) m" and "pipeline_ok pl"
  shows "\<exists>st st'. read_stream tk p m rings pl sink = Ok st \<and> read_stream tk q m rings pl sink = Ok st' \<and>
    map_of (ss_rings st) (tk_probe_id tk) = map_of (ss_rings st') (tk_probe_id tk)"
proof -
  note det = detect_bom [OF assms(6,8)]
  have "list_all (\<lambda>u. u < 65536) us" using assms(7) by (simp add: list_all_iff)
  then have u: "pipe_units p = us"
    using det take_units_bytes [of us be] by (cases be) (simp_all add: pipe_units_def assms(6) bom_def)
  have pt: "pipe_text p = units_text us" using det u by (simp add: pipe_text_def)
  have qt: "pipe_text q = units_text us" using assms(9,10) by (simp add: pipe_text_def)
  have q: "pipe_units q = []" using assms(10) by (simp add: pipe_units_def case_prod_unfold)
  have "list_all (\<lambda>u. \<not> surrogate u) (pipe_units p)" "list_all (\<lambda>u. \<not> surrogate u) (pipe_units q)"
    using assms(7) u q by (simp_all add: list_all_iff)
  from read_stream_done [OF assms(1,2) this(1) assms(11-13), of sink]
    read_stream_done [OF assms(1,3) this(2) assms(11-13), of sink]
  show ?thesis by (auto simp: stream_done_def pt qt assms(4,5))
qed

text \<open>
  C40. A byte order mark that does not arrive whole is not seen. When the first read of a pipe gives
  one byte, the decoder lets the stream through unchanged for good, so the lines of a UTF-16
  stream that begins like this are cut at the byte \<open>0A\<close> and keep their zero bytes.
\<close>

theorem split_bom_passes_raw:
  assumes "task_ok tk" and "pipe_ok (Bytes [b] # p)"
    and "map_of rings (tk_probe_id tk) = Some ring" and "counts_ok (tk_kind tk) m" and "pipeline_ok pl"
  shows "\<exists>st. read_stream tk (Bytes [b] # p) m rings pl sink = Ok st \<and>
    map_of (ss_rings st) (tk_probe_id tk) =
      Some (foldl ring_push ring (frames_of (tk_env tk) (tk_probe_id tk) (tk_kind tk) 0
        (lines_of (pipe_fault p = None) (b # pipe_bytes p))))"
proof -
  have "detect (first_read (Bytes [b] # p)) = (PassThrough, 0)"
    by (simp add: first_read_def detect_def RAW_CHUNK_def SNIFF_MIN_def SNIFF_WINDOW_def)
  then have "pipe_units (Bytes [b] # p) = []" "pipe_text (Bytes [b] # p) = b # pipe_bytes p"
    by (simp_all add: pipe_units_def pipe_text_def)
  then show ?thesis
    using read_stream_done [OF assms(1,2) _ assms(3-5), of sink] by (auto simp: stream_done_def)
qed

section \<open>Sample streams\<close>

definition sample_task :: "(string, string list, string list, event_draft list) stream_task" where
  "sample_task =
     \<lparr>tk_probe_id = ProbeId ''p'', tk_kind = Stdout, tk_bucket_id = wit_b, tk_strip_ansi = True,
      tk_engine = sample_engine, tk_rules = (\<lambda>_. the_ok (build_inner sample_engine [])),
      tk_emit = memory_emit, tk_patch = memory_patch, tk_sub = sample_sub,
      tk_vte = (\<lambda>_. []),
      tk_env = \<lparr>fe_frame_id = (\<lambda>n. FrameId (show_nat n)), fe_timestamp = int, fe_instant = int,
                fe_clock = (\<lambda>_ _. 1), fe_now = (\<lambda>_. 1)\<rparr>,
      tk_inst = int, tk_cap = 8192\<rparr>"

lemma sample_task_ok: "task_ok sample_task" "tk_probe_id sample_task = ProbeId ''p''" "tk_kind sample_task = Stdout"
proof -
  have "\<exists>si. build_inner sample_engine [] = Ok si"
    by (simp add: build_inner_def builder_new_def build_keyword_ac_def build_regex_set_def)
  then obtain si where "build_inner sample_engine [] = Ok si" by blast
  then show "task_ok sample_task"
    using sample_find_contract sample_set_contract sample_sub_contract
    by (auto simp: task_ok_def clock_ok_def real_time_def TIME_MAX_def sample_task_def the_ok_def)
qed (simp_all add: sample_task_def)

lemma sample_counts: "counts_ok kind process_metrics_default"
  by (simp add: counts_ok_def process_metrics_default_def seen_def)

lemma detect_short:
  assumes "length c < SNIFF_MIN" and "byte (hd c) \<noteq> 0xFF" and "byte (hd c) \<noteq> 0xFE"
  shows "detect c = (PassThrough, 0)"
  using assms by (cases c) (auto simp: detect_def Let_def SNIFF_WINDOW_def SNIFF_MIN_def)

lemma sample_text: "pipe_text [Bytes ''ab'', Bytes (''c'' @ [NL] @ ''d'')] = ''abc'' @ [NL] @ ''d''"
  "pipe_units [Bytes ''ab'', Bytes (''c'' @ [NL] @ ''d'')] = []"
  using detect_short [of "''ab''"]
  by (simp_all add: pipe_text_def pipe_units_def first_read_def byte_def RAW_CHUNK_def SNIFF_MIN_def)

theorem stream_becomes_frames_witness:
  "\<exists>st. read_stream sample_task [Bytes ''ab'', Bytes (''c'' @ [NL] @ ''d'')] process_metrics_default
      [(ProbeId ''p'', ring_inner_new ring_config_default)] with_default_policy [] = Ok st \<and>
    pm_frames_total (ss_metrics st) = 2 \<and> ob_bytes_total (seen Stdout (ss_metrics st)) = 5"
proof -
  have "pipe_ok [Bytes ''ab'', Bytes (''c'' @ [NL] @ ''d'')]" by (simp add: pipe_ok_def)
  moreover have "lines_of True (''abc'' @ [NL] @ ''d'') = [''abc'', ''d'']"
    by (simp add: lines_of.simps)
  ultimately show ?thesis
    using stream_becomes_frames [OF sample_task_ok(1), of "[Bytes ''ab'', Bytes (''c'' @ [NL] @ ''d'')]"
        "[(ProbeId ''p'', ring_inner_new ring_config_default)]" "ring_inner_new ring_config_default"
        process_metrics_default with_default_policy _ "[]", OF _ _ _ _ _ refl]
      with_default_policy_ok sample_text sample_counts [of Stdout] sample_task_ok
    by (auto simp: process_metrics_default_def seen_def u64_max_def)
qed

definition wide_pipe :: pipe where
  "wide_pipe = [Bytes (map char_of [0xFF, 0xFE, 0x61 :: nat]), Bytes (map char_of [0, 10, 0 :: nat])]"

definition narrow_pipe :: pipe where
  "narrow_pipe = [Bytes (''a'' @ [NL])]"

theorem utf16_same_frames_witness:
  "\<exists>st st'. read_stream sample_task wide_pipe process_metrics_default
      [(ProbeId ''p'', ring_inner_new ring_config_default)] with_default_policy [] = Ok st \<and>
    read_stream sample_task narrow_pipe process_metrics_default
      [(ProbeId ''p'', ring_inner_new ring_config_default)] with_default_policy [] = Ok st' \<and>
    map_of (ss_rings st) (ProbeId ''p'') = map_of (ss_rings st') (ProbeId ''p'')"
proof -
  have "pipe_ok wide_pipe" "pipe_ok narrow_pipe" "pipe_fault wide_pipe = None" "pipe_fault narrow_pipe = None"
    "pipe_bytes wide_pipe = bom False @ utf16_bytes False [0x61, 10]" "2 \<le> length (first_read wide_pipe)"
    "pipe_bytes narrow_pipe = units_text [0x61, 10]"
    by (simp_all add: pipe_ok_def wide_pipe_def narrow_pipe_def bom_def utf16_bytes_def units_text_def
        encode_utf8_def first_read_def RAW_CHUNK_def) (simp_all add: char_of_def bit_0)
  moreover have "fst (detect (first_read narrow_pipe)) = PassThrough"
    using detect_short [of "''a'' @ [NL]"]
    by (simp add: narrow_pipe_def first_read_def RAW_CHUNK_def SNIFF_MIN_def byte_def)
  ultimately show ?thesis
    using utf16_same_frames [OF sample_task_ok(1), of wide_pipe narrow_pipe False "[0x61, 10]"
        "[(ProbeId ''p'', ring_inner_new ring_config_default)]" "ring_inner_new ring_config_default"
        process_metrics_default with_default_policy "[]"] sample_counts [of Stdout] sample_task_ok with_default_policy_ok
    by (simp add: surrogate_def)
qed

theorem split_bom_passes_raw_witness:
  "\<exists>st. read_stream sample_task [Bytes [CHR 0xFF], Bytes (map char_of [0xFE, 0x61, 0, 10, 0 :: nat])]
      process_metrics_default [(ProbeId ''p'', ring_inner_new ring_config_default)] with_default_policy [] = Ok st \<and>
    map_of (ss_rings st) (ProbeId ''p'') =
      Some (foldl ring_push (ring_inner_new ring_config_default) (frames_of (tk_env sample_task) (ProbeId ''p'') Stdout 0
        [map char_of [0xFF, 0xFE, 0x61, 0 :: nat], [CHR 0x00]]))"
proof -
  have "pipe_ok [Bytes [CHR 0xFF], Bytes (map char_of [0xFE, 0x61, 0, 10, 0 :: nat])]" by (simp add: pipe_ok_def)
  moreover have "lines_of True (CHR 0xFF # map char_of [0xFE, 0x61, 0, 10, 0 :: nat]) =
      [map char_of [0xFF, 0xFE, 0x61, 0 :: nat], [CHR 0x00]]"
    by (simp add: lines_of.simps char_of_def bit_0)
  ultimately show ?thesis
    using split_bom_passes_raw [OF sample_task_ok(1), of "CHR 0xFF" "[Bytes (map char_of [0xFE, 0x61, 0, 10, 0 :: nat])]"
        "[(ProbeId ''p'', ring_inner_new ring_config_default)]" "ring_inner_new ring_config_default"
        process_metrics_default with_default_policy "[]"] sample_counts [of Stdout] sample_task_ok with_default_policy_ok
    by simp
qed

section \<open>The text of a frame\<close>

lemma replacement_ok: "utf8_ok REPLACEMENT"
  by (simp add: REPLACEMENT_def encode_utf8_def utf8_ok_Cons_iff utf8_len_def is_cont_def second_ok_def)

lemma utf8_next_ok:
  assumes "utf8_next c s = (k, True)"
  shows "utf8_ok (take k (c # s))"
proof -
  let ?n = "utf8_len c"
  from assms have k: "k = ?n" "?n \<noteq> 0"
    "(if s \<noteq> [] \<and> second_ok c (s ! 0) then length (takeWhile is_cont (take (?n - 1) s)) else 0) = ?n - 1"
    by (auto simp: utf8_next_def Let_def split: if_splits)
  show ?thesis
  proof (cases "?n = 1")
    case True
    with k show ?thesis by (simp add: utf8_ok_Cons_iff)
  next
    case False
    with k have s: "s \<noteq> []" "second_ok c (s ! 0)" "length (takeWhile is_cont (take (?n - 1) s)) = ?n - 1"
      by (auto split: if_splits)
    have le: "?n - 1 \<le> length s"
      using s(3) length_takeWhile_le [of is_cont "take (?n - 1) s"] by simp
    then have "takeWhile is_cont (take (?n - 1) s) = take (?n - 1) s"
      using s(3) by (metis length_take min.absorb2 takeWhile_eq_take take_all order_refl)
    then have "list_all is_cont (take (?n - 1) s)"
      by (metis set_takeWhileD list_all_iff)
    with k(2) s le False show ?thesis
      by (cases ?n) (auto simp: k(1) utf8_ok_Cons_iff min_def)
  qed
qed

lemma lossy_ok: "utf8_ok (from_utf8_lossy s)"
proof (induction s rule: from_utf8_lossy.induct)
  case (2 c s)
  obtain k ok where n: "utf8_next c s = (k, ok)" by fastforce
  have "utf8_ok (if ok then take k (c # s) else REPLACEMENT)"
    using utf8_next_ok replacement_ok n by (cases ok) auto
  with utf8_ok_append [OF this 2 [OF n [symmetric]]] n show ?case by (simp add: from_utf8_lossy.simps(2))
qed simp

lemma lossy_id: "utf8_ok s \<Longrightarrow> from_utf8_lossy s = s"
proof (induction s rule: from_utf8_lossy.induct)
  case (2 c s)
  let ?n = "utf8_len c"
  from 2(2) have v: "?n \<noteq> 0" "?n \<le> Suc (length s)" "list_all is_cont (take (?n - 1) s)"
    "1 < ?n \<longrightarrow> second_ok c (s ! 0)" "utf8_ok (drop (?n - 1) s)" by (auto simp: utf8_ok_Cons_iff)
  have tw: "takeWhile is_cont (take (?n - 1) s) = take (?n - 1) s"
    using v(3) by (simp add: list_all_iff)
  have "length (takeWhile is_cont (take (?n - 1) s)) = ?n - 1"
    unfolding tw using v(2) by simp
  with v have n: "utf8_next c s = (?n, True)"
    by (cases "?n = 1") (auto simp: utf8_next_def Let_def)
  from 2(1) [OF n [symmetric] v(5)] n v(1) show ?case
    by (cases ?n) (simp_all add: from_utf8_lossy.simps(2))
qed simp

lemma trim_end_cr_split: "\<exists>n. s = trim_end_cr s @ replicate n (CHR 0x0D)"
proof -
  let ?P = "\<lambda>c. c = CHR 0x0D"
  let ?n = "length (takeWhile ?P (rev s))"
  have "takeWhile ?P (rev s) = replicate ?n (CHR 0x0D)"
    by (rule replicate_eqI) (auto dest: set_takeWhileD)
  then have "rev s = replicate ?n (CHR 0x0D) @ dropWhile ?P (rev s)"
    using takeWhile_dropWhile_id [of ?P "rev s"] by simp
  from arg_cong [OF this, of rev] have "s = trim_end_cr s @ replicate ?n (CHR 0x0D)"
    by (simp add: trim_end_cr_def)
  then show ?thesis by blast
qed

lemma trim_end_cr_ok:
  assumes "utf8_ok s"
  shows "utf8_ok (trim_end_cr s)"
proof -
  obtain n where s: "s = trim_end_cr s @ replicate n (CHR 0x0D)" using trim_end_cr_split by blast
  have "is_char_boundary s (length (trim_end_cr s))"
  proof (cases n)
    case 0
    with s show ?thesis by (metis append_Nil2 is_char_boundary_length replicate_0)
  next
    case (Suc m)
    with s have "s ! length (trim_end_cr s) = CHR 0x0D" "length (trim_end_cr s) < length s"
      by (metis nth_append_length replicate_Suc, metis length_append length_replicate less_add_same_cancel1 zero_less_Suc)
    then show ?thesis by (simp add: is_char_boundary_def is_cont_def byte_def)
  qed
  from utf8_ok_take_drop [OF assms this] s show ?thesis by (metis append_eq_conv_conj)
qed

text \<open>
  C20. The text of a frame is a string. Whatever bytes a line holds, the frame made of it has valid
  UTF-8 text of at most \<open>MAX_FRAME_BYTES\<close> bytes; and a line that is such a text and does not end in
  a carriage return is kept as it is, with nothing counted as truncated.
\<close>

theorem frame_text_valid:
  "utf8_ok (f_text (line_frame env p kind n (bounded l))) \<and>
   length (f_text (line_frame env p kind n (bounded l))) \<le> MAX_FRAME_BYTES \<and>
   (utf8_ok l \<and> length l \<le> MAX_FRAME_BYTES \<and> trim_end_cr l = l \<longrightarrow>
     f_text (line_frame env p kind n (bounded l)) = l \<and>
     f_truncated_bytes (line_frame env p kind n (bounded l)) = 0)"
proof -
  let ?t = "trim_end_cr (from_utf8_lossy (lr_bytes (bounded l)))"
  obtain kept dropped where c: "cap_text ?t = (kept, dropped)" by fastforce
  have t: "f_text (line_frame env p kind n (bounded l)) = kept"
    using c by (simp add: line_frame_def Let_def frame_new_def frame_with_line_def)
  have ok: "utf8_ok ?t" by (rule trim_end_cr_ok [OF lossy_ok])
  have "utf8_ok kept" "length kept \<le> MAX_FRAME_BYTES"
    using cap_text_spec [OF ok] c by auto
  moreover have "kept = l \<and> f_truncated_bytes (line_frame env p kind n (bounded l)) = 0"
    if "utf8_ok l" "length l \<le> MAX_FRAME_BYTES" "trim_end_cr l = l"
  proof -
    have le: "length l \<le> MAX_LINE_BYTES" using that(2) by (simp add: MAX_FRAME_BYTES_def MAX_LINE_BYTES_def)
    then have "?t = l" using that lossy_id by (simp add: bounded_def)
    with c that(2) have "kept = l" "dropped = 0" by (simp_all add: cap_text_def)
    with c le show ?thesis
      by (simp add: line_frame_def Let_def frame_new_def frame_with_line_def bounded_def)
  qed
  ultimately show ?thesis using t by auto
qed

theorem frame_text_valid_witness:
  "f_text (line_frame (tk_env sample_task) (ProbeId ''p'') Stdout 1 (bounded ''abc'')) = ''abc''"
  using frame_text_valid [of "tk_env sample_task" "ProbeId ''p''" Stdout 1 "''abc''"]
  by (simp add: utf8_ok_Cons_iff utf8_len_def byte_def MAX_FRAME_BYTES_def trim_end_cr_def)

end
