(* ===== verification/TC_File.thy ===== *)
theory TC_File
  imports TC_Stream
begin

text \<open>
  The file probe of \<^verbatim>\<open>probes/src/file.rs\<close>: the choice of the watch backend from the mount table, the
  line reader, and the loop that follows a file through growth, truncation and rotation.

  One pass of the loop is \<open>file_poll\<close>, a function of what the file system shows to it: whether the
  path can be opened, the metadata of the open file, and the chunks its buffered reader hands out
  from the position the loop has seeked to. The bytes read may go beyond the size in the metadata,
  since a writer may append in between. The wait between two passes only decides when the next one
  comes, or that the probe is cancelled.
\<close>

section \<open>The watch backend\<close>

datatype file_watch_backend = BNotify | BPoll

text \<open>\<open>str::split_whitespace\<close>\<close>

fun ws_words :: "string \<Rightarrow> string list \<Rightarrow> string list" where
  "ws_words w [] = (if w = [] then [] else [w])"
| "ws_words w (c # cs) =
     (if is_whitespace c then (if w = [] then [] else [w]) @ ws_words [] cs else ws_words (w @ c) cs)"

definition split_whitespace :: "string \<Rightarrow> string list" where
  "split_whitespace s = ws_words [] (chars s)"

definition path_has_mount_prefix :: "string \<Rightarrow> string \<Rightarrow> bool" where
  "path_has_mount_prefix target mount_point \<longleftrightarrow>
     mount_point = ''/'' \<or>
     (case strip_prefix mount_point target of
        None \<Rightarrow> False | Some rest \<Rightarrow> rest = [] \<or> starts_with ''/'' rest)"

text \<open>
  One line of the table. The lines are cut at the line feed only: a carriage return before it is
  white space to the split into fields.
\<close>

definition mount_line :: "string \<Rightarrow> (string \<times> string) option \<Rightarrow> string \<Rightarrow> (string \<times> string) option" where
  "mount_line target best line =
     (let fields = split_whitespace line in
      case position (\<lambda>f. f = ''-'') fields of
        None \<Rightarrow> best
      | Some dash_idx \<Rightarrow>
          if length fields < 5 \<or> length fields \<le> dash_idx + 1 then best
          else
            let mount_point = fields ! 4; fs_type = fields ! (dash_idx + 1) in
            if path_has_mount_prefix target mount_point then
              (case best of
                 None \<Rightarrow> Some (mount_point, fs_type)
               | Some (bmp, _) \<Rightarrow>
                   if length bmp < length mount_point then Some (mount_point, fs_type) else best)
            else best)"

definition backend_from_mountinfo :: "string \<Rightarrow> string \<Rightarrow> file_watch_backend" where
  "backend_from_mountinfo mountinfo target =
     (case foldl (mount_line target) None (lines_of True mountinfo) of
        Some (_, ty) \<Rightarrow> if ty = ''9p'' then BPoll else BNotify
      | None \<Rightarrow> BNotify)"

text \<open>\<open>mountinfo\<close> is the table, if it can be read; \<open>canon\<close> is the file system's \<open>canonicalize\<close>.\<close>

definition select_backend_for_path ::
  "string option \<Rightarrow> (string \<Rightarrow> string option) \<Rightarrow> string \<Rightarrow> file_watch_backend" where
  "select_backend_for_path mountinfo canon path =
     (case mountinfo of
        None \<Rightarrow> BNotify
      | Some t \<Rightarrow> backend_from_mountinfo t (case canon path of Some p \<Rightarrow> p | None \<Rightarrow> path))"

section \<open>The probe\<close>

datatype file_probe_mode = ScanOnce | FollowEnd | FollowBeginning

record file_identity =
  fi_device :: nat
  fi_inode :: nat

definition DEFAULT_POLL_INTERVAL :: duration where
  "DEFAULT_POLL_INTERVAL = 250 * 1000000"

record file_probe_config =
  fc_probe_id :: "probe_id option"
  fc_bucket_id :: bucket_id
  fc_path :: string
  fc_mode :: file_probe_mode
  fc_poll_interval :: duration
  fc_backend :: file_watch_backend

definition follow_end :: "string \<Rightarrow> bucket_id \<Rightarrow> file_probe_config" where
  "follow_end path bkt =
     \<lparr>fc_probe_id = None, fc_bucket_id = bkt, fc_path = path, fc_mode = FollowEnd,
      fc_poll_interval = DEFAULT_POLL_INTERVAL, fc_backend = BNotify\<rparr>"

definition follow_beginning :: "string \<Rightarrow> bucket_id \<Rightarrow> file_probe_config" where
  "follow_beginning path bkt =
     \<lparr>fc_probe_id = None, fc_bucket_id = bkt, fc_path = path, fc_mode = FollowBeginning,
      fc_poll_interval = DEFAULT_POLL_INTERVAL, fc_backend = BNotify\<rparr>"

record file_metrics =
  fm_frames_total :: nat
  fm_bytes_total :: nat
  fm_events_emitted :: nat
  fm_rotations_detected :: nat
  fm_truncations_detected :: nat
  fm_suppression :: suppression_metrics
  fm_last_frame_at :: "timestamp option"

definition file_metrics_default :: file_metrics where
  "file_metrics_default =
     \<lparr>fm_frames_total = 0, fm_bytes_total = 0, fm_events_emitted = 0, fm_rotations_detected = 0,
      fm_truncations_detected = 0, fm_suppression = suppression_default, fm_last_frame_at = None\<rparr>"

text \<open>The message of an \<open>InvalidInput\<close> error names the path.\<close>

datatype file_probe_error = FIo io_error | FNotRegular string | FCancelled

section \<open>The line reader\<close>

definition MAX_FILE_LINE_BYTES :: nat where
  "MAX_FILE_LINE_BYTES = 64 * 1024"

record file_line_read =
  fl_text :: string
  fl_raw_len :: nat
  fl_terminated :: bool

definition push_capped :: "string \<Rightarrow> string \<Rightarrow> string" where
  "push_capped buf xs = buf @ take (min (MAX_FILE_LINE_BYTES - length buf) (length xs)) xs"

definition decode_file_line :: "string \<Rightarrow> string" where
  "decode_file_line bytes = trim_end_cr (from_utf8_lossy bytes)"

text \<open>
  A reader is the chunks that \<open>fill_buf\<close> will hand out, none of them empty, and the error that ends
  them, if any. \<open>consume\<close> of a part leaves the rest at the front.
\<close>

fun read_file_line ::
  "string \<Rightarrow> nat \<Rightarrow> bool \<Rightarrow> string list \<Rightarrow> io_error option \<Rightarrow>
     (io_error, file_line_read option \<times> string list) outcome" where
  "read_file_line buf raw_len saw_input [] fault =
     (case fault of
        Some e \<Rightarrow> Err e
      | None \<Rightarrow>
          Ok (if saw_input
              then Some \<lparr>fl_text = decode_file_line buf, fl_raw_len = raw_len, fl_terminated = False\<rparr>
              else None, []))"
| "read_file_line buf raw_len saw_input (chunk # cs) fault =
     (case position (\<lambda>b. b = NL) chunk of
        Some idx \<Rightarrow>
          Ok (Some \<lparr>fl_text = decode_file_line (push_capped buf (take idx chunk)),
                    fl_raw_len = sat_add_u64 (sat_add_u64 raw_len idx) 1, fl_terminated = True\<rparr>,
              if idx + 1 < length chunk then drop (idx + 1) chunk # cs else cs)
      | None \<Rightarrow>
          read_file_line (push_capped buf chunk) (sat_add_u64 raw_len (length chunk)) True cs fault)"

section \<open>One pass over the file\<close>

record file_meta =
  me_is_file :: bool
  me_len :: nat
  me_identity :: "file_identity option"

text \<open>
  What a pass finds at the path: nothing, another error, or an open file with its metadata and, for a
  position, the chunks read from there. Each call on the open file may fail.
\<close>

datatype file_open = NoFile | OpenError io_error
  | Opened "(io_error, file_meta) outcome" "nat \<Rightarrow> (io_error, string list \<times> io_error option) outcome"

record ('r, 'a, 'q, 's) file_task =
  ft_config :: file_probe_config
  ft_probe_id :: probe_id
  ft_engine :: "('r, 'a, 'q) engine"
  ft_rules :: "nat \<Rightarrow> ('r, 'a, 'q) sifter_inner"
  ft_emit :: "'s sink_emit"
  ft_patch :: "'s sink_patch"
  ft_sub :: dt_sub
  ft_env :: frame_env

record 's file_state =
  fs_pos :: nat
  fs_line_no :: nat
  fs_last_size :: "nat option"
  fs_last_identity :: "file_identity option"
  fs_pipeline :: noise_pipeline
  fs_rings :: ring_manager
  fs_sink :: 's
  fs_metrics :: file_metrics

definition file_state_new :: "ring_manager \<Rightarrow> 's \<Rightarrow> 's file_state" where
  "file_state_new rings sink =
     \<lparr>fs_pos = 0, fs_line_no = 0, fs_last_size = None, fs_last_identity = None,
      fs_pipeline = with_default_policy, fs_rings = rings, fs_sink = sink, fs_metrics = file_metrics_default\<rparr>"

definition initial_seek :: "file_probe_mode \<Rightarrow> nat \<Rightarrow> 's file_state \<Rightarrow> 's file_state" where
  "initial_seek mode len st =
     (if fs_last_size st = None
      then st\<lparr>fs_pos := (case mode of FollowEnd \<Rightarrow> len | _ \<Rightarrow> 0)\<rparr> else st)"

definition rotated :: "file_identity option \<Rightarrow> file_identity option \<Rightarrow> bool" where
  "rotated prev now = (case (prev, now) of (Some p, Some c) \<Rightarrow> p \<noteq> c | _ \<Rightarrow> False)"

definition detect_change :: "file_meta \<Rightarrow> 's file_state \<Rightarrow> 's file_state" where
  "detect_change meta st =
     (let m = fs_metrics st;
          st1 =
            (if rotated (fs_last_identity st) (me_identity meta) then
               st\<lparr>fs_metrics := m\<lparr>fm_rotations_detected := sat_add_u64 (fm_rotations_detected m) 1\<rparr>, fs_pos := 0\<rparr>
             else if (case fs_last_size st of Some prev \<Rightarrow> me_len meta < prev | None \<Rightarrow> False) then
               st\<lparr>fs_metrics := m\<lparr>fm_truncations_detected := sat_add_u64 (fm_truncations_detected m) 1\<rparr>, fs_pos := 0\<rparr>
             else st)
      in st1\<lparr>fs_last_size := Some (me_len meta), fs_last_identity := me_identity meta\<rparr>)"

definition file_frame :: "frame_env \<Rightarrow> probe_id \<Rightarrow> nat \<Rightarrow> nat \<Rightarrow> string \<Rightarrow> source_frame" where
  "file_frame env p line_no pos line =
     frame_with_byte_offset
       (frame_with_line (frame_new (fe_frame_id env line_no) (fe_timestamp env line_no) p FileStream line) line_no)
       pos"

definition on_file_line ::
  "('r, 'a, 'q, 's) file_task \<Rightarrow> 's file_state \<Rightarrow> file_line_read \<Rightarrow> (file_probe_error, 's file_state) outcome" where
  "on_file_line tk st line =
     (let n = sat_add_u64 (fs_line_no st) 1;
          frame = file_frame (ft_env tk) (ft_probe_id tk) n (fs_pos st) (fl_text line);
          rings = (case append_frame (fs_rings st) (ft_probe_id tk) frame of
                     Ok (m, _) \<Rightarrow> m | _ \<Rightarrow> fs_rings st);
          m = fs_metrics st;
          m1 = m\<lparr>fm_frames_total := sat_add_u64 (fm_frames_total m) 1,
                 fm_bytes_total := sat_add_u64 (fm_bytes_total m) (fl_raw_len line),
                 fm_last_frame_at := Some (fe_instant (ft_env tk) n)\<rparr>
      in case process_frame (ft_engine tk) (ft_sub tk) (fe_clock (ft_env tk) n) (fe_now (ft_env tk) n)
                (ft_emit tk) (ft_patch tk) (fs_pipeline st) frame SFile (fc_bucket_id (ft_config tk))
                (ft_rules tk n) (fs_sink st) (fm_suppression m1) (fm_events_emitted m1) [] of
           Ok fr \<Rightarrow>
             Ok (st\<lparr>fs_pos := sat_add_u64 (fs_pos st) (fl_raw_len line), fs_line_no := n, fs_rings := rings,
                    fs_pipeline := fr_pipeline fr, fs_sink := fr_sink fr,
                    fs_metrics := m1\<lparr>fm_suppression := fr_metrics fr, fm_events_emitted := fr_emitted fr\<rparr>\<rparr>)
         | _ \<Rightarrow> Panic)"

lemma read_file_line_less:
  "read_file_line buf n saw cs fault = Ok (Some line, cs') \<Longrightarrow> cs \<noteq> [] \<Longrightarrow>
   (sum_list (map (\<lambda>c. Suc (length c)) cs') < sum_list (map (\<lambda>c. Suc (length c)) cs))"
proof (induction buf n saw cs fault rule: read_file_line.induct)
  case (2 buf n saw chunk cs fault)
  show ?case
  proof (cases "position (\<lambda>b. b = NL) chunk")
    case (Some idx)
    with 2(2) show ?thesis by (auto split: if_splits)
  next
    case None
    with 2 show ?thesis by (cases cs) (auto split: option.splits if_splits)
  qed
qed simp

lemma read_file_line_Nil: "read_file_line buf n False [] fault = Ok (Some line, cs') \<Longrightarrow> False"
  by (auto split: option.splits)

function read_lines_loop ::
  "('r, 'a, 'q, 's) file_task \<Rightarrow> bool \<Rightarrow> string list \<Rightarrow> io_error option \<Rightarrow> 's file_state \<Rightarrow>
     (file_probe_error, 's file_state) outcome" where
  "read_lines_loop tk scan_once cs fault st =
     (case read_file_line [] 0 False cs fault of
        Ok (Some line, cs') \<Rightarrow>
          if \<not> fl_terminated line \<and> \<not> scan_once then Ok st
          else (case on_file_line tk st line of
                  Ok st' \<Rightarrow> read_lines_loop tk scan_once cs' fault st'
                | Err e \<Rightarrow> Err e
                | Panic \<Rightarrow> Panic)
      | Ok (None, _) \<Rightarrow> Ok st
      | Err e \<Rightarrow> Err (FIo e)
      | Panic \<Rightarrow> Panic)"
  by pat_completeness auto
termination
proof (relation "measure (\<lambda>(tk, s, cs, fault, st). sum_list (map (\<lambda>c. Suc (length c)) cs))", goal_cases)
  case (2 tk scan_once cs fault st a b c line st')
  then have "read_file_line [] 0 False cs fault = Ok (Some line, c)" by simp
  with read_file_line_less [OF this] read_file_line_Nil show ?case by (cases cs) auto
qed simp

declare read_lines_loop.simps [simp del]

text \<open>
  The body of the loop up to the wait. The flag says that the probe is finished, which only a single
  scan ever is.
\<close>

definition file_poll ::
  "('r, 'a, 'q, 's) file_task \<Rightarrow> 's file_state \<Rightarrow> file_open \<Rightarrow> (file_probe_error, bool \<times> 's file_state) outcome" where
  "file_poll tk st fo =
     (let scan_once = (fc_mode (ft_config tk) = ScanOnce) in
      case fo of
        NoFile \<Rightarrow> Ok (scan_once, st)
      | OpenError e \<Rightarrow> Err (FIo e)
      | Opened (Err e) _ \<Rightarrow> Err (FIo e)
      | Opened Panic _ \<Rightarrow> Panic
      | Opened (Ok meta) read \<Rightarrow>
          if \<not> me_is_file meta then Err (FNotRegular (fc_path (ft_config tk)))
          else
            let st2 = detect_change meta (initial_seek (fc_mode (ft_config tk)) (me_len meta) st) in
            if fs_pos st2 < me_len meta then
              (case read (fs_pos st2) of
                 Err e \<Rightarrow> Err (FIo e)
               | Panic \<Rightarrow> Panic
               | Ok (cs, fault) \<Rightarrow> and_then (read_lines_loop tk scan_once cs fault st2) (\<lambda>st3. Ok (scan_once, st3)))
            else Ok (scan_once, st2))"

text \<open>The loop: each element is a pass, or the cancellation that is noticed instead of one.\<close>

datatype file_wake = Wake file_open | Cancel

fun file_run ::
  "('r, 'a, 'q, 's) file_task \<Rightarrow> 's file_state \<Rightarrow> file_wake list \<Rightarrow> (file_probe_error, bool \<times> 's file_state) outcome" where
  "file_run tk st [] = Ok (False, st)"
| "file_run tk st (Cancel # ws) = Err FCancelled"
| "file_run tk st (Wake fo # ws) =
     (case file_poll tk st fo of
        Ok (fin, st') \<Rightarrow> if fin then Ok (True, st') else file_run tk st' ws
      | Err e \<Rightarrow> Err e
      | Panic \<Rightarrow> Panic)"

section \<open>Lines of a growing file\<close>

text \<open>The bytes that the complete lines of a text take.\<close>

definition consumed :: "string \<Rightarrow> nat" where
  "consumed bs = sum_list (map (\<lambda>l. length l + 1) (lines_of False bs))"

lemma lines_of_step:
  "position (\<lambda>b. b = NL) bs = Some i \<Longrightarrow> lines_of w bs = take i bs # lines_of w (drop (Suc i) bs)"
  "position (\<lambda>b. b = NL) bs = None \<Longrightarrow> lines_of False bs = []"
  by (simp_all add: lines_of.simps [of _ bs])

lemma position_take: "position P xs = Some i \<Longrightarrow> position P (take (Suc i) xs) = Some i"
  by (induction xs arbitrary: i) (auto split: if_splits)

lemma take_length_append: "take (length c + n) (c @ xs) = c @ take n xs"
  by simp

lemma consumed_step:
  assumes "position (\<lambda>b. b = NL) bs = Some i"
  shows "consumed bs = Suc i + consumed (drop (Suc i) bs)"
  using position_less [OF assms] lines_of_step(1) [OF assms, of False] by (simp add: consumed_def)

lemma consumed_le: "consumed bs \<le> length bs"
proof (induction "length bs" arbitrary: bs rule: less_induct)
  case less
  show ?case
  proof (cases "position (\<lambda>b. b = NL) bs")
    case None
    then show ?thesis by (simp add: consumed_def lines_of_step(2))
  next
    case (Some i)
    have i: "i < length bs" by (rule position_less [OF Some])
    then have "consumed (drop (Suc i) bs) \<le> length bs - Suc i" using less [of "drop (Suc i) bs"] by simp
    with i consumed_step [OF Some] show ?thesis by linarith
  qed
qed

lemma consumed_rest: "NL \<notin> set (drop (consumed bs) bs)"
proof (induction "length bs" arbitrary: bs rule: less_induct)
  case less
  show ?case
  proof (cases "position (\<lambda>b. b = NL) bs")
    case None
    then show ?thesis by (auto simp: consumed_def lines_of_step(2) position_None)
  next
    case (Some i)
    from position_less [OF Some] less [of "drop (Suc i) bs"] consumed_step [OF Some] show ?thesis
      by (simp add: add.commute)
  qed
qed

lemma lines_of_complete:
  "consumed a = length a \<Longrightarrow> lines_of w (a @ b) = lines_of False a @ lines_of w b \<and> consumed (a @ b) = length a + consumed b"
proof (induction "length a" arbitrary: a rule: less_induct)
  case less
  show ?case
  proof (cases "position (\<lambda>b. b = NL) a")
    case None
    with less(2) have "a = []" by (simp add: consumed_def lines_of_step(2))
    then show ?thesis by (simp add: lines_of.simps [of False "[]"] consumed_def)
  next
    case (Some i)
    have i: "i < length a" by (rule position_less [OF Some])
    have p: "position (\<lambda>b. b = NL) (a @ b) = Some i" by (simp add: position_NL_append Some)
    have "consumed (drop (Suc i) a) = length (drop (Suc i) a)"
      using less(2) consumed_step [OF Some] i by simp
    from less(1) [OF _ this] i Some consumed_step [OF p] lines_of_step(1) [OF p] lines_of_step(1) [OF Some, of False]
    show ?thesis by simp
  qed
qed

lemma lines_of_take_consumed: "lines_of False (take (consumed bs) bs) = lines_of False bs"
  "consumed (take (consumed bs) bs) = consumed bs"
proof -
  have "lines_of False (take (consumed bs) bs) = lines_of False bs"
  proof (induction "length bs" arbitrary: bs rule: less_induct)
    case less
    show ?case
    proof (cases "position (\<lambda>b. b = NL) bs")
      case None
      then show ?thesis by (simp add: consumed_def lines_of_step(2) lines_of.simps [of False "[]"])
    next
      case (Some i)
      let ?n = "consumed (drop (Suc i) bs)"
      have i: "i < length bs" by (rule position_less [OF Some])
      have t: "take (consumed bs) bs = take (Suc i) bs @ take ?n (drop (Suc i) bs)"
        by (simp only: consumed_step [OF Some] take_add)
      have "position (\<lambda>b. b = NL) (take (consumed bs) bs) = Some i"
        by (simp add: t position_NL_append position_take [OF Some])
      from lines_of_step(1) [OF this, of False] lines_of_step(1) [OF Some, of False] less [of "drop (Suc i) bs"] i
      show ?thesis by (simp add: t)
    qed
  qed
  then show "lines_of False (take (consumed bs) bs) = lines_of False bs"
    "consumed (take (consumed bs) bs) = consumed bs" by (simp_all add: consumed_def)
qed

section \<open>The line reader\<close>

lemma push_capped_take:
  "push_capped (take MAX_FILE_LINE_BYTES pre) xs = take MAX_FILE_LINE_BYTES (pre @ xs)"
  by (simp add: push_capped_def min_def)

lemma read_file_line_spec:
  assumes "[] \<notin> set cs"
  shows "case position (\<lambda>b. b = NL) (concat cs) of
    Some i \<Rightarrow> \<exists>cs'. read_file_line (take MAX_FILE_LINE_BYTES pre) (min (length pre) u64_max) saw cs fault =
        Ok (Some \<lparr>fl_text = decode_file_line (take MAX_FILE_LINE_BYTES (pre @ take i (concat cs))),
                  fl_raw_len = min (length pre + Suc i) u64_max, fl_terminated = True\<rparr>, cs') \<and>
      concat cs' = drop (Suc i) (concat cs) \<and> [] \<notin> set cs'
  | None \<Rightarrow> fault = None \<longrightarrow>
      read_file_line (take MAX_FILE_LINE_BYTES pre) (min (length pre) u64_max) saw cs fault =
        Ok (if saw \<or> cs \<noteq> []
            then Some \<lparr>fl_text = decode_file_line (take MAX_FILE_LINE_BYTES (pre @ concat cs)),
                       fl_raw_len = min (length pre + length (concat cs)) u64_max, fl_terminated = False\<rparr>
            else None, [])"
  using assms
proof (induction cs arbitrary: pre saw)
  case (Cons c cs)
  show ?case
  proof (cases "position (\<lambda>b. b = NL) c")
    case (Some i)
    with position_less [OF Some] Cons.prems show ?thesis
      by (auto simp: position_NL_append push_capped_take sat_add_def min_def)
  next
    case None
    have r: "sat_add_u64 (min (length pre) u64_max) (length c) = min (length (pre @ c)) u64_max"
      by (simp add: sat_add_def min_def)
    show ?thesis
    proof (cases "position (\<lambda>b. b = NL) (concat cs)")
      case n2: None
      with Cons.IH [of "pre @ c" True] Cons.prems None show ?thesis
        by (simp add: position_NL_append push_capped_take r add.assoc del: take_append)
    next
      case (Some i)
      have "drop (Suc (length c + i)) (c @ concat cs) = drop (Suc i) (concat cs)" by simp
      with Some Cons.IH [of "pre @ c" True] Cons.prems None show ?thesis
        by (auto simp: position_NL_append push_capped_take r add.assoc take_length_append simp del: take_append)
    qed
  qed
qed simp

section \<open>One pass\<close>

fun file_frames :: "frame_env \<Rightarrow> probe_id \<Rightarrow> nat \<Rightarrow> nat \<Rightarrow> string list \<Rightarrow> source_frame list" where
  "file_frames env p n off [] = []"
| "file_frames env p n off (l # ls) =
     file_frame env p (sat_add_u64 n 1) off (decode_file_line (take MAX_FILE_LINE_BYTES l)) #
     file_frames env p (sat_add_u64 n 1) (off + length l + 1) ls"

definition file_task_ok :: "('r, 'a, 'q, 's) file_task \<Rightarrow> bool" where
  "file_task_ok tk \<longleftrightarrow> find_contract (ft_engine tk) \<and> set_contract (ft_engine tk) \<and>
     (\<forall>n. \<exists>rules. build_inner (ft_engine tk) rules = Ok (ft_rules tk n)) \<and>
     sub_contract (ft_sub tk) \<and> clock_ok (ft_env tk)"

lemma on_file_line_total:
  assumes "file_task_ok tk" and "map_of (fs_rings st) (ft_probe_id tk) = Some ring" and "pipeline_ok (fs_pipeline st)"
  shows "\<exists>st'. on_file_line tk st line = Ok st' \<and> pipeline_ok (fs_pipeline st') \<and> fs_line_no st' = sat_add_u64 (fs_line_no st) 1 \<and>
    fs_pos st' = sat_add_u64 (fs_pos st) (fl_raw_len line) \<and>
    fs_last_size st' = fs_last_size st \<and> fs_last_identity st' = fs_last_identity st \<and>
    fm_rotations_detected (fs_metrics st') = fm_rotations_detected (fs_metrics st) \<and>
    fm_truncations_detected (fs_metrics st') = fm_truncations_detected (fs_metrics st) \<and>
    map_of (fs_rings st') (ft_probe_id tk) = Some (ring_push ring
      (file_frame (ft_env tk) (ft_probe_id tk) (sat_add_u64 (fs_line_no st) 1) (fs_pos st) (fl_text line)))"
proof -
  let ?n = "sat_add_u64 (fs_line_no st) 1"
  let ?f = "file_frame (ft_env tk) (ft_probe_id tk) ?n (fs_pos st) (fl_text line)"
  have tk: "find_contract (ft_engine tk)" "set_contract (ft_engine tk)" "sub_contract (ft_sub tk)"
    "\<forall>i. real_time (fe_clock (ft_env tk) ?n i)" "real_time (fe_now (ft_env tk) ?n)"
    "\<exists>rules. build_inner (ft_engine tk) rules = Ok (ft_rules tk ?n)"
    using assms(1) unfolding file_task_ok_def clock_ok_def by blast+
  then obtain rules where rules: "build_inner (ft_engine tk) rules = Ok (ft_rules tk ?n)" by blast
  obtain fr where
    "process_frame (ft_engine tk) (ft_sub tk) (fe_clock (ft_env tk) ?n) (fe_now (ft_env tk) ?n)
      (ft_emit tk) (ft_patch tk) (fs_pipeline st) ?f SFile (fc_bucket_id (ft_config tk)) (ft_rules tk ?n)
      (fs_sink st) (fm_suppression (fs_metrics st)) (fm_events_emitted (fs_metrics st)) [] = Ok fr"
    "pipeline_ok (fr_pipeline fr)"
    by (rule process_frame_total [OF tk(1,2) rules tk(3-5) assms(3), THEN exE]) (elim conjE, rule that)
  moreover have "append_frame (fs_rings st) (ft_probe_id tk) ?f =
      Ok (AList.update (ft_probe_id tk) (ring_push ring ?f) (fs_rings st), f_frame_id ?f)"
    using assms(2) by (simp add: append_frame_def ring_cell_def)
  ultimately show ?thesis by (simp add: on_file_line_def Let_def update_conv')
qed

text \<open>What a pass in follow mode adds, for the bytes it reads from its position.\<close>

definition file_advanced ::
  "('r, 'a, 'q, 's) file_task \<Rightarrow> 's file_state \<Rightarrow> ring_inner \<Rightarrow> string \<Rightarrow> 's file_state \<Rightarrow> bool" where
  "file_advanced tk st ring bs st' \<longleftrightarrow>
     map_of (fs_rings st') (ft_probe_id tk) = Some (foldl ring_push ring
       (file_frames (ft_env tk) (ft_probe_id tk) (fs_line_no st) (fs_pos st) (lines_of False bs))) \<and>
     pipeline_ok (fs_pipeline st') \<and> fs_pos st' = fs_pos st + consumed bs \<and>
     fs_line_no st' = sat_add_u64 (fs_line_no st) (length (lines_of False bs)) \<and>
     fs_last_size st' = fs_last_size st \<and> fs_last_identity st' = fs_last_identity st \<and>
     fm_rotations_detected (fs_metrics st') = fm_rotations_detected (fs_metrics st) \<and>
     fm_truncations_detected (fs_metrics st') = fm_truncations_detected (fs_metrics st)"

lemma read_lines_loop_advanced:
  "file_task_ok tk \<Longrightarrow> \<not> scan_once \<Longrightarrow> fault = None \<Longrightarrow> [] \<notin> set cs \<Longrightarrow> fs_pos st + length (concat cs) \<le> u64_max \<Longrightarrow>
   fs_line_no st \<le> u64_max \<Longrightarrow> map_of (fs_rings st) (ft_probe_id tk) = Some ring \<Longrightarrow>
   pipeline_ok (fs_pipeline st) \<Longrightarrow>
   \<exists>st'. read_lines_loop tk scan_once cs fault st = Ok st' \<and> file_advanced tk st ring (concat cs) st'"
proof (induction tk scan_once cs fault st arbitrary: ring rule: read_lines_loop.induct)
  case (1 tk scan_once cs fault st)
  note spec = read_file_line_spec [OF "1.prems"(4), where pre = "[]" and saw = False and fault = fault]
  show ?case
  proof (cases "position (\<lambda>b. b = NL) (concat cs)")
    case None
    with spec "1.prems" have "read_lines_loop tk scan_once cs fault st = Ok st"
      unfolding read_lines_loop.simps [of tk scan_once cs fault st] by auto
    with None "1.prems"(6,7,8) show ?thesis by (simp add: file_advanced_def lines_of_step(2) consumed_def)
  next
    case (Some i)
    let ?bs = "concat cs"
    have i: "i < length ?bs" by (rule position_less [OF Some])
    let ?line = "\<lparr>fl_text = decode_file_line (take MAX_FILE_LINE_BYTES (take i ?bs)), fl_raw_len = min (Suc i) u64_max,
      fl_terminated = True\<rparr>"
    from spec Some obtain cs' where r: "read_file_line [] 0 False cs fault = Ok (Some ?line, cs')"
      "concat cs' = drop (Suc i) ?bs" "[] \<notin> set cs'" by auto
    from on_file_line_total [OF "1.prems"(1,7,8), of ?line] obtain st1 where o: "on_file_line tk st ?line = Ok st1"
      "fs_line_no st1 = sat_add_u64 (fs_line_no st) 1" "fs_pos st1 = sat_add_u64 (fs_pos st) (min (Suc i) u64_max)"
      "fs_last_size st1 = fs_last_size st" "fs_last_identity st1 = fs_last_identity st"
      "fm_rotations_detected (fs_metrics st1) = fm_rotations_detected (fs_metrics st)"
      "fm_truncations_detected (fs_metrics st1) = fm_truncations_detected (fs_metrics st)"
      "map_of (fs_rings st1) (ft_probe_id tk) = Some (ring_push ring (file_frame (ft_env tk) (ft_probe_id tk)
        (sat_add_u64 (fs_line_no st) 1) (fs_pos st) (decode_file_line (take MAX_FILE_LINE_BYTES (take i ?bs)))))"
      "pipeline_ok (fs_pipeline st1)"
      by auto
    have pos: "fs_pos st1 = fs_pos st + Suc i" using o(3) "1.prems"(5) i by (simp add: sat_add_def)
    have len: "length (concat cs') = length ?bs - Suc i" unfolding r(2) by simp
    have "\<exists>st'. read_lines_loop tk scan_once cs' fault st1 = Ok st' \<and> file_advanced tk st1
        (ring_push ring (file_frame (ft_env tk) (ft_probe_id tk) (sat_add_u64 (fs_line_no st) 1) (fs_pos st)
          (decode_file_line (take MAX_FILE_LINE_BYTES (take i ?bs))))) (concat cs') st'"
      by (rule "1.IH" [OF r(1) refl refl _ o(1) "1.prems"(1,2,3) r(3) _ _ o(8,9)])
         (use "1.prems"(5) i pos len o(2) in simp_all)
    then obtain st' where st': "read_lines_loop tk scan_once cs' fault st1 = Ok st'" "file_advanced tk st1
        (ring_push ring (file_frame (ft_env tk) (ft_probe_id tk) (sat_add_u64 (fs_line_no st) 1) (fs_pos st)
          (decode_file_line (take MAX_FILE_LINE_BYTES (take i ?bs))))) (concat cs') st'" by blast
    have "read_lines_loop tk scan_once cs fault st = Ok st'"
      using r(1) o(1) st'(1) by (simp add: read_lines_loop.simps [of tk scan_once cs fault st])
    moreover have "file_advanced tk st ring ?bs st'"
      using st'(2) i unfolding file_advanced_def r(2) pos lines_of_step(1) [OF Some] consumed_step [OF Some]
      by (simp add: o sat_add_assoc min_def)
    ultimately show ?thesis by blast
  qed
qed

section \<open>A file that only grows\<close>

text \<open>From every position a pass can read the rest of the content, in some cut into chunks.\<close>

definition delivers :: "(nat \<Rightarrow> (io_error, string list \<times> io_error option) outcome) \<Rightarrow> string \<Rightarrow> bool" where
  "delivers rd c \<longleftrightarrow> (\<forall>pos. \<exists>cs. rd pos = Ok (cs, None) \<and> concat cs = drop pos c \<and> [] \<notin> set cs)"

text \<open>
  The passes over one file that writers only append to, each with the content it reads: the size
  its metadata shows is at least that of the pass before and at most that of the content.
\<close>

fun growing :: "file_identity \<Rightarrow> string \<Rightarrow> nat \<Rightarrow> (string \<times> file_open) list \<Rightarrow> bool" where
  "growing i c s [] \<longleftrightarrow> True"
| "growing i c s ((c', NoFile) # ps) \<longleftrightarrow> c' = c \<and> growing i c s ps"
| "growing i c s ((c', Opened (Ok meta) rd) # ps) \<longleftrightarrow>
     prefix c c' \<and> me_is_file meta \<and> me_identity meta = Some i \<and> s \<le> me_len meta \<and>
     me_len meta \<le> length c' \<and> delivers rd c' \<and> growing i c' (me_len meta) ps"
| "growing i c s (_ # ps) \<longleftrightarrow> False"

fun last_content :: "string \<Rightarrow> (string \<times> file_open) list \<Rightarrow> string" where
  "last_content c [] = c"
| "last_content c ((c', fo) # ps) = last_content c' ps"

fun last_len :: "nat \<Rightarrow> (string \<times> file_open) list \<Rightarrow> nat" where
  "last_len s [] = s"
| "last_len s ((c', Opened (Ok meta) rd) # ps) = last_len (me_len meta) ps"
| "last_len s (_ # ps) = last_len s ps"

text \<open>The frames so far are those of the complete lines before the position, each once.\<close>

definition followed ::
  "('r, 'a, 'q, 's) file_task \<Rightarrow> ring_inner \<Rightarrow> file_identity \<Rightarrow> string \<Rightarrow> nat \<Rightarrow> 's file_state \<Rightarrow> bool" where
  "followed tk ring i c s st \<longleftrightarrow>
     pipeline_ok (fs_pipeline st) \<and> fs_pos st \<le> length c \<and> consumed (take (fs_pos st) c) = fs_pos st \<and>
     NL \<notin> set (drop (fs_pos st) (take s c)) \<and>
     (fs_last_size st = None \<and> fs_pos st = 0 \<and> s = 0 \<and> fs_last_identity st = None \<or>
      fs_last_size st = Some s \<and> fs_last_identity st = Some i) \<and>
     fs_line_no st = min (length (lines_of False (take (fs_pos st) c))) u64_max \<and>
     map_of (fs_rings st) (ft_probe_id tk) = Some (foldl ring_push ring
       (file_frames (ft_env tk) (ft_probe_id tk) 0 0 (lines_of False (take (fs_pos st) c)))) \<and>
     fm_rotations_detected (fs_metrics st) = 0 \<and> fm_truncations_detected (fs_metrics st) = 0"

lemma file_frames_append:
  "n \<le> u64_max \<Longrightarrow> file_frames env p n off (xs @ ys) = file_frames env p n off xs @
     file_frames env p (sat_add_u64 n (length xs)) (off + sum_list (map (\<lambda>l. length l + 1) xs)) ys"
proof (induction xs arbitrary: n off)
  case (Cons x xs)
  have "sat_add_u64 n 1 \<le> u64_max" by simp
  from Cons.IH [OF this, of "off + length x + 1"] show ?case by (simp add: sat_add_assoc add.assoc)
qed simp

lemma followed_read:
  assumes fo: "followed tk ring i c s st" and pre: "prefix c c'" and len: "k \<le> length c'"
    and adv: "file_advanced tk (st\<lparr>fs_last_size := Some k, fs_last_identity := Some i\<rparr>)
      (foldl ring_push ring (file_frames (ft_env tk) (ft_probe_id tk) 0 0 (lines_of False (take (fs_pos st) c))))
      (drop (fs_pos st) c') st'"
  shows "followed tk ring i c' k st'"
proof -
  let ?pos = "fs_pos st" and ?d = "drop (fs_pos st) c'"
  have f: "?pos \<le> length c" "consumed (take ?pos c) = ?pos"
    "fs_line_no st = min (length (lines_of False (take ?pos c))) u64_max"
    "fm_rotations_detected (fs_metrics st) = 0" "fm_truncations_detected (fs_metrics st) = 0"
    using fo by (simp_all add: followed_def)
  have le: "?pos \<le> length c'" using f(1) prefix_length_le [OF pre] by simp
  have t: "take ?pos c' = take ?pos c" using pre f(1) by (auto elim: prefixE)
  have pos': "fs_pos st' = ?pos + consumed ?d" using adv by (simp add: file_advanced_def)
  have cd: "consumed ?d \<le> length ?d" by (rule consumed_le)
  have tk: "take (fs_pos st') c' = take ?pos c @ take (consumed ?d) ?d"
    by (simp only: pos' take_add t)
  have lc: "consumed (take ?pos c) = length (take ?pos c)" using f(1,2) by simp
  note comp = lines_of_complete [OF lc, of False "take (consumed ?d) ?d"]
  have ls: "lines_of False (take (fs_pos st') c') = lines_of False (take ?pos c) @ lines_of False ?d"
    using comp lines_of_take_consumed(1) [of ?d] by (simp add: tk)
  have cons: "consumed (take (fs_pos st') c') = fs_pos st'"
    using comp lines_of_take_consumed(2) [of ?d] f(1) unfolding tk by (simp add: pos')
  have "set (drop (fs_pos st') (take k c')) \<subseteq> set (drop (consumed ?d) ?d)"
    using set_take_subset [of "k - fs_pos st'" "drop (fs_pos st') c'"] by (simp add: pos' drop_take add.commute)
  then have nl: "NL \<notin> set (drop (fs_pos st') (take k c'))" using consumed_rest [of ?d] by blast
  have off: "sum_list (map (\<lambda>l. length l + 1) (lines_of False (take ?pos c))) = ?pos"
    using f(2) by (simp add: consumed_def)
  have fr: "file_frames (ft_env tk) (ft_probe_id tk) 0 0 (lines_of False (take (fs_pos st') c')) =
      file_frames (ft_env tk) (ft_probe_id tk) 0 0 (lines_of False (take ?pos c)) @
      file_frames (ft_env tk) (ft_probe_id tk) (fs_line_no st) ?pos (lines_of False ?d)"
    unfolding ls file_frames_append [OF le0] off f(3) by (simp add: sat_add_def)
  have a: "map_of (fs_rings st') (ft_probe_id tk) = Some (foldl ring_push ring
      (file_frames (ft_env tk) (ft_probe_id tk) 0 0 (lines_of False (take (fs_pos st') c'))))"
    "fs_line_no st' = sat_add_u64 (fs_line_no st) (length (lines_of False ?d))"
    "fs_last_size st' = Some k" "fs_last_identity st' = Some i"
    "fm_rotations_detected (fs_metrics st') = 0" "fm_truncations_detected (fs_metrics st') = 0"
    "pipeline_ok (fs_pipeline st')"
    using adv f(4,5) unfolding file_advanced_def fr by simp_all
  have "fs_line_no st' = min (length (lines_of False (take (fs_pos st') c'))) u64_max"
    unfolding ls a(2) f(3) by (simp add: sat_add_def)
  moreover have "fs_pos st' \<le> length c'" using le cd pos' by simp
  ultimately show ?thesis unfolding followed_def using a cons nl by blast
qed

lemma followed_step:
  assumes tk: "file_task_ok tk" "fc_mode (ft_config tk) = FollowBeginning"
    and fo: "followed tk ring i c s st" and gr: "growing i c s ((c', fl) # ps)" and len: "length c' \<le> u64_max"
  shows "\<exists>st'. file_poll tk st fl = Ok (False, st') \<and> followed tk ring i c' (last_len s [(c', fl)]) st'"
proof (cases "\<exists>meta rd. fl = Opened (Ok meta) rd")
  case False
  with gr have "fl = NoFile" "c' = c" by (cases "(i, c, s, (c', fl) # ps)" rule: growing.cases; auto)+
  with fo tk(2) show ?thesis by (simp add: file_poll_def)
next
  case True
  then obtain meta rd where fl: "fl = Opened (Ok meta) rd" by blast
  with gr have g: "prefix c c'" "me_is_file meta" "me_identity meta = Some i" "s \<le> me_len meta"
    "me_len meta \<le> length c'" "delivers rd c'" by simp_all
  let ?st = "st\<lparr>fs_last_size := Some (me_len meta), fs_last_identity := Some i\<rparr>"
  have st2: "detect_change meta (initial_seek FollowBeginning (me_len meta) st) = ?st"
  proof -
    have "fs_last_size st = None \<and> fs_pos st = 0 \<and> fs_last_identity st = None \<or>
        fs_last_size st = Some s \<and> fs_last_identity st = Some i"
      using fo unfolding followed_def by blast
    then show ?thesis
      using g(3,4) by (cases st) (auto simp: initial_seek_def detect_change_def rotated_def Let_def)
  qed
  have f: "fs_pos st \<le> length c'" "fs_line_no st \<le> u64_max"
    "map_of (fs_rings st) (ft_probe_id tk) = Some (foldl ring_push ring
       (file_frames (ft_env tk) (ft_probe_id tk) 0 0 (lines_of False (take (fs_pos st) c))))"
    "pipeline_ok (fs_pipeline st)"
    using fo prefix_length_le [OF g(1)] by (simp_all add: followed_def)
  show ?thesis
  proof (cases "fs_pos st < me_len meta")
    case False
    have "take (fs_pos st) c' = take (fs_pos st) c"
      using fo g(1) unfolding followed_def by (auto elim!: prefixE simp del: take_eq_Nil)
    with False fo f have "followed tk ring i c' (me_len meta) ?st" by (simp add: followed_def)
    with False tk(2) g(2) st2 show ?thesis by (simp add: file_poll_def fl)
  next
    case True
    from g(6) obtain cs where cs: "rd (fs_pos st) = Ok (cs, None)" "concat cs = drop (fs_pos st) c'" "[] \<notin> set cs"
      unfolding delivers_def by blast
    have "\<exists>st'. read_lines_loop tk False cs None ?st = Ok st' \<and> file_advanced tk ?st
        (foldl ring_push ring (file_frames (ft_env tk) (ft_probe_id tk) 0 0 (lines_of False (take (fs_pos st) c))))
        (concat cs) st'"
      by (rule read_lines_loop_advanced [OF tk(1) _ refl cs(3)]) (use f len cs(2) in simp_all)
    then obtain st' where st': "read_lines_loop tk False cs None ?st = Ok st'"
      "file_advanced tk ?st (foldl ring_push ring (file_frames (ft_env tk) (ft_probe_id tk) 0 0
        (lines_of False (take (fs_pos st) c)))) (drop (fs_pos st) c') st'"
      using cs(2) by auto
    from followed_read [OF fo g(1) g(5) st'(2)] st'(1) True cs(1) tk(2) g(2) st2 show ?thesis
      by (simp add: file_poll_def fl)
  qed
qed

lemma growing_tl: "growing i c s ((c', fl) # ps) \<Longrightarrow> growing i c' (last_len s [(c', fl)]) ps"
  by (cases "(i, c, s, (c', fl) # ps)" rule: growing.cases) auto

lemma last_len_Cons: "last_len s (p # ps) = last_len (last_len s [p]) ps"
  by (cases "(s, p # ps)" rule: last_len.cases) auto

lemma growing_prefix: "growing i c s ps \<Longrightarrow> prefix c (last_content c ps)"
proof (induction i c s ps rule: growing.induct)
  case (3 i c s c' meta rd ps)
  then show ?case using prefix_order.trans by auto
qed auto

lemma file_run_followed:
  assumes tk: "file_task_ok tk" "fc_mode (ft_config tk) = FollowBeginning"
  shows "followed tk ring i c s st \<Longrightarrow> growing i c s ps \<Longrightarrow> length (last_content c ps) \<le> u64_max \<Longrightarrow>
    \<exists>st'. file_run tk st (map (\<lambda>(_, fl). Wake fl) ps) = Ok (False, st') \<and>
      followed tk ring i (last_content c ps) (last_len s ps) st'"
proof (induction ps arbitrary: c s st)
  case (Cons p ps)
  obtain c' fl where p: "p = (c', fl)" by fastforce
  note gt = growing_tl [OF Cons.prems(2) [unfolded p]]
  have "length c' \<le> u64_max"
    using prefix_length_le [OF growing_prefix [OF gt]] Cons.prems(3) p by simp
  from followed_step [OF tk Cons.prems(1) Cons.prems(2) [unfolded p] this] obtain st1 where
    st1: "file_poll tk st fl = Ok (False, st1)" "followed tk ring i c' (last_len s [(c', fl)]) st1" by blast
  from Cons.IH [OF st1(2) gt] Cons.prems(3) st1(1) show ?case
    by (simp add: p last_len_Cons [of s "(c', fl)" ps])
qed simp

text \<open>
  C14. A file that only grows is read exactly once. In the mode that follows a file from its beginning,
  through any passes over a file that writers append to (before it exists, while a line is half
  written, with bytes arriving between the stat and the read, in any chunks, no call on it failing and
  its identity staying the same), the probe keeps running, its ring has received one frame for every
  complete line up to its position, each with its line number and byte offset and none twice, no
  complete line of the size it last saw is missing, and neither a rotation nor a truncation has been
  reported. The file stays below \<open>2^64\<close> bytes; scanners, dates and clock are as their
  contracts say.
\<close>

theorem growing_file_read_once:
  assumes "file_task_ok tk" and "fc_mode (ft_config tk) = FollowBeginning"
    and "growing i [] 0 ps" and "length (last_content [] ps) \<le> u64_max"
    and "map_of rings (ft_probe_id tk) = Some ring"
  shows "\<exists>st. file_run tk (file_state_new rings sink) (map (\<lambda>(_, fl). Wake fl) ps) = Ok (False, st) \<and>
    map_of (fs_rings st) (ft_probe_id tk) = Some (foldl ring_push ring
      (file_frames (ft_env tk) (ft_probe_id tk) 0 0 (lines_of False (take (fs_pos st) (last_content [] ps))))) \<and>
    NL \<notin> set (drop (fs_pos st) (take (last_len 0 ps) (last_content [] ps))) \<and>
    fm_rotations_detected (fs_metrics st) = 0 \<and> fm_truncations_detected (fs_metrics st) = 0"
proof -
  have "followed tk ring i [] 0 (file_state_new rings sink)"
    using assms(5) with_default_policy_ok by (simp add: followed_def file_state_new_def file_metrics_default_def consumed_def
        lines_of.simps [of False "[]"])
  from file_run_followed [OF assms(1,2) this assms(3,4)] show ?thesis
    by (auto simp: followed_def)
qed

text \<open>
  Passes that find the same file, at a size that is never below the size of the pass before and never
  beyond the position.
\<close>

fun below_position :: "file_identity option \<Rightarrow> nat \<Rightarrow> nat \<Rightarrow> file_open list \<Rightarrow> bool" where
  "below_position i pos s [] \<longleftrightarrow> True"
| "below_position i pos s (Opened (Ok meta) rd # ps) \<longleftrightarrow>
     me_is_file meta \<and> me_identity meta = i \<and> s \<le> me_len meta \<and> me_len meta \<le> pos \<and>
     below_position i pos (me_len meta) ps"
| "below_position i pos s (_ # ps) \<longleftrightarrow> False"

lemma poll_below:
  assumes "fs_last_size st = Some s" and "fs_last_identity st = me_identity meta" and "me_is_file meta"
    and "s \<le> me_len meta" and "me_len meta \<le> fs_pos st" and "fc_mode (ft_config tk) \<noteq> ScanOnce"
  shows "file_poll tk st (Opened (Ok meta) rd) = Ok (False, st\<lparr>fs_last_size := Some (me_len meta)\<rparr>)"
  using assms
  by (cases st) (auto simp: file_poll_def detect_change_def initial_seek_def rotated_def Let_def split: option.splits)

text \<open>
  C39. A truncation can go unnoticed, and what is then written is skipped. A following probe notices a
  truncation only by a size below the one of its last stat; its position may be beyond that size,
  for a read goes on to the end of the file and the file may have grown after the stat. If the
  file, its identity unchanged, is then cut back to a size from the last stat up to the position,
  and grows again without passing the position, every pass in between succeeds, reports no
  truncation, reads nothing and leaves the position, the ring, the sink and the metrics as they were,
  whatever was written below the position.
\<close>

theorem truncation_missed:
  assumes "fs_last_size st = Some s" and "fc_mode (ft_config tk) \<noteq> ScanOnce"
    and "below_position (fs_last_identity st) (fs_pos st) s ps"
  shows "\<exists>n. file_run tk st (map Wake ps) = Ok (False, st\<lparr>fs_last_size := Some n\<rparr>) \<and> n \<le> max s (fs_pos st)"
  using assms
proof (induction ps arbitrary: st s)
  case Nil
  then show ?case by (intro exI [of _ s]) (cases st, simp)
next
  case (Cons p ps)
  then obtain meta rd where p: "p = Opened (Ok meta) rd"
    by (cases "(fs_last_identity st, fs_pos st, s, p # ps)" rule: below_position.cases) auto
  let ?st = "st\<lparr>fs_last_size := Some (me_len meta)\<rparr>"
  have "file_poll tk st p = Ok (False, ?st)"
    unfolding p by (rule poll_below) (use Cons.prems p in auto)
  with Cons.IH [of ?st "me_len meta"] Cons.prems p show ?case by (auto simp: max_def)
qed

text \<open>
  Following from the end skips what a new file holds when it is first opened. However long the
  probe has waited for the file to appear, the first pass that finds it moves to its end: no line
  that was written before that pass gives a frame.
\<close>

lemma follow_end_skips_created:
  assumes "fc_mode (ft_config tk) = FollowEnd" and "me_is_file meta"
  shows "\<exists>st. file_run tk (file_state_new rings sink)
      (replicate k (Wake NoFile) @ [Wake (Opened (Ok meta) rd)]) = Ok (False, st) \<and>
    fs_pos st = me_len meta \<and> fs_rings st = rings \<and> fs_sink st = sink"
proof -
  have one: "file_poll tk (file_state_new rings sink) NoFile = Ok (False, file_state_new rings sink)"
    using assms(1) by (simp add: file_poll_def)
  have "\<exists>st. file_run tk (file_state_new rings sink) [Wake (Opened (Ok meta) rd)] = Ok (False, st) \<and>
      fs_pos st = me_len meta \<and> fs_rings st = rings \<and> fs_sink st = sink"
    using assms
    by (auto simp: file_poll_def file_state_new_def detect_change_def initial_seek_def rotated_def Let_def)
  then show ?thesis by (induction k) (simp_all add: one)
qed

section \<open>Sample files\<close>

definition sample_file_task :: "file_probe_mode \<Rightarrow> (string, string list, string list, event_draft list) file_task" where
  "sample_file_task mode =
     \<lparr>ft_config = (follow_beginning ''/var/log/x'' wit_b)\<lparr>fc_mode := mode\<rparr>, ft_probe_id = ProbeId ''p'',
      ft_engine = sample_engine, ft_rules = (\<lambda>_. the_ok (build_inner sample_engine [])),
      ft_emit = memory_emit, ft_patch = memory_patch, ft_sub = sample_sub,
      ft_env = tk_env sample_task\<rparr>"

lemma sample_file_task_ok: "file_task_ok (sample_file_task mode)"
  "fc_mode (ft_config (sample_file_task mode)) = mode" "ft_probe_id (sample_file_task mode) = ProbeId ''p''"
  using sample_task_ok(1)
  by (simp_all add: task_ok_def file_task_ok_def sample_file_task_def sample_task_def follow_beginning_def)

definition sample_meta :: "nat \<Rightarrow> file_meta" where
  "sample_meta n = \<lparr>me_is_file = True, me_len = n, me_identity = Some \<lparr>fi_device = 1, fi_inode = 2\<rparr>\<rparr>"

definition sample_content :: string where
  "sample_content = ''ab'' @ [NL] @ ''cd'' @ [NL]"

definition sample_read :: "nat \<Rightarrow> (io_error, string list \<times> io_error option) outcome" where
  "sample_read pos = Ok (if drop pos sample_content = [] then [] else [drop pos sample_content], None)"

abbreviation sample_rings :: ring_manager where
  "sample_rings \<equiv> [(ProbeId ''p'', ring_inner_new ring_config_default)]"

theorem growing_file_read_once_witness:
  "\<exists>st. file_run (sample_file_task FollowBeginning) (file_state_new sample_rings [])
      [Wake NoFile, Wake (Opened (Ok (sample_meta 3)) sample_read)] = Ok (False, st) \<and>
    fm_truncations_detected (fs_metrics st) = 0"
proof -
  have "delivers sample_read sample_content" by (simp add: delivers_def sample_read_def)
  then have "growing \<lparr>fi_device = 1, fi_inode = 2\<rparr> [] 0
      [([], NoFile), (sample_content, Opened (Ok (sample_meta 3)) sample_read)]"
    by (simp add: sample_meta_def sample_content_def)
  from growing_file_read_once [OF sample_file_task_ok(1,2) this, of sample_rings "ring_inner_new ring_config_default" "[]"]
  show ?thesis by (auto simp: sample_file_task_ok(3) sample_content_def u64_max_def)
qed

text \<open>
  The first pass sees 3 bytes and reads 6; the file is cut to 4 bytes and grows to 5, and neither pass
  notices.
\<close>

theorem truncation_missed_witness:
  "\<exists>st st'. file_poll (sample_file_task FollowBeginning) (file_state_new sample_rings [])
      (Opened (Ok (sample_meta 3)) sample_read) = Ok (False, st) \<and> fs_pos st = 6 \<and>
    file_run (sample_file_task FollowBeginning) st
      [Wake (Opened (Ok (sample_meta 4)) sample_read), Wake (Opened (Ok (sample_meta 5)) sample_read)] = Ok (False, st') \<and>
    fs_pos st' = 6 \<and> fs_metrics st' = fs_metrics st"
proof -
  let ?st = "(file_state_new sample_rings ([] :: event_draft list))\<lparr>fs_last_size := Some 3,
      fs_last_identity := Some \<lparr>fi_device = 1, fi_inode = 2\<rparr>\<rparr>"
  have "\<exists>st. read_lines_loop (sample_file_task FollowBeginning) False [sample_content] None ?st = Ok st \<and>
      file_advanced (sample_file_task FollowBeginning) ?st (ring_inner_new ring_config_default)
        (concat [sample_content]) st"
    by (rule read_lines_loop_advanced [OF sample_file_task_ok(1)])
       (simp_all add: sample_content_def file_state_new_def u64_max_def sample_file_task_ok(3) with_default_policy_ok)
  then obtain st where st: "read_lines_loop (sample_file_task FollowBeginning) False [sample_content] None ?st = Ok st"
    "fs_pos st = consumed sample_content" "fs_last_size st = Some 3"
    "fs_last_identity st = Some \<lparr>fi_device = 1, fi_inode = 2\<rparr>"
    by (auto simp: file_advanced_def file_state_new_def)
  have six: "consumed sample_content = 6" by (simp add: consumed_def sample_content_def lines_of.simps)
  have "file_poll (sample_file_task FollowBeginning) (file_state_new sample_rings [])
      (Opened (Ok (sample_meta 3)) sample_read) = Ok (False, st)"
    using st(1) by (simp add: file_poll_def sample_file_task_ok(2) sample_meta_def initial_seek_def detect_change_def
        rotated_def Let_def sample_read_def file_state_new_def sample_content_def)
  moreover have "below_position (fs_last_identity st) (fs_pos st) 3
      [Opened (Ok (sample_meta 4)) sample_read, Opened (Ok (sample_meta 5)) sample_read]"
    by (simp add: st(2,4) six sample_meta_def)
  from truncation_missed [OF st(3) _ this, of "sample_file_task FollowBeginning"]
  obtain n where "file_run (sample_file_task FollowBeginning) st
      [Wake (Opened (Ok (sample_meta 4)) sample_read), Wake (Opened (Ok (sample_meta 5)) sample_read)] =
      Ok (False, st\<lparr>fs_last_size := Some n\<rparr>)" by (auto simp: sample_file_task_ok(2) simp del: file_run.simps)
  ultimately show ?thesis using st(2) six
    by (intro exI [of _ st] exI [of _ "st\<lparr>fs_last_size := Some n\<rparr>"]) simp
qed

end
