(* ===== verification/Spec2Isabelle.thy ===== *)
theory Spec2Isabelle
  imports TC_Wait TC_Lifecycle TC_Policy TC_Pull TC_File
begin

text \<open>
  Terminal Commander: a verification development.

  \<^bold>\<open>The program.\<close> Terminal Commander is a daemon that runs commands for an agent and turns their
  output into bounded, structured signals (Rust, under \<^verbatim>\<open>src/crates\<close>). A request first passes the
  policy engine (\<^verbatim>\<open>daemon/src/policy.rs\<close>) with its two guards, the shell gate and the deletion
  failsafe (\<^verbatim>\<open>core/src/shell_deny.rs\<close>, \<^verbatim>\<open>core/src/os_guard.rs\<close>), and gets its resource limits from
  the governor (\<^verbatim>\<open>daemon/src/governor.rs\<close>). A probe reads the process line by line and stores each
  line as a frame in a context ring (\<^verbatim>\<open>core/src/context.rs\<close>). The sifter (\<^verbatim>\<open>sifters/src/lib.rs\<close>)
  matches the frame against rules (\<^verbatim>\<open>core/src/rule.rs\<close>) and drafts events; the noise pipeline
  (\<^verbatim>\<open>sifters/src/noise.rs\<close>, \<^verbatim>\<open>probes/src/noise_pipeline.rs\<close>) collapses repeats; the router
  (\<^verbatim>\<open>daemon/src/router.rs\<close>) appends what is left to a bucket (\<^verbatim>\<open>core/src/bucket.rs\<close>) with an audit row
  for every call. Clients read a bucket by cursor, wait on it, subscribe to many at once
  (\<^verbatim>\<open>daemon/src/subscriptions\<close>), and ask for the lines around an event. The job ledger
  (\<^verbatim>\<open>core/src/job.rs\<close>) records each command; at its exit a waiter task and \<open>stop\<close> meet
  (\<^verbatim>\<open>daemon/src/command.rs\<close>).

  \<^bold>\<open>The theories\<close>, in the order of the imports. The source's structs are records, its enums
  datatypes, each function or handler one definition; helper definitions cut out of a long function
  name their lines in the manifest.
  \<^item> \<open>TC_Prelude\<close>: machine arithmetic (saturating, checked, clamped), the type \<open>outcome\<close> of a fallible
    call (value, error, panic), UTF-8 boundaries, decimal printing, and the locales \<open>fifo_ring\<close> of a
    bounded queue that drops at its front, with the lemmas both rings share, and \<open>least_ring\<close> of one
    that drops no more than its bounds ask for.
  \<^item> \<open>TC_Event\<close>: \<^verbatim>\<open>core/src/{ids,severity,source,pointer,event,error}.rs\<close>, and the contract of the
    date arithmetic.
  \<^item> \<open>TC_Bucket\<close>: \<^verbatim>\<open>core/src/bucket.rs\<close> but for the waiting read. Its invariant ties counters, state and
    event list together; \<open>mgr_reach\<close> is the reachable managers. The locale \<open>cursor_log\<close> is the
    contract of a log read by cursor; \<open>bucket_log\<close> interprets it here and \<open>audit_log\<close> in \<open>TC_Router\<close>.
  \<^item> \<open>TC_Wait\<close>: \<open>bucket_wait\<close> as a step relation among other callers: what it answers, that a
    wait suspended before an append hands the event over, and the one window, between the first read
    and the arming of the notification, in which it misses an append.
  \<^item> \<open>TC_Context\<close>: \<^verbatim>\<open>core/src/context.rs\<close>, frames, rings and windows.
  \<^item> \<open>TC_Text\<close>: the string functions of the standard library, on UTF-8 bytes.
  \<^item> \<open>TC_Job\<close>: \<^verbatim>\<open>core/src/job.rs\<close> and \<^verbatim>\<open>daemon/src/liveness.rs\<close>.
  \<^item> \<open>TC_Router\<close>: \<^verbatim>\<open>daemon/src/router.rs\<close>, the in-memory sink of \<^verbatim>\<open>daemon/src/audit.rs\<close> and the handlers
    of \<^verbatim>\<open>daemon/src/ipc/handlers/bucket.rs\<close>.
  \<^item> \<open>TC_Receipt\<close>: the receipt of a quiet command, \<open>build_receipt\<close> of \<^verbatim>\<open>daemon/src/command.rs\<close>.
  \<^item> \<open>TC_Lifecycle\<close>: the waiter of \<open>start_combed\<close> interleaved with \<open>stop\<close>.
  \<^item> \<open>TC_Shell_Deny\<close>, \<open>TC_Os_Guard\<close>: the two guards; the exact verdict on lines of plain commands,
    refusal behind launchers, and the string tests against a reference on path components.
  \<^item> \<open>TC_Governor\<close>, \<open>TC_Policy\<close>: limits stay within default and ceiling; the tower of checks in
    \<open>evaluate\<close> refines a declarative policy, whose distance from the one \<^verbatim>\<open>POLICY.md\<close> words is
    stated exactly, and lists only take permissions away.
  \<^item> \<open>TC_Subscription\<close>, \<open>TC_Pull\<close>: the registry and handlers, and what a pass of \<open>pull\<close> hands over.
  \<^item> \<open>TC_Rule\<close>: rule data, validation and templates.
  \<^item> \<open>TC_Sifter\<close>: the compiled rule set and its evaluation: one draft for every regex rule that fires
    and for every keyword rule credited with a match of the scanner; when a summary is rendered and
    when it stays the raw template; redacted captures leave no trace in the drafts.
  \<^item> \<open>TC_Noise\<close>: dedupe, progress lines and the pipeline of a probe. The locale \<open>event_sink\<close> is the
    contract of a sink, interpreted on the in-memory sink and on the daemon's sink, which writes
    through the router of \<open>TC_Router\<close> to the buckets of \<open>TC_Bucket\<close>.
  \<^item> \<open>TC_Stream\<close>: \<^verbatim>\<open>core/src/process_observation.rs\<close>, the pipe reader of \<^verbatim>\<open>probes/src/process.rs\<close>,
    \<^verbatim>\<open>probes/src/utf16.rs\<close> and \<^verbatim>\<open>probes/src/ansi.rs\<close>. The frames of a stream depend on its bytes
    only, not on how the reads cut them, and every line is a frame, cut at the cap or not. One stream
    is read by itself; the interleaving of the standard output and error of one child is not modelled.
  \<^item> \<open>TC_File\<close>: \<^verbatim>\<open>probes/src/file.rs\<close>. A file that only grows is read once, each finished line one
    frame; a truncation to a size between the last stat and the position is not noticed.

  \<^bold>\<open>Bounds and fuel.\<close> Loops that end by their data are structural recursions or functions with a
  measure. The two guards nest shell lines in argument vectors; the source stops at \<open>MAX_NESTING\<close>
  and the model recurs on the levels left, so its fuel is the source's own bound. Integers
  are natural numbers with the width written out where the source saturates, checks or wraps.

  \<^bold>\<open>Parameters.\<close> Code outside the repository is an argument: the clock and its arithmetic (\<open>sub\<close>,
  \<open>add\<close> of the \<^verbatim>\<open>time\<close> crate, exact between the years -9999 and 9999 and a panic outside), the file system's \<open>canon\<close>, the regex crate (\<open>rx\<close>, and with
  \<^verbatim>\<open>aho_corasick\<close> and \<^verbatim>\<open>uuid\<close> the record \<open>engine\<close>), the parser of \<^verbatim>\<open>vte\<close>, hashing and identifier
  parsing. The buffered reader of \<^verbatim>\<open>tokio\<close> is written out as documented. Theorems that
  need more than totality of an argument name its documented contract as a hypothesis.

  \<^bold>\<open>Not modelled.\<close> The MCP adapter, the command line client and the socket servers translate
  between JSON and the handlers and have no state of their own; the persistent store is SQL; the
  supervisor, the enforcement of limits, spawning and signalling children, and the file notification
  watcher are system calls; serde derives are generated code. The PTY probe is not modelled.
  The threads of the daemon appear only where an interleaving matters (\<open>TC_Wait\<close>, \<open>TC_Lifecycle\<close>,
  \<open>TC_Pull\<close>); elsewhere an operation that holds its lock throughout is one step.
\<close>

end
